(* ===== verification/Helikon_Prelude.thy ===== *)
theory Helikon_Prelude
  imports Main "HOL-Library.Word" "HOL-Library.Multiset" "HOL-Library.Sublist"
    "HOL-Library.Char_ord" "HOL-Library.List_Lexorder"
begin

text \<open>
  The shared vocabulary of the development.

  \<^item> Machine integers: \<open>u32\<close> and \<open>u64\<close> are words; \<open>+\<close> on them wraps, which is Rust's
    release-profile arithmetic (the workspace sets no \<open>overflow-checks\<close>).
  \<^item> Text: a Rust \<open>String\<close>/\<open>&str\<close> is the list of its UTF-8 bytes, so \<open>len()\<close>, byte
    indexing and the ordering used by \<open>BTreeMap<String, _>\<close> are those of the list.
    The handful of \<open>str\<close> methods the sources call are defined here on bytes.
  \<^item> JSON: \<open>serde_json::Value\<close>. Objects are association lists in key order, as the
    default \<open>BTreeMap\<close> representation keeps them; numbers are kept as their text since
    no modelled code computes with them.
  \<^item> Library code outside the repository (the JSON parser and printer, the \<open>Debug\<close>
    rendering of a string) is the parameter record \<open>ext\<close>.
\<close>

section \<open>Collections of facts\<close>

named_theorems arm_defs \<open>the arms of the agent loop's state machine\<close>
named_theorems stream_intros \<open>how a stream that keeps the event contract is put together\<close>

section \<open>Integers and results\<close>

type_synonym u32 = "32 word"
type_synonym u64 = "64 word"
type_synonym f32 = "32 word"

text \<open>\<open>usize\<close> values are naturals below \<open>2 ^ 64\<close>; the sources use saturating arithmetic on them.\<close>

definition usize_max :: nat where "usize_max = 2 ^ 64 - 1"

definition saturating_add :: "nat \<Rightarrow> nat \<Rightarrow> nat" where
  "saturating_add a b = min (a + b) usize_max"

definition saturating_mul :: "nat \<Rightarrow> nat \<Rightarrow> nat" where
  "saturating_mul a b = min (a * b) usize_max"

text \<open>\<open>Result<'a, 'e>\<close> is \<open>'e + 'a\<close>: \<open>Inl\<close> is \<open>Err\<close>, \<open>Inr\<close> is \<open>Ok\<close>.\<close>

abbreviation Ok :: "'a \<Rightarrow> 'e + 'a" where "Ok \<equiv> Inr"
abbreviation Err :: "'e \<Rightarrow> 'e + 'a" where "Err \<equiv> Inl"

fun is_ok :: "'e + 'a \<Rightarrow> bool" where
  "is_ok (Inr _) = True"
| "is_ok (Inl _) = False"

fun unwrap_or_else :: "('e \<Rightarrow> 'a) \<Rightarrow> 'e + 'a \<Rightarrow> 'a" where
  "unwrap_or_else f (Inr x) = x"
| "unwrap_or_else f (Inl e) = f e"

definition unwrap_or :: "'a \<Rightarrow> 'a option \<Rightarrow> 'a" where
  "unwrap_or d x = (case x of None \<Rightarrow> d | Some v \<Rightarrow> v)"

lemma unwrap_or_simps [simp]: "unwrap_or d None = d" "unwrap_or d (Some v) = v"
  by (simp_all add: unwrap_or_def)

text \<open>\<open>Iterator::find_map\<close>: the first \<open>Some\<close> the function yields.\<close>

fun find_map :: "('a \<Rightarrow> 'b option) \<Rightarrow> 'a list \<Rightarrow> 'b option" where
  "find_map f [] = None"
| "find_map f (x # xs) = (case f x of Some y \<Rightarrow> Some y | None \<Rightarrow> find_map f xs)"

lemma find_map_None_iff: "find_map f xs = None \<longleftrightarrow> (\<forall>x\<in>set xs. f x = None)"
  by (induction xs) (auto split: option.splits)

lemma find_map_SomeD: "find_map f xs = Some y \<Longrightarrow> \<exists>x\<in>set xs. f x = Some y"
  by (induction xs) (auto split: option.splits)

lemma find_None_iff': "find P xs = None \<longleftrightarrow> (\<forall>x\<in>set xs. \<not> P x)"
  by (auto simp: find_None_iff)

lemma find_SomeD: "find P xs = Some x \<Longrightarrow> x \<in> set xs \<and> P x"
  by (auto simp: find_Some_iff)

section \<open>Byte strings\<close>

abbreviation byte :: "char \<Rightarrow> nat" where "byte c \<equiv> of_char c"

definition is_ascii_digit :: "char \<Rightarrow> bool" where
  "is_ascii_digit c \<longleftrightarrow> 48 \<le> byte c \<and> byte c \<le> 57"

definition is_ascii_alphabetic :: "char \<Rightarrow> bool" where
  "is_ascii_alphabetic c \<longleftrightarrow>
     (65 \<le> byte c \<and> byte c \<le> 90) \<or> (97 \<le> byte c \<and> byte c \<le> 122)"

definition is_ascii_alphanumeric :: "char \<Rightarrow> bool" where
  "is_ascii_alphanumeric c \<longleftrightarrow> is_ascii_alphabetic c \<or> is_ascii_digit c"

definition ascii_lower :: "char \<Rightarrow> char" where
  "ascii_lower c = (if 65 \<le> byte c \<and> byte c \<le> 90 then char_of (byte c + 32) else c)"

definition ascii_upper :: "char \<Rightarrow> char" where
  "ascii_upper c = (if 97 \<le> byte c \<and> byte c \<le> 122 then char_of (byte c - 32) else c)"

definition to_ascii_lowercase :: "string \<Rightarrow> string" where
  "to_ascii_lowercase s = map ascii_lower s"

definition to_ascii_uppercase :: "string \<Rightarrow> string" where
  "to_ascii_uppercase s = map ascii_upper s"

definition eq_ignore_ascii_case :: "string \<Rightarrow> string \<Rightarrow> bool" where
  "eq_ignore_ascii_case a b \<longleftrightarrow> to_ascii_lowercase a = to_ascii_lowercase b"

text \<open>\<open>str::chars().count()\<close>: every byte that is not a UTF-8 continuation byte starts a scalar.\<close>

definition char_count :: "string \<Rightarrow> nat" where
  "char_count s = length (filter (\<lambda>c. byte c div 64 \<noteq> 2) s)"

fun strip_prefix :: "string \<Rightarrow> string \<Rightarrow> string option" where
  "strip_prefix [] s = Some s"
| "strip_prefix (p # ps) [] = None"
| "strip_prefix (p # ps) (c # s) = (if p = c then strip_prefix ps s else None)"

definition starts_with :: "string \<Rightarrow> string \<Rightarrow> bool" where
  "starts_with p s \<longleftrightarrow> strip_prefix p s \<noteq> None"

definition ends_with :: "string \<Rightarrow> string \<Rightarrow> bool" where
  "ends_with p s \<longleftrightarrow> starts_with (rev p) (rev s)"

fun contains_str :: "string \<Rightarrow> string \<Rightarrow> bool" where
  "contains_str p [] = (p = [])"
| "contains_str p (c # s) = (starts_with p (c # s) \<or> contains_str p s)"

text \<open>\<open>str::split(c)\<close> for an ASCII separator: always at least one piece.\<close>

fun split_on :: "char \<Rightarrow> string \<Rightarrow> string list" where
  "split_on c [] = [[]]"
| "split_on c (x # xs) =
     (if x = c then [] # split_on c xs
      else (case split_on c xs of [] \<Rightarrow> [[x]] | p # ps \<Rightarrow> (x # p) # ps))"

fun join_with :: "string \<Rightarrow> string list \<Rightarrow> string" where
  "join_with sep [] = []"
| "join_with sep [x] = x"
| "join_with sep (x # y # ys) = x @ sep @ join_with sep (y # ys)"

text \<open>
  \<open>char::is_whitespace\<close> (the Unicode \<open>White_Space\<close> property) on encoded text: the length of the
  encoded white-space scalar at the front of a byte list, or 0.
\<close>

definition ws_len :: "nat list \<Rightarrow> nat" where
  "ws_len bs = (case bs of
      a # b # c # _ \<Rightarrow>
        (if (9 \<le> a \<and> a \<le> 13) \<or> a = 32 then 1
         else if a = 194 \<and> (b = 133 \<or> b = 160) then 2
         else if (a = 225 \<and> b = 154 \<and> c = 128)
              \<or> (a = 226 \<and> b = 128 \<and> (128 \<le> c \<and> c \<le> 138 \<or> c = 168 \<or> c = 169 \<or> c = 175))
              \<or> (a = 226 \<and> b = 129 \<and> c = 159)
              \<or> (a = 227 \<and> b = 128 \<and> c = 128) then 3 else 0)
    | a # b # [] \<Rightarrow>
        (if (9 \<le> a \<and> a \<le> 13) \<or> a = 32 then 1
         else if a = 194 \<and> (b = 133 \<or> b = 160) then 2 else 0)
    | a # [] \<Rightarrow> (if (9 \<le> a \<and> a \<le> 13) \<or> a = 32 then 1 else 0)
    | [] \<Rightarrow> 0)"

text \<open>The same read backwards, for the end of a (reversed) byte list.\<close>

definition ws_len_rev :: "nat list \<Rightarrow> nat" where
  "ws_len_rev bs =
     (if ws_len (take 1 bs) = 1 then 1
      else if length bs \<ge> 2 \<and> ws_len (rev (take 2 bs)) = 2 then 2
      else if length bs \<ge> 3 \<and> ws_len (rev (take 3 bs)) = 3 then 3 else 0)"

lemma ws_len_pos: "0 < ws_len (map byte s) \<Longrightarrow> length s - ws_len (map byte s) < length s"
  by (cases s) (simp_all add: ws_len_def)

lemma ws_len_rev_pos:
  "0 < ws_len_rev (map byte s) \<Longrightarrow> length s - ws_len_rev (map byte s) < length s"
  by (cases s) (simp_all add: ws_len_rev_def ws_len_def)

function trim_start :: "string \<Rightarrow> string" where
  "trim_start s = (let k = ws_len (map byte s) in if k = 0 then s else trim_start (drop k s))"
  by pat_completeness auto
termination
  by (relation "measure length") (auto dest!: ws_len_pos)

function trim_start_rev :: "string \<Rightarrow> string" where
  "trim_start_rev s =
     (let k = ws_len_rev (map byte s) in if k = 0 then s else trim_start_rev (drop k s))"
  by pat_completeness auto
termination
  by (relation "measure length") (auto dest!: ws_len_rev_pos)

declare trim_start.simps [simp del] trim_start_rev.simps [simp del]

definition trim_end :: "string \<Rightarrow> string" where
  "trim_end s = rev (trim_start_rev (rev s))"

definition trim :: "string \<Rightarrow> string" where
  "trim s = trim_end (trim_start s)"

text \<open>Decimal rendering of an unsigned integer (\<open>Display\<close>).\<close>

definition digit_char :: "nat \<Rightarrow> char" where
  "digit_char d = char_of (48 + d)"

fun show_nat :: "nat \<Rightarrow> string" where
  "show_nat n = (if n < 10 then [digit_char n] else show_nat (n div 10) @ [digit_char (n mod 10)])"

declare show_nat.simps [simp del]

definition show_u32 :: "u32 \<Rightarrow> string" where
  "show_u32 w = show_nat (unat w)"

definition digits_value :: "string \<Rightarrow> nat" where
  "digits_value s = foldl (\<lambda>n c. 10 * n + (byte c - 48)) 0 s"

subsection \<open>Facts about the byte-string helpers\<close>

lemma digits_value_snoc: "digits_value (s @ [c]) = 10 * digits_value s + (byte c - 48)"
  by (simp add: digits_value_def)

lemma digit_char_byte: "d < 10 \<Longrightarrow> byte (digit_char d) = 48 + d"
  by (simp add: digit_char_def)

lemma show_nat_digits: "show_nat n \<noteq> [] \<and> list_all is_ascii_digit (show_nat n) \<and> digits_value (show_nat n) = n"
proof (induction n rule: show_nat.induct)
  case (1 n)
  have d: "byte (digit_char (n mod 10)) = 48 + n mod 10" "n < 10 \<Longrightarrow> byte (digit_char n) = 48 + n"
    by (simp_all add: digit_char_byte)
  show ?case
  proof (cases "n < 10")
    case True
    then have "show_nat n = [digit_char n]" by (simp add: show_nat.simps [of n])
    then show ?thesis using d(2) True by (simp add: digits_value_def is_ascii_digit_def)
  next
    case False
    then have "show_nat n = show_nat (n div 10) @ [digit_char (n mod 10)]" by (simp add: show_nat.simps [of n])
    then show ?thesis using 1 [OF False] d(1) by (simp add: digits_value_snoc is_ascii_digit_def)
  qed
qed

lemma strip_prefix_eq: "strip_prefix p s = Some r \<longleftrightarrow> s = p @ r"
  by (induction p s rule: strip_prefix.induct) auto

lemma strip_prefix_append [simp]: "strip_prefix p (p @ r) = Some r"
  by (simp add: strip_prefix_eq)

lemma starts_with_prefix: "starts_with p s \<longleftrightarrow> prefix p s"
  by (cases "strip_prefix p s") (auto simp: starts_with_def strip_prefix_eq prefix_def)

lemma ends_with_suffix: "ends_with p s \<longleftrightarrow> suffix p s"
  by (simp add: ends_with_def starts_with_prefix suffix_to_prefix)

lemma contains_str_sublist: "contains_str p s \<longleftrightarrow> sublist p s"
  by (induction s) (auto simp: starts_with_prefix sublist_Cons_right)

lemma split_on_not_Nil [simp]: "split_on c s \<noteq> []"
  by (induction s) (auto split: list.splits)

lemma join_split_on: "join_with [c] (split_on c s) = s"
proof (induction s)
  case Nil
  show ?case by simp
next
  case (Cons x xs)
  obtain p ps where ps: "split_on c xs = p # ps" by (cases "split_on c xs") auto
  with Cons.IH show ?case by (cases ps) auto
qed

lemma split_on_pieces: "p \<in> set (split_on c s) \<Longrightarrow> c \<notin> set p"
  by (induction s arbitrary: p) (auto split: list.splits if_splits)

lemma split_on_no_sep: "c \<notin> set s \<Longrightarrow> split_on c s = [s]"
  by (induction s) auto

lemma split_on_append: "c \<notin> set s \<Longrightarrow> split_on c (s @ c # t) = s # split_on c t"
  by (induction s) auto

lemma split_on_join:
  "xs \<noteq> [] \<Longrightarrow> \<forall>x\<in>set xs. c \<notin> set x \<Longrightarrow> split_on c (join_with [c] xs) = xs"
  by (induction xs rule: induct_list012) (auto simp: split_on_no_sep split_on_append)

lemma split_on_append_sep:
  "split_on c (s @ c # t) = split_on c s @ split_on c t"
  by (induction s) (auto split: list.splits)

lemma to_ascii_lowercase_append [simp]:
  "to_ascii_lowercase (a @ b) = to_ascii_lowercase a @ to_ascii_lowercase b"
  by (simp add: to_ascii_lowercase_def)

lemma trim_Nil [simp]: "trim [] = []"
  by (simp add: trim_def trim_end_def trim_start.simps trim_start_rev.simps
      ws_len_def ws_len_rev_def)

section \<open>Ordered maps\<close>

text \<open>
  \<open>BTreeMap<String, 'v>\<close> as the association list of its entries in key order, with
  \<open>insert\<close> and a lookup; the locale states what clients rely on.
\<close>

type_synonym 'v btree = "(string \<times> 'v) list"

fun bt_insert :: "string \<Rightarrow> 'v \<Rightarrow> 'v btree \<Rightarrow> 'v btree" where
  "bt_insert k v [] = [(k, v)]"
| "bt_insert k v ((k', v') # m) =
     (if k < k' then (k, v) # (k', v') # m
      else if k = k' then (k, v) # m
      else (k', v') # bt_insert k v m)"

definition bt_get :: "'v btree \<Rightarrow> string \<Rightarrow> 'v option" where
  "bt_get m k = map_of m k"

definition bt_ok :: "'v btree \<Rightarrow> bool" where
  "bt_ok m \<longleftrightarrow> sorted (map fst m) \<and> distinct (map fst m)"

locale ordered_map =
  fixes emp :: "'m"
    and ins :: "'k::linorder \<Rightarrow> 'v \<Rightarrow> 'm \<Rightarrow> 'm"
    and look :: "'m \<Rightarrow> 'k \<Rightarrow> 'v option"
    and entries :: "'m \<Rightarrow> ('k \<times> 'v) list"
    and ok :: "'m \<Rightarrow> bool"
  assumes ok_emp: "ok emp"
    and ok_ins: "ok m \<Longrightarrow> ok (ins k v m)"
    and look_emp: "look emp k = None"
    and look_ins: "ok m \<Longrightarrow> look (ins k v m) = (look m)(k \<mapsto> v)"
    and entries_sorted: "ok m \<Longrightarrow> sorted (map fst (entries m))"
    and entries_distinct: "ok m \<Longrightarrow> distinct (map fst (entries m))"
    and entries_look: "ok m \<Longrightarrow> map_of (entries m) = look m"
begin

text \<open>Inserting a list of entries, left to right, later entries win.\<close>

lemma ok_fold: "ok m \<Longrightarrow> ok (fold (\<lambda>(k, v). ins k v) kvs m)"
  by (induction kvs arbitrary: m) (auto intro: ok_ins)

lemma look_fold: "ok m \<Longrightarrow> look (fold (\<lambda>(k, v). ins k v) kvs m) = look m ++ map_of (rev kvs)"
proof (induction kvs arbitrary: m)
  case (Cons kv kvs)
  then show ?case
    by (cases kv) (auto simp: ok_ins look_ins fun_eq_iff map_add_def split: option.splits)
qed simp

text \<open>Two maps with the same contents iterate identically.\<close>

lemma entries_unique:
  assumes "ok m" "ok m'" "look m = look m'"
  shows "entries m = entries m'"
proof -
  have eq: "set (entries m) = set (entries m')"
    using assms by (simp flip: map_of_inject_set add: entries_distinct entries_look)
  moreover have "inj_on fst (set (entries m) \<union> set (entries m'))"
    using entries_distinct [OF assms(1)] by (simp add: distinct_map flip: eq)
  ultimately show ?thesis
    using assms by (intro map_sorted_distinct_set_unique [where f = fst])
      (auto simp: entries_sorted entries_distinct)
qed

end

lemma set_bt_insert: "set (map fst (bt_insert k v m)) = insert k (set (map fst m))"
  by (induction k v m rule: bt_insert.induct) (simp_all add: insert_commute)

lemma bt_ok_insert: "bt_ok m \<Longrightarrow> bt_ok (bt_insert k v m)"
proof (induction m)
  case (Cons kv m)
  obtain k' v' where kv: "kv = (k', v')" by force
  have "set (map fst (bt_insert k v m)) = insert k (set (map fst m))"
    by (rule set_bt_insert)
  with Cons kv show ?case
    by (auto simp: bt_ok_def)
qed (simp add: bt_ok_def)

lemma bt_get_insert: "bt_get (bt_insert k v m) = (bt_get m)(k \<mapsto> v)"
proof (induction m)
  case (Cons kv m)
  then show ?case
    by (cases kv) (auto simp: bt_get_def fun_eq_iff)
qed (auto simp: bt_get_def fun_eq_iff)

interpretation bt: ordered_map "[]" bt_insert bt_get "\<lambda>m. m" bt_ok
  by unfold_locales
    (auto simp: bt_ok_insert bt_get_insert, auto simp: bt_ok_def bt_get_def)

section \<open>JSON values and library functions\<close>

datatype json =
    JNull
  | JBool bool
  | JNumber string
  | JString string
  | JArray "json list"
  | JObject "(string \<times> json) list"

definition json_get :: "string \<Rightarrow> json \<Rightarrow> json option" where
  "json_get k v = (case v of JObject m \<Rightarrow> map_of m k | _ \<Rightarrow> None)"

definition json_as_str :: "json \<Rightarrow> string option" where
  "json_as_str v = (case v of JString s \<Rightarrow> Some s | _ \<Rightarrow> None)"

text \<open>\<open>args.get(k).and_then(|v| v.as_str())\<close>, the access every tool-argument rule uses.\<close>

definition json_str_field :: "string \<Rightarrow> json \<Rightarrow> string option" where
  "json_str_field k v = Option.bind (json_get k v) json_as_str"

lemma json_str_field_simps [simp]:
  "json_str_field k (JObject ((k, JString s) # m)) = Some s"
  by (simp add: json_str_field_def json_get_def json_as_str_def)

text \<open>
  Functions of other crates and of the standard library's formatter, as parameters:
  \<open>serde_json::from_str\<close> (an error is its message), \<open>Value::to_string\<close>, and the \<open>Debug\<close>
  rendering of a string.
\<close>

record ext =
  from_str :: "string \<Rightarrow> string + json"
  to_string :: "json \<Rightarrow> string"
  dbg_str :: "string \<Rightarrow> string"

text \<open>A concrete instance, used to evaluate closed examples.\<close>

definition ext_ex :: ext where
  "ext_ex = \<lparr>from_str = (\<lambda>s. if s = ''{}'' then Ok (JObject []) else Err ''expected value''),
     to_string = (\<lambda>v. case v of JString s \<Rightarrow> s | _ \<Rightarrow> ''{}''), dbg_str = (\<lambda>s. s)\<rparr>"

lemma ext_ex_simps [simp]:
  "from_str ext_ex s = (if s = ''{}'' then Ok (JObject []) else Err ''expected value'')"
  "to_string ext_ex (JString s) = s" "dbg_str ext_ex s = s"
  by (simp_all add: ext_ex_def)

end
