(* ===== verification/Command_Match.thy ===== *)
theory Command_Match
  imports Helikon_Prelude
begin

text \<open>
  The shell-command tokenizer of the permission layer (\<open>command_match.rs\<close>): splitting on control
  operators, word and redirection reading with quote removal, wrapper stripping, and the
  re-entry into \<open>bash -c\<close> payloads. The byte indices of the source become the rest of the input;
  the splitter also keeps the previous byte, which the source reads at \<open>i - 1\<close>. Shown here: the
  splitter is compositional over separators, quoting and escaping do not change the words that
  are read, and a resolved program is never a wrapper or an assignment.
\<close>

section \<open>Splitting on control operators\<close>

datatype quote_mode = Unquoted | InSingle | InDouble

definition push_segment :: "string \<Rightarrow> string list" where
  "push_segment s = (let seg = trim s in if seg \<noteq> [] then [seg] else [])"

abbreviation SQ :: char where "SQ \<equiv> CHR 0x27"
abbreviation DQ :: char where "DQ \<equiv> CHR 0x22"
abbreviation BS :: char where "BS \<equiv> CHR 0x5C"
abbreviation NL :: char where "NL \<equiv> CHR 0x0A"
abbreviation TAB :: char where "TAB \<equiv> CHR 0x09"
abbreviation SP :: char where "SP \<equiv> CHR 0x20"
abbreviation AMP :: char where "AMP \<equiv> CHR 0x26"
abbreviation PIPE :: char where "PIPE \<equiv> CHR 0x7C"
abbreviation GT :: char where "GT \<equiv> CHR 0x3E"
abbreviation LT :: char where "LT \<equiv> CHR 0x3C"
abbreviation SEMI :: char where "SEMI \<equiv> CHR 0x3B"

definition next_is :: "char \<Rightarrow> string \<Rightarrow> bool" where
  "next_is c s = (case s of [] \<Rightarrow> False | d # _ \<Rightarrow> d = c)"

text \<open>
  \<open>split_from mode prev acc s\<close>: the loop at the front of \<open>s\<close>, with \<open>acc\<close> the bytes since the start
  of the current segment and \<open>prev\<close> the byte before \<open>s\<close>.
\<close>

function (sequential) split_from :: "quote_mode \<Rightarrow> char option \<Rightarrow> string \<Rightarrow> string \<Rightarrow> string list" where
  "split_from mode prev acc [] = push_segment acc"
| "split_from InSingle prev acc (c # s) =
     split_from (if c = SQ then Unquoted else InSingle) (Some c) (acc @ [c]) s"
| "split_from InDouble prev acc (c # s) =
     (if c = BS \<and> s \<noteq> [] then split_from InDouble (Some (hd s)) (acc @ [c, hd s]) (tl s)
      else split_from (if c = DQ then Unquoted else InDouble) (Some c) (acc @ [c]) s)"
| "split_from Unquoted prev acc (c # s) =
     (if c = SQ then split_from InSingle (Some c) (acc @ [c]) s
      else if c = DQ then split_from InDouble (Some c) (acc @ [c]) s
      else if c = BS then
        (if s = [] then push_segment (acc @ [c])
         else split_from Unquoted (Some (hd s)) (acc @ [c, hd s]) (tl s))
      else if c = NL \<or> c = SEMI then push_segment acc @ split_from Unquoted (Some c) [] s
      else if c = AMP then
        (if next_is AMP s then push_segment acc @ split_from Unquoted (Some AMP) [] (tl s)
         else if prev = Some GT \<or> next_is GT s then split_from Unquoted (Some c) (acc @ [c]) s
         else push_segment acc @ split_from Unquoted (Some c) [] s)
      else if c = PIPE then
        (if next_is PIPE s \<or> next_is AMP s
         then push_segment acc @ split_from Unquoted (Some (hd s)) [] (tl s)
         else push_segment acc @ split_from Unquoted (Some c) [] s)
      else split_from Unquoted (Some c) (acc @ [c]) s)"
  by pat_completeness auto
termination
  by (relation "measure (\<lambda>(_, _, _, s). length s)") (auto simp: next_is_def split: list.splits)

definition split_operators :: "string \<Rightarrow> string list" where
  "split_operators command = split_from Unquoted None [] command"

section \<open>Words and redirections\<close>

datatype redirect_op = Out | Append | FdDup

record redirect =
  rd_op :: redirect_op
  rd_target :: string

record resolved_command =
  rc_program :: string
  rc_args :: "string list"
  rc_redirects :: "redirect list"

text \<open>\<open>out.push(b as char)\<close>: a byte above 127 becomes the two-byte scalar of that code point.\<close>

definition push_byte :: "char \<Rightarrow> string" where
  "push_byte c = (if byte c < 128 then [c] else [char_of (192 + byte c div 64), char_of (128 + byte c mod 64)])"

fun read_single :: "string \<Rightarrow> string \<times> string" where
  "read_single [] = ([], [])"
| "read_single (c # s) = (if c = SQ then ([], s)
     else (case read_single s of (w, r) \<Rightarrow> (push_byte c @ w, r)))"

fun read_double :: "string \<Rightarrow> string \<times> string" where
  "read_double [] = ([], [])"
| "read_double [c] = (if c = DQ then ([], []) else (push_byte c, []))"
| "read_double (c # d # s) =
     (if c = DQ then ([], d # s)
      else if c = BS then (case read_double s of (w, r) \<Rightarrow> (push_byte d @ w, r))
      else (case read_double (d # s) of (w, r) \<Rightarrow> (push_byte c @ w, r)))"

lemma read_single_rest: "read_single s = (w, r) \<Longrightarrow> length r \<le> length s"
  by (induction s arbitrary: w) (auto split: if_splits prod.splits intro: le_SucI)

lemma read_double_rest: "read_double s = (w, r) \<Longrightarrow> length r \<le> length s"
  by (induction s arbitrary: w rule: read_double.induct)
    (auto split: if_splits prod.splits intro: le_SucI)

definition ends_word :: "char \<Rightarrow> bool" where
  "ends_word c = (c = SP \<or> c = TAB \<or> c = GT \<or> c = LT)"

function (sequential) read_word :: "string \<Rightarrow> string \<times> string" where
  "read_word [] = ([], [])"
| "read_word (c # s) =
     (if ends_word c then ([], c # s)
      else if c = SQ then
        (case read_single s of (q, r) \<Rightarrow> (case read_word r of (w, r') \<Rightarrow> (q @ w, r')))
      else if c = DQ then
        (case read_double s of (q, r) \<Rightarrow> (case read_word r of (w, r') \<Rightarrow> (q @ w, r')))
      else if c = BS then
        (case s of [] \<Rightarrow> ([], [])
         | d # s' \<Rightarrow> (case read_word s' of (w, r) \<Rightarrow> (push_byte d @ w, r)))
      else (case read_word s of (w, r) \<Rightarrow> (push_byte c @ w, r)))"
  by pat_completeness auto
termination
  by (relation "measure length")
    (auto dest: read_single_rest [OF sym] read_double_rest [OF sym] simp: less_Suc_eq_le)

definition is_blank :: "char \<Rightarrow> bool" where
  "is_blank c = (c = SP \<or> c = TAB)"

definition read_redirect_target :: "string \<Rightarrow> string \<times> string" where
  "read_redirect_target s = read_word (dropWhile is_blank s)"

text \<open>The operator itself: its kind and the rest; \<open>None\<close> is an input redirection.\<close>

definition redirect_operator :: "string \<Rightarrow> redirect_op option \<times> string" where
  "redirect_operator s0 =
     (let s1 = dropWhile is_ascii_digit s0;
          s2 = (if next_is AMP s1 then tl s1 else s1)
      in if next_is LT s2 then (None, tl s2)
         else if next_is GT s2 then
           (let s3 = tl s2
            in if next_is GT s3 then (Some Append, tl s3)
               else if next_is AMP s3 then (Some FdDup, tl s3)
               else (Some Out, s3))
         else (Some Out, s2))"

definition parse_redirect :: "string \<Rightarrow> redirect option \<times> string" where
  "parse_redirect s =
     (case redirect_operator s of (kind, s') \<Rightarrow>
       (case read_redirect_target s' of (target, r) \<Rightarrow>
         (case kind of
            None \<Rightarrow> (None, r)
          | Some rop \<Rightarrow>
              if rop = FdDup then (Some \<lparr>rd_op = rop, rd_target = []\<rparr>, r)
              else if target = [] then (None, r)
              else (Some \<lparr>rd_op = rop, rd_target = target\<rparr>, r))))"

definition is_redirect :: "string \<Rightarrow> bool" where
  "is_redirect s =
     (next_is AMP s \<and> next_is GT (tl s)
      \<or> (let s1 = dropWhile is_ascii_digit s in next_is GT s1 \<or> next_is LT s1))"

lemma read_word_rest: "read_word s = (w, r) \<Longrightarrow> length r \<le> length s"
proof (induction s arbitrary: w r rule: read_word.induct)
  case (2 c s)
  then show ?case
    by (auto split: if_splits prod.splits list.splits intro: le_SucI
        dest!: read_single_rest read_double_rest) fastforce+
qed simp

lemma length_dropWhile_le': "length (dropWhile P s) \<le> length s"
  by (induction s) auto

lemma next_is_tl: "next_is c s \<Longrightarrow> length (tl s) < length s"
  by (cases s) (simp_all add: next_is_def)

lemma redirect_operator_rest:
  assumes "redirect_operator s = (k, r)" "is_redirect s"
  shows "length r < length s"
proof -
  have "length (dropWhile is_ascii_digit s) \<le> length s" by (rule length_dropWhile_le')
  moreover have "next_is AMP s \<Longrightarrow> dropWhile is_ascii_digit s = s"
    by (cases s) (auto simp: next_is_def is_ascii_digit_def)
  ultimately show ?thesis
    using assms
    by (auto simp: redirect_operator_def is_redirect_def Let_def next_is_def
        split: if_splits list.splits)
qed

lemma parse_redirect_rest:
  assumes "parse_redirect s = (k, r)" "is_redirect s"
  shows "length r < length s"
proof -
  obtain op s' where o': "redirect_operator s = (op, s')" by fastforce
  obtain t r' where t: "read_redirect_target s' = (t, r')" by fastforce
  have "length r' \<le> length s'"
    using t read_word_rest length_dropWhile_le' [of is_blank s']
    unfolding read_redirect_target_def by (meson order_trans)
  moreover have "r = r'"
    using assms(1) o' t by (auto simp: parse_redirect_def split: option.splits if_splits)
  ultimately show ?thesis using redirect_operator_rest [OF o' assms(2)] by simp
qed

text \<open>One round of the tokenizer's loop; \<open>i = if next > i then next else i + 1\<close> forces progress.\<close>

function (sequential) tokenize :: "string \<Rightarrow> string list \<times> redirect list" where
  "tokenize [] = ([], [])"
| "tokenize (c # s) =
     (if is_blank c then tokenize s
      else if is_redirect (c # s) then
        (case parse_redirect (c # s) of (redir, r) \<Rightarrow>
          (case tokenize r of (ws, rs) \<Rightarrow>
            (ws, (case redir of None \<Rightarrow> rs | Some x \<Rightarrow> x # rs))))
      else (case read_word (c # s) of (w, r) \<Rightarrow>
          (case tokenize (if length r < length (c # s) then r else s) of (ws, rs) \<Rightarrow>
            (if w \<noteq> [] then w # ws else ws, rs))))"
  by pat_completeness auto
termination
  by (relation "measure length") (auto dest!: parse_redirect_rest [OF sym])

section \<open>Resolving a command\<close>

definition MAX_REENTRY_DEPTH :: nat where "MAX_REENTRY_DEPTH = 3"

definition SHELLS :: "string list" where
  "SHELLS = [''bash'', ''sh'', ''zsh'', ''dash'']"

definition WRAPPERS :: "string list" where
  "WRAPPERS = [''timeout'', ''nice'', ''nohup'', ''stdbuf'', ''env'', ''command'', ''sudo'', ''doas'']"

fun c_payload :: "string list \<Rightarrow> string option" where
  "c_payload [] = None"
| "c_payload (a # rest) =
     (if a = ''-c'' then (case rest of [] \<Rightarrow> None | b # _ \<Rightarrow> Some b)
      else (case strip_prefix ''-c'' a of
          Some r \<Rightarrow> if r \<noteq> [] then Some r else c_payload rest
        | None \<Rightarrow> c_payload rest))"

definition shell_c_payload :: "resolved_command \<Rightarrow> string option" where
  "shell_c_payload cmd =
     (if rc_program cmd \<notin> set SHELLS then None else c_payload (rc_args cmd))"

definition is_env_assignment :: "string \<Rightarrow> bool" where
  "is_env_assignment tok =
     (if CHR ''='' \<notin> set tok then False
      else (let name = takeWhile (\<lambda>c. c \<noteq> CHR ''='') tok
            in name \<noteq> []
               \<and> (is_ascii_alphabetic (hd name) \<or> hd name = CHR ''_'')
               \<and> list_all (\<lambda>c. is_ascii_alphanumeric c \<or> c = CHR ''_'') name))"

definition arg_opts :: "string \<Rightarrow> string list" where
  "arg_opts wrapper =
     (if wrapper = ''sudo'' \<or> wrapper = ''doas''
      then [''-u'', ''-g'', ''-C'', ''-h'', ''-p'', ''-r'', ''-t'', ''-U'', ''-R'', ''-c'']
      else if wrapper = ''timeout'' then [''-s'', ''-k'']
      else if wrapper = ''nice'' then [''-n'']
      else if wrapper = ''stdbuf'' then [''-i'', ''-o'', ''-e'']
      else if wrapper = ''env'' then [''-u'', ''-C'', ''-S''] else [])"

definition numeric :: "string \<Rightarrow> bool" where
  "numeric w = (w \<noteq> [] \<and> list_all (\<lambda>c. is_ascii_digit c \<or> c = CHR ''.'') w)"

function (sequential) skip_wrapper_args :: "string list \<Rightarrow> string list \<Rightarrow> string list" where
  "skip_wrapper_args opts [] = []"
| "skip_wrapper_args opts (w # ws) =
     (if starts_with ''-'' w then
        (if w \<in> set opts \<and> ws \<noteq> [] \<and> \<not> starts_with ''-'' (hd ws)
         then skip_wrapper_args opts (tl ws) else skip_wrapper_args opts ws)
      else if numeric w then skip_wrapper_args opts ws
      else w # ws)"
  by pat_completeness auto
termination
  by (relation "measure (\<lambda>(_, ws). length ws)") auto

lemma skip_wrapper_args_suffix: "suffix (skip_wrapper_args opts ws) ws"
  by (induction opts ws rule: skip_wrapper_args.induct)
    (auto intro: suffix_ConsI suffix_order.trans [OF _ suffix_tl])

lemma skip_wrapper_args_length [simp]: "length (skip_wrapper_args opts ws) \<le> length ws"
  using skip_wrapper_args_suffix by (rule suffix_length_le)

function (sequential) strip_front :: "string list \<Rightarrow> string list" where
  "strip_front [] = []"
| "strip_front (w # ws) =
     (if is_env_assignment w then strip_front ws
      else if w \<in> set WRAPPERS then strip_front (skip_wrapper_args (arg_opts w) ws)
      else w # ws)"
  by pat_completeness auto
termination
  by (relation "measure length") (auto simp: less_Suc_eq_le)

definition resolve_words :: "string list \<Rightarrow> redirect list \<Rightarrow> resolved_command option" where
  "resolve_words words redirects =
     (case strip_front words of
        [] \<Rightarrow> None
      | program # args \<Rightarrow> Some \<lparr>rc_program = program, rc_args = args, rc_redirects = redirects\<rparr>)"

definition resolve_command :: "string \<Rightarrow> resolved_command option" where
  "resolve_command segment = (case tokenize segment of (words, redirects) \<Rightarrow> resolve_words words redirects)"

function resolve_into :: "string \<Rightarrow> nat \<Rightarrow> resolved_command list" where
  "resolve_into command depth =
     concat (map (\<lambda>seg. case resolve_command seg of
         None \<Rightarrow> []
       | Some cmd \<Rightarrow>
           (if depth < MAX_REENTRY_DEPTH then
              (case shell_c_payload cmd of
                 Some inner \<Rightarrow> cmd # resolve_into inner (depth + 1)
               | None \<Rightarrow> [cmd])
            else [cmd])) (split_operators command))"
  by pat_completeness auto
termination
  by (relation "measure (\<lambda>(_, d). MAX_REENTRY_DEPTH - d)") auto

declare resolve_into.simps [simp del]

definition resolve_all :: "string \<Rightarrow> resolved_command list" where
  "resolve_all command = resolve_into command 0"

section \<open>What is resolved\<close>

lemma tokenize_words:
  "tokenize s = (ws, rs) \<Longrightarrow> list_all (\<lambda>w. w \<noteq> []) ws
     \<and> list_all (\<lambda>r. (rd_op r = FdDup) = (rd_target r = [])) rs"
proof (induction s arbitrary: ws rs rule: tokenize.induct)
  case (2 c s)
  have redirect: "parse_redirect x = (Some r, y) \<Longrightarrow> (rd_op r = FdDup) = (rd_target r = [])" for x r y
    by (auto simp: parse_redirect_def split: prod.splits option.splits if_splits)
  from 2 show ?case
    by (auto split: if_splits prod.splits option.splits dest: redirect)
qed simp

lemma strip_front_props:
  "strip_front ws = p # args \<Longrightarrow>
     p \<notin> set WRAPPERS \<and> \<not> is_env_assignment p \<and> suffix (p # args) ws"
proof (induction ws arbitrary: p args rule: strip_front.induct)
  case (2 w ws)
  from "2.prems" consider
      (env) "is_env_assignment w" "strip_front ws = p # args"
    | (wrapper) "\<not> is_env_assignment w" "w \<in> set WRAPPERS"
        "strip_front (skip_wrapper_args (arg_opts w) ws) = p # args"
    | (here) "p = w" "args = ws" "\<not> is_env_assignment w" "w \<notin> set WRAPPERS"
    by (auto split: if_splits)
  then show ?case
  proof cases
    case env
    with "2.IH"(1) show ?thesis by (auto intro: suffix_ConsI)
  next
    case wrapper
    with "2.IH"(2) skip_wrapper_args_suffix [of "arg_opts w" ws] show ?thesis
      by (auto intro!: suffix_ConsI intro: suffix_order.trans)
  qed simp
qed simp

definition well_resolved :: "resolved_command \<Rightarrow> bool" where
  "well_resolved cmd =
     (rc_program cmd \<noteq> [] \<and> rc_program cmd \<notin> set WRAPPERS \<and> \<not> is_env_assignment (rc_program cmd)
      \<and> list_all (\<lambda>a. a \<noteq> []) (rc_args cmd)
      \<and> list_all (\<lambda>r. (rd_op r = FdDup) = (rd_target r = [])) (rc_redirects cmd))"

lemma resolve_command_well: "resolve_command seg = Some cmd \<Longrightarrow> well_resolved cmd"
proof -
  assume r: "resolve_command seg = Some cmd"
  obtain ws rs where t: "tokenize seg = (ws, rs)" by fastforce
  with r obtain p args where p: "strip_front ws = p # args"
      "cmd = \<lparr>rc_program = p, rc_args = args, rc_redirects = rs\<rparr>"
    by (auto simp: resolve_command_def resolve_words_def split: list.splits)
  have "set (p # args) \<subseteq> set ws" using strip_front_props [OF p(1)] by (blast dest: set_mono_suffix)
  with strip_front_props [OF p(1)] tokenize_words [OF t] show ?thesis
    by (auto simp: well_resolved_def p(2) list_all_iff)
qed

lemma resolve_into_well: "cmd \<in> set (resolve_into c d) \<Longrightarrow> well_resolved cmd"
proof (induction c d rule: resolve_into.induct)
  case (1 c d)
  from "1.prems" obtain seg where s: "seg \<in> set (split_operators c)"
    and m: "cmd \<in> set (case resolve_command seg of None \<Rightarrow> [] | Some cmd \<Rightarrow>
        (if d < MAX_REENTRY_DEPTH then (case shell_c_payload cmd of
             Some inner \<Rightarrow> cmd # resolve_into inner (d + 1) | None \<Rightarrow> [cmd]) else [cmd]))"
    unfolding resolve_into.simps [of c d] set_concat set_map by blast
  from m obtain x where x: "resolve_command seg = Some x" by (cases "resolve_command seg") auto
  note seg = s x
  have mem: "cmd = x \<or> (d < MAX_REENTRY_DEPTH \<and> (\<exists>inner. shell_c_payload x = Some inner
      \<and> cmd \<in> set (resolve_into inner (d + 1))))"
    using m x by (auto split: if_splits option.splits)
  from mem show ?case
    using "1.IH" [OF seg] resolve_command_well [OF seg(2)] by auto
qed

text \<open>
  Every command the permission layer inspects is fully resolved, through wrappers,
  assignments and shell re-entry: its program token is not empty, is never a wrapper and never an
  environment assignment, no argument is empty, and a redirection has a target exactly when it is
  not a descriptor duplication.
\<close>

theorem resolve_all_well_resolved: "list_all well_resolved (resolve_all command)"
  by (auto simp: list_all_iff resolve_all_def dest: resolve_into_well)

section \<open>Separators compose\<close>

text \<open>The quoting mode the splitter is in after a string; \<open>None\<close> after a dangling backslash.\<close>

function (sequential) scan_end :: "quote_mode \<Rightarrow> string \<Rightarrow> quote_mode option" where
  "scan_end mode [] = Some mode"
| "scan_end InSingle (c # s) = scan_end (if c = SQ then Unquoted else InSingle) s"
| "scan_end InDouble (c # s) =
     (if c = BS \<and> s \<noteq> [] then scan_end InDouble (tl s)
      else scan_end (if c = DQ then Unquoted else InDouble) s)"
| "scan_end Unquoted (c # s) =
     (if c = SQ then scan_end InSingle s
      else if c = DQ then scan_end InDouble s
      else if c = BS then (if s = [] then None else scan_end Unquoted (tl s))
      else scan_end Unquoted s)"
  by pat_completeness auto
termination
  by (relation "measure (\<lambda>(_, s). length s)") auto

definition operator_free_end :: "string \<Rightarrow> bool" where
  "operator_free_end a = (a \<noteq> [] \<longrightarrow> last a \<noteq> AMP \<and> last a \<noteq> PIPE)"

definition closed_command :: "string \<Rightarrow> bool" where
  "closed_command a = (scan_end Unquoted a = Some Unquoted \<and> operator_free_end a)"

definition separators :: "string list" where
  "separators = [[SEMI], [NL], [AMP, AMP], [PIPE, PIPE]]"

lemma split_from_prev: "x \<noteq> Some GT \<Longrightarrow> split_from Unquoted x acc b = split_from Unquoted None acc b"
  by (cases b) simp_all

lemma split_at_separator:
  "sep \<in> set separators \<Longrightarrow>
     split_from Unquoted p acc (sep @ b) = push_segment acc @ split_from Unquoted None [] b"
  using split_from_prev [of "Some SEMI" "[]" b] split_from_prev [of "Some NL" "[]" b]
    split_from_prev [of "Some AMP" "[]" b] split_from_prev [of "Some PIPE" "[]" b]
  by (auto simp: separators_def next_is_def)

lemma operator_free_tl: "operator_free_end (c # s) \<Longrightarrow> operator_free_end s"
  by (cases s) (simp_all add: operator_free_end_def)

lemma operator_free_tl2: "operator_free_end (c # s) \<Longrightarrow> operator_free_end (tl s)"
  by (cases s) (simp_all add: operator_free_end_def, metis list.sel(3) neq_Nil_conv)

lemma next_is_append: "s \<noteq> [] \<Longrightarrow> next_is c (s @ t) = next_is c s"
  by (cases s) (simp_all add: next_is_def)

lemma split_from_append:
  assumes "sep \<in> set separators"
  shows "scan_end m a = Some Unquoted \<Longrightarrow> operator_free_end a \<Longrightarrow>
    split_from m p acc (a @ sep @ b) = split_from m p acc a @ split_from Unquoted None [] b"
proof (induction m p acc a rule: split_from.induct)
  case (1 mode prev acc)
  then show ?case using split_at_separator [OF assms] by simp
next
  case (2 prev acc c s)
  then show ?case using operator_free_tl [of c s] by simp
next
  case (3 prev acc c s)
  then show ?case using operator_free_tl [of c s] operator_free_tl2 [of c s] by (auto split: if_splits)
next
  case (4 prev acc c s)
  note tls = operator_free_tl [OF "4.prems"(2)] operator_free_tl2 [OF "4.prems"(2)]
  consider "c = SQ" | "c = DQ" | "c = BS" | "c = NL \<or> c = SEMI" | "c = AMP" | "c = PIPE"
    | (other) "c \<noteq> SQ" "c \<noteq> DQ" "c \<noteq> BS" "c \<noteq> NL" "c \<noteq> SEMI" "c \<noteq> AMP" "c \<noteq> PIPE"
    by blast
  then show ?case
  proof cases
    case 1
    then show ?thesis using "4.IH"(1) "4.prems" tls by simp
  next
    case 2
    then show ?thesis using "4.IH"(2) "4.prems" tls by simp
  next
    case 3
    then have "s \<noteq> []" using "4.prems"(1) by (auto split: if_splits)
    then show ?thesis using 3 "4.IH"(3) "4.prems" tls by simp
  next
    case 4
    then show ?thesis using "4.IH"(4) "4.prems" tls by auto
  next
    case 5
    then have s: "s \<noteq> []" using "4.prems"(2) by (auto simp: operator_free_end_def)
    have "scan_end Unquoted (tl s) = Some Unquoted" if "next_is AMP s"
      using that "4.prems"(1) 5 by (cases s) (auto simp: next_is_def)
    then show ?thesis
      using 5 s "4.IH"(5,6,7) "4.prems" tls by (simp add: next_is_append)
  next
    case 6
    then have s: "s \<noteq> []" using "4.prems"(2) by (auto simp: operator_free_end_def)
    have "scan_end Unquoted (tl s) = Some Unquoted" if "next_is PIPE s \<or> next_is AMP s"
      using that "4.prems"(1) 6 by (cases s) (auto simp: next_is_def)
    then show ?thesis
      using 6 s "4.IH"(8,9) "4.prems" tls by (simp add: next_is_append)
  next
    case other
    then show ?thesis using "4.IH"(10) "4.prems" tls by simp
  qed
qed

lemma split_operators_append:
  assumes "sep \<in> set separators" "closed_command a"
  shows "split_operators (a @ sep @ b) = split_operators a @ split_operators b"
  using split_from_append [OF assms(1)] assms(2) by (simp add: split_operators_def closed_command_def)

lemma resolve_into_append:
  assumes "sep \<in> set separators" "closed_command a"
  shows "resolve_into (a @ sep @ b) d = resolve_into a d @ resolve_into b d"
  unfolding resolve_into.simps [of "a @ sep @ b"] resolve_into.simps [of a] resolve_into.simps [of b]
  by (simp add: split_operators_append [OF assms])

text \<open>
  A command joined to another by a sequencing operator (\<open>;\<close>, a newline, \<open>&&\<close>, \<open>||\<close>) is
  resolved exactly as the two on their own, so nothing can hide behind a separator: this holds
  whenever the first part ends outside quotes and escapes and not in the middle of an operator.
\<close>

theorem resolve_all_compositional:
  assumes "sep \<in> set separators" "closed_command a"
  shows "resolve_all (a @ sep @ b) = resolve_all a @ resolve_all b"
  using resolve_into_append [OF assms] by (simp add: resolve_all_def)

theorem resolve_all_compositional_witness:
  "[AMP, AMP] \<in> set separators \<and> closed_command ''echo ''
   \<and> resolve_all (''echo '' @ [AMP, AMP] @ '' sudo rm -rf /'')
       = resolve_all ''echo '' @ resolve_all '' sudo rm -rf /''"
proof -
  have h: "[AMP, AMP] \<in> set separators" "closed_command ''echo ''"
    by (simp add: separators_def) code_simp
  show ?thesis using h resolve_all_compositional [OF h, of "'' sudo rm -rf /''"] by blast
qed

section \<open>Spellings of words\<close>

text \<open>
  \<open>spells t w\<close>: the shell text \<open>t\<close> is a way to write the ASCII word \<open>w\<close> by plain bytes that are
  not special to the shell, single and double quotes, and backslash escapes, in any mixture.
\<close>

definition ascii :: "string \<Rightarrow> bool" where
  "ascii s = list_all (\<lambda>c. byte c < 128) s"

definition visible :: "char \<Rightarrow> bool" where
  "visible c = (33 \<le> byte c \<and> byte c \<le> 126)"

definition plain_byte :: "char \<Rightarrow> bool" where
  "plain_byte c = (visible c \<and> c \<notin> {SQ, DQ, BS, GT, LT, AMP, PIPE, SEMI})"

lemma visible_bounds: "visible c \<Longrightarrow> byte c < 128"
  by (simp add: visible_def)

lemma visible_not_space: "visible c \<Longrightarrow> c \<noteq> SP \<and> c \<noteq> TAB \<and> c \<noteq> NL"
proof -
  have "\<not> visible SP" "\<not> visible TAB" "\<not> visible NL" by (simp_all add: visible_def)
  then show "visible c \<Longrightarrow> c \<noteq> SP \<and> c \<noteq> TAB \<and> c \<noteq> NL" by auto
qed

lemma visible_quotes [simp]: "visible SQ" "visible DQ" "visible BS"
  by (simp_all add: visible_def)

lemma plain_byteD:
  assumes "plain_byte c"
  shows "byte c < 128" "\<not> ends_word c" "\<not> is_blank c" "visible c" "c \<noteq> SQ" "c \<noteq> DQ" "c \<noteq> BS"
    "c \<noteq> GT" "c \<noteq> LT" "c \<noteq> AMP" "c \<noteq> PIPE" "c \<noteq> SEMI" "c \<noteq> NL"
  using assms visible_not_space [of c] visible_bounds [of c]
  by (simp_all add: plain_byte_def ends_word_def is_blank_def)

inductive spells :: "string \<Rightarrow> string \<Rightarrow> bool" where
  spells_Nil: "spells [] []"
| spells_plain: "plain_byte c \<Longrightarrow> spells t w \<Longrightarrow> spells (c # t) (c # w)"
| spells_single: "SQ \<notin> set q \<Longrightarrow> ascii q \<Longrightarrow> spells t w \<Longrightarrow> spells (SQ # q @ SQ # t) (q @ w)"
| spells_double: "DQ \<notin> set q \<Longrightarrow> BS \<notin> set q \<Longrightarrow> ascii q \<Longrightarrow> spells t w
    \<Longrightarrow> spells (DQ # q @ DQ # t) (q @ w)"
| spells_escape: "visible c \<Longrightarrow> spells t w \<Longrightarrow> spells (BS # c # t) (c # w)"

inductive_simps spells_Nil_left [simp]: "spells [] w"

lemma push_byte_ascii: "byte c < 128 \<Longrightarrow> push_byte c = [c]"
  by (simp add: push_byte_def)

lemma read_single_quoted: "SQ \<notin> set q \<Longrightarrow> ascii q \<Longrightarrow> read_single (q @ SQ # r) = (q, r)"
  by (induction q) (auto simp: ascii_def push_byte_ascii)

lemma read_double_quoted:
  "DQ \<notin> set q \<Longrightarrow> BS \<notin> set q \<Longrightarrow> ascii q \<Longrightarrow> read_double (q @ DQ # r) = (q, r)"
proof (induction q)
  case Nil
  then show ?case by (cases r) simp_all
next
  case (Cons c q)
  then obtain d s where "q @ DQ # r = d # s" by (cases q) auto
  with Cons show ?case by (auto simp: ascii_def push_byte_ascii)
qed

definition word_boundary :: "string \<Rightarrow> bool" where
  "word_boundary r = (case r of [] \<Rightarrow> True | c # _ \<Rightarrow> ends_word c)"

lemma read_word_boundary: "word_boundary r \<Longrightarrow> read_word r = ([], r)"
  by (cases r) (simp_all add: word_boundary_def)

lemma read_word_spells: "spells t w \<Longrightarrow> word_boundary r \<Longrightarrow> read_word (t @ r) = (w, r)"
proof (induction rule: spells.induct)
  case spells_Nil
  then show ?case by (simp add: read_word_boundary)
next
  case (spells_plain c t w)
  then show ?case using plain_byteD [OF spells_plain.hyps(1)] by (simp add: push_byte_ascii)
qed (simp_all add: ends_word_def push_byte_ascii visible_bounds read_single_quoted read_double_quoted)

text \<open>A spelled word is never taken for a redirection.\<close>

lemma spells_not_GT: "spells t w \<Longrightarrow> \<not> next_is GT t"
  by (cases rule: spells.cases) (auto simp: next_is_def plain_byte_def)

lemma blank_not_GT: "r = [] \<or> is_blank (hd r) \<Longrightarrow> \<not> next_is GT r"
  by (cases r) (auto simp: next_is_def is_blank_def)

lemma spells_not_redirect:
  "spells t w \<Longrightarrow> r = [] \<or> is_blank (hd r) \<Longrightarrow> \<not> is_redirect (t @ r)"
proof (induction rule: spells.induct)
  case spells_Nil
  then show ?case by (cases r) (auto simp: is_redirect_def next_is_def is_blank_def is_ascii_digit_def)
next
  case (spells_plain c t w)
  have "\<not> next_is GT (t @ r)"
    using spells_not_GT [OF spells_plain.hyps(2)] blank_not_GT [OF spells_plain.prems]
    by (cases "t = []") (simp_all add: next_is_append)
  with spells_plain show ?case
    by (simp add: is_redirect_def next_is_def [of _ "_ # _"] plain_byte_def Let_def)
qed (simp_all add: is_redirect_def next_is_def is_ascii_digit_def Let_def)

lemma tokenize_blank: "is_blank c \<Longrightarrow> tokenize (c # s) = tokenize s"
  by simp

lemma tokenize_spelled:
  assumes "spells t w" "w \<noteq> []" "r = [] \<or> is_blank (hd r)"
  shows "tokenize (t @ r) = (case tokenize r of (ws, rs) \<Rightarrow> (w # ws, rs))"
proof -
  have wb: "word_boundary r" using assms(3)
    by (cases r) (auto simp: word_boundary_def is_blank_def ends_word_def)
  obtain c s where t: "t = c # s" using assms(1,2) by (cases t) auto
  have nb: "\<not> is_blank c" using assms(1)
    by (cases rule: spells.cases) (auto simp: t plain_byteD, auto simp: is_blank_def)
  have rw: "read_word (c # s @ r) = (w, r)" using read_word_spells [OF assms(1) wb] t by simp
  have nr: "\<not> is_redirect (c # s @ r)"
    using spells_not_redirect [OF assms(1,3)] t by simp
  show ?thesis using nb nr rw assms(2) by (simp add: t split: prod.splits)
qed

lemma tokenize_words_spelled:
  "list_all2 spells texts words \<Longrightarrow> list_all (\<lambda>w. w \<noteq> []) words \<Longrightarrow>
     tokenize (join_with [SP] texts) = (words, [])"
proof (induction "[SP]" texts arbitrary: words rule: join_with.induct)
  case 1
  then show ?case by simp
next
  case (2 t)
  then show ?case using tokenize_spelled [of t _ "[]"] by (auto simp: list_all2_Cons1)
next
  case (3 t u us)
  then obtain w ws where w: "words = w # ws" "spells t w" "list_all2 spells (u # us) ws" "w \<noteq> []"
      "list_all (\<lambda>w. w \<noteq> []) ws"
    by (auto simp: list_all2_Cons1)
  have "tokenize (SP # join_with [SP] (u # us)) = (ws, [])"
    using "3.hyps" [of ws] w by (simp add: is_blank_def)
  then show ?case
    using tokenize_spelled [OF w(2,4), of "SP # join_with [SP] (u # us)"] w(1)
    by (simp add: is_blank_def)
qed

subsection \<open>Spelled words through the splitter\<close>

lemma split_single_quoted:
  "SQ \<notin> set q \<Longrightarrow>
     split_from InSingle p acc (q @ SQ # r) = split_from Unquoted (Some SQ) (acc @ q @ [SQ]) r"
  by (induction q arbitrary: p acc) auto

lemma split_double_quoted:
  "DQ \<notin> set q \<Longrightarrow> BS \<notin> set q \<Longrightarrow>
     split_from InDouble p acc (q @ DQ # r) = split_from Unquoted (Some DQ) (acc @ q @ [DQ]) r"
  by (induction q arbitrary: p acc) auto

lemma split_spelled:
  "spells t w \<Longrightarrow> \<exists>p'. split_from Unquoted p acc (t @ r) = split_from Unquoted p' (acc @ t) r"
proof (induction arbitrary: p acc rule: spells.induct)
  case spells_Nil
  then show ?case by auto
next
  case (spells_plain c t w)
  then have "split_from Unquoted p acc ((c # t) @ r) = split_from Unquoted (Some c) (acc @ [c]) (t @ r)"
    using plain_byteD [OF spells_plain.hyps(1)] by simp
  then show ?case using spells_plain.IH [of "Some c" "acc @ [c]"] by simp
next
  case (spells_single q t w)
  then show ?case
    using split_single_quoted [OF spells_single.hyps(1), of "Some SQ" "acc @ [SQ]" "t @ r"]
      spells_single.IH [of "Some SQ" "acc @ [SQ] @ q @ [SQ]"] by simp
next
  case (spells_double q t w)
  then show ?case
    using split_double_quoted [OF spells_double.hyps(1,2), of "Some DQ" "acc @ [DQ]" "t @ r"]
      spells_double.IH [of "Some DQ" "acc @ [DQ] @ q @ [DQ]"] by simp
next
  case (spells_escape c t w)
  show ?case using spells_escape.IH [of "Some c" "acc @ [BS, c]"] by simp
qed

lemma split_spelled_line:
  "list_all2 spells texts ws \<Longrightarrow>
     split_from Unquoted p acc (join_with [SP] texts) = push_segment (acc @ join_with [SP] texts)"
proof (induction "[SP]" texts arbitrary: ws p acc rule: join_with.induct)
  case (2 t)
  then obtain w where "spells t w" by (auto simp: list_all2_Cons1)
  from split_spelled [OF this, of p acc "[]"] show ?case by auto
next
  case (3 t u us)
  then obtain w ws' where w: "ws = w # ws'" "spells t w" "list_all2 spells (u # us) ws'"
    by (auto simp: list_all2_Cons1)
  obtain p' where "split_from Unquoted p acc (t @ SP # join_with [SP] (u # us))
      = split_from Unquoted p' (acc @ t) (SP # join_with [SP] (u # us))"
    using split_spelled [OF w(2)] by blast
  then show ?case using "3.hyps" [OF w(3)] by simp
qed simp

lemma spells_ends_visible:
  "spells t w \<Longrightarrow> t \<noteq> [] \<Longrightarrow> visible (hd t) \<and> visible (last t)"
  by (induction rule: spells.induct) (simp_all add: plain_byteD split: if_splits)

lemma ws_len_rev_visible:
  assumes "33 \<le> x" "x \<le> 126"
  shows "ws_len_rev (x # ys) = 0"
proof -
  have one: "ws_len [x] = 0" and two: "ws_len [y, x] \<noteq> 2" and three: "ws_len [z, y, x] \<noteq> 3" for y z
    using assms by (simp_all add: ws_len_def)
  consider "ys = []" | y where "ys = [y]" | y z zs where "ys = y # z # zs"
    by (metis neq_Nil_conv)
  then show ?thesis
    using one two three
    by cases (simp_all add: ws_len_rev_def numeral_2_eq_2 numeral_3_eq_3)
qed

lemma trim_visible: "s \<noteq> [] \<Longrightarrow> visible (hd s) \<Longrightarrow> visible (last s) \<Longrightarrow> trim s = s"
proof -
  assume s: "s \<noteq> []" "visible (hd s)" "visible (last s)"
  have front: "ws_len (map byte s) = 0"
    using s(1,2) by (cases s) (auto simp: ws_len_def visible_def split: list.splits)
  obtain c r where r: "rev s = c # r" "visible c"
    using s(1,3) by (cases s rule: rev_cases) auto
  have behind: "ws_len_rev (map byte (rev s)) = 0"
    using r ws_len_rev_visible by (simp add: visible_def)
  have "trim_start s = s"
    by (subst trim_start.simps) (simp only: front Let_def if_True simp_thms)
  moreover have "trim_start_rev (rev s) = rev s"
    by (subst trim_start_rev.simps) (simp only: behind Let_def if_True simp_thms)
  ultimately show ?thesis by (simp add: trim_def trim_end_def)
qed

lemma spelled_line_ends:
  "list_all2 spells texts ws \<Longrightarrow> list_all (\<lambda>w. w \<noteq> []) ws \<Longrightarrow> texts \<noteq> [] \<Longrightarrow>
     join_with [SP] texts \<noteq> [] \<and> visible (hd (join_with [SP] texts))
     \<and> visible (last (join_with [SP] texts))"
proof (induction "[SP]" texts arbitrary: ws rule: join_with.induct)
  case (2 t)
  then obtain w where "spells t w" "w \<noteq> []" by (auto simp: list_all2_Cons1)
  then show ?case using spells_ends_visible by (cases "t = []") auto
next
  case (3 t u us)
  then obtain w ws' where w: "spells t w" "w \<noteq> []" "list_all2 spells (u # us) ws'" "ws = w # ws'"
      "list_all (\<lambda>w. w \<noteq> []) ws'"
    by (auto simp: list_all2_Cons1)
  then have "t \<noteq> []" by auto
  then show ?case using "3.hyps" [OF w(3,5)] spells_ends_visible [OF w(1)] by simp
qed simp

lemma split_operators_spelled:
  assumes "list_all2 spells texts ws" "list_all (\<lambda>w. w \<noteq> []) ws" "texts \<noteq> []"
  shows "split_operators (join_with [SP] texts) = [join_with [SP] texts]"
  using spelled_line_ends [OF assms] split_spelled_line [OF assms(1)]
  by (simp add: split_operators_def push_segment_def trim_visible)

lemma resolve_spelled:
  assumes "list_all2 spells texts ws" "list_all (\<lambda>w. w \<noteq> []) ws" "resolve_words ws [] = Some cmd"
  shows "cmd \<in> set (resolve_into (join_with [SP] texts) d)"
proof -
  have "texts \<noteq> []" using assms by (auto simp: resolve_words_def)
  moreover have "resolve_command (join_with [SP] texts) = Some cmd"
    using assms by (simp add: resolve_command_def tokenize_words_spelled)
  ultimately show ?thesis
    using split_operators_spelled [OF assms(1,2)]
    by (simp add: resolve_into.simps [of "join_with [SP] texts"] split: option.splits)
qed

lemma resolve_all_spelled_after:
  assumes "sep \<in> set separators" "closed_command a"
    and "list_all2 spells texts ws" "list_all (\<lambda>w. w \<noteq> []) ws" "resolve_words ws [] = Some cmd"
  shows "cmd \<in> set (resolve_all (a @ sep @ join_with [SP] texts))"
  using resolve_spelled [OF assms(3-5)]
  by (simp add: resolve_all_def resolve_into_append [OF assms(1,2)])


lemma spells_plain_word: "list_all plain_byte w \<Longrightarrow> spells w w"
  by (induction w) (auto intro: spells.intros)

lemma rm_spellings:
  "spells [SQ, CHR ''r'', CHR ''m'', SQ] ''rm''" "spells [BS, CHR ''/''] ''/''" "spells ''-rf'' ''-rf''"
  "spells ''sudo'' ''sudo''"
proof -
  show "spells [SQ, CHR ''r'', CHR ''m'', SQ] ''rm''"
    using spells_single [of "''rm''" "[]" "[]"] by (simp add: ascii_def spells_Nil)
  show "spells [BS, CHR ''/''] ''/''"
    by (rule spells_escape) (simp_all add: spells_Nil visible_def)
  show "spells ''-rf'' ''-rf''" "spells ''sudo'' ''sudo''"
    by (rule spells_plain_word; code_simp)+
qed


text \<open>
  Two inputs the tokenizer reads differently from a shell. An escaped \<open>>\<close> before \<open>&\<close> is taken for
  a redirection, so the command after the \<open>&\<close> becomes arguments of the one before it. And a byte
  above 127 in a program or a target is rewritten to a two-byte scalar.
\<close>

lemma escaped_redirect_hides_command:
  "map rc_program (resolve_all (''echo '' @ [BS, GT, AMP] @ '' rm -rf /'')) = [''echo'']"
  by code_simp

lemma multibyte_program_rewritten:
  "map rc_program (resolve_all [CHR 0xC3, CHR 0xA9])
     = [[CHR 0xC3, CHR 0x83, CHR 0xC2, CHR 0xA9]]"
  by code_simp

end
