(* ===== verification/Path_Match.thy ===== *)
theory Path_Match
  imports Helikon_Prelude
begin

text \<open>
  Lexical path matching (\<open>path_match.rs\<close>): \<open>clean_path\<close>, the protected dot-path test and the
  compiled path globs of the permission rules. The glob engine is a library: the compiler of one
  pattern and of a set are parameters. \<open>clean_path\<close> is shown to reach a normal form that it then
  keeps, and the dot-path test to depend on that normal form only.
\<close>

definition replace_backslash :: "string \<Rightarrow> string" where
  "replace_backslash s = map (\<lambda>c. if c = CHR 0x5C then CHR ''/'' else c) s"

text \<open>The component loop; \<open>out\<close> is the component stack, top last.\<close>

fun clean_step :: "string list \<Rightarrow> string \<Rightarrow> string list" where
  "clean_step out piece =
     (if piece = [] \<or> piece = ''.'' then out
      else if piece = ''..'' then
        (if out \<noteq> [] \<and> last out \<noteq> ''..'' then butlast out else out @ [''..''])
      else out @ [piece])"

definition clean_comps :: "string \<Rightarrow> string list" where
  "clean_comps path =
     (let normalized = replace_backslash path;
          trimmed = unwrap_or normalized (strip_prefix ''./'' normalized)
      in foldl clean_step [] (split_on CHR ''/'' trimmed))"

definition clean_path :: "string \<Rightarrow> string" where
  "clean_path path = join_with ''/'' (clean_comps path)"

definition is_protected_dotpath :: "string \<Rightarrow> bool" where
  "is_protected_dotpath path =
     (let comps = filter (\<lambda>c. c \<noteq> []) (split_on CHR ''/'' (clean_path path))
      in if list_ex (\<lambda>c. eq_ignore_ascii_case c ''.git'' \<or> eq_ignore_ascii_case c ''.ssh'') comps
         then True
         else if comps = [] then False
         else (let lower = to_ascii_lowercase (last comps)
               in lower = ''.env'' \<or> starts_with ''.env.'' lower))"

section \<open>Path globs\<close>

record glob_lib =
  gl_build :: "string \<Rightarrow> (string \<Rightarrow> bool) option"
  gl_set_ok :: "string list \<Rightarrow> bool"

record path_glob =
  pg_pattern :: string
  pg_set :: "(string \<Rightarrow> bool) list"

definition normalize_pattern :: "string \<Rightarrow> string" where
  "normalize_pattern pat =
     (let p0 = replace_backslash pat;
          p1 = unwrap_or p0 (strip_prefix ''./'' p0)
      in unwrap_or p1 (strip_prefix ''/'' p1))"

definition build_globset :: "glob_lib \<Rightarrow> string \<Rightarrow> (string \<Rightarrow> bool) list" where
  "build_globset G pattern =
     (if pattern = [] then []
      else (let globs = (if CHR ''/'' \<in> set pattern \<or> pattern = ''**'' then [pattern]
                         else [pattern, ''**/'' @ pattern]);
                built = filter (\<lambda>g. gl_build G g \<noteq> None) globs
            in if gl_set_ok G built then List.map_filter (gl_build G) globs else []))"

definition path_glob_new :: "glob_lib \<Rightarrow> string \<Rightarrow> path_glob" where
  "path_glob_new G pat =
     (let pattern = normalize_pattern pat
      in \<lparr>pg_pattern = pattern, pg_set = build_globset G pattern\<rparr>)"

definition matches_path :: "path_glob \<Rightarrow> string \<Rightarrow> bool" where
  "matches_path g path = list_ex (\<lambda>m. m (clean_path path)) (pg_set g)"

section \<open>Normal forms\<close>

definition proper :: "string \<Rightarrow> bool" where
  "proper c = (c \<noteq> [] \<and> c \<noteq> ''.'' \<and> c \<noteq> ''..'' \<and> CHR ''/'' \<notin> set c \<and> CHR 0x5C \<notin> set c)"

text \<open>A cleaned path: escapes to parents first, then proper components.\<close>

definition normal_comps :: "string list \<Rightarrow> bool" where
  "normal_comps cs = list_all proper (dropWhile (\<lambda>c. c = ''..'') cs)"

lemma dropWhile_snoc:
  "dropWhile P (xs @ [x]) =
     (if list_all P xs then (if P x then [] else [x]) else dropWhile P xs @ [x])"
  by (auto simp: list_all_iff dropWhile_append)

lemma normal_snoc: "normal_comps out \<Longrightarrow> proper c \<Longrightarrow> normal_comps (out @ [c])"
  by (simp add: normal_comps_def dropWhile_snoc)

lemma clean_step_normal:
  assumes "normal_comps out" "CHR ''/'' \<notin> set c" "CHR 0x5C \<notin> set c"
  shows "normal_comps (clean_step out c)"
proof (cases "out = [] \<or> last out = ''..''")
  case True
  have all: "list_all (\<lambda>c. c = ''..'') out"
  proof (rule ccontr)
    assume n: "\<not> list_all (\<lambda>c. c = ''..'') out"
    then have "dropWhile (\<lambda>c. c = ''..'') out \<noteq> []" by (simp add: list_all_iff)
    then have l: "last (dropWhile (\<lambda>c. c = ''..'') out) = last out"
      by (metis last_appendR takeWhile_dropWhile_id)
    have "proper (last (dropWhile (\<lambda>c. c = ''..'') out))"
      using assms(1) last_in_set [OF \<open>dropWhile _ out \<noteq> []\<close>] by (simp only: normal_comps_def list_all_iff)
    then have "last out \<noteq> ''..''" by (simp add: l proper_def)
    moreover have "out \<noteq> []" using n by auto
    ultimately show False using True by simp
  qed
  then show ?thesis using assms True
    by (auto simp: normal_comps_def dropWhile_snoc proper_def)
next
  case False
  then obtain ys y where out: "out = ys @ [y]" "y \<noteq> ''..''" by (metis append_butlast_last_id)
  have "normal_comps ys"
  proof (cases "list_all (\<lambda>c. c = ''..'') ys")
    case True
    then have "dropWhile (\<lambda>c. c = ''..'') ys = []" by (simp add: list_all_iff)
    then show ?thesis by (simp only: normal_comps_def list.pred_inject)
  next
    case False
    then show ?thesis using assms(1) by (simp add: out normal_comps_def dropWhile_snoc)
  qed
  then show ?thesis using assms out normal_snoc [OF assms(1), of c]
    by (simp add: proper_def)
qed

lemma clean_fold_normal:
  "normal_comps out \<Longrightarrow> \<forall>c\<in>set cs. CHR ''/'' \<notin> set c \<and> CHR 0x5C \<notin> set c \<Longrightarrow>
     normal_comps (foldl clean_step out cs)"
  by (induction cs arbitrary: out) (simp_all add: clean_step_normal del: clean_step.simps)

lemma split_on_subset: "p \<in> set (split_on c s) \<Longrightarrow> set p \<subseteq> set s"
  by (induction c s arbitrary: p rule: split_on.induct) (fastforce split: if_splits list.splits)+

lemma no_backslash: "CHR 0x5C \<notin> set (replace_backslash s)"
  by (auto simp: replace_backslash_def)

lemma clean_comps_normal: "normal_comps (clean_comps path)"
proof -
  let ?t = "unwrap_or (replace_backslash path) (strip_prefix ''./'' (replace_backslash path))"
  have "CHR 0x5C \<notin> set ?t"
    using no_backslash [of path]
    by (cases "strip_prefix ''./'' (replace_backslash path)") (auto simp: strip_prefix_eq)
  then have "\<forall>c\<in>set (split_on CHR ''/'' ?t). CHR ''/'' \<notin> set c \<and> CHR 0x5C \<notin> set c"
    using split_on_pieces split_on_subset by blast
  then show ?thesis
    unfolding clean_comps_def Let_def by (intro clean_fold_normal) (simp_all add: normal_comps_def)
qed

text \<open>The loop leaves a list in normal form as it is.\<close>

lemma clean_fold_proper: "list_all proper cs \<Longrightarrow> foldl clean_step out cs = out @ cs"
  by (induction cs arbitrary: out) (simp_all add: proper_def)

lemma clean_fold_dots:
  "list_all (\<lambda>c. c = ''..'') out \<Longrightarrow> list_all (\<lambda>c. c = ''..'') cs \<Longrightarrow> foldl clean_step out cs = out @ cs"
proof (induction cs arbitrary: out)
  case (Cons c cs)
  have "out \<noteq> [] \<Longrightarrow> last out = ''..''" using Cons.prems(1) by (auto simp: list_all_iff)
  then show ?case using Cons by auto
qed simp

lemma clean_fold_id: "normal_comps cs \<Longrightarrow> foldl clean_step [] cs = cs"
proof -
  assume n: "normal_comps cs"
  let ?d = "takeWhile (\<lambda>c. c = ''..'') cs" and ?r = "dropWhile (\<lambda>c. c = ''..'') cs"
  have "list_all (\<lambda>c. c = ''..'') ?d" by (auto simp: list_all_iff dest: set_takeWhileD)
  then have "foldl clean_step [] (?d @ ?r) = ?d @ ?r"
    using n unfolding foldl_append
    by (simp only: clean_fold_dots clean_fold_proper normal_comps_def list.pred_inject append_Nil)
  then show ?thesis by simp
qed

lemma normal_comps_mem:
  assumes "normal_comps cs" "c \<in> set cs"
  shows "c \<noteq> [] \<and> c \<noteq> ''.'' \<and> CHR ''/'' \<notin> set c \<and> CHR 0x5C \<notin> set c"
proof -
  have "c \<in> set (takeWhile (\<lambda>c. c = ''..'') cs) \<or> c \<in> set (dropWhile (\<lambda>c. c = ''..'') cs)"
    using assms(2) by (metis Un_iff set_append takeWhile_dropWhile_id)
  then show ?thesis
  proof
    assume "c \<in> set (takeWhile (\<lambda>c. c = ''..'') cs)"
    then have "c = ''..''" by (blast dest: set_takeWhileD)
    then show ?thesis by simp
  next
    assume "c \<in> set (dropWhile (\<lambda>c. c = ''..'') cs)"
    then have "proper c" using assms(1) by (simp add: normal_comps_def list_all_iff)
    then show ?thesis by (simp add: proper_def)
  qed
qed

lemma set_join_with: "c \<in> set (join_with sep xs) \<Longrightarrow> c \<in> set sep \<or> (\<exists>x\<in>set xs. c \<in> set x)"
  by (induction sep xs rule: join_with.induct) auto

lemma replace_backslash_id: "CHR 0x5C \<notin> set s \<Longrightarrow> replace_backslash s = s"
  by (induction s) (auto simp: replace_backslash_def)

lemma clean_comps_join:
  assumes n: "normal_comps cs"
  shows "clean_comps (join_with ''/'' cs) = cs"
proof (cases "cs = []")
  case False
  have nb: "CHR 0x5C \<notin> set (join_with ''/'' cs)"
    using set_join_with [of "CHR 0x5C" "''/''" cs] normal_comps_mem [OF n] by auto
  have sp: "split_on CHR ''/'' (join_with ''/'' cs) = cs"
    using False normal_comps_mem [OF n] by (intro split_on_join) auto
  have "strip_prefix ''./'' (join_with ''/'' cs) = None"
  proof (rule ccontr)
    assume "strip_prefix ''./'' (join_with ''/'' cs) \<noteq> None"
    then obtain r where "join_with ''/'' cs = ''.'' @ CHR ''/'' # r" by (auto simp: strip_prefix_eq)
    then have "cs = ''.'' # split_on CHR ''/'' r"
      using sp split_on_append [of "CHR ''/''" "''.''" r] by simp
    then show False using normal_comps_mem [OF n, of "''.''"] by simp
  qed
  then show ?thesis using nb sp clean_fold_id [OF n] by (simp add: clean_comps_def replace_backslash_id)
qed (simp add: clean_comps_def replace_backslash_def unwrap_or_def)

text \<open>
  Path cleaning reaches a normal form and keeps it: the cleaned path has no empty or \<open>.\<close>
  component and no backslash, \<open>..\<close> occurs only in front, cleaning again changes nothing, and the
  dot-path test gives the same answer on a path and on its cleaned form, so \<open>./\<close>, doubled
  separators, \<open>x/..\<close> detours and backslashes cannot smuggle a protected component past it.
\<close>

theorem clean_path_normal_form:
  "normal_comps (clean_comps path) \<and> clean_path (clean_path path) = clean_path path
   \<and> is_protected_dotpath (clean_path path) = is_protected_dotpath path"
proof -
  have idem: "clean_path (clean_path path) = clean_path path"
    by (simp add: clean_path_def clean_comps_join clean_comps_normal)
  then show ?thesis by (simp add: clean_comps_normal is_protected_dotpath_def)
qed

lemma is_protected_dotpath_comps:
  "is_protected_dotpath path =
     (let comps = clean_comps path
      in list_ex (\<lambda>c. eq_ignore_ascii_case c ''.git'' \<or> eq_ignore_ascii_case c ''.ssh'') comps
         \<or> comps \<noteq> [] \<and> (let lower = to_ascii_lowercase (last comps)
             in lower = ''.env'' \<or> starts_with ''.env.'' lower))"
proof -
  have n: "normal_comps (clean_comps path)" by (rule clean_comps_normal)
  have "filter (\<lambda>c. c \<noteq> []) (split_on CHR ''/'' (clean_path path)) = clean_comps path"
  proof (cases "clean_comps path = []")
    case False
    then have "split_on CHR ''/'' (clean_path path) = clean_comps path"
      unfolding clean_path_def using normal_comps_mem [OF n] by (intro split_on_join) auto
    then show ?thesis using normal_comps_mem [OF n] by (simp add: filter_id_conv)
  qed (simp add: clean_path_def)
  then show ?thesis by (simp add: is_protected_dotpath_def Let_def)
qed

end
