(* ===== verification/Permission.thy ===== *)
theory Permission
  imports Command_Match Path_Match
begin

text \<open>
  Permission rules (\<open>permission.rs\<close>): deny and allow rules, the destructive guards, and the tests
  on commands and paths they are made of. Rules are evaluated on the tool name and its JSON
  arguments; the decision pipeline that uses them is in \<open>Run_Context\<close>.
\<close>

datatype permission_mode = DefaultMode | AcceptEdits | Plan | Bypass | DontAsk

datatype permission_decision =
  PAllow | PDeny string | PAskUser string | PReplace json

datatype approval_outcome = ApproveAllow | ApproveDeny string

datatype tool_effect = ReadOnly | Write | SideEffect

section \<open>Deny and allow rules\<close>

datatype matcher =
    MTool string
  | MBashProgram string
  | MReadPath path_glob
  | MEditPath path_glob

datatype path_kind = ReadKind | EditKind

definition path_arg_matches :: "string \<Rightarrow> json \<Rightarrow> path_kind \<Rightarrow> path_glob \<Rightarrow> bool" where
  "path_arg_matches tool args kind glob =
     (let applies = (case kind of
          ReadKind \<Rightarrow> tool = ''Read''
        | EditKind \<Rightarrow> tool = ''Edit'' \<or> tool = ''Write'')
      in if \<not> applies then False
         else (case json_str_field ''path'' args of Some p \<Rightarrow> matches_path glob p | None \<Rightarrow> False))"

fun deny_rule_matches :: "matcher \<Rightarrow> string \<Rightarrow> json \<Rightarrow> bool" where
  "deny_rule_matches (MTool nm) tool args = (nm = tool)"
| "deny_rule_matches (MBashProgram program) tool args =
     (if tool \<noteq> ''Bash'' then False
      else (case json_str_field ''command'' args of
          None \<Rightarrow> False
        | Some command \<Rightarrow> list_ex (\<lambda>c. rc_program c = program) (resolve_all command)))"
| "deny_rule_matches (MReadPath glob) tool args = path_arg_matches tool args ReadKind glob"
| "deny_rule_matches (MEditPath glob) tool args = path_arg_matches tool args EditKind glob"

text \<open>An allow rule for a program matches only when every sub-command runs that program.\<close>

fun allow_rule_matches :: "matcher \<Rightarrow> string \<Rightarrow> json \<Rightarrow> bool" where
  "allow_rule_matches (MTool nm) tool args = (nm = tool)"
| "allow_rule_matches (MBashProgram program) tool args =
     (if tool \<noteq> ''Bash'' then False
      else (case json_str_field ''command'' args of
          None \<Rightarrow> False
        | Some command \<Rightarrow>
            (let subs = resolve_all command
             in subs \<noteq> [] \<and> list_all (\<lambda>c. rc_program c = program) subs)))"
| "allow_rule_matches (MReadPath glob) tool args = path_arg_matches tool args ReadKind glob"
| "allow_rule_matches (MEditPath glob) tool args = path_arg_matches tool args EditKind glob"

section \<open>Guards\<close>

datatype guard_action = GuardDeny string | GuardAsk string

datatype guard_matcher = RmRecursiveRootOrHome | ProtectedPathWrite | ProtectedDotPathWrite

record guard_rule =
  gr_matcher :: guard_matcher
  gr_action :: guard_action

definition PROTECTED_PREFIXES :: "string list" where
  "PROTECTED_PREFIXES = [''/etc'', ''/usr'', ''/bin'', ''/sbin'', ''/sys'', ''/boot'', ''/dev'']"

definition DEVICE_ALLOWLIST :: "string list" where
  "DEVICE_ALLOWLIST = [''/dev/null'', ''/dev/zero'', ''/dev/full'', ''/dev/stdout'',
     ''/dev/stderr'', ''/dev/tty'', ''/dev/random'', ''/dev/urandom'']"

definition bash_command_str :: "string \<Rightarrow> json \<Rightarrow> string option" where
  "bash_command_str tool args = (if tool \<noteq> ''Bash'' then None else json_str_field ''command'' args)"

definition is_root_or_home :: "string \<Rightarrow> bool" where
  "is_root_or_home target =
     (target \<in> set [''/'', ''/*'', ''~'', ''~/'', ''${HOME}'', ''$HOME''])"

text \<open>The argument loop: recursive flag, force flag, targets.\<close>

fun rm_scan :: "bool \<times> bool \<times> string list \<Rightarrow> string \<Rightarrow> bool \<times> bool \<times> string list" where
  "rm_scan (recursive, force, targets) a =
     (if starts_with ''--'' a then
        (recursive \<or> a = ''--recursive'', force \<or> a = ''--force'', targets)
      else (case strip_prefix ''-'' a of
          Some flags \<Rightarrow> (recursive \<or> CHR ''r'' \<in> set flags \<or> CHR ''R'' \<in> set flags,
                         force \<or> CHR ''f'' \<in> set flags, targets)
        | None \<Rightarrow> (recursive, force, targets @ [a])))"

definition is_rm_rf_root_or_home :: "resolved_command \<Rightarrow> bool" where
  "is_rm_rf_root_or_home cmd =
     (if rc_program cmd \<noteq> ''rm'' then False
      else (case foldl rm_scan (False, False, []) (rc_args cmd) of
          (recursive, force, targets) \<Rightarrow> recursive \<and> force \<and> list_ex is_root_or_home targets))"

definition is_protected_path :: "string \<Rightarrow> bool" where
  "is_protected_path path =
     (if path \<in> set DEVICE_ALLOWLIST then False
      else if path = ''/'' then True
      else list_ex (\<lambda>p. path = p \<or> starts_with (p @ ''/'') path) PROTECTED_PREFIXES)"

text \<open>The write targets of one command that both write guards test: redirections, \<open>tee\<close>, \<open>dd of=\<close>.\<close>

definition command_writes :: "(string \<Rightarrow> bool) \<Rightarrow> resolved_command \<Rightarrow> bool" where
  "command_writes guarded c =
     (list_ex (\<lambda>r. (rd_op r = Out \<or> rd_op r = Append) \<and> guarded (rd_target r)) (rc_redirects c)
      \<or> rc_program c = ''tee'' \<and> list_ex guarded (rc_args c)
      \<or> rc_program c = ''dd'' \<and>
          (case find_map (strip_prefix ''of='') (rc_args c) of Some t \<Rightarrow> guarded t | None \<Rightarrow> False))"

definition protected_path_write :: "string \<Rightarrow> json \<Rightarrow> bool" where
  "protected_path_write tool args =
     (case (if tool = ''Write'' \<or> tool = ''Edit'' then json_str_field ''path'' args else None) of
        Some p \<Rightarrow> is_protected_path p
      | None \<Rightarrow> (case bash_command_str tool args of
            Some cmd \<Rightarrow> list_ex (command_writes is_protected_path) (resolve_all cmd)
          | None \<Rightarrow> False))"

definition protected_dotpath_write :: "string \<Rightarrow> json \<Rightarrow> bool" where
  "protected_dotpath_write tool args =
     ((case (if tool = ''Write'' \<or> tool = ''Edit'' then json_str_field ''path'' args else None) of
        Some p \<Rightarrow> is_protected_dotpath p
      | None \<Rightarrow> False)
      \<or> (case bash_command_str tool args of
            Some cmd \<Rightarrow> list_ex (command_writes is_protected_dotpath) (resolve_all cmd)
          | None \<Rightarrow> False))"

definition guard_matches :: "guard_rule \<Rightarrow> string \<Rightarrow> json \<Rightarrow> bool" where
  "guard_matches g tool args =
     (case gr_matcher g of
        RmRecursiveRootOrHome \<Rightarrow> (case bash_command_str tool args of
            None \<Rightarrow> False
          | Some cmd \<Rightarrow> list_ex is_rm_rf_root_or_home (resolve_all cmd))
      | ProtectedPathWrite \<Rightarrow> protected_path_write tool args
      | ProtectedDotPathWrite \<Rightarrow> protected_dotpath_write tool args)"

definition destructive_defaults :: "guard_rule list" where
  "destructive_defaults =
     [\<lparr>gr_matcher = RmRecursiveRootOrHome,
       gr_action = GuardAsk ''destructive command: recursive force-remove of / or ~''\<rparr>,
      \<lparr>gr_matcher = ProtectedPathWrite,
       gr_action = GuardAsk ''write to a protected system path''\<rparr>,
      \<lparr>gr_matcher = ProtectedDotPathWrite,
       gr_action = GuardAsk ''write to a protected VCS/secret path (.git, .ssh, .env)''\<rparr>]"

section \<open>What the rules see\<close>

text \<open>The flags accumulate, in any order and grouping.\<close>

definition rm_recursive_flag :: "string \<Rightarrow> bool" where
  "rm_recursive_flag a = (a = ''--recursive''
     \<or> \<not> starts_with ''--'' a \<and> starts_with ''-'' a \<and> (CHR ''r'' \<in> set a \<or> CHR ''R'' \<in> set a))"

definition rm_force_flag :: "string \<Rightarrow> bool" where
  "rm_force_flag a = (a = ''--force'' \<or> \<not> starts_with ''--'' a \<and> starts_with ''-'' a \<and> CHR ''f'' \<in> set a)"

lemma rm_scan_step:
  "rm_scan (r, f, ts) a =
     (r \<or> rm_recursive_flag a, f \<or> rm_force_flag a, if starts_with ''-'' a then ts else ts @ [a])"
proof (cases "strip_prefix ''-'' a")
  case None
  then have "\<not> starts_with ''-'' a" by (simp add: starts_with_def)
  moreover then have "\<not> starts_with ''--'' a" by (cases a) (auto simp: starts_with_def split: if_splits)
  ultimately show ?thesis using None
    by (auto simp: rm_recursive_flag_def rm_force_flag_def starts_with_def)
next
  case (Some flags)
  then have "a = CHR ''-'' # flags" by (simp add: strip_prefix_eq)
  then show ?thesis
    by (auto simp: rm_recursive_flag_def rm_force_flag_def starts_with_def)
qed

lemma rm_scan_fold:
  "foldl rm_scan (r, f, ts) args =
     (r \<or> list_ex rm_recursive_flag args, f \<or> list_ex rm_force_flag args,
      ts @ filter (\<lambda>a. \<not> starts_with ''-'' a) args)"
  by (induction args arbitrary: r f ts) (simp_all add: rm_scan_step del: rm_scan.simps)

lemma is_rm_rf_iff:
  "is_rm_rf_root_or_home cmd \<longleftrightarrow>
     rc_program cmd = ''rm'' \<and> list_ex rm_recursive_flag (rc_args cmd)
     \<and> list_ex rm_force_flag (rc_args cmd)
     \<and> list_ex is_root_or_home (filter (\<lambda>a. \<not> starts_with ''-'' a) (rc_args cmd))"
  by (simp add: is_rm_rf_root_or_home_def rm_scan_fold)

text \<open>
  The recursive-remove guard is a statement about the argument set: it trips exactly when a
  resolved \<open>rm\<close> carries a recursive flag, a force flag (long, short or grouped) and a root or
  home target that is not an option, in whatever order they are given.
\<close>

theorem rm_guard_order_independent:
  "is_rm_rf_root_or_home cmd \<longleftrightarrow>
     rc_program cmd = ''rm''
     \<and> (\<exists>a\<in>set (rc_args cmd). rm_recursive_flag a) \<and> (\<exists>a\<in>set (rc_args cmd). rm_force_flag a)
     \<and> (\<exists>a\<in>set (rc_args cmd). \<not> starts_with ''-'' a \<and> is_root_or_home a)"
  by (auto simp: is_rm_rf_iff list_ex_iff)

text \<open>
  The path guard compares the target as written; a doubled slash or a detour through a parent
  directory names the same file and is not matched, and a program given by its path is not the
  program name the rules compare.
\<close>

lemma protected_path_lexical:
  "is_protected_path ''/etc/passwd'' \<and> \<not> is_protected_path ''//etc/passwd''
   \<and> \<not> is_protected_path ''/tmp/../etc/passwd''"
  by code_simp

lemma rm_by_path_not_guarded:
  "\<not> list_ex is_rm_rf_root_or_home (resolve_all ''/bin/rm -rf /'')"
  by code_simp

end
