(* ===== verification/Messages.thy ===== *)
theory Messages
  imports Helikon_Prelude
begin

text \<open>
  The data that crosses the component boundaries of \<open>paigasus-helikon-core\<close>: conversation
  items (\<open>item.rs\<close>), model requests, events and errors (\<open>model.rs\<close>), token usage
  (\<open>runner.rs\<close>), the agent event stream and agent errors (\<open>agent.rs\<close>), with the renderings
  (\<open>Display\<close>) the code puts into events, and the token estimate of \<open>token_counter.rs\<close>.
\<close>

section \<open>Conversation items\<close>

datatype media_source = Url string | Base64 string string

datatype content_part =
    Text string
  | Image media_source
  | Audio media_source
  | ToolUse string string json
  | ToolResultPart string "content_part list"
  | Reasoning string

datatype item =
    UserMessage "content_part list"
  | AssistantMessage "content_part list" "string option"
  | System "content_part list"
  | ToolCall string string json
  | ToolResult string "content_part list"

fun is_tool_call :: "item \<Rightarrow> bool" where
  "is_tool_call (ToolCall _ _ _) = True"
| "is_tool_call _ = False"

fun is_assistant :: "item \<Rightarrow> bool" where
  "is_assistant (AssistantMessage _ _) = True"
| "is_assistant _ = False"

text \<open>The concatenated \<open>Text\<close> parts of a content list.\<close>

fun text_of_part :: "content_part \<Rightarrow> string" where
  "text_of_part (Text t) = t"
| "text_of_part _ = []"

definition flatten_text :: "content_part list \<Rightarrow> string" where
  "flatten_text content = concat (map text_of_part content)"

section \<open>Token usage\<close>

datatype token_usage = TokenUsage
  (input_tokens: u64)
  (output_tokens: u64)
  (cached_input_tokens: u64)
  (reasoning_tokens: u64)
  (total_tokens: u64)

definition usage_default :: token_usage where
  "usage_default = TokenUsage 0 0 0 0 0"

definition usage_add :: "token_usage \<Rightarrow> token_usage \<Rightarrow> token_usage" where
  "usage_add a b = TokenUsage
     (input_tokens a + input_tokens b)
     (output_tokens a + output_tokens b)
     (cached_input_tokens a + cached_input_tokens b)
     (reasoning_tokens a + reasoning_tokens b)
     (total_tokens a + total_tokens b)"

text \<open>
  Usage records form a commutative monoid under \<open>usage_add\<close>, so totals over a run are
  \<open>sum_list\<close>s and the order in which concurrent branches report does not matter.
\<close>

instantiation token_usage :: comm_monoid_add
begin

definition zero_token_usage :: token_usage where
  "zero_token_usage = usage_default"

definition plus_token_usage :: "token_usage \<Rightarrow> token_usage \<Rightarrow> token_usage" where
  "plus_token_usage a b = usage_add a b"

instance
  by standard (auto simp: zero_token_usage_def plus_token_usage_def usage_add_def
      usage_default_def add.assoc add.commute intro: token_usage.expand)

end

lemma usage_plus_sel [simp]:
  "input_tokens (a + b) = input_tokens a + input_tokens b"
  "output_tokens (a + b) = output_tokens a + output_tokens b"
  "total_tokens (a + b) = total_tokens a + total_tokens b"
  by (simp_all add: plus_token_usage_def usage_add_def)

lemma usage_zero_sel [simp]:
  "input_tokens 0 = 0" "output_tokens 0 = 0" "total_tokens 0 = 0"
  by (simp_all add: zero_token_usage_def usage_default_def)

lemma usage_add_plus [simp]: "usage_add a b = a + b"
  by (simp add: plus_token_usage_def)

lemma usage_default_zero [simp]: "usage_default = 0"
  by (simp add: zero_token_usage_def)

section \<open>Model requests and events\<close>

datatype tool_choice = Auto | Required | NoTool | ToolNamed string

datatype response_format = TextFormat | JsonObjectFormat | JsonSchemaFormat string json bool

record tool_def =
  td_name :: string
  td_description :: string
  td_schema :: json

record model_settings =
  ms_temperature :: "f32 option"
  ms_top_p :: "f32 option"
  ms_max_output_tokens :: "u32 option"
  ms_tool_choice :: "tool_choice option"
  ms_response_format :: "response_format option"
  ms_previous_response_id :: "string option"

definition model_settings_default :: model_settings where
  "model_settings_default = \<lparr>ms_temperature = None, ms_top_p = None, ms_max_output_tokens = None,
     ms_tool_choice = None, ms_response_format = None, ms_previous_response_id = None\<rparr>"

record model_request =
  mr_messages :: "item list"
  mr_tools :: "tool_def list"
  mr_model_settings :: model_settings

datatype finish_reason = Stop | Length | ToolCalls | ContentFilter | OtherReason string

datatype model_event =
    MTokenDelta string
  | MReasoningDelta string
  | MToolCallDelta string "string option" string
  | MUsage u32 u32 "u32 option" "u32 option"
  | MFinish finish_reason

section \<open>Errors\<close>

datatype model_error =
    Unavailable
  | RateLimited "u64 option"
  | ContextLengthExceeded
  | Refused string
  | Transport string
  | ModelOther string

datatype tool_error = InvalidArgs "string list" | ToolDenied string | ToolOther string

datatype session_error = SessionUnavailable | SessionBackend string | SessionOther string

datatype guardrail_kind = InputPolicy | OutputPolicy | OtherKind string

datatype agent_error =
    ModelFailed model_error
  | ToolFailed tool_error
  | SessionFailed session_error
  | Guardrail guardrail_kind
  | HookDenied string string
  | InvalidStructuredOutput "string list" string
  | MaxTurnsExceeded u32
  | MaxIterationsExceeded u32
  | NotImplemented string
  | MaxAgentDepthExceeded u32 u32
  | MaxHandoffsExceeded u32
  | OtherError string

subsection \<open>Rendering\<close>

definition dbg_strings :: "ext \<Rightarrow> string list \<Rightarrow> string" where
  "dbg_strings E xs = ''['' @ join_with '', '' (map (dbg_str E) xs) @ '']''"

fun dbg_guardrail_kind :: "ext \<Rightarrow> guardrail_kind \<Rightarrow> string" where
  "dbg_guardrail_kind E InputPolicy = ''InputPolicy''"
| "dbg_guardrail_kind E OutputPolicy = ''OutputPolicy''"
| "dbg_guardrail_kind E (OtherKind r) = ''Other { reason: '' @ dbg_str E r @ '' }''"

fun model_error_display :: "model_error \<Rightarrow> string" where
  "model_error_display Unavailable = ''model provider unavailable''"
| "model_error_display (RateLimited ms) = ''rate limited (retry after '' @
     (case ms of None \<Rightarrow> ''None'' | Some n \<Rightarrow> ''Some('' @ show_nat (unat n) @ '')'') @ '' ms)''"
| "model_error_display ContextLengthExceeded = ''context length exceeded''"
| "model_error_display (Refused reason) = ''model refused: '' @ reason"
| "model_error_display (Transport e) = ''transport error: '' @ e"
| "model_error_display (ModelOther e) = e"

fun tool_error_display :: "ext \<Rightarrow> tool_error \<Rightarrow> string" where
  "tool_error_display E (InvalidArgs es) = ''invalid tool arguments: '' @ dbg_strings E es"
| "tool_error_display E (ToolDenied reason) = ''operation denied: '' @ reason"
| "tool_error_display E (ToolOther e) = e"

fun session_error_display :: "session_error \<Rightarrow> string" where
  "session_error_display SessionUnavailable = ''session backend unavailable''"
| "session_error_display (SessionBackend e) = e"
| "session_error_display (SessionOther e) = e"

fun agent_error_display :: "ext \<Rightarrow> agent_error \<Rightarrow> string" where
  "agent_error_display E (ModelFailed e) = ''model failed: '' @ model_error_display e"
| "agent_error_display E (ToolFailed e) = ''tool failed: '' @ tool_error_display E e"
| "agent_error_display E (SessionFailed e) = ''session failed: '' @ session_error_display e"
| "agent_error_display E (Guardrail k) = ''guardrail tripped: '' @ dbg_guardrail_kind E k"
| "agent_error_display E (HookDenied event reason) =
     ''hook denied '' @ event @ '': '' @ reason"
| "agent_error_display E (InvalidStructuredOutput es _) =
     ''invalid structured output after one repair attempt: '' @ dbg_strings E es"
| "agent_error_display E (MaxTurnsExceeded n) = ''max turns ('' @ show_u32 n @ '') exceeded''"
| "agent_error_display E (MaxIterationsExceeded n) =
     ''max iterations ('' @ show_u32 n @ '') exceeded''"
| "agent_error_display E (NotImplemented feature) = ''not yet implemented: '' @ feature"
| "agent_error_display E (MaxAgentDepthExceeded depth mx) =
     ''agent nesting depth ('' @ show_u32 depth @ '') exceeded max ('' @ show_u32 mx @ '')''"
| "agent_error_display E (MaxHandoffsExceeded limit) =
     ''max handoffs ('' @ show_u32 limit @ '') exceeded''"
| "agent_error_display E (OtherError e) = e"

section \<open>The agent event stream\<close>

datatype agent_event =
    RunStarted string
  | TurnStarted u32
  | TokenDelta string
  | ReasoningDelta string
  | ToolCallDelta string "string option" string
  | MessageOutput item
  | ToolCallItem item
  | ToolOutputItem item
  | HandoffItem string string
  | AgentUpdated string
  | GuardrailTriggered guardrail_kind json
  | ApprovalRequested string string json
  | PermissionDenied string string
  | RepairStarted u32
  | StructuredOutputFailed "string list" string
  | RunCompleted token_usage
  | RunFailed string

definition is_terminal :: "agent_event \<Rightarrow> bool" where
  "is_terminal e = (case e of RunCompleted _ \<Rightarrow> True | RunFailed _ \<Rightarrow> True | _ \<Rightarrow> False)"

lemma is_terminal_simps [simp]:
  "is_terminal (RunCompleted u)" "is_terminal (RunFailed m)"
  "\<not> is_terminal (RunStarted a)" "\<not> is_terminal (TurnStarted t)"
  "\<not> is_terminal (TokenDelta x)" "\<not> is_terminal (ReasoningDelta x)"
  "\<not> is_terminal (ToolCallDelta c n d)" "\<not> is_terminal (MessageOutput i)"
  "\<not> is_terminal (ToolCallItem i)" "\<not> is_terminal (ToolOutputItem i)"
  "\<not> is_terminal (HandoffItem f t')" "\<not> is_terminal (AgentUpdated a)"
  "\<not> is_terminal (GuardrailTriggered k info)" "\<not> is_terminal (ApprovalRequested c nm args)"
  "\<not> is_terminal (PermissionDenied nm r)" "\<not> is_terminal (RepairStarted att)"
  "\<not> is_terminal (StructuredOutputFailed es ft)"
  by (simp_all add: is_terminal_def)

section \<open>Token estimation\<close>

text \<open>
  \<open>HeuristicTokenCounter\<close>: a quarter of the scalar count of the text-bearing fields, rounded up.
  \<open>usize\<close> arithmetic is on \<open>nat\<close>: the sums are lengths of text held in memory.
\<close>

definition json_chars :: "ext \<Rightarrow> json \<Rightarrow> nat" where
  "json_chars E v = char_count (to_string E v)"

fun part_chars :: "ext \<Rightarrow> content_part \<Rightarrow> nat" where
  "part_chars E (Text t) = char_count t"
| "part_chars E (Reasoning t) = char_count t"
| "part_chars E (ToolUse _ n args) = char_count n + json_chars E args"
| "part_chars E (ToolResultPart _ content) = sum_list (map (part_chars E) content)"
| "part_chars E (Image _) = 0"
| "part_chars E (Audio _) = 0"

fun item_chars :: "ext \<Rightarrow> item \<Rightarrow> nat" where
  "item_chars E (UserMessage content) = sum_list (map (part_chars E) content)"
| "item_chars E (AssistantMessage content _) = sum_list (map (part_chars E) content)"
| "item_chars E (System content) = sum_list (map (part_chars E) content)"
| "item_chars E (ToolResult _ content) = sum_list (map (part_chars E) content)"
| "item_chars E (ToolCall _ n args) = char_count n + json_chars E args"

definition heuristic_count :: "ext \<Rightarrow> item list \<Rightarrow> nat" where
  "heuristic_count E items = (sum_list (map (item_chars E) items) + 3) div 4"

end
