(* ===== verification/Run_Context.thy ===== *)
theory Run_Context
  imports Permission Messages
begin

text \<open>
  The run context (\<open>context.rs\<close>, with the parts of \<open>tool.rs\<close>, \<open>state.rs\<close>, \<open>runner.rs\<close> and
  \<open>agent_as_tool.rs\<close> it is projected to): what a run carries, the contexts derived for handoffs,
  sub-agents and tools, and the authorization pipeline. Shared handles (\<open>Arc\<close> and the slots behind
  them) are addresses, so sharing and freshness are visible. Policies, approval handlers and hooks
  are code of the application and so are parameters; handlers and hooks take the number of
  earlier questions, so that their answers may change over time.
\<close>

section \<open>State\<close>

text \<open>\<open>RunConfig\<close>; a timeout is in milliseconds and the tool-call limit is never 0.\<close>

record run_config =
  cfg_max_turns :: u32
  cfg_timeout :: "nat option"
  cfg_parallel_tool_call_limit :: "nat option"
  cfg_max_agent_depth :: u32

definition run_config_default :: run_config where
  "run_config_default = \<lparr>cfg_max_turns = 16, cfg_timeout = None,
     cfg_parallel_tool_call_limit = None, cfg_max_agent_depth = 8\<rparr>"

record tracer_handle =
  tr_session_id :: "string option"
  tr_user_id :: "string option"
  tr_tags :: "string list"

definition tracer_default :: tracer_handle where
  "tracer_default = \<lparr>tr_session_id = None, tr_user_id = None, tr_tags = []\<rparr>"

datatype hook_event =
    OnRunStart
  | OnTurnStart u32
  | PreToolUse string json
  | PostToolUse string json
  | OnHandoff string string
  | OnRunComplete
  | OnSubagentStop string

datatype hook_decision =
  HAllow | HDeny string | HReplaceInput json | HReplaceOutput json | HInject string

type_synonym addr = nat

text \<open>
  The permission, guard and redaction settings that are data; the context extends them by the
  application's code, which may read this part of the context.
\<close>

record 'u run_scope =
  rx_user_ctx :: 'u
  rx_session :: addr
  rx_tracer :: tracer_handle
  rx_cancel :: addr
  rx_run_config :: "run_config option"
  rx_failure :: addr
  rx_agent_depth :: u32
  rx_state :: addr
  rx_actions :: addr
  rx_permission_mode :: permission_mode
  rx_deny_rules :: "matcher list"
  rx_allow_rules :: "matcher list"
  rx_guard_rules :: "guard_rule list"
  rx_default_guards :: bool
  rx_redact_output :: bool
  rx_extra_secrets :: "string list"

type_synonym 'u hook_fn = "nat \<Rightarrow> 'u run_scope \<Rightarrow> hook_event \<Rightarrow> hook_decision"
type_synonym 'u policy_fn = "'u run_scope \<Rightarrow> string \<Rightarrow> json \<Rightarrow> permission_decision"
type_synonym approval_fn = "nat \<Rightarrow> string \<Rightarrow> string \<Rightarrow> json \<Rightarrow> approval_outcome"

record 'u run_context = "'u run_scope" +
  rx_hooks :: "'u hook_fn list"
  rx_permission_policy :: "'u policy_fn option"
  rx_approval_handler :: "approval_fn option"

definition scope_of :: "'u run_context \<Rightarrow> 'u run_scope" where
  "scope_of ctx = run_scope.truncate ctx"

text \<open>\<open>RunContext::new\<close>; the addresses of the fresh slots are given by the caller.\<close>

definition run_context_new ::
  "'u \<Rightarrow> addr \<Rightarrow> 'u hook_fn list \<Rightarrow> tracer_handle \<Rightarrow> addr \<Rightarrow> addr \<Rightarrow> addr \<Rightarrow> addr \<Rightarrow> 'u run_context" where
  "run_context_new user session hooks tracer cancel failure state actions =
     \<lparr>rx_user_ctx = user, rx_session = session, rx_tracer = tracer, rx_cancel = cancel,
      rx_run_config = None, rx_failure = failure, rx_agent_depth = 0, rx_state = state,
      rx_actions = actions, rx_permission_mode = DefaultMode, rx_deny_rules = [],
      rx_allow_rules = [], rx_guard_rules = [], rx_default_guards = True,
      rx_redact_output = True, rx_extra_secrets = [], rx_hooks = hooks,
      rx_permission_policy = None, rx_approval_handler = None\<rparr>"

definition saturating_succ :: "u32 \<Rightarrow> u32" where
  "saturating_succ d = (if d = - 1 then d else d + 1)"

definition handoff_child :: "'u run_context \<Rightarrow> 'u run_context" where
  "handoff_child ctx = ctx\<lparr>rx_agent_depth := saturating_succ (rx_agent_depth ctx)\<rparr>"

definition subagent_child :: "addr \<Rightarrow> addr \<Rightarrow> 'u run_context \<Rightarrow> 'u run_context" where
  "subagent_child failure actions ctx =
     ctx\<lparr>rx_failure := failure, rx_agent_depth := saturating_succ (rx_agent_depth ctx),
         rx_actions := actions\<rparr>"

definition with_run_config :: "run_config \<Rightarrow> 'u run_context \<Rightarrow> 'u run_context" where
  "with_run_config config ctx = ctx\<lparr>rx_run_config := Some config\<rparr>"

fun mode_change_allowed :: "permission_mode \<Rightarrow> permission_mode \<Rightarrow> bool" where
  "mode_change_allowed DontAsk _ = False"
| "mode_change_allowed Bypass DontAsk = True"
| "mode_change_allowed Bypass _ = False"
| "mode_change_allowed _ _ = True"

definition with_permission_mode :: "permission_mode \<Rightarrow> 'u run_context \<Rightarrow> 'u run_context" where
  "with_permission_mode mode ctx =
     (if mode_change_allowed (rx_permission_mode ctx) mode
      then ctx\<lparr>rx_permission_mode := mode\<rparr> else ctx)"

definition with_extra_secrets :: "string list \<Rightarrow> 'u run_context \<Rightarrow> 'u run_context" where
  "with_extra_secrets secrets ctx = ctx\<lparr>rx_extra_secrets := rx_extra_secrets ctx @ secrets\<rparr>"

section \<open>Authorization\<close>

text \<open>The guard loop: \<open>Inl\<close> is an early return, \<open>Inr\<close> the number of approvals asked for so far.\<close>

fun run_guards ::
  "approval_fn option \<Rightarrow> string \<Rightarrow> json \<Rightarrow> nat \<Rightarrow> guard_rule list \<Rightarrow> permission_decision + nat" where
  "run_guards handler tool args n [] = Inr n"
| "run_guards handler tool args n (g # gs) =
     (if guard_matches g tool args then
        (case gr_action g of
           GuardDeny reason \<Rightarrow> Inl (PDeny reason)
         | GuardAsk prompt \<Rightarrow>
             (case handler of
                None \<Rightarrow> Inl (PDeny (''destructive command requires approval: '' @ prompt))
              | Some decide \<Rightarrow>
                  (case decide n tool prompt args of
                     ApproveAllow \<Rightarrow> run_guards handler tool args (Suc n) gs
                   | ApproveDeny reason \<Rightarrow> Inl (PDeny reason))))
      else run_guards handler tool args n gs)"

definition active_guards :: "'u run_context \<Rightarrow> guard_rule list" where
  "active_guards ctx = (if rx_default_guards ctx then destructive_defaults else []) @ rx_guard_rules ctx"

text \<open>The mode step: \<open>None\<close> falls through to the policy.\<close>

definition mode_step :: "permission_mode \<Rightarrow> string \<Rightarrow> tool_effect \<Rightarrow> permission_decision option" where
  "mode_step mode tool effect =
     (case mode of
        Bypass \<Rightarrow> Some PAllow
      | Plan \<Rightarrow> (if effect \<noteq> ReadOnly
          then Some (PDeny (''Plan mode forbids the side-effecting tool `'' @ tool @ ''`'')) else None)
      | AcceptEdits \<Rightarrow> (if effect = Write then Some PAllow else None)
      | DontAsk \<Rightarrow> Some (PDeny (''DontAsk mode: no allow rule matched `'' @ tool @ ''`''))
      | DefaultMode \<Rightarrow> None)"

definition resolve_ask ::
  "approval_fn option \<Rightarrow> string \<Rightarrow> json \<Rightarrow> nat \<Rightarrow> permission_decision \<Rightarrow> permission_decision" where
  "resolve_ask handler tool args n decision =
     (case decision of
        PAskUser prompt \<Rightarrow>
          (case handler of
             None \<Rightarrow> PDeny ''no approval handler installed''
           | Some decide \<Rightarrow> (case decide n tool prompt args of
                 ApproveAllow \<Rightarrow> PAllow | ApproveDeny reason \<Rightarrow> PDeny reason))
      | other \<Rightarrow> other)"

definition authorize_tool :: "'u run_context \<Rightarrow> string \<Rightarrow> tool_effect \<Rightarrow> json \<Rightarrow> permission_decision" where
  "authorize_tool ctx tool effect args =
     (if list_ex (\<lambda>r. deny_rule_matches r tool args) (rx_deny_rules ctx)
      then PDeny (''denied by deny rule: '' @ tool)
      else (case run_guards (rx_approval_handler ctx) tool args 0 (active_guards ctx) of
          Inl d \<Rightarrow> d
        | Inr n \<Rightarrow>
            (if list_ex (\<lambda>r. allow_rule_matches r tool args) (rx_allow_rules ctx) then PAllow
             else (case mode_step (rx_permission_mode ctx) tool effect of
                 Some d \<Rightarrow> d
               | None \<Rightarrow> (case rx_permission_policy ctx of
                     None \<Rightarrow> PAllow
                   | Some check \<Rightarrow> resolve_ask (rx_approval_handler ctx) tool args n
                       (check (scope_of ctx) tool args))))))"

section \<open>Tool contexts and agents as tools\<close>

text \<open>
  \<open>ToolContext\<close> has the fields of the run context but the session, the run configuration and the
  failure slot, and the depth bound in their place.
\<close>

record 'u tool_context =
  tc_user_ctx :: 'u
  tc_tracer :: tracer_handle
  tc_cancel :: addr
  tc_agent_depth :: u32
  tc_max_agent_depth :: u32
  tc_state :: addr
  tc_actions :: addr
  tc_hooks :: "'u hook_fn list"
  tc_permission_mode :: permission_mode
  tc_permission_policy :: "'u policy_fn option"
  tc_deny_rules :: "matcher list"
  tc_allow_rules :: "matcher list"
  tc_approval_handler :: "approval_fn option"
  tc_guard_rules :: "guard_rule list"
  tc_default_guards :: bool
  tc_redact_output :: bool
  tc_extra_secrets :: "string list"

definition to_tool_context :: "addr \<Rightarrow> 'u run_context \<Rightarrow> 'u tool_context" where
  "to_tool_context child_token ctx =
     \<lparr>tc_user_ctx = rx_user_ctx ctx, tc_tracer = rx_tracer ctx, tc_cancel = child_token,
      tc_agent_depth = rx_agent_depth ctx,
      tc_max_agent_depth = (case rx_run_config ctx of
          Some c \<Rightarrow> cfg_max_agent_depth c | None \<Rightarrow> cfg_max_agent_depth run_config_default),
      tc_state = rx_state ctx, tc_actions = rx_actions ctx, tc_hooks = rx_hooks ctx,
      tc_permission_mode = rx_permission_mode ctx,
      tc_permission_policy = rx_permission_policy ctx, tc_deny_rules = rx_deny_rules ctx,
      tc_allow_rules = rx_allow_rules ctx, tc_approval_handler = rx_approval_handler ctx,
      tc_guard_rules = rx_guard_rules ctx, tc_default_guards = rx_default_guards ctx,
      tc_redact_output = rx_redact_output ctx, tc_extra_secrets = rx_extra_secrets ctx\<rparr>"

text \<open>The isolated context an agent exposed as a tool runs in; the new session and slots are fresh.\<close>

definition agent_tool_context ::
  "addr \<Rightarrow> addr \<Rightarrow> addr \<Rightarrow> addr \<Rightarrow> 'u tool_context \<Rightarrow> 'u run_context" where
  "agent_tool_context session failure state actions tc =
     (let c0 = run_context_new (tc_user_ctx tc) session [] (tc_tracer tc) (tc_cancel tc)
                 failure state actions;
          c1 = with_permission_mode (tc_permission_mode tc)
                 (c0\<lparr>rx_agent_depth := tc_agent_depth tc + 1\<rparr>);
          c2 = with_extra_secrets (tc_extra_secrets tc)
                 (c1\<lparr>rx_deny_rules := tc_deny_rules tc, rx_allow_rules := tc_allow_rules tc,
                     rx_guard_rules := tc_guard_rules tc\<rparr>);
          c3 = (case tc_permission_policy tc of Some p \<Rightarrow> c2\<lparr>rx_permission_policy := Some p\<rparr> | None \<Rightarrow> c2);
          c4 = (case tc_approval_handler tc of Some h \<Rightarrow> c3\<lparr>rx_approval_handler := Some h\<rparr> | None \<Rightarrow> c3);
          c5 = (if \<not> tc_default_guards tc then c4\<lparr>rx_default_guards := False\<rparr> else c4)
      in if \<not> tc_redact_output tc then c5\<lparr>rx_redact_output := False\<rparr> else c5)"

section \<open>What is permitted\<close>

fun permits :: "permission_decision \<Rightarrow> bool" where
  "permits PAllow = True"
| "permits (PReplace _) = True"
| "permits _ = False"

fun is_deny :: "permission_decision \<Rightarrow> bool" where
  "is_deny (PDeny _) = True"
| "is_deny _ = False"

definition approved_at :: "approval_fn option \<Rightarrow> string \<Rightarrow> json \<Rightarrow> nat \<Rightarrow> guard_rule \<Rightarrow> bool" where
  "approved_at handler tool args n g =
     (case (gr_action g, handler) of
        (GuardAsk prompt, Some decide) \<Rightarrow> decide n tool prompt args = ApproveAllow
      | _ \<Rightarrow> False)"

definition matching_guards :: "'u run_context \<Rightarrow> string \<Rightarrow> json \<Rightarrow> guard_rule list" where
  "matching_guards ctx tool args = filter (\<lambda>g. guard_matches g tool args) (active_guards ctx)"

text \<open>Every guard that matches asks, and the handler approves each of them in turn.\<close>

fun all_approved :: "approval_fn option \<Rightarrow> string \<Rightarrow> json \<Rightarrow> nat \<Rightarrow> guard_rule list \<Rightarrow> bool" where
  "all_approved handler tool args n [] = True"
| "all_approved handler tool args n (g # gs) =
     (approved_at handler tool args n g \<and> all_approved handler tool args (Suc n) gs)"

lemma run_guards_approved:
  "all_approved h tool args n (filter (\<lambda>g. guard_matches g tool args) gs) \<Longrightarrow>
     run_guards h tool args n gs = Inr (n + length (filter (\<lambda>g. guard_matches g tool args) gs))"
  by (induction gs arbitrary: n)
    (auto simp: approved_at_def split: guard_action.splits option.splits approval_outcome.splits)

lemma run_guards_Inl:
  "run_guards h tool args n gs = Inl d \<Longrightarrow>
     is_deny d \<and> \<not> all_approved h tool args n (filter (\<lambda>g. guard_matches g tool args) gs)"
  by (induction gs arbitrary: n)
    (auto simp: approved_at_def split: if_splits guard_action.splits option.splits approval_outcome.splits)

lemma run_guards_cases:
  obtains (blocked) d where "run_guards (rx_approval_handler ctx) tool args 0 (active_guards ctx) = Inl d"
      "is_deny d" "\<not> all_approved (rx_approval_handler ctx) tool args 0 (matching_guards ctx tool args)"
  | (passed) "run_guards (rx_approval_handler ctx) tool args 0 (active_guards ctx)
        = Inr (length (matching_guards ctx tool args))"
      "all_approved (rx_approval_handler ctx) tool args 0 (matching_guards ctx tool args)"
proof (cases "all_approved (rx_approval_handler ctx) tool args 0 (matching_guards ctx tool args)")
  case True
  then show ?thesis using passed run_guards_approved [of "rx_approval_handler ctx" tool args 0 "active_guards ctx"]
    by (simp add: matching_guards_def)
next
  case False
  show ?thesis
  proof (cases "run_guards (rx_approval_handler ctx) tool args 0 (active_guards ctx)")
    case (Inl d)
    then show ?thesis using blocked run_guards_Inl by (fastforce simp: matching_guards_def)
  next
    case (Inr m)
    have "run_guards h tool args n gs = Inr k \<Longrightarrow>
        all_approved h tool args n (filter (\<lambda>g. guard_matches g tool args) gs)" for h n k gs
      by (induction gs arbitrary: n)
        (auto simp: approved_at_def split: if_splits guard_action.splits option.splits approval_outcome.splits)
    with Inr False show ?thesis by (simp add: matching_guards_def)
  qed
qed

definition policy_permits :: "'u run_context \<Rightarrow> string \<Rightarrow> json \<Rightarrow> nat \<Rightarrow> bool" where
  "policy_permits ctx tool args n =
     (case rx_permission_policy ctx of
        None \<Rightarrow> True
      | Some check \<Rightarrow> permits (resolve_ask (rx_approval_handler ctx) tool args n
          (check (scope_of ctx) tool args)))"

definition mode_permits :: "permission_mode \<Rightarrow> tool_effect \<Rightarrow> bool \<Rightarrow> bool" where
  "mode_permits mode effect policy_ok =
     (mode = Bypass \<or> mode = AcceptEdits \<and> effect = Write
      \<or> mode \<noteq> DontAsk \<and> (mode = Plan \<longrightarrow> effect = ReadOnly) \<and> policy_ok)"

lemmas authorize_splits = permission_mode.splits option.splits if_splits

lemma authorize_permits_iff:
  "permits (authorize_tool ctx tool effect args) \<longleftrightarrow>
     \<not> list_ex (\<lambda>r. deny_rule_matches r tool args) (rx_deny_rules ctx)
     \<and> all_approved (rx_approval_handler ctx) tool args 0 (matching_guards ctx tool args)
     \<and> (list_ex (\<lambda>r. allow_rule_matches r tool args) (rx_allow_rules ctx)
        \<or> mode_permits (rx_permission_mode ctx) effect
            (policy_permits ctx tool args (length (matching_guards ctx tool args))))"
proof (cases rule: run_guards_cases [where ctx = ctx and tool = tool and args = args])
  case (blocked d)
  then show ?thesis by (cases d) (simp_all add: authorize_tool_def)
next
  case passed
  then show ?thesis
    by (auto simp: authorize_tool_def mode_step_def mode_permits_def policy_permits_def
        split: authorize_splits)
qed

text \<open>
  C4. The authorization pipeline decides exactly this: a call is permitted iff no deny rule
  matches, every matching guard asks and is approved in turn, and an allow rule matches or the
  mode permits it (bypass; an edit under accept-edits; otherwise the policy, but never under
  don't-ask and under plan only for read-only tools). Everything else is a denial: the pipeline
  never returns an open question.
\<close>

theorem authorize_decides:
  "(permits (authorize_tool ctx tool effect args) \<longleftrightarrow>
     \<not> list_ex (\<lambda>r. deny_rule_matches r tool args) (rx_deny_rules ctx)
     \<and> all_approved (rx_approval_handler ctx) tool args 0 (matching_guards ctx tool args)
     \<and> (list_ex (\<lambda>r. allow_rule_matches r tool args) (rx_allow_rules ctx)
        \<or> mode_permits (rx_permission_mode ctx) effect
            (policy_permits ctx tool args (length (matching_guards ctx tool args)))))
   \<and> (permits (authorize_tool ctx tool effect args) \<or> is_deny (authorize_tool ctx tool effect args))"
proof -
  have "permits (authorize_tool ctx tool effect args) \<or> is_deny (authorize_tool ctx tool effect args)"
  proof (cases rule: run_guards_cases [where ctx = ctx and tool = tool and args = args])
    case (blocked d)
    then show ?thesis by (simp add: authorize_tool_def)
  next
    case passed
    then show ?thesis
      by (auto simp: authorize_tool_def mode_step_def resolve_ask_def
          split: authorize_splits permission_decision.splits approval_outcome.splits)
  qed
  then show ?thesis using authorize_permits_iff by blast
qed

lemma denied_unless_approved:
  assumes "g \<in> set (active_guards ctx)" "guard_matches g tool args" "rx_approval_handler ctx = None"
  shows "is_deny (authorize_tool ctx tool effect args)"
proof (cases rule: run_guards_cases [where ctx = ctx and tool = tool and args = args])
  case (blocked d)
  then show ?thesis by (simp add: authorize_tool_def)
next
  case passed
  have "\<not> approved_at None t a n x" for t a n x by (simp add: approved_at_def split: guard_action.splits)
  moreover have "matching_guards ctx tool args \<noteq> []"
    using assms(1,2) by (auto simp: matching_guards_def filter_empty_conv)
  ultimately have False
    using passed(2) assms(3) by (cases "matching_guards ctx tool args") auto
  then show ?thesis ..
qed

section \<open>Modes and derived contexts\<close>

definition set_modes :: "permission_mode list \<Rightarrow> 'u run_context \<Rightarrow> 'u run_context" where
  "set_modes modes ctx = foldl (\<lambda>c m. with_permission_mode m c) ctx modes"

lemma set_modes_DontAsk: "rx_permission_mode ctx = DontAsk \<Longrightarrow> set_modes ms ctx = ctx"
  by (induction ms) (simp_all add: set_modes_def with_permission_mode_def)

lemma set_modes_Bypass:
  "rx_permission_mode ctx = Bypass \<Longrightarrow>
     rx_permission_mode (set_modes ms ctx) = (if DontAsk \<in> set ms then DontAsk else Bypass)"
proof (induction ms)
  case (Cons m ms)
  show ?case
  proof (cases "m = DontAsk")
    case True
    then have "rx_permission_mode (with_permission_mode m ctx) = DontAsk"
      using Cons.prems by (simp add: with_permission_mode_def)
    from set_modes_DontAsk [OF this, of ms] this True show ?thesis by (simp add: set_modes_def)
  next
    case False
    then have "with_permission_mode m ctx = ctx"
      using Cons.prems by (cases m) (simp_all add: with_permission_mode_def)
    then show ?thesis using Cons False by (simp add: set_modes_def)
  qed
qed (simp add: set_modes_def)

text \<open>
  The two headless modes are sticky: whatever sequence of mode changes follows, a context in
  don't-ask mode is not changed at all, and one in bypass mode stays there until it is tightened
  to don't-ask, after which it never leaves it.
\<close>

theorem headless_modes_sticky:
  "(rx_permission_mode ctx = DontAsk \<longrightarrow> set_modes ms ctx = ctx)
   \<and> (rx_permission_mode ctx = Bypass \<longrightarrow>
       rx_permission_mode (set_modes ms ctx) = (if DontAsk \<in> set ms then DontAsk else Bypass))"
  using set_modes_DontAsk set_modes_Bypass by blast

definition ctx_bypass :: "unit run_context" where
  "ctx_bypass = (run_context_new () 0 [] tracer_default 0 0 0 0)\<lparr>rx_permission_mode := Bypass\<rparr>"

theorem headless_modes_sticky_witness:
  "rx_permission_mode ctx_bypass = Bypass
   \<and> rx_permission_mode (set_modes [Plan, DontAsk, Bypass] ctx_bypass) = DontAsk"
  using headless_modes_sticky [of ctx_bypass "[Plan, DontAsk, Bypass]"]
  by (simp add: ctx_bypass_def)

text \<open>Other modes are not: the read-only mode can be left for the one that allows everything.\<close>

lemma plan_can_be_loosened:
  "rx_permission_mode (with_permission_mode Bypass (ctx\<lparr>rx_permission_mode := Plan\<rparr>)) = Bypass"
  by (simp add: with_permission_mode_def)

text \<open>The settings that authorization reads.\<close>

definition same_permissions :: "'u run_context \<Rightarrow> 'u run_context \<Rightarrow> bool" where
  "same_permissions a b \<longleftrightarrow>
     rx_permission_mode a = rx_permission_mode b \<and> rx_deny_rules a = rx_deny_rules b
     \<and> rx_allow_rules a = rx_allow_rules b \<and> rx_guard_rules a = rx_guard_rules b
     \<and> rx_default_guards a = rx_default_guards b \<and> rx_redact_output a = rx_redact_output b
     \<and> rx_extra_secrets a = rx_extra_secrets b \<and> rx_approval_handler a = rx_approval_handler b
     \<and> rx_permission_policy a = rx_permission_policy b"

lemma same_permissions_authorize:
  assumes "same_permissions a b"
    and "\<And>check. rx_permission_policy a = Some check \<Longrightarrow> check (scope_of a) = check (scope_of b)"
  shows "authorize_tool a tool effect args = authorize_tool b tool effect args"
proof -
  have same: "rx_permission_mode a = rx_permission_mode b" "rx_deny_rules a = rx_deny_rules b"
      "rx_allow_rules a = rx_allow_rules b" "active_guards a = active_guards b"
      "rx_approval_handler a = rx_approval_handler b"
      "rx_permission_policy a = rx_permission_policy b"
    using assms(1) by (simp_all add: same_permissions_def active_guards_def)
  show ?thesis
  proof (cases "rx_permission_policy b")
    case None
    then show ?thesis by (simp add: authorize_tool_def same split: sum.split option.split)
  next
    case (Some check)
    then have "check (scope_of a) = check (scope_of b)" using assms(2) same by simp
    then show ?thesis by (simp add: authorize_tool_def same Some split: sum.split option.split)
  qed
qed

lemma children_same_permissions:
  "same_permissions (handoff_child ctx) ctx" "same_permissions (subagent_child f a ctx) ctx"
  "same_permissions (agent_tool_context s f st a (to_tool_context ct ctx)) ctx"
proof -
  show "same_permissions (handoff_child ctx) ctx" "same_permissions (subagent_child f a ctx) ctx"
    by (simp_all add: same_permissions_def handoff_child_def subagent_child_def)
  have "mode_change_allowed DefaultMode m" for m by simp
  then show "same_permissions (agent_tool_context s f st a (to_tool_context ct ctx)) ctx"
    by (simp add: same_permissions_def agent_tool_context_def to_tool_context_def run_context_new_def
        with_permission_mode_def with_extra_secrets_def Let_def split: option.splits)
qed

text \<open>
  Permissions follow the run into every nested context: a handoff child, a workflow
  sub-agent and an agent exposed as a tool authorize each call exactly as the parent does, for
  every policy that does not itself look at the context, and keep the redaction settings.
\<close>

theorem nested_contexts_authorize_alike:
  assumes "\<And>check x y. rx_permission_policy ctx = Some check \<Longrightarrow> check x = check y"
  shows "authorize_tool (handoff_child ctx) tool effect args = authorize_tool ctx tool effect args
    \<and> authorize_tool (subagent_child f a ctx) tool effect args = authorize_tool ctx tool effect args
    \<and> authorize_tool (agent_tool_context s f st a (to_tool_context ct ctx)) tool effect args
        = authorize_tool ctx tool effect args
    \<and> rx_redact_output (agent_tool_context s f st a (to_tool_context ct ctx)) = rx_redact_output ctx
    \<and> rx_extra_secrets (agent_tool_context s f st a (to_tool_context ct ctx)) = rx_extra_secrets ctx"
proof -
  have alike: "same_permissions c ctx \<Longrightarrow> authorize_tool c tool effect args = authorize_tool ctx tool effect args"
    for c using assms by (intro same_permissions_authorize) (auto simp: same_permissions_def)
  show ?thesis
    using children_same_permissions [where ctx = ctx]
    by (simp add: alike) (simp add: same_permissions_def)
qed

theorem nested_contexts_authorize_alike_witness:
  "authorize_tool (handoff_child ctx_bypass) ''Read'' ReadOnly JNull = PAllow"
  using nested_contexts_authorize_alike [of ctx_bypass "''Read''" ReadOnly JNull 0 0 0 0 0]
  by (simp add: ctx_bypass_def run_context_new_def authorize_tool_def active_guards_def mode_step_def
      destructive_defaults_def guard_matches_def bash_command_str_def protected_path_write_def
      protected_dotpath_write_def)

end
