(* ===== verification/Control.thy ===== *)
theory Control
  imports Run_Context
begin

text \<open>
  The control seams of the agent loop (\<open>control.rs\<close>, with the carriers of \<open>hook.rs\<close> and
  \<open>guardrail.rs\<close>): folding the decisions of all hooks for one event, and the guardrail gates.
  Hooks and guardrails are code of the application; they take the number of the loop iteration
  in which they are asked, so that their answers may change.
\<close>

section \<open>Hooks\<close>

record resolved_hook =
  rh_denied :: "string option"
  rh_replacement :: "json option"
  rh_injections :: "string list"

definition resolved_hook_default :: resolved_hook where
  "resolved_hook_default = \<lparr>rh_denied = None, rh_replacement = None, rh_injections = []\<rparr>"

fun fire_loop :: "resolved_hook \<Rightarrow> hook_decision list \<Rightarrow> resolved_hook" where
  "fire_loop out [] = out"
| "fire_loop out (HAllow # ds) = fire_loop out ds"
| "fire_loop out (HDeny reason # ds) = out\<lparr>rh_denied := Some reason\<rparr>"
| "fire_loop out (HReplaceInput v # ds) = fire_loop (out\<lparr>rh_replacement := Some v\<rparr>) ds"
| "fire_loop out (HReplaceOutput v # ds) = fire_loop (out\<lparr>rh_replacement := Some v\<rparr>) ds"
| "fire_loop out (HInject text # ds) = fire_loop (out\<lparr>rh_injections := rh_injections out @ [text]\<rparr>) ds"

text \<open>Agent-level hooks first, then the run's registry.\<close>

definition fire :: "nat \<Rightarrow> 'u run_context \<Rightarrow> 'u hook_fn list \<Rightarrow> hook_event \<Rightarrow> resolved_hook" where
  "fire k ctx agent_hooks event =
     fire_loop resolved_hook_default
       (map (\<lambda>hook. hook k (scope_of ctx) event) (agent_hooks @ rx_hooks ctx))"

section \<open>Guardrails\<close>

datatype guardrail_input = UserText string | ModelOutput string

datatype guardrail_verdict = Pass | Tripwire guardrail_kind json

type_synonym 'u guardrail_fn =
  "nat \<Rightarrow> 'u run_scope \<Rightarrow> guardrail_input \<Rightarrow> string + guardrail_verdict"

fun run_guardrails :: "nat \<Rightarrow> 'u run_context \<Rightarrow> 'u guardrail_fn list \<Rightarrow> guardrail_input
    \<Rightarrow> (guardrail_kind \<times> json) option" where
  "run_guardrails k ctx [] inp = None"
| "run_guardrails k ctx (g # gs) inp =
     (case g k (scope_of ctx) inp of
        Inr Pass \<Rightarrow> run_guardrails k ctx gs inp
      | Inr (Tripwire kind info) \<Rightarrow> Some (kind, info)
      | Inl e \<Rightarrow> Some (OtherKind e, JNull))"

section \<open>What hooks decide\<close>

fun is_hook_deny :: "hook_decision \<Rightarrow> bool" where
  "is_hook_deny (HDeny _) = True"
| "is_hook_deny _ = False"

fun replacement_of :: "hook_decision \<Rightarrow> json option" where
  "replacement_of (HReplaceInput v) = Some v"
| "replacement_of (HReplaceOutput v) = Some v"
| "replacement_of _ = None"

fun injection_of :: "hook_decision \<Rightarrow> string option" where
  "injection_of (HInject text) = Some text"
| "injection_of _ = None"

fun deny_reason :: "hook_decision \<Rightarrow> string option" where
  "deny_reason (HDeny reason) = Some reason"
| "deny_reason _ = None"

text \<open>The decisions of the hooks that were consulted without denying.\<close>

definition consulted :: "hook_decision list \<Rightarrow> hook_decision list" where
  "consulted ds = takeWhile (\<lambda>d. \<not> is_hook_deny d) ds"

lemma fire_loop_spec:
  "rh_denied (fire_loop out ds) = (case find_map deny_reason ds of Some r \<Rightarrow> Some r | None \<Rightarrow> rh_denied out)
   \<and> rh_replacement (fire_loop out ds)
      = (case find_map replacement_of (rev (consulted ds)) of Some v \<Rightarrow> Some v | None \<Rightarrow> rh_replacement out)
   \<and> rh_injections (fire_loop out ds) = rh_injections out @ List.map_filter injection_of (consulted ds)"
proof -
  have fm: "find_map f (xs @ [x]) = (case find_map f xs of Some v \<Rightarrow> Some v | None \<Rightarrow> f x)"
    for f :: "hook_decision \<Rightarrow> json option" and xs x
    by (induction xs) (auto split: option.splits)
  show ?thesis
    by (induction out ds rule: fire_loop.induct)
      (auto simp: consulted_def fm List.map_filter_simps split: option.splits)
qed

text \<open>
  Firing an event folds the hooks in order, agent hooks before run hooks: the first denial
  wins and stops the fold; the replacement is the last one offered before it; the injected
  messages are those offered before it, in order.
\<close>

theorem fire_decides:
  assumes "ds = map (\<lambda>hook. hook k (scope_of ctx) event) (agent_hooks @ rx_hooks ctx)"
  shows "rh_denied (fire k ctx agent_hooks event) = find_map deny_reason ds
    \<and> rh_replacement (fire k ctx agent_hooks event) = find_map replacement_of (rev (consulted ds))
    \<and> rh_injections (fire k ctx agent_hooks event) = List.map_filter injection_of (consulted ds)"
  using fire_loop_spec [of resolved_hook_default ds]
  by (simp add: fire_def assms resolved_hook_default_def split: option.splits)

theorem fire_decides_witness:
  "rh_denied (fire 0 ctx_bypass [\<lambda>_ _ _. HInject ''a'', \<lambda>_ _ _. HDeny ''no'', \<lambda>_ _ _. HInject ''b''] OnRunStart)
     = Some ''no''
   \<and> rh_injections (fire 0 ctx_bypass [\<lambda>_ _ _. HInject ''a'', \<lambda>_ _ _. HDeny ''no'', \<lambda>_ _ _. HInject ''b''] OnRunStart)
     = [''a'']"
  using fire_decides [OF refl, where k = 0 and ctx = ctx_bypass and event = OnRunStart
      and agent_hooks = "[\<lambda>_ _ _. HInject ''a'', \<lambda>_ _ _. HDeny ''no'', \<lambda>_ _ _. HInject ''b'']"]
  by (simp add: consulted_def List.map_filter_simps)

end
