(* ===== verification/Redaction.thy ===== *)
theory Redaction
  imports Helikon_Prelude
begin

text \<open>
  Secret redaction of tool output (\<open>redaction.rs\<close>): the key/value scan of each line and the scan
  for known secret values, over every string of a JSON value. The process environment is a
  parameter. Shown: no known secret value survives, in any string of any JSON value, in
  whatever order the secrets are scanned; and the value of a secret-named assignment is removed.
\<close>

section \<open>Model\<close>

definition SECRET_SUFFIXES :: "string list" where
  "SECRET_SUFFIXES = [''_API_KEY'', ''_TOKEN'', ''_SECRET'', ''_PASSWORD'', ''_CREDENTIAL'']"

definition MIN_SECRET_LEN :: nat where "MIN_SECRET_LEN = 8"

definition REDACTED :: string where "REDACTED = ''***''"

type_synonym secret_set = "string list"

definition name_is_secret :: "string \<Rightarrow> bool" where
  "name_is_secret nm = (let upper = to_ascii_uppercase nm in list_ex (\<lambda>s. ends_with s upper) SECRET_SUFFIXES)"

definition is_common_word :: "string \<Rightarrow> bool" where
  "is_common_word v =
     (to_ascii_lowercase v \<in> set [''true'', ''false'', ''dev'', ''prod'', ''test'', ''none'', ''null'']
      \<or> list_all is_ascii_digit v)"

definition from_values :: "string list \<Rightarrow> secret_set" where
  "from_values vs = filter (\<lambda>v. MIN_SECRET_LEN \<le> length v \<and> \<not> is_common_word v) vs"

definition from_env_and_extra :: "(string \<times> string) list \<Rightarrow> string list \<Rightarrow> secret_set" where
  "from_env_and_extra env extra =
     from_values (map snd (filter (\<lambda>(nm, _). name_is_secret nm) env) @ extra)"

text \<open>\<open>str::replace\<close>: the non-overlapping occurrences, left to right (the pattern is not empty).\<close>

function replace_all :: "string \<Rightarrow> string \<Rightarrow> string \<Rightarrow> string" where
  "replace_all pat rep s =
     (if pat = [] then s
      else (case s of
          [] \<Rightarrow> []
        | c # cs \<Rightarrow> (case strip_prefix pat s of
              Some r \<Rightarrow> rep @ replace_all pat rep r
            | None \<Rightarrow> c # replace_all pat rep cs)))"
  by pat_completeness auto
termination
  by (relation "measure (\<lambda>(_, _, s). length s)") (auto simp: strip_prefix_eq)

declare replace_all.simps [simp del]

text \<open>\<open>split_inclusive\<close> at newlines: the lines keep their terminator.\<close>

fun split_lines :: "string \<Rightarrow> string list" where
  "split_lines [] = []"
| "split_lines (c # s) =
     (if c = CHR 0x0A then [c] # split_lines s
      else (case split_lines s of
          [] \<Rightarrow> [[c]]
        | l # ls \<Rightarrow> (c # l) # ls))"

definition last_token :: "string \<Rightarrow> string" where
  "last_token head = rev (takeWhile (\<lambda>c. c \<noteq> CHR 0x20 \<and> c \<noteq> CHR 0x09) (rev head))"

text \<open>One separator of \<open>redact_line\<close>: \<open>Some\<close> is a return from the loop.\<close>

definition redact_at :: "char \<Rightarrow> string \<Rightarrow> string option" where
  "redact_at sep line =
     (if sep \<notin> set line then None
      else (let head = takeWhile (\<lambda>c. c \<noteq> sep) line;
                after = tl (dropWhile (\<lambda>c. c \<noteq> sep) line);
                key = trim (last_token head)
            in if name_is_secret key then
                 (case (case strip_prefix '' '' after of Some r \<Rightarrow> ('' '', r) | None \<Rightarrow> ([], after)) of
                    (space, rest) \<Rightarrow>
                      if trim rest = [] then Some line
                      else Some (head @ [sep] @ space @ REDACTED @ drop (length (trim_end rest)) rest))
               else None))"

definition redact_line :: "string \<Rightarrow> string" where
  "redact_line line =
     (case redact_at CHR ''='' line of
        Some r \<Rightarrow> r
      | None \<Rightarrow> (case redact_at CHR '':'' line of Some r \<Rightarrow> r | None \<Rightarrow> line))"

definition redact_key_values :: "string \<Rightarrow> string" where
  "redact_key_values s = concat (map redact_line (split_lines s))"

definition redact_secret :: "string \<Rightarrow> string \<Rightarrow> string" where
  "redact_secret out secret =
     (if contains_str secret out then replace_all secret REDACTED out else out)"

definition redact_str :: "string \<Rightarrow> secret_set \<Rightarrow> string" where
  "redact_str s secrets = foldl redact_secret (redact_key_values s) secrets"

fun redact :: "json \<Rightarrow> secret_set \<Rightarrow> json" where
  "redact (JString s) secrets = JString (redact_str s secrets)"
| "redact (JArray a) secrets = JArray (map (\<lambda>v. redact v secrets) a)"
| "redact (JObject m) secrets = JObject (map (\<lambda>(k, v). (k, redact v secrets)) m)"
| "redact other secrets = other"

section \<open>Known values do not survive\<close>

lemma replace_all_Nil [simp]: "replace_all pat rep [] = []"
  by (simp add: replace_all.simps)

lemma replace_all_match: "pat \<noteq> [] \<Longrightarrow> replace_all pat rep (pat @ r) = rep @ replace_all pat rep r"
proof -
  assume ne: "pat \<noteq> []"
  then obtain c cs where c: "pat @ r = c # cs" by (cases pat) auto
  have "strip_prefix pat (c # cs) = Some r" by (simp flip: c)
  then show ?thesis using ne unfolding c by (simp add: replace_all.simps [of pat rep "c # cs"])
qed

lemma replace_all_skip:
  "pat \<noteq> [] \<Longrightarrow> strip_prefix pat (c # cs) = None \<Longrightarrow>
     replace_all pat rep (c # cs) = c # replace_all pat rep cs"
  by (simp add: replace_all.simps [of pat rep "c # cs"])

text \<open>Induction on the way the scan consumes its input.\<close>

lemma replace_induct:
  assumes "pat \<noteq> []" and "P []" and "\<And>r. P r \<Longrightarrow> P (pat @ r)"
    and "\<And>c cs. strip_prefix pat (c # cs) = None \<Longrightarrow> P cs \<Longrightarrow> P (c # cs)"
  shows "P s"
proof (induction "length s" arbitrary: s rule: less_induct)
  case less
  show ?case
  proof (cases s)
    case (Cons c cs)
    show ?thesis
    proof (cases "strip_prefix pat s")
      case None
      then show ?thesis using assms(4) less Cons by simp
    next
      case (Some r)
      then have "s = pat @ r" by (simp add: strip_prefix_eq)
      then show ?thesis using assms(1,3) less by simp
    qed
  qed (simp add: assms(2))
qed

text \<open>A star-free prefix of the output was a prefix of the input.\<close>

lemma replace_all_prefix:
  assumes "pat \<noteq> []" "CHR ''*'' \<notin> set q"
  shows "prefix q (replace_all pat REDACTED s) \<Longrightarrow> prefix q s"
  using assms(2)
proof (induction s arbitrary: q rule: replace_induct [OF assms(1)])
  case (2 r)
  then show ?case by (cases q) (auto simp: replace_all_match [OF assms(1)] REDACTED_def)
next
  case (3 c cs)
  then show ?case by (cases q) (auto simp: replace_all_skip [OF assms(1)])
qed simp

lemma sublist_stars:
  "a \<noteq> [] \<Longrightarrow> CHR ''*'' \<notin> set a \<Longrightarrow> sublist a (REDACTED @ t) \<Longrightarrow> sublist a t"
  by (cases a) (auto simp: REDACTED_def sublist_Cons_right)

lemma replace_all_keeps_out:
  assumes "pat \<noteq> []" "a \<noteq> []" "CHR ''*'' \<notin> set a"
  shows "sublist a (replace_all pat REDACTED s) \<Longrightarrow> sublist a s"
proof (induction s rule: replace_induct [OF assms(1)])
  case (2 r)
  then show ?case
    using sublist_stars [OF assms(2,3)]
    by (simp add: replace_all_match [OF assms(1)])
      (metis sublist_append)
next
  case (3 c cs)
  then show ?case
    using replace_all_prefix [OF assms(1,3), of "c # cs"]
    by (auto simp: replace_all_skip [OF assms(1)] sublist_Cons_right)
qed simp

lemma replace_all_removes:
  assumes "a \<noteq> []" "CHR ''*'' \<notin> set a"
  shows "\<not> sublist a (replace_all a REDACTED s)"
proof (induction s rule: replace_induct [OF assms(1)])
  case 1
  then show ?case using assms(1) by simp
next
  case (2 r)
  then show ?case using sublist_stars [OF assms] by (auto simp: replace_all_match [OF assms(1)])
next
  case (3 c cs)
  have "\<not> prefix a (c # replace_all a REDACTED cs)"
    using 3(1) replace_all_prefix [OF assms, of "c # cs"]
    by (auto simp: replace_all_skip [OF assms(1)] prefix_def strip_prefix_eq)
  then show ?case using 3 by (simp add: replace_all_skip [OF assms(1)] sublist_Cons_right)
qed

definition scannable :: "string \<Rightarrow> bool" where
  "scannable a = (a \<noteq> [] \<and> CHR ''*'' \<notin> set a)"

lemma redact_secret_keeps_out:
  "scannable a \<Longrightarrow> p \<noteq> [] \<Longrightarrow> sublist a (redact_secret out p) \<Longrightarrow> sublist a out"
  by (auto simp: redact_secret_def scannable_def split: if_splits dest: replace_all_keeps_out)

lemma redact_fold_keeps_out:
  "scannable a \<Longrightarrow> [] \<notin> set secrets \<Longrightarrow> sublist a (foldl redact_secret out secrets) \<Longrightarrow> sublist a out"
proof (induction secrets arbitrary: out)
  case (Cons p secrets)
  then have "sublist a (redact_secret out p)" by simp
  then show ?case using Cons.prems(1,2) redact_secret_keeps_out [of a p out] by auto
qed simp

lemma redact_fold_removes:
  "scannable a \<Longrightarrow> [] \<notin> set secrets \<Longrightarrow> a \<in> set secrets \<Longrightarrow> \<not> sublist a (foldl redact_secret out secrets)"
proof (induction secrets arbitrary: out)
  case (Cons p secrets)
  show ?case
  proof (cases "a = p")
    case True
    have "\<not> sublist a (redact_secret out a)"
      using Cons.prems(1) replace_all_removes [of a]
      by (simp add: redact_secret_def scannable_def contains_str_sublist)
    then show ?thesis using redact_fold_keeps_out Cons.prems True by auto
  next
    case False
    then show ?thesis using Cons by simp
  qed
qed simp

text \<open>The strings of a JSON value.\<close>

fun json_strings :: "json \<Rightarrow> string list" where
  "json_strings (JString s) = [s]"
| "json_strings (JArray a) = concat (map json_strings a)"
| "json_strings (JObject m) = concat (map (\<lambda>(k, v). json_strings v) m)"
| "json_strings _ = []"

lemma redact_strings: "json_strings (redact v secrets) = map (\<lambda>s. redact_str s secrets) (json_strings v)"
proof (induction v secrets rule: redact.induct)
  case (3 m secrets)
  have "\<And>x. x \<in> set m \<Longrightarrow> (case (case x of (k, v) \<Rightarrow> (k, redact v secrets)) of (k, v) \<Rightarrow> json_strings v)
      = map (\<lambda>s. redact_str s secrets) (case x of (k, v) \<Rightarrow> json_strings v)"
    using 3 by fastforce
  then show ?case by (simp add: map_concat cong: map_cong)
qed (simp_all add: map_concat cong: map_cong)

text \<open>
  C16. No known secret survives redaction: for every value of the secret set that is free of the
  mask character, no string anywhere in the redacted JSON value contains it, whatever the value,
  the order of the secrets and their overlaps.
\<close>

theorem redact_removes_secrets:
  assumes "secrets = from_env_and_extra env extra" "secret \<in> set secrets" "CHR ''*'' \<notin> set secret"
  shows "list_all (\<lambda>s. \<not> contains_str secret s) (json_strings (redact v secrets))"
proof -
  have ne: "[] \<notin> set secrets"
    using assms(1) by (auto simp: from_env_and_extra_def from_values_def MIN_SECRET_LEN_def)
  then have "scannable secret" using assms by (auto simp: scannable_def)
  then show ?thesis
    using redact_fold_removes [OF _ ne assms(2)]
    by (auto simp: list_all_iff redact_strings redact_str_def contains_str_sublist)
qed

theorem redact_removes_secrets_witness:
  "\<exists>secrets. secrets = from_env_and_extra [(''DB_TOKEN'', ''hunter2-abc'')] []
     \<and> ''hunter2-abc'' \<in> set secrets
     \<and> list_all (\<lambda>s. \<not> contains_str ''hunter2-abc'' s)
         (json_strings (redact (JArray [JString ''id hunter2-abc'']) secrets))"
proof -
  have m: "''hunter2-abc'' \<in> set (from_env_and_extra [(''DB_TOKEN'', ''hunter2-abc'')] [])" by code_simp
  show ?thesis
    using m redact_removes_secrets [OF refl m, of "JArray [JString ''id hunter2-abc'']"] by simp
qed

section \<open>Secret-named assignments\<close>

lemma takeWhile_sep: "c \<notin> set xs \<Longrightarrow> takeWhile (\<lambda>x. x \<noteq> c) (xs @ c # ys) = xs"
  by (induction xs) auto

lemma dropWhile_sep: "c \<notin> set xs \<Longrightarrow> dropWhile (\<lambda>x. x \<noteq> c) (xs @ c # ys) = c # ys"
  by (induction xs) auto

lemma redact_line_assignment:
  assumes "CHR ''='' \<notin> set head" "name_is_secret (trim (last_token head))"
    and "strip_prefix '' '' val = None" "trim val \<noteq> []"
  shows "redact_line (head @ CHR ''='' # val)
    = head @ ''='' @ REDACTED @ drop (length (trim_end val)) val"
proof -
  have "redact_at CHR ''='' (head @ CHR ''='' # val)
      = Some (head @ ''='' @ REDACTED @ drop (length (trim_end val)) val)"
    using assms(2-4)
    by (simp only: redact_at_def takeWhile_sep [OF assms(1)] dropWhile_sep [OF assms(1)]) (simp add: Let_def)
  then show ?thesis by (simp add: redact_line_def)
qed

lemma split_lines_line:
  "CHR 0x0A \<notin> set l \<Longrightarrow> split_lines (l @ CHR 0x0A # rest) = (l @ [CHR 0x0A]) # split_lines rest"
  by (induction l) auto

lemma redact_lines: "CHR 0x0A \<notin> set l \<Longrightarrow>
  redact_key_values (l @ CHR 0x0A # rest) = redact_line (l @ [CHR 0x0A]) @ redact_key_values rest"
  by (simp add: redact_key_values_def split_lines_line)

text \<open>
  A secret-named assignment loses its value: when the text before \<open>=\<close> on a line names a
  secret (as \<open>KEY\<close>, \<open>export KEY\<close>, in any case), the line that follows any earlier line is
  rewritten to the name, the mask and the white space that ended it, with the following lines
  treated on their own.
\<close>

theorem assignment_value_removed:
  assumes "CHR 0x0A \<notin> set l" "CHR 0x0A \<notin> set head" "CHR 0x0A \<notin> set val"
    and "CHR ''='' \<notin> set head" "name_is_secret (trim (last_token head))"
    and "strip_prefix '' '' (val @ [CHR 0x0A]) = None" "trim (val @ [CHR 0x0A]) \<noteq> []"
  shows "redact_key_values (l @ CHR 0x0A # head @ CHR ''='' # val @ CHR 0x0A # rest)
    = redact_line (l @ [CHR 0x0A])
      @ head @ ''='' @ REDACTED
        @ drop (length (trim_end (val @ [CHR 0x0A]))) (val @ [CHR 0x0A])
      @ redact_key_values rest"
proof -
  have nl: "CHR 0x0A \<notin> set (head @ CHR ''='' # val)" using assms by simp
  have "redact_key_values ((head @ CHR ''='' # val) @ CHR 0x0A # rest)
      = head @ ''='' @ REDACTED @ drop (length (trim_end (val @ [CHR 0x0A]))) (val @ [CHR 0x0A])
        @ redact_key_values rest"
    using redact_lines [OF nl, of rest] redact_line_assignment [OF assms(4-7)] by simp
  then show ?thesis using redact_lines [OF assms(1)] by simp
qed

theorem assignment_value_removed_witness:
  "redact_key_values (''hello'' @ CHR 0x0A # ''export DB_PASSWORD'' @ CHR ''='' # ''hunter2'' @ CHR 0x0A # ''x'')
     = ''hello'' @ [CHR 0x0A] @ ''export DB_PASSWORD=***'' @ [CHR 0x0A] @ ''x''"
proof -
  have key: "name_is_secret (trim (last_token ''export DB_PASSWORD''))" by code_simp
  have val: "trim (''hunter2'' @ [CHR 0x0A]) \<noteq> []"
    "drop (length (trim_end (''hunter2'' @ [CHR 0x0A]))) (''hunter2'' @ [CHR 0x0A]) = [CHR 0x0A]"
    "redact_line (''hello'' @ [CHR 0x0A]) = ''hello'' @ [CHR 0x0A]" "redact_key_values ''x'' = ''x''"
    by code_simp+
  show ?thesis
    using assignment_value_removed [OF _ _ _ _ key _ val(1), of "''hello''" "''x''"] val(2-)
    by (simp add: REDACTED_def)
qed

end
