(* ===== verification/Loop_State.thy ===== *)
theory Loop_State
  imports Messages
begin

text \<open>
  The agent loop's state machine (\<open>loop_state.rs\<close>): \<open>LoopState\<close>, the pure \<open>transition\<close>
  function with one definition per arm, and its helpers. \<open>schema\<close> validation is the function
  an \<open>OutputType\<close> carries; the \<open>Debug\<close> text of an invalid state/input pair is the parameter
  \<open>dbg\<close>. The lemmas give the machine's contract: state, action and events of every outcome
  agree (\<open>coherent\<close>), the turn counter never overflows, the machine's rank decreases with
  every input after the first, and usage is the running total.
\<close>

section \<open>Data\<close>

record tool_call_request =
  tcr_call_id :: string
  tcr_name :: string
  tcr_args :: json

record tool_call_outcome =
  tco_call_id :: string
  tco_result :: "string + content_part list"

record final_output =
  fo_content :: "content_part list"
  fo_usage :: token_usage

definition as_text :: "final_output \<Rightarrow> string" where
  "as_text out = flatten_text (fo_content out)"

record output_type =
  ot_name :: string
  ot_schema :: json
  ot_validate :: "json \<Rightarrow> string list + unit"

record handoff_def =
  hd_tool_name :: string
  hd_target :: string
  hd_description :: string

datatype loop_state =
    CallingModel u32 token_usage
  | ExecutingTools "tool_call_request list" u32 token_usage
  | ApplyingHandoff string "item list" token_usage
  | Compacting
  | NeedsApproval "tool_call_request list"
  | Finalizing u32 token_usage
  | RepairingOutput u32 token_usage
  | Done final_output
  | Failed agent_error

datatype transition_input =
    Start "item list"
  | ModelResponse "item list" token_usage finish_reason
  | ToolResults "tool_call_outcome list"

datatype next_action =
    CallModel model_request
  | ExecuteTools "tool_call_request list"
  | Terminate
  | Handoff

record transition_ctx =
  tc_tools :: "tool_def list"
  tc_model_settings :: model_settings
  tc_max_turns :: u32
  tc_conversation :: "item list"
  tc_output :: "output_type option"
  tc_handoffs :: "handoff_def list"

record transition_outcome =
  to_next_state :: loop_state
  to_events :: "agent_event list"
  to_next_action :: next_action
  to_appends :: "item list"

type_synonym dbg = "loop_state \<Rightarrow> transition_input \<Rightarrow> string"

section \<open>Helpers\<close>

definition accumulate :: "token_usage \<Rightarrow> token_usage \<Rightarrow> token_usage" where
  "accumulate prior this_turn = usage_add prior this_turn"

definition constrained_settings :: "model_settings \<Rightarrow> output_type \<Rightarrow> model_settings" where
  "constrained_settings base out =
     base\<lparr>ms_response_format := Some (JsonSchemaFormat (ot_name out) (ot_schema out) True),
          ms_tool_choice := None\<rparr>"

definition validate_terminal ::
  "ext \<Rightarrow> output_type \<Rightarrow> content_part list \<Rightarrow> string list + unit" where
  "validate_terminal E out content =
     (case from_str E (trim (flatten_text content)) of
        Inl e \<Rightarrow> Err [''response was not valid JSON: '' @ e]
      | Inr v \<Rightarrow> ot_validate out v)"

text \<open>The UTF-8 bytes of the dash in the source's repair text.\<close>

definition em_dash :: string where "em_dash = map char_of [226::nat, 128, 148]"

definition repair_message :: "string \<Rightarrow> string list \<Rightarrow> item" where
  "repair_message nm errors = UserMessage [Text
     (''Your previous response did not match the required `'' @ nm @ ''` schema. Errors: ''
      @ join_with ''; '' errors @ ''. Reply with ONLY a JSON value matching the schema ''
      @ em_dash @ '' no prose, no code fences.'')]"

definition last_assistant_content :: "item list \<Rightarrow> content_part list" where
  "last_assistant_content items =
     unwrap_or [] (find_map (\<lambda>i. case i of AssistantMessage content _ \<Rightarrow> Some content | _ \<Rightarrow> None)
       (rev items))"

definition handoff_tool_def :: "handoff_def \<Rightarrow> tool_def" where
  "handoff_tool_def d = \<lparr>td_name = hd_tool_name d, td_description = hd_description d,
     td_schema = JObject [(''additionalProperties'', JBool False), (''properties'', JObject []),
       (''type'', JString ''object'')]\<rparr>"

definition turn_tools :: "transition_ctx \<Rightarrow> tool_def list" where
  "turn_tools ctx = tc_tools ctx @ map handoff_tool_def (tc_handoffs ctx)"

definition transfer_note :: item where
  "transfer_note = UserMessage [Text
     ''You are now handling a transferred conversation. Continue assisting the user.'']"

definition thread_handoff_transcript :: "item list \<Rightarrow> item list" where
  "thread_handoff_transcript conversation =
     filter (\<lambda>i. case i of System _ \<Rightarrow> False | ToolCall _ _ _ \<Rightarrow> False
       | ToolResult _ _ \<Rightarrow> False | _ \<Rightarrow> True) conversation @ [transfer_note]"

definition max_turns_msg :: "u32 \<Rightarrow> string" where
  "max_turns_msg n = ''max turns ('' @ show_u32 n @ '') exceeded''"

definition message_outputs :: "item list \<Rightarrow> agent_event list" where
  "message_outputs items = map MessageOutput (filter is_assistant items)"

section \<open>The arms of the transition function\<close>

definition max_turns_reached :: "transition_ctx \<Rightarrow> transition_outcome" where
  "max_turns_reached ctx = \<lparr>to_next_state = Failed (MaxTurnsExceeded (tc_max_turns ctx)),
     to_events = [RunFailed (max_turns_msg (tc_max_turns ctx))],
     to_next_action = Terminate, to_appends = []\<rparr>"

definition transition_start :: "u32 \<Rightarrow> token_usage \<Rightarrow> transition_ctx \<Rightarrow> transition_outcome" where
  "transition_start turn prior ctx =
     (case tc_output ctx of
        Some out \<Rightarrow>
          if tc_tools ctx = [] then
            \<lparr>to_next_state = Finalizing turn prior,
             to_events = [TurnStarted turn],
             to_next_action = CallModel \<lparr>mr_messages = tc_conversation ctx, mr_tools = [],
               mr_model_settings = constrained_settings (tc_model_settings ctx) out\<rparr>,
             to_appends = []\<rparr>
          else
            \<lparr>to_next_state = CallingModel turn prior,
             to_events = [TurnStarted turn],
             to_next_action = CallModel \<lparr>mr_messages = tc_conversation ctx,
               mr_tools = turn_tools ctx, mr_model_settings = tc_model_settings ctx\<rparr>,
             to_appends = []\<rparr>
      | None \<Rightarrow>
          \<lparr>to_next_state = CallingModel turn prior,
           to_events = [TurnStarted turn],
           to_next_action = CallModel \<lparr>mr_messages = tc_conversation ctx,
             mr_tools = turn_tools ctx, mr_model_settings = tc_model_settings ctx\<rparr>,
           to_appends = []\<rparr>)"

text \<open>The first tool call whose name is a transfer tool, and the target it names.\<close>

definition handoff_target :: "handoff_def list \<Rightarrow> item list \<Rightarrow> string option" where
  "handoff_target hs items = find_map (\<lambda>i. case i of
      ToolCall _ nm _ \<Rightarrow> map_option hd_target (find (\<lambda>h. hd_tool_name h = nm) hs)
    | _ \<Rightarrow> None) items"

definition handoff_events :: "handoff_def list \<Rightarrow> item list \<Rightarrow> agent_event list" where
  "handoff_events hs items = concat (map (\<lambda>i. case i of
      AssistantMessage _ _ \<Rightarrow> [MessageOutput i]
    | ToolCall _ nm _ \<Rightarrow>
        if list_ex (\<lambda>h. hd_tool_name h = nm) hs then [ToolCallItem i] else []
    | _ \<Rightarrow> []) items)"

definition tool_call_events :: "item list \<Rightarrow> agent_event list" where
  "tool_call_events items = concat (map (\<lambda>i. case i of
      AssistantMessage _ _ \<Rightarrow> [MessageOutput i]
    | ToolCall _ _ _ \<Rightarrow> [ToolCallItem i]
    | _ \<Rightarrow> []) items)"

definition tool_call_requests :: "item list \<Rightarrow> tool_call_request list" where
  "tool_call_requests items = concat (map (\<lambda>i. case i of
      ToolCall c nm args \<Rightarrow> [\<lparr>tcr_call_id = c, tcr_name = nm, tcr_args = args\<rparr>]
    | _ \<Rightarrow> []) items)"

definition transition_tool_calls ::
  "u32 \<Rightarrow> token_usage \<Rightarrow> item list \<Rightarrow> token_usage \<Rightarrow> transition_ctx \<Rightarrow> transition_outcome" where
  "transition_tool_calls turn prior items usage ctx =
     (case handoff_target (tc_handoffs ctx) items of
        Some target \<Rightarrow>
          \<lparr>to_next_state = ApplyingHandoff target (thread_handoff_transcript (tc_conversation ctx))
             (accumulate prior usage),
           to_events = handoff_events (tc_handoffs ctx) items,
           to_next_action = Handoff, to_appends = []\<rparr>
      | None \<Rightarrow>
          \<lparr>to_next_state = ExecutingTools (tool_call_requests items) turn (accumulate prior usage),
           to_events = tool_call_events items,
           to_next_action = ExecuteTools (tool_call_requests items), to_appends = []\<rparr>)"

definition transition_no_tool_calls ::
  "u32 \<Rightarrow> token_usage \<Rightarrow> item list \<Rightarrow> token_usage \<Rightarrow> transition_ctx \<Rightarrow> transition_outcome" where
  "transition_no_tool_calls turn prior items usage ctx =
     (let total = accumulate prior usage; evs = message_outputs items
      in case tc_output ctx of
        Some out \<Rightarrow>
          \<lparr>to_next_state = Finalizing (turn + 1) total,
           to_events = evs @ [TurnStarted (turn + 1)],
           to_next_action = CallModel \<lparr>mr_messages = tc_conversation ctx, mr_tools = [],
             mr_model_settings = constrained_settings (tc_model_settings ctx) out\<rparr>,
           to_appends = []\<rparr>
      | None \<Rightarrow>
          \<lparr>to_next_state = Done \<lparr>fo_content = last_assistant_content items, fo_usage = total\<rparr>,
           to_events = evs @ [RunCompleted total],
           to_next_action = Terminate, to_appends = []\<rparr>)"

definition outcome_item :: "tool_call_outcome \<Rightarrow> item" where
  "outcome_item oc = ToolResult (tco_call_id oc) (unwrap_or_else (\<lambda>e. [Text e]) (tco_result oc))"

definition transition_tool_results ::
  "u32 \<Rightarrow> token_usage \<Rightarrow> tool_call_outcome list \<Rightarrow> transition_ctx \<Rightarrow> transition_outcome" where
  "transition_tool_results turn prior outcomes ctx =
     (let next_turn = turn + 1; evs = map (\<lambda>oc. ToolOutputItem (outcome_item oc)) outcomes
      in if next_turn \<ge> tc_max_turns ctx then
        \<lparr>to_next_state = Failed (MaxTurnsExceeded (tc_max_turns ctx)),
         to_events = evs @ [RunFailed (max_turns_msg (tc_max_turns ctx))],
         to_next_action = Terminate, to_appends = []\<rparr>
      else
        \<lparr>to_next_state = CallingModel next_turn prior,
         to_events = evs @ [TurnStarted next_turn],
         to_next_action = CallModel \<lparr>mr_messages = tc_conversation ctx,
           mr_tools = turn_tools ctx, mr_model_settings = tc_model_settings ctx\<rparr>,
         to_appends = []\<rparr>)"

definition internal_failure :: "string \<Rightarrow> transition_outcome" where
  "internal_failure st = \<lparr>to_next_state = Failed (OtherError (st @ '' state without output type'')),
     to_events = [RunFailed (''internal: '' @ st @ '' without output type'')],
     to_next_action = Terminate, to_appends = []\<rparr>"

definition constrained_validation ::
  "ext \<Rightarrow> string \<Rightarrow> output_type \<Rightarrow> item list \<Rightarrow> string list + unit" where
  "constrained_validation E phase out items =
     (if list_ex is_tool_call items
      then Err [''model called a tool on the '' @ phase]
      else validate_terminal E out (last_assistant_content items))"

definition transition_finalizing ::
  "ext \<Rightarrow> u32 \<Rightarrow> token_usage \<Rightarrow> item list \<Rightarrow> token_usage \<Rightarrow> transition_ctx \<Rightarrow> transition_outcome"
  where
  "transition_finalizing E turn prior items usage ctx =
     (case tc_output ctx of
        None \<Rightarrow> internal_failure ''Finalizing''
      | Some out \<Rightarrow>
          (let total = accumulate prior usage; evs = message_outputs items;
               content = last_assistant_content items
           in case constrained_validation E ''constrained finalizing turn'' out items of
             Inr _ \<Rightarrow>
               \<lparr>to_next_state = Done \<lparr>fo_content = content, fo_usage = total\<rparr>,
                to_events = evs @ [RunCompleted total],
                to_next_action = Terminate, to_appends = []\<rparr>
           | Inl schema_errors \<Rightarrow>
               (let msg = repair_message (ot_name out) schema_errors
                in \<lparr>to_next_state = RepairingOutput turn total,
                    to_events = evs @ [RepairStarted 1],
                    to_next_action = CallModel \<lparr>mr_messages = tc_conversation ctx @ [msg],
                      mr_tools = [],
                      mr_model_settings = constrained_settings (tc_model_settings ctx) out\<rparr>,
                    to_appends = [msg]\<rparr>)))"

definition transition_repairing ::
  "ext \<Rightarrow> token_usage \<Rightarrow> item list \<Rightarrow> token_usage \<Rightarrow> transition_ctx \<Rightarrow> transition_outcome" where
  "transition_repairing E prior items usage ctx =
     (case tc_output ctx of
        None \<Rightarrow> internal_failure ''RepairingOutput''
      | Some out \<Rightarrow>
          (let total = accumulate prior usage; evs = message_outputs items;
               content = last_assistant_content items
           in case constrained_validation E ''repair turn'' out items of
             Inr _ \<Rightarrow>
               \<lparr>to_next_state = Done \<lparr>fo_content = content, fo_usage = total\<rparr>,
                to_events = evs @ [RunCompleted total],
                to_next_action = Terminate, to_appends = []\<rparr>
           | Inl schema_errors \<Rightarrow>
               \<lparr>to_next_state = Failed (InvalidStructuredOutput schema_errors (flatten_text content)),
                to_events = evs @ [StructuredOutputFailed schema_errors (flatten_text content),
                  RunFailed ''invalid structured output after one repair attempt''],
                to_next_action = Terminate, to_appends = []\<rparr>))"

definition not_implemented :: "string \<Rightarrow> transition_outcome" where
  "not_implemented feature = \<lparr>to_next_state = Failed (NotImplemented feature),
     to_events = [RunFailed (''not yet implemented: '' @ feature)],
     to_next_action = Terminate, to_appends = []\<rparr>"

definition invalid_transition :: "string \<Rightarrow> transition_outcome" where
  "invalid_transition shown = \<lparr>to_next_state = Failed (OtherError (''invalid transition: '' @ shown)),
     to_events = [RunFailed (''invalid transition: '' @ shown)],
     to_next_action = Terminate, to_appends = []\<rparr>"

definition transition ::
  "ext \<Rightarrow> dbg \<Rightarrow> loop_state \<Rightarrow> transition_input \<Rightarrow> transition_ctx \<Rightarrow> transition_outcome" where
  "transition E dbg st inp ctx =
     (case st of
        CallingModel turn prior \<Rightarrow>
          if turn \<ge> tc_max_turns ctx then max_turns_reached ctx
          else (case inp of
            Start _ \<Rightarrow> transition_start turn prior ctx
          | ModelResponse items usage _ \<Rightarrow>
              if list_ex is_tool_call items
              then transition_tool_calls turn prior items usage ctx
              else transition_no_tool_calls turn prior items usage ctx
          | ToolResults _ \<Rightarrow> invalid_transition (dbg st inp))
      | ExecutingTools _ turn prior \<Rightarrow>
          (case inp of
            ToolResults outcomes \<Rightarrow> transition_tool_results turn prior outcomes ctx
          | _ \<Rightarrow> invalid_transition (dbg st inp))
      | Finalizing turn prior \<Rightarrow>
          (case inp of
            ModelResponse items usage _ \<Rightarrow> transition_finalizing E turn prior items usage ctx
          | _ \<Rightarrow> invalid_transition (dbg st inp))
      | RepairingOutput turn prior \<Rightarrow>
          (case inp of
            ModelResponse items usage _ \<Rightarrow> transition_repairing E prior items usage ctx
          | _ \<Rightarrow> invalid_transition (dbg st inp))
      | Compacting \<Rightarrow> not_implemented ''compaction''
      | NeedsApproval _ \<Rightarrow> not_implemented ''approval''
      | _ \<Rightarrow> invalid_transition (dbg st inp))"

section \<open>Coherence of outcomes\<close>

text \<open>
  What the driver relies on: the action is the one the next state calls for, and the events
  hold a terminal event exactly when the next state is terminal, in which case it is the last
  one and agrees with the state.
\<close>

definition no_terminal :: "agent_event list \<Rightarrow> bool" where
  "no_terminal evs \<longleftrightarrow> list_all (\<lambda>e. \<not> is_terminal e) evs"

fun coherent_state :: "loop_state \<Rightarrow> next_action \<Rightarrow> agent_event list \<Rightarrow> bool" where
  "coherent_state (CallingModel _ _) a evs \<longleftrightarrow> (\<exists>r. a = CallModel r) \<and> no_terminal evs"
| "coherent_state (Finalizing _ _) a evs \<longleftrightarrow>
     (\<exists>r. a = CallModel r \<and> mr_tools r = []) \<and> no_terminal evs"
| "coherent_state (RepairingOutput _ _) a evs \<longleftrightarrow>
     (\<exists>r. a = CallModel r \<and> mr_tools r = []) \<and> no_terminal evs"
| "coherent_state (ExecutingTools calls _ _) a evs \<longleftrightarrow> a = ExecuteTools calls \<and> no_terminal evs"
| "coherent_state (ApplyingHandoff _ _ _) a evs \<longleftrightarrow> a = Handoff \<and> no_terminal evs"
| "coherent_state (Done out) a evs \<longleftrightarrow>
     a = Terminate \<and> (\<exists>pre. evs = pre @ [RunCompleted (fo_usage out)] \<and> no_terminal pre)"
| "coherent_state (Failed e) a evs \<longleftrightarrow>
     a = Terminate \<and> (\<exists>pre m. evs = pre @ [RunFailed m] \<and> no_terminal pre)"
| "coherent_state _ a evs \<longleftrightarrow> False"

lemma no_terminal_simps [simp]:
  "no_terminal []" "no_terminal (e # evs) \<longleftrightarrow> \<not> is_terminal e \<and> no_terminal evs"
  "no_terminal (xs @ ys) \<longleftrightarrow> no_terminal xs \<and> no_terminal ys"
  by (simp_all add: no_terminal_def)

lemma no_terminal_concat: "no_terminal (concat xss) \<longleftrightarrow> list_all no_terminal xss"
  by (induction xss) simp_all

lemma message_outputs_no_terminal [simp]: "no_terminal (message_outputs items)"
  by (simp add: message_outputs_def no_terminal_def list_all_iff)

lemma arm_events_no_terminal [simp]:
  "no_terminal (handoff_events hs items)" "no_terminal (tool_call_events items)"
  "no_terminal (map (\<lambda>oc. ToolOutputItem (outcome_item oc)) outcomes)"
  by (auto simp: handoff_events_def tool_call_events_def no_terminal_concat list_all_iff
      no_terminal_def split: item.splits)

definition coherent :: "transition_outcome \<Rightarrow> bool" where
  "coherent out \<longleftrightarrow> coherent_state (to_next_state out) (to_next_action out) (to_events out)"

declare max_turns_reached_def [arm_defs] transition_start_def [arm_defs] transition_tool_calls_def [arm_defs]
  transition_no_tool_calls_def [arm_defs] transition_tool_results_def [arm_defs]
  transition_finalizing_def [arm_defs] transition_repairing_def [arm_defs] internal_failure_def [arm_defs]
  not_implemented_def [arm_defs] invalid_transition_def [arm_defs]

lemma coherent_arms [simp]:
  "coherent (max_turns_reached ctx)"
  "coherent (transition_start turn prior ctx)"
  "coherent (transition_tool_calls turn prior items usage ctx)"
  "coherent (transition_no_tool_calls turn prior items usage ctx)"
  "coherent (transition_tool_results turn prior outcomes ctx)"
  "coherent (internal_failure what)"
  "coherent (not_implemented feature)"
  "coherent (invalid_transition shown)"
  by (auto simp: coherent_def arm_defs Let_def split: option.splits)

lemma coherent_finalizing [simp]: "coherent (transition_finalizing E turn prior items usage ctx)"
  by (auto simp: transition_finalizing_def Let_def coherent_def [of "_\<lparr>to_appends := _\<rparr>"]
      split: option.splits sum.splits) (auto simp: coherent_def)

lemma coherent_repairing [simp]: "coherent (transition_repairing E prior items usage ctx)"
  by (auto simp: transition_repairing_def Let_def split: option.splits sum.splits)
    (auto simp: coherent_def)

lemma transition_coherent_lemma: "coherent (transition E dbg st inp ctx)"
  by (auto simp: transition_def split: loop_state.splits transition_input.splits)

section \<open>Rank: the machine cannot run forever\<close>

text \<open>
  Turn numbers in well-formed states are below the budget where the machine will increment
  them, so the \<open>u32\<close> increment never wraps.
\<close>

fun wf_state :: "transition_ctx \<Rightarrow> loop_state \<Rightarrow> bool" where
  "wf_state ctx (ExecutingTools _ turn _) \<longleftrightarrow> turn < tc_max_turns ctx"
| "wf_state ctx (Finalizing turn _) \<longleftrightarrow> turn \<le> tc_max_turns ctx"
| "wf_state ctx (RepairingOutput turn _) \<longleftrightarrow> turn \<le> tc_max_turns ctx"
| "wf_state ctx _ \<longleftrightarrow> True"

fun rank :: "transition_ctx \<Rightarrow> loop_state \<Rightarrow> nat" where
  "rank ctx (CallingModel turn _) = 2 * (unat (tc_max_turns ctx) - unat turn) + 3"
| "rank ctx (ExecutingTools _ turn _) = 2 * (unat (tc_max_turns ctx) - unat turn) + 2"
| "rank ctx (Finalizing _ _) = 2"
| "rank ctx (RepairingOutput _ _) = 1"
| "rank ctx _ = 0"

lemma u32_succ: "(t::u32) < m \<Longrightarrow> unat (t + 1) = unat t + 1"
proof -
  assume "t < m"
  then have "unat t < unat m" by (simp add: word_less_nat_alt)
  moreover have "unat m < 2 ^ 32" using unsigned_less [of m] by simp
  ultimately show ?thesis by (simp add: unat_word_ariths)
qed

lemma u32_succ_le: "(t::u32) < m \<Longrightarrow> t + 1 \<le> m"
  by (metis inc_le)

lemma wf_arms:
  "turn < tc_max_turns ctx \<Longrightarrow> wf_state ctx (to_next_state (transition_start turn prior ctx))"
  "turn < tc_max_turns ctx \<Longrightarrow>
     wf_state ctx (to_next_state (transition_tool_calls turn prior items usage ctx))"
  "turn < tc_max_turns ctx \<Longrightarrow>
     wf_state ctx (to_next_state (transition_no_tool_calls turn prior items usage ctx))"
  "wf_state ctx (to_next_state (transition_tool_results turn prior outcomes ctx))"
  "turn \<le> tc_max_turns ctx \<Longrightarrow>
     wf_state ctx (to_next_state (transition_finalizing E turn prior items usage ctx))"
  "wf_state ctx (to_next_state (transition_repairing E prior items usage ctx))"
  by (auto simp: transition_start_def transition_tool_calls_def transition_no_tool_calls_def
      transition_tool_results_def transition_finalizing_def transition_repairing_def
      internal_failure_def Let_def u32_succ_le split: option.splits sum.splits)

lemma wf_terminal_arms [simp]:
  "wf_state ctx (to_next_state (max_turns_reached ctx))"
  "wf_state ctx (to_next_state (not_implemented f))"
  "wf_state ctx (to_next_state (invalid_transition m))"
  by (simp_all add: max_turns_reached_def not_implemented_def invalid_transition_def)

lemma transition_wf:
  "wf_state ctx st \<Longrightarrow> wf_state ctx (to_next_state (transition E dbg st inp ctx))"
  by (auto simp: transition_def wf_arms not_le split: loop_state.splits transition_input.splits)

lemma rank_arms:
  "turn < tc_max_turns ctx \<Longrightarrow>
     rank ctx (to_next_state (transition_tool_calls turn prior items usage ctx))
       < rank ctx (CallingModel turn prior)"
  "turn < tc_max_turns ctx \<Longrightarrow>
     rank ctx (to_next_state (transition_no_tool_calls turn prior items usage ctx))
       < rank ctx (CallingModel turn prior)"
  "turn < tc_max_turns ctx \<Longrightarrow>
     rank ctx (to_next_state (transition_tool_results turn prior outcomes ctx))
       < rank ctx (ExecutingTools calls turn prior)"
  "rank ctx (to_next_state (transition_finalizing E turn prior items usage ctx)) < 2"
  "rank ctx (to_next_state (transition_repairing E prior items usage ctx)) < 1"
  by (auto simp: transition_tool_calls_def transition_no_tool_calls_def
      transition_tool_results_def transition_finalizing_def transition_repairing_def
      internal_failure_def Let_def u32_succ word_less_nat_alt
      split: option.splits sum.splits)

lemma rank_terminal_arms [simp]:
  "rank ctx (to_next_state (max_turns_reached ctx)) = 0"
  "rank ctx (to_next_state (not_implemented f)) = 0"
  "rank ctx (to_next_state (invalid_transition m)) = 0"
  by (simp_all add: max_turns_reached_def not_implemented_def invalid_transition_def)

lemma transition_rank:
  assumes "wf_state ctx st" "rank ctx st \<noteq> 0" "\<And>ms. inp \<noteq> Start ms"
  shows "rank ctx (to_next_state (transition E dbg st inp ctx)) < rank ctx st"
  using assms rank_arms
  by (auto simp: transition_def not_le split: loop_state.splits transition_input.splits)

section \<open>Runs of the machine\<close>

text \<open>
  The states the machine takes when it is driven as its actions ask: a model response where
  it called the model, tool results where it asked for tools, with any conversation the
  driver has accumulated. The list holds the usage of the model responses consumed so far.
\<close>

fun awaits_model :: "loop_state \<Rightarrow> bool" where
  "awaits_model (CallingModel _ _) = True"
| "awaits_model (Finalizing _ _) = True"
| "awaits_model (RepairingOutput _ _) = True"
| "awaits_model _ = False"

inductive loop_run ::
  "ext \<Rightarrow> dbg \<Rightarrow> transition_ctx \<Rightarrow> loop_state \<Rightarrow> token_usage list \<Rightarrow> bool"
  for E :: ext and dbg :: dbg and ctx :: transition_ctx where
  seed: "loop_run E dbg ctx (to_next_state (transition E dbg (CallingModel 0 usage_default)
    (Start ms) (ctx\<lparr>tc_conversation := conv\<rparr>))) []"
| model: "loop_run E dbg ctx st us \<Longrightarrow> awaits_model st \<Longrightarrow>
    loop_run E dbg ctx (to_next_state (transition E dbg st (ModelResponse items u r)
      (ctx\<lparr>tc_conversation := conv\<rparr>))) (us @ [u])"
| tools: "loop_run E dbg ctx (ExecutingTools calls turn prior) us \<Longrightarrow>
    loop_run E dbg ctx (to_next_state (transition E dbg (ExecutingTools calls turn prior)
      (ToolResults outcomes) (ctx\<lparr>tc_conversation := conv\<rparr>))) us"

fun usage_of :: "loop_state \<Rightarrow> token_usage option" where
  "usage_of (CallingModel _ u) = Some u"
| "usage_of (ExecutingTools _ _ u) = Some u"
| "usage_of (ApplyingHandoff _ _ u) = Some u"
| "usage_of (Finalizing _ u) = Some u"
| "usage_of (RepairingOutput _ u) = Some u"
| "usage_of (Done out) = Some (fo_usage out)"
| "usage_of _ = None"

lemma usage_step_model:
  "awaits_model st \<Longrightarrow>
   usage_of (to_next_state (transition E dbg st (ModelResponse items u r) ctx)) = Some v \<Longrightarrow>
   \<exists>p. usage_of st = Some p \<and> v = p + u"
  by (cases st) (auto simp: transition_def arm_defs accumulate_def Let_def
      split: if_splits option.splits sum.splits)

lemma usage_step_tools:
  "usage_of (to_next_state (transition E dbg (ExecutingTools calls turn prior)
     (ToolResults outcomes) ctx)) = Some v \<Longrightarrow> v = prior"
  by (auto simp: transition_def arm_defs Let_def split: if_splits)

lemma usage_total:
  "loop_run E dbg ctx st us \<Longrightarrow> usage_of st = Some v \<Longrightarrow> v = sum_list us"
proof (induction arbitrary: v rule: loop_run.induct)
  case (seed ms conv)
  then show ?case
    by (auto simp: transition_def arm_defs split: if_splits option.splits)
next
  case (model st us items u r conv)
  then show ?case by (auto dest!: usage_step_model)
next
  case (tools calls turn prior us outcomes conv)
  then show ?case by (auto dest!: usage_step_tools)
qed

text \<open>How many responses a state can have consumed, by phase.\<close>

fun responses_ok :: "u32 \<Rightarrow> loop_state \<Rightarrow> nat \<Rightarrow> bool" where
  "responses_ok m (CallingModel turn _) n \<longleftrightarrow> n = unat turn \<and> turn < m"
| "responses_ok m (ExecutingTools _ turn _) n \<longleftrightarrow> n = unat turn + 1 \<and> turn < m"
| "responses_ok m (Finalizing turn _) n \<longleftrightarrow> n \<le> unat m"
| "responses_ok m (RepairingOutput turn _) n \<longleftrightarrow> n \<le> unat m + 1"
| "responses_ok m (ApplyingHandoff _ _ _) n \<longleftrightarrow> n \<le> unat m"
| "responses_ok m _ n \<longleftrightarrow> n \<le> unat m + 2"

lemma responses_step_model:
  "awaits_model st \<Longrightarrow> responses_ok (tc_max_turns ctx) st n \<Longrightarrow>
   responses_ok (tc_max_turns ctx)
     (to_next_state (transition E dbg st (ModelResponse items u r) ctx)) (Suc n)"
  by (cases st) (auto simp: transition_def arm_defs Let_def word_less_nat_alt not_le
      split: if_splits option.splits sum.splits)

lemma responses_step_tools:
  "responses_ok (tc_max_turns ctx) (ExecutingTools calls turn prior) n \<Longrightarrow>
   responses_ok (tc_max_turns ctx) (to_next_state
     (transition E dbg (ExecutingTools calls turn prior) (ToolResults outcomes) ctx)) n"
  using u32_succ [of turn "tc_max_turns ctx"]
  by (auto simp: transition_def arm_defs Let_def word_less_nat_alt not_le split: if_splits)

lemma responses_bound:
  "loop_run E dbg ctx st us \<Longrightarrow> responses_ok (tc_max_turns ctx) st (length us)"
proof (induction rule: loop_run.induct)
  case (seed ms conv)
  show ?case
    by (auto simp: transition_def arm_defs not_le word_gt_0 split: if_splits option.splits)
next
  case (model st us items u r conv)
  then show ?case
    using responses_step_model [of st "ctx\<lparr>tc_conversation := conv\<rparr>" "length us"] by simp
next
  case (tools calls turn prior us outcomes conv)
  then show ?case
    using responses_step_tools [of "ctx\<lparr>tc_conversation := conv\<rparr>" calls turn prior "length us"]
    by simp
qed

section \<open>Properties\<close>

text \<open>
  Every transition, from any state on any input, is coherent: the action is the one the
  next state calls for, a terminal state comes with exactly one terminal event, last in the
  batch and carrying the state's usage, and no other state emits one.
\<close>

theorem transition_coherent: "coherent (transition E dbg st inp ctx)"
  by (rule transition_coherent_lemma)

text \<open>
  The machine makes progress: on any input but the seed, a well-formed non-terminal state
  moves to a well-formed state of strictly smaller rank, so the loop ends after at most
  \<open>2 * max_turns + 3\<close> inputs; in particular the \<open>u32\<close> turn counter never wraps.
\<close>

theorem transition_progress:
  assumes "wf_state ctx st" "rank ctx st \<noteq> 0" "\<And>ms. inp \<noteq> Start ms"
  shows "wf_state ctx (to_next_state (transition E dbg st inp ctx))
    \<and> rank ctx (to_next_state (transition E dbg st inp ctx)) < rank ctx st"
  using assms transition_wf transition_rank by blast

text \<open>
  C9. Usage accounting: in every state the machine reaches, the usage it carries is the sum of
  the usages of all model responses consumed so far; the final output and the terminal event
  therefore report the whole run.
\<close>

theorem run_usage_total:
  assumes "loop_run E dbg ctx st us" "usage_of st = Some v"
  shows "v = sum_list us"
  using assms by (rule usage_total)

text \<open>
  C8. A run consumes at most \<open>max_turns + 2\<close> model responses: the budgeted turns, the
  constrained finalizing turn and the one repair turn.
\<close>

theorem run_responses_bound:
  assumes "loop_run E dbg ctx st us"
  shows "length us \<le> unat (tc_max_turns ctx) + 2"
  using responses_bound [OF assms] by (cases st) (auto simp: word_less_nat_alt)

definition keeps_in_handoff :: "item \<Rightarrow> bool" where
  "keeps_in_handoff i = (case i of UserMessage _ \<Rightarrow> True | AssistantMessage _ _ \<Rightarrow> True | _ \<Rightarrow> False)"

lemma thread_handoff_filter:
  "thread_handoff_transcript conv = filter keeps_in_handoff conv @ [transfer_note]"
  by (auto simp: thread_handoff_transcript_def keeps_in_handoff_def split: item.splits
      intro!: filter_cong)

lemma handoff_target_ex:
  "handoff_target hs items = Some t \<Longrightarrow> list_ex is_tool_call items"
  by (force simp: handoff_target_def list_ex_iff dest!: find_map_SomeD split: item.splits)

lemma handoff_events_calls:
  assumes "ToolCallItem i \<in> set (handoff_events hs items)"
  shows "\<exists>c nm args. i = ToolCall c nm args \<and> nm \<in> hd_tool_name ` set hs"
proof -
  from assms obtain x where "ToolCallItem i \<in> set (case x of
      AssistantMessage _ _ \<Rightarrow> [MessageOutput x]
    | ToolCall _ nm _ \<Rightarrow> if list_ex (\<lambda>h. hd_tool_name h = nm) hs then [ToolCallItem x] else []
    | _ \<Rightarrow> [])"
    by (auto simp: handoff_events_def)
  then show ?thesis by (cases x) (auto simp: list_ex_iff split: if_splits)
qed

text \<open>
  A transfer call takes precedence over every other tool call of a response: the machine
  hands off to the first transfer tool's target, executes no tool, reports no regular tool
  call, and threads a non-empty transcript free of system, tool-call and tool-result items
  with the remaining items in order.
\<close>

theorem handoff_precedence:
  assumes "turn < tc_max_turns ctx" "handoff_target (tc_handoffs ctx) items = Some target"
    and "out = transition E dbg (CallingModel turn prior) (ModelResponse items u r) ctx"
  shows "to_next_state out = ApplyingHandoff target
      (filter keeps_in_handoff (tc_conversation ctx) @ [transfer_note]) (prior + u)
    \<and> to_next_action out = Handoff
    \<and> (\<forall>i. ToolCallItem i \<in> set (to_events out) \<longrightarrow>
         (\<exists>c nm args. i = ToolCall c nm args \<and> nm \<in> hd_tool_name ` set (tc_handoffs ctx)))"
  using assms(1,2) handoff_target_ex [OF assms(2)]
  by (auto simp: assms(3) transition_def transition_tool_calls_def thread_handoff_filter
      accumulate_def not_le dest: handoff_events_calls)

fun constrained_only :: "loop_state \<Rightarrow> bool" where
  "constrained_only (Finalizing _ _) = True"
| "constrained_only (RepairingOutput _ _) = True"
| "constrained_only (Done _) = True"
| "constrained_only (Failed _) = True"
| "constrained_only _ = False"

lemma constrained_only_run:
  "loop_run E dbg ctx st us \<Longrightarrow> tc_tools ctx = [] \<Longrightarrow> tc_output ctx = Some out \<Longrightarrow>
   constrained_only st"
proof (induction rule: loop_run.induct)
  case (seed ms conv)
  then show ?case by (auto simp: transition_def arm_defs)
next
  case (model st us items u r conv)
  then show ?case
    by (cases st) (auto simp: transition_def arm_defs Let_def split: sum.splits)
qed simp_all

text \<open>
  An agent with a structured output type and no tools of its own never hands off, whatever
  handoffs it declares: its first turn is already the constrained one, which withdraws the
  transfer tools.
\<close>

theorem handoffs_withheld:
  assumes "loop_run E dbg ctx st us" "tc_tools ctx = []" "tc_output ctx = Some out"
  shows "st \<noteq> ApplyingHandoff target transcript usage"
  using constrained_only_run [OF assms] by auto

section \<open>Closed instances\<close>

definition ctx_ex :: "u32 \<Rightarrow> tool_def list \<Rightarrow> output_type option \<Rightarrow> transition_ctx" where
  "ctx_ex m ts out = \<lparr>tc_tools = ts, tc_model_settings = model_settings_default,
     tc_max_turns = m, tc_conversation = [UserMessage [Text ''hi'']], tc_output = out,
     tc_handoffs = [\<lparr>hd_tool_name = ''transfer_to_b'', hd_target = ''b'', hd_description = []\<rparr>]\<rparr>"

definition dbg_ex :: dbg where "dbg_ex st inp = []"

definition output_ex :: output_type where
  "output_ex = \<lparr>ot_name = ''Out'', ot_schema = JNull, ot_validate = (\<lambda>v. Err [''bad''])\<rparr>"

definition usage_ex :: token_usage where "usage_ex = TokenUsage 3 4 0 0 7"

lemma run_ex:
  "loop_run ext_ex dbg_ex (ctx_ex 1 [] (Some output_ex)) (Finalizing 0 0) []"
  using loop_run.seed [of ext_ex dbg_ex "ctx_ex 1 [] (Some output_ex)" "[]" "[]"]
  by (simp add: transition_def transition_start_def ctx_ex_def)

lemma run_ex_repair:
  "loop_run ext_ex dbg_ex (ctx_ex 1 [] (Some output_ex)) (RepairingOutput 0 usage_ex) [usage_ex]"
  using loop_run.model [OF run_ex, of "[]" usage_ex Stop "[]"]
  by (simp add: transition_def transition_finalizing_def constrained_validation_def Let_def
      validate_terminal_def last_assistant_content_def flatten_text_def accumulate_def ctx_ex_def)

theorem transition_progress_witness:
  "rank (ctx_ex 2 [] None) (to_next_state (transition ext_ex dbg_ex (CallingModel 0 0)
     (ModelResponse [] usage_ex Stop) (ctx_ex 2 [] None))) < 7"
  using transition_progress [of "ctx_ex 2 [] None" "CallingModel 0 0"
      "ModelResponse [] usage_ex Stop" ext_ex dbg_ex]
  by (simp add: ctx_ex_def)

theorem run_usage_total_witness:
  "loop_run ext_ex dbg_ex (ctx_ex 1 [] (Some output_ex)) (RepairingOutput 0 usage_ex) [usage_ex]
   \<and> usage_of (RepairingOutput 0 usage_ex) = Some (sum_list [usage_ex])"
  using run_ex_repair run_usage_total [OF run_ex_repair] by simp

theorem run_responses_bound_witness:
  "loop_run ext_ex dbg_ex (ctx_ex 1 [] (Some output_ex)) (RepairingOutput 0 usage_ex) [usage_ex]
   \<and> length [usage_ex] \<le> unat (1::u32) + 2"
  using run_ex_repair run_responses_bound [OF run_ex_repair] by (simp add: ctx_ex_def)

theorem handoff_precedence_witness:
  "to_next_action (transition ext_ex dbg_ex (CallingModel 0 0)
     (ModelResponse [ToolCall ''1'' ''other'' JNull, ToolCall ''2'' ''transfer_to_b'' JNull]
       usage_ex ToolCalls) (ctx_ex 2 [] None)) = Handoff"
  using handoff_precedence [of 0 "ctx_ex 2 [] None"
      "[ToolCall ''1'' ''other'' JNull, ToolCall ''2'' ''transfer_to_b'' JNull]" "''b''"
      _ ext_ex dbg_ex 0 usage_ex ToolCalls, OF _ _ refl]
  by (simp add: ctx_ex_def handoff_target_def)

theorem handoffs_withheld_witness:
  "loop_run ext_ex dbg_ex (ctx_ex 1 [] (Some output_ex)) (RepairingOutput 0 usage_ex) [usage_ex]
   \<and> tc_handoffs (ctx_ex 1 [] (Some output_ex)) \<noteq> []
   \<and> RepairingOutput 0 usage_ex \<noteq> ApplyingHandoff ''b'' [] 0"
  using run_ex_repair handoffs_withheld [OF run_ex_repair, of output_ex "''b''" "[]" 0] by (simp add: ctx_ex_def)

end
