(* ===== verification/Tool_Exec.thy ===== *)
theory Tool_Exec
  imports Run_Context Redaction Loop_State
begin

text \<open>
  The single-call execution pipeline (\<open>tool_exec.rs\<close>): resolve, authorize, invoke, redact,
  convert. A tool is code of the application: its \<open>invoke\<close> acts on a world of the caller's
  choice, so that "not invoked" is visible as an unchanged world.
\<close>

record ('u, 'w) tool =
  tl_name :: string
  tl_description :: string
  tl_schema :: json
  tl_effect :: tool_effect
  tl_invoke :: "'u tool_context \<Rightarrow> json \<Rightarrow> 'w \<Rightarrow> (tool_error + json) \<times> 'w"

definition tool_output_to_content_parts :: "ext \<Rightarrow> json \<Rightarrow> content_part list" where
  "tool_output_to_content_parts E output =
     (let text = (case output of JString s \<Rightarrow> s | v \<Rightarrow> to_string E v) in [Text text])"

definition finalize_tool_output :: "ext \<Rightarrow> json \<Rightarrow> bool \<Rightarrow> secret_set \<Rightarrow> content_part list" where
  "finalize_tool_output E output redact_output secrets =
     (let output = (if redact_output then redact output secrets else output)
      in tool_output_to_content_parts E output)"

definition find_tool :: "('u, 'w) tool list \<Rightarrow> string \<Rightarrow> ('u, 'w) tool option" where
  "find_tool tools nm = find (\<lambda>t. tl_name t = nm) tools"

definition effective_effect :: "('u, 'w) tool option \<Rightarrow> tool_effect" where
  "effective_effect tool = (case tool of Some t \<Rightarrow> tl_effect t | None \<Rightarrow> SideEffect)"

definition invoke_tool :: "ext \<Rightarrow> (string \<times> string) list \<Rightarrow> ('u, 'w) tool option \<Rightarrow> 'u run_context
    \<Rightarrow> 'u tool_context \<Rightarrow> tool_call_request \<Rightarrow> json \<Rightarrow> 'w \<Rightarrow> tool_call_outcome \<times> 'w" where
  "invoke_tool E env tool run_ctx tool_ctx call args w =
     (case tool of
        None \<Rightarrow> (\<lparr>tco_call_id = tcr_call_id call,
                   tco_result = Err (''unknown tool: '' @ tcr_name call)\<rparr>, w)
      | Some t \<Rightarrow>
          (case tl_invoke t tool_ctx args w of (r, w') \<Rightarrow>
            (\<lparr>tco_call_id = tcr_call_id call,
              tco_result = (case r of
                  Inr output \<Rightarrow> Ok (finalize_tool_output E output (rx_redact_output run_ctx)
                      (from_env_and_extra env (rx_extra_secrets run_ctx)))
                | Inl e \<Rightarrow> Err (tool_error_display E e))\<rparr>, w')))"

definition execute_tool_call :: "ext \<Rightarrow> (string \<times> string) list \<Rightarrow> ('u, 'w) tool list
    \<Rightarrow> 'u run_context \<Rightarrow> 'u tool_context \<Rightarrow> tool_call_request \<Rightarrow> 'w
    \<Rightarrow> (tool_call_outcome \<times> agent_event option) \<times> 'w" where
  "execute_tool_call E env tools run_ctx tool_ctx call w =
     (let tool = find_tool tools (tcr_name call);
          run = (\<lambda>args. case invoke_tool E env tool run_ctx tool_ctx call args w of
                    (outcome, w') \<Rightarrow> ((outcome, None), w'));
          deny = (\<lambda>reason. ((\<lparr>tco_call_id = tcr_call_id call,
                       tco_result = Err (''permission denied: '' @ reason)\<rparr>,
                     Some (PermissionDenied (tcr_name call) reason)), w))
      in case authorize_tool run_ctx (tcr_name call) (effective_effect tool) (tcr_args call) of
           PAllow \<Rightarrow> run (tcr_args call)
         | PReplace sanitized \<Rightarrow> run sanitized
         | PDeny reason \<Rightarrow> deny reason
         | PAskUser reason \<Rightarrow> deny reason)"

section \<open>Properties\<close>

lemma invoke_call_id: "tco_call_id (fst (invoke_tool E env t rc tc call args w)) = tcr_call_id call"
  by (simp add: invoke_tool_def split: option.splits prod.splits)

text \<open>
  C18. A tool runs only with permission, and its output is redacted: a call that is not permitted
  leaves the world untouched, answers with the denial and reports it; a permitted call to an
  unknown tool also touches nothing; otherwise the tool runs once, on the arguments the decision
  gives, and a successful output reaches the answer only through the redacting finalizer, with the
  run's secrets. The answer always carries the identifier of the call.
\<close>

theorem execute_tool_call_safe:
  fixes w :: 'w
  assumes "execute_tool_call E env tools rctx tctx call w = ((out, ev), w')"
    and "d = authorize_tool rctx (tcr_name call)
      (effective_effect (find_tool tools (tcr_name call))) (tcr_args call)"
  shows "tco_call_id out = tcr_call_id call
    \<and> (\<not> permits d \<longrightarrow> w' = w \<and> \<not> is_ok (tco_result out) \<and> ev \<noteq> None)
    \<and> (find_tool tools (tcr_name call) = None \<longrightarrow> w' = w \<and> \<not> is_ok (tco_result out))
    \<and> (w' \<noteq> w \<or> is_ok (tco_result out) \<longrightarrow>
        (\<exists>t args. find_tool tools (tcr_name call) = Some t \<and> permits d \<and> ev = None
          \<and> args = (case d of PReplace a \<Rightarrow> a | _ \<Rightarrow> tcr_args call)
          \<and> w' = snd (tl_invoke t tctx args w)
          \<and> (\<forall>v. fst (tl_invoke t tctx args w) = Ok v \<longrightarrow>
              tco_result out = Ok (finalize_tool_output E v (rx_redact_output rctx)
                (from_env_and_extra env (rx_extra_secrets rctx))))))"
proof -
  note run_def = assms(1)[unfolded execute_tool_call_def Let_def, folded assms(2)]
  consider (no) "\<not> permits d" | (unknown) "permits d" "find_tool tools (tcr_name call) = None"
    | (run) t where "permits d" "find_tool tools (tcr_name call) = Some t"
    by blast
  then show ?thesis
  proof cases
    case no
    then show ?thesis using run_def by (cases d) auto
  next
    case unknown
    then show ?thesis using run_def by (cases d) (auto simp: invoke_tool_def)
  next
    case run
    then show ?thesis using run_def
      by (cases d) (auto simp: invoke_tool_def split: prod.splits sum.splits)
  qed
qed

definition echo_tool :: "(unit, nat) tool" where
  "echo_tool = \<lparr>tl_name = ''echo'', tl_description = ''Echo'', tl_schema = JNull,
     tl_effect = SideEffect, tl_invoke = (\<lambda>_ args n. (Ok args, Suc n))\<rparr>"

definition ctx_dont_ask :: "unit run_context" where
  "ctx_dont_ask = (run_context_new () 0 [] tracer_default 0 0 0 0)\<lparr>rx_permission_mode := DontAsk\<rparr>"

definition call_ex :: tool_call_request where
  "call_ex = \<lparr>tcr_call_id = ''c1'', tcr_name = ''echo'', tcr_args = JString ''hi''\<rparr>"

theorem execute_tool_call_safe_witness:
  "\<exists>out ev w'. execute_tool_call ext_ex [] [echo_tool] ctx_dont_ask (to_tool_context 0 ctx_dont_ask)
       call_ex (0 :: nat) = ((out, ev), w') \<and> w' = 0 \<and> \<not> is_ok (tco_result out)"
proof -
  obtain out ev w' where run: "execute_tool_call ext_ex [] [echo_tool] ctx_dont_ask
      (to_tool_context 0 ctx_dont_ask) call_ex (0 :: nat) = ((out, ev), w')"
    by (metis prod.exhaust)
  have "\<not> permits (authorize_tool ctx_dont_ask (tcr_name call_ex)
      (effective_effect (find_tool [echo_tool] (tcr_name call_ex))) (tcr_args call_ex))"
    by code_simp
  then show ?thesis using execute_tool_call_safe [OF run refl] run by blast
qed

text \<open>The text of a failing tool is not redacted: it reaches the conversation as it is.\<close>

lemma tool_error_text_unredacted:
  assumes "find_tool tools (tcr_name call) = Some t" "tl_invoke t tctx (tcr_args call) w = (Err (ToolOther msg), w')"
    and "authorize_tool rctx (tcr_name call) (tl_effect t) (tcr_args call) = PAllow"
  shows "tco_result (fst (fst (execute_tool_call E env tools rctx tctx call w))) = Err msg"
  using assms by (simp add: execute_tool_call_def effective_effect_def invoke_tool_def Let_def)

end
