(* ===== verification/Model_Turn.thy ===== *)
theory Model_Turn
  imports Messages
begin

text \<open>
  Reassembly of a streamed model response (\<open>model.rs\<close>, \<open>ModelTurnAccumulator\<close>): the
  accumulator's state, \<open>observe\<close> and \<open>finish\<close>, and what a turn contains in terms of the
  event sequence alone: text and reasoning are the concatenated deltas, each call id becomes
  one tool call with its first name and its concatenated arguments, in key order, and the
  last usage snapshot wins.
\<close>

section \<open>The accumulator\<close>

record tool_call_accum =
  ta_name :: "string option"
  ta_args_str :: string

definition tool_call_accum_default :: tool_call_accum where
  "tool_call_accum_default = \<lparr>ta_name = None, ta_args_str = []\<rparr>"

record model_turn =
  mt_items :: "item list"
  mt_usage :: token_usage
  mt_finish_reason :: finish_reason

record model_turn_accumulator =
  acc_agent_name :: string
  acc_text :: string
  acc_reasoning :: string
  acc_tool_accum :: "tool_call_accum btree"
  acc_finish_reason :: finish_reason
  acc_latest_usage :: "token_usage option"

definition accumulator_new :: "string \<Rightarrow> model_turn_accumulator" where
  "accumulator_new agent = \<lparr>acc_agent_name = agent, acc_text = [], acc_reasoning = [],
     acc_tool_accum = [], acc_finish_reason = Stop, acc_latest_usage = None\<rparr>"

definition observe_tool_delta ::
  "string \<Rightarrow> string option \<Rightarrow> string \<Rightarrow> tool_call_accum btree \<Rightarrow> tool_call_accum btree" where
  "observe_tool_delta call_id nm args_delta m =
     (let a = unwrap_or tool_call_accum_default (bt_get m call_id);
          a' = (if ta_name a = None then a\<lparr>ta_name := nm\<rparr> else a)
      in bt_insert call_id (a'\<lparr>ta_args_str := ta_args_str a' @ args_delta\<rparr>) m)"

definition usage_snapshot ::
  "u32 \<Rightarrow> u32 \<Rightarrow> u32 option \<Rightarrow> u32 option \<Rightarrow> token_usage" where
  "usage_snapshot i out c r = TokenUsage (ucast i) (ucast out)
     (unwrap_or 0 (map_option ucast c)) (unwrap_or 0 (map_option ucast r))
     (ucast i + ucast out)"

fun observe :: "model_turn_accumulator \<Rightarrow> model_event \<Rightarrow> model_turn_accumulator" where
  "observe a (MTokenDelta t) = a\<lparr>acc_text := acc_text a @ t\<rparr>"
| "observe a (MReasoningDelta t) = a\<lparr>acc_reasoning := acc_reasoning a @ t\<rparr>"
| "observe a (MToolCallDelta call_id nm args_delta) =
     a\<lparr>acc_tool_accum := observe_tool_delta call_id nm args_delta (acc_tool_accum a)\<rparr>"
| "observe a (MUsage i out c r) = a\<lparr>acc_latest_usage := Some (usage_snapshot i out c r)\<rparr>"
| "observe a (MFinish reason) = a\<lparr>acc_finish_reason := reason\<rparr>"

definition observe_all :: "model_turn_accumulator \<Rightarrow> model_event list \<Rightarrow> model_turn_accumulator"
  where "observe_all a evs = foldl observe a evs"

text \<open>The arguments text of a call, with the blank-arguments rule of \<open>build_items\<close>.\<close>

definition call_args_text :: "tool_call_accum \<Rightarrow> string" where
  "call_args_text a = (if trim (ta_args_str a) = [] then ''{}'' else ta_args_str a)"

fun build_calls :: "ext \<Rightarrow> tool_call_accum btree \<Rightarrow> string + item list" where
  "build_calls E [] = Ok []"
| "build_calls E ((call_id, a) # m) =
     (case from_str E (call_args_text a) of
           Inl e \<Rightarrow> Err (''invalid tool args for call_id='' @ call_id @ '' (name='' @
             unwrap_or ''?'' (ta_name a) @ ''): '' @ e)
         | Inr args \<Rightarrow> (case build_calls E m of
             Inl e \<Rightarrow> Err e
           | Inr items \<Rightarrow> Ok (ToolCall call_id (unwrap_or [] (ta_name a)) args # items)))"

definition build_message :: "string \<Rightarrow> string \<Rightarrow> string \<Rightarrow> item list" where
  "build_message agent txt reasoning =
     (if txt \<noteq> [] \<or> reasoning \<noteq> [] then
        [AssistantMessage
           ((if reasoning \<noteq> [] then [Reasoning reasoning] else []) @
            (if txt \<noteq> [] then [Text txt] else []))
           (Some agent)]
      else [])"

definition build_items ::
  "ext \<Rightarrow> string \<Rightarrow> string \<Rightarrow> string \<Rightarrow> tool_call_accum btree \<Rightarrow> string + item list" where
  "build_items E agent txt reasoning m =
     (case build_calls E m of
        Inl e \<Rightarrow> Err e
      | Inr calls \<Rightarrow> Ok (build_message agent txt reasoning @ calls))"

definition finish :: "ext \<Rightarrow> model_turn_accumulator \<Rightarrow> string + model_turn" where
  "finish E a =
     (case build_items E (acc_agent_name a) (acc_text a) (acc_reasoning a) (acc_tool_accum a) of
        Inl e \<Rightarrow> Err e
      | Inr items \<Rightarrow> Ok \<lparr>mt_items = items, mt_usage = unwrap_or usage_default (acc_latest_usage a),
          mt_finish_reason = acc_finish_reason a\<rparr>)"

section \<open>What a stream means\<close>

text \<open>The declarative reading of an event sequence, channel by channel.\<close>

definition text_of :: "model_event list \<Rightarrow> string" where
  "text_of evs = concat (map (\<lambda>e. case e of MTokenDelta t \<Rightarrow> t | _ \<Rightarrow> []) evs)"

definition reasoning_of :: "model_event list \<Rightarrow> string" where
  "reasoning_of evs = concat (map (\<lambda>e. case e of MReasoningDelta t \<Rightarrow> t | _ \<Rightarrow> []) evs)"

definition deltas_of :: "string \<Rightarrow> model_event list \<Rightarrow> (string option \<times> string) list" where
  "deltas_of cid evs = List.map_filter (\<lambda>e. case e of
     MToolCallDelta c nm d \<Rightarrow> if c = cid then Some (nm, d) else None | _ \<Rightarrow> None) evs"

definition call_of :: "string \<Rightarrow> model_event list \<Rightarrow> tool_call_accum option" where
  "call_of cid evs = (case deltas_of cid evs of
      [] \<Rightarrow> None
    | ds \<Rightarrow> Some \<lparr>ta_name = find_map fst ds, ta_args_str = concat (map snd ds)\<rparr>)"

definition last_usage :: "model_event list \<Rightarrow> token_usage option" where
  "last_usage evs = find_map (\<lambda>e. case e of
     MUsage i out c r \<Rightarrow> Some (usage_snapshot i out c r) | _ \<Rightarrow> None) (rev evs)"

definition last_finish :: "model_event list \<Rightarrow> finish_reason option" where
  "last_finish evs = find_map (\<lambda>e. case e of MFinish r \<Rightarrow> Some r | _ \<Rightarrow> None) (rev evs)"

section \<open>The accumulator computes the declarative reading\<close>

lemma observe_all_snoc: "observe_all a (evs @ [e]) = observe (observe_all a evs) e"
  by (simp add: observe_all_def)

lemma observe_all_Nil [simp]: "observe_all a [] = a"
  by (simp add: observe_all_def)

lemma deltas_of_snoc:
  "deltas_of cid (evs @ [e]) = deltas_of cid evs @
     (case e of MToolCallDelta c nm d \<Rightarrow> if c = cid then [(nm, d)] else [] | _ \<Rightarrow> [])"
  by (cases e) (simp_all add: deltas_of_def map_filter_def)

lemma find_map_append:
  "find_map f (xs @ ys) = (case find_map f xs of Some y \<Rightarrow> Some y | None \<Rightarrow> find_map f ys)"
  by (induction xs) (auto split: option.splits)

lemma call_of_snoc_delta:
  "call_of c (evs @ [MToolCallDelta c nm d]) =
     (let a = unwrap_or tool_call_accum_default (call_of c evs);
          a' = (if ta_name a = None then a\<lparr>ta_name := nm\<rparr> else a)
      in Some (a'\<lparr>ta_args_str := ta_args_str a' @ d\<rparr>))"
  by (cases "deltas_of c evs")
    (auto simp: call_of_def deltas_of_snoc tool_call_accum_default_def find_map_append Let_def
      split: option.splits)

lemma call_of_snoc_other:
  "(\<And>nm d. e \<noteq> MToolCallDelta c nm d) \<Longrightarrow> call_of c (evs @ [e]) = call_of c evs"
  by (cases e) (auto simp: call_of_def deltas_of_snoc)

lemma accum_fields:
  fixes agent
  defines "A \<equiv> observe_all (accumulator_new agent)"
  shows "acc_agent_name (A evs) = agent"
    and "acc_text (A evs) = text_of evs"
    and "acc_reasoning (A evs) = reasoning_of evs"
    and "acc_latest_usage (A evs) = last_usage evs"
    and "acc_finish_reason (A evs) = unwrap_or Stop (last_finish evs)"
proof -
  have "acc_agent_name (A evs) = agent \<and> acc_text (A evs) = text_of evs \<and>
    acc_reasoning (A evs) = reasoning_of evs \<and> acc_latest_usage (A evs) = last_usage evs \<and>
    acc_finish_reason (A evs) = unwrap_or Stop (last_finish evs)"
  proof (induction evs rule: rev_induct)
    case Nil
    show ?case
      by (simp add: A_def accumulator_new_def text_of_def reasoning_of_def last_usage_def
          last_finish_def)
  next
    case (snoc e evs)
    then show ?case
      by (cases e) (simp_all add: A_def observe_all_snoc text_of_def reasoning_of_def
          last_usage_def last_finish_def)
  qed
  then show "acc_agent_name (A evs) = agent" "acc_text (A evs) = text_of evs"
    "acc_reasoning (A evs) = reasoning_of evs" "acc_latest_usage (A evs) = last_usage evs"
    "acc_finish_reason (A evs) = unwrap_or Stop (last_finish evs)" by simp_all
qed

lemma accum_calls:
  fixes agent
  defines "T \<equiv> \<lambda>evs. acc_tool_accum (observe_all (accumulator_new agent) evs)"
  shows "bt_ok (T evs) \<and> bt_get (T evs) = (\<lambda>cid. call_of cid evs)"
proof (induction evs rule: rev_induct)
  case Nil
  show ?case
    by (simp add: T_def accumulator_new_def bt_ok_def bt_get_def call_of_def deltas_of_def
        map_filter_def fun_eq_iff)
next
  case (snoc e evs)
  show ?case
  proof (cases "\<exists>c nm d. e = MToolCallDelta c nm d")
    case True
    then obtain c nm d where e: "e = MToolCallDelta c nm d" by blast
    have T: "T (evs @ [e]) = observe_tool_delta c nm d (T evs)"
      by (simp add: T_def e observe_all_snoc)
    have "bt_get (T (evs @ [e])) cid = call_of cid (evs @ [e])" for cid
      unfolding T unfolding e using snoc.IH by (cases "cid = c")
        (auto simp: observe_tool_delta_def Let_def bt_get_insert call_of_snoc_delta
          call_of_snoc_other)
    then show ?thesis
      using snoc.IH by (simp add: T observe_tool_delta_def Let_def bt.ok_ins fun_eq_iff)
  next
    case False
    then have "T (evs @ [e]) = T evs" "\<And>cid. call_of cid (evs @ [e]) = call_of cid evs"
      by (cases e; simp add: T_def observe_all_snoc call_of_snoc_other)+
    with snoc.IH show ?thesis by simp
  qed
qed

section \<open>Turns\<close>

lemma build_calls_Ok_iff:
  "is_ok (build_calls E m) \<longleftrightarrow> (\<forall>(cid, a)\<in>set m. is_ok (from_str E (call_args_text a)))"
proof (induction E m rule: build_calls.induct)
  case (2 E cid a m)
  then show ?case
    by (cases "from_str E (call_args_text a)")
      (auto split: sum.splits)
qed simp

fun call_id_of :: "item \<Rightarrow> string" where
  "call_id_of (ToolCall c _ _) = c"
| "call_id_of _ = []"

lemma build_calls_ids:
  "build_calls E m = Ok items \<Longrightarrow> list_all is_tool_call items \<and> map call_id_of items = map fst m"
  by (induction E m arbitrary: items rule: build_calls.induct)
    (auto split: sum.splits)

lemma build_calls_sound:
  "build_calls E m = Ok items \<Longrightarrow> ToolCall c n args \<in> set items \<Longrightarrow>
     \<exists>a. (c, a) \<in> set m \<and> n = unwrap_or [] (ta_name a) \<and> from_str E (call_args_text a) = Ok args"
  by (induction E m arbitrary: items rule: build_calls.induct)
    (fastforce split: sum.splits)+

lemma accum_entries:
  "(cid, a) \<in> set (acc_tool_accum (observe_all (accumulator_new agent) evs))
     \<longleftrightarrow> call_of cid evs = Some a"
proof -
  let ?m = "acc_tool_accum (observe_all (accumulator_new agent) evs)"
  from accum_calls [of agent evs] have ok: "bt_ok ?m"
    and get: "map_of ?m cid = call_of cid evs" by (auto simp: bt_get_def fun_eq_iff)
  from ok have "distinct (map fst ?m)" by (simp add: bt_ok_def)
  then have "(cid, a) \<in> set ?m \<longleftrightarrow> map_of ?m cid = Some a" by simp
  with get show ?thesis by simp
qed

lemma finish_simp:
  "finish E (observe_all (accumulator_new agent) evs) =
     (case build_calls E (acc_tool_accum (observe_all (accumulator_new agent) evs)) of
        Inl e \<Rightarrow> Err e
      | Inr calls \<Rightarrow> Ok \<lparr>mt_items = build_message agent (text_of evs) (reasoning_of evs) @ calls,
          mt_usage = unwrap_or 0 (last_usage evs),
          mt_finish_reason = unwrap_or Stop (last_finish evs)\<rparr>)"
  by (simp add: finish_def build_items_def accum_fields split: sum.splits)

text \<open>
  A reassembled turn is exactly the declarative reading of the stream: the assistant
  message carries the concatenated text and reasoning, there is one tool call per call id in
  key order, each with the first name and the concatenated arguments of its own deltas, the
  usage is the last snapshot and the reason the last one seen.
\<close>

theorem accumulated_turn:
  assumes "finish E (observe_all (accumulator_new agent) evs) = Ok t"
  shows "mt_usage t = unwrap_or 0 (last_usage evs)
    \<and> mt_finish_reason t = unwrap_or Stop (last_finish evs)
    \<and> (\<exists>calls. mt_items t = build_message agent (text_of evs) (reasoning_of evs) @ calls
        \<and> list_all is_tool_call calls
        \<and> sorted (map call_id_of calls) \<and> distinct (map call_id_of calls)
        \<and> (\<forall>cid. cid \<in> set (map call_id_of calls) \<longleftrightarrow> call_of cid evs \<noteq> None)
        \<and> (\<forall>c n args. ToolCall c n args \<in> set calls \<longrightarrow>
             (\<exists>a. call_of c evs = Some a \<and> n = unwrap_or [] (ta_name a)
               \<and> from_str E (call_args_text a) = Ok args)))"
proof -
  let ?m = "acc_tool_accum (observe_all (accumulator_new agent) evs)"
  from assms obtain calls where calls: "build_calls E ?m = Ok calls"
    and t: "t = \<lparr>mt_items = build_message agent (text_of evs) (reasoning_of evs) @ calls,
      mt_usage = unwrap_or 0 (last_usage evs),
      mt_finish_reason = unwrap_or Stop (last_finish evs)\<rparr>"
    by (auto simp: finish_simp split: sum.splits)
  note ids = build_calls_ids [OF calls]
  have ok: "bt_ok ?m" using accum_calls [of agent evs] by blast
  have sound: "\<exists>a. call_of c evs = Some a \<and> n = unwrap_or [] (ta_name a)
      \<and> from_str E (call_args_text a) = Ok args"
    if "ToolCall c n args \<in> set calls" for c n args
    using build_calls_sound [OF calls that] by (simp add: accum_entries)
  have complete: "cid \<in> set (map call_id_of calls) \<longleftrightarrow> call_of cid evs \<noteq> None" for cid
  proof -
    from ids have "cid \<in> set (map call_id_of calls) \<longleftrightarrow> (\<exists>a. (cid, a) \<in> set ?m)"
      by (simp only:) force
    then show ?thesis by (simp add: accum_entries)
  qed
  have srt: "sorted (map call_id_of calls)" "distinct (map call_id_of calls)"
    using ids ok by (simp_all add: bt_ok_def)
  show ?thesis
    using sound complete srt ids by (intro conjI exI [of _ calls] allI impI) (simp_all add: t)
qed

text \<open>
  The turn depends on each channel only: any two streams with the same text, reasoning,
  per-call deltas, last usage and last finish reason reassemble to the same result, however
  the provider interleaves them.
\<close>

theorem turn_interleaving:
  assumes "text_of evs = text_of evs'" "reasoning_of evs = reasoning_of evs'"
    and "\<And>cid. deltas_of cid evs = deltas_of cid evs'"
    and "last_usage evs = last_usage evs'" "last_finish evs = last_finish evs'"
  shows "finish E (observe_all (accumulator_new agent) evs)
    = finish E (observe_all (accumulator_new agent) evs')"
proof -
  have "call_of cid evs = call_of cid evs'" for cid
    using assms(3) by (simp add: call_of_def)
  then have "acc_tool_accum (observe_all (accumulator_new agent) evs)
    = acc_tool_accum (observe_all (accumulator_new agent) evs')"
    using accum_calls [of agent evs] accum_calls [of agent evs']
    by (intro bt.entries_unique) auto
  then show ?thesis unfolding finish_simp by (simp only: assms(1,2,4,5))
qed

text \<open>
  Reassembly fails exactly when some call's accumulated arguments (blank ones read as
  \<open>{}\<close>) are not JSON; a stream with no tool calls always yields a turn.
\<close>

theorem finish_ok_iff:
  "is_ok (finish E (observe_all (accumulator_new agent) evs)) \<longleftrightarrow>
     (\<forall>cid a. call_of cid evs = Some a \<longrightarrow> is_ok (from_str E (call_args_text a)))"
proof -
  let ?m = "acc_tool_accum (observe_all (accumulator_new agent) evs)"
  have "is_ok (finish E (observe_all (accumulator_new agent) evs)) \<longleftrightarrow> is_ok (build_calls E ?m)"
    by (simp add: finish_simp split: sum.splits)
  also have "\<dots> \<longleftrightarrow> (\<forall>cid a. call_of cid evs = Some a \<longrightarrow> is_ok (from_str E (call_args_text a)))"
    unfolding build_calls_Ok_iff
    by (auto simp: accum_entries split: prod.splits) (use accum_entries in blast)
  finally show ?thesis .
qed

section \<open>Closed instances\<close>

definition deltas_ex :: "model_event list" where
  "deltas_ex = [MTokenDelta ''he'', MToolCallDelta ''c1'' (Some ''f'') ''{'', MTokenDelta ''y'',
     MToolCallDelta ''c1'' None ''}'', MUsage 2 3 None None, MFinish ToolCalls]"

definition deltas_ex' :: "model_event list" where
  "deltas_ex' = [MToolCallDelta ''c1'' (Some ''f'') ''{'', MToolCallDelta ''c1'' None ''}'',
     MTokenDelta ''he'', MUsage 2 3 None None, MTokenDelta ''y'', MFinish ToolCalls]"

lemma trim_braces: "trim ''{}'' = ''{}''"
  by code_simp

lemma finish_deltas_ex:
  "finish ext_ex (observe_all (accumulator_new ''a'') deltas_ex) = Ok
     \<lparr>mt_items = [AssistantMessage [Text ''hey''] (Some ''a''), ToolCall ''c1'' ''f'' (JObject [])],
       mt_usage = TokenUsage 2 3 0 0 5, mt_finish_reason = ToolCalls\<rparr>"
  by (simp add: finish_def observe_all_def deltas_ex_def accumulator_new_def observe_tool_delta_def
      build_items_def build_message_def call_args_text_def bt_get_def tool_call_accum_default_def
      usage_snapshot_def trim_braces)

theorem accumulated_turn_witness:
  "\<exists>t. finish ext_ex (observe_all (accumulator_new ''a'') deltas_ex) = Ok t
     \<and> mt_usage t = unwrap_or 0 (last_usage deltas_ex)"
  using accumulated_turn [OF finish_deltas_ex] finish_deltas_ex by blast

theorem turn_interleaving_witness:
  "finish ext_ex (observe_all (accumulator_new ''a'') deltas_ex)
   = finish ext_ex (observe_all (accumulator_new ''a'') deltas_ex')"
  by (rule turn_interleaving)
    (simp_all add: deltas_ex_def deltas_ex'_def text_of_def reasoning_of_def deltas_of_def
      last_usage_def last_finish_def map_filter_simps)

theorem finish_ok_iff_witness:
  "is_ok (finish ext_ex (observe_all (accumulator_new ''a'') deltas_ex))
   \<and> (\<exists>a. call_of ''c1'' deltas_ex = Some a \<and> is_ok (from_str ext_ex (call_args_text a)))"
proof -
  have "call_of ''c1'' deltas_ex = Some \<lparr>ta_name = Some ''f'', ta_args_str = ''{}''\<rparr>"
    by (simp add: call_of_def deltas_of_def deltas_ex_def map_filter_simps)
  then show ?thesis using finish_ok_iff [of ext_ex "''a''" deltas_ex] finish_deltas_ex by auto
qed

end
