(* ===== verification/Agent_Loop.thy ===== *)
theory Agent_Loop
  imports Control Tool_Exec Model_Turn Loop_State
begin

text \<open>
  The agent loop driver (\<open>agent.rs\<close>, with \<open>handoff.rs\<close>): one run of an \<open>LlmAgent\<close> as the list of
  events its stream yields and the structured error it leaves in the failure slot. The driver
  feeds the pure state machine of \<open>Loop_State\<close> and performs its actions: model calls, tool
  calls and handoffs, with hooks and guardrails at the seams. The model, the tools, the hooks
  and the other agents are parameters. Tool calls run concurrently in the code: the world
  each call observes and the order in which denials are reported are parameters too, so every
  interleaving is covered.

  It is shown that the loop ends, that the stream keeps the contract every runner and workflow
  relies on, that tools run only with permission, and that a failure leaves its structured error.
\<close>

section \<open>The contract of an agent\<close>

type_synonym 'u agent_run =
  "'u run_context \<Rightarrow> item list \<Rightarrow> agent_error + agent_event list \<times> agent_error option"

fun ends_with_slot :: "agent_event \<Rightarrow> agent_error option \<Rightarrow> bool" where
  "ends_with_slot (RunCompleted _) slot \<longleftrightarrow> slot = None"
| "ends_with_slot (RunFailed _) slot \<longleftrightarrow> slot \<noteq> None"
| "ends_with_slot _ slot \<longleftrightarrow> False"

text \<open>
  A stream ends in its only terminal event, and the failure slot holds an error exactly when
  that event is a failure.
\<close>

definition closes :: "agent_event list \<Rightarrow> agent_error option \<Rightarrow> bool" where
  "closes evs slot \<longleftrightarrow> (\<exists>pre e. evs = pre @ [e] \<and> no_terminal pre \<and> ends_with_slot e slot)"

definition stream_ok :: "string \<Rightarrow> agent_event list \<times> agent_error option \<Rightarrow> bool" where
  "stream_ok nm r \<longleftrightarrow> (\<exists>rest. fst r = RunStarted nm # rest \<and> closes rest (snd r))"

locale agent_contract =
  fixes nm :: string and run :: "'u agent_run"
  assumes run_stream: "run ctx input = Ok r \<Longrightarrow> stream_ok nm r"
begin

lemma run_closes: "run ctx input = Ok (evs, slot) \<Longrightarrow> \<exists>rest. evs = RunStarted nm # rest \<and> closes rest slot"
  using run_stream by (fastforce simp: stream_ok_def)

end

section \<open>Handoffs\<close>

record 'u handoff =
  ho_name :: string
  ho_description :: string
  ho_run :: "'u agent_run"

text \<open>Bytes outside ASCII belong to characters that are not alphanumeric, so the loop works on bytes.\<close>

fun slug_loop :: "bool \<Rightarrow> string \<Rightarrow> string" where
  "slug_loop prev_underscore [] = []"
| "slug_loop prev_underscore (c # cs) =
     (if is_ascii_alphanumeric c then ascii_lower c # slug_loop False cs
      else if \<not> prev_underscore then CHR ''_'' # slug_loop True cs
      else slug_loop prev_underscore cs)"

definition trim_underscores :: "string \<Rightarrow> string" where
  "trim_underscores s =
     rev (dropWhile (\<lambda>c. c = CHR ''_'') (rev (dropWhile (\<lambda>c. c = CHR ''_'') s)))"

definition slug :: "string \<Rightarrow> string" where
  "slug nm = trim_underscores (slug_loop False nm)"

definition to_def :: "'u handoff \<Rightarrow> handoff_def" where
  "to_def h = \<lparr>hd_tool_name = ''transfer_to_'' @ slug (ho_name h), hd_target = ho_name h,
     hd_description = ho_description h\<rparr>"

section \<open>The agent\<close>

record ('u, 'w) llm_agent =
  la_name :: string
  la_description :: string
  la_instructions :: "'u run_scope \<Rightarrow> string"
  la_model :: "nat \<Rightarrow> model_request \<Rightarrow> model_error + (model_error + model_event) list"
  la_tools :: "('u, 'w) tool list"
  la_handoffs :: "'u handoff list"
  la_output_type :: "output_type option"
  la_input_guardrails :: "'u guardrail_fn list"
  la_output_guardrails :: "'u guardrail_fn list"
  la_hooks :: "'u hook_fn list"
  la_model_settings :: model_settings
  la_config :: run_config

text \<open>
  What surrounds one run: library functions, the process environment, the \<open>Debug\<close> text of invalid
  transitions, the child token handed to tools, and the concurrency of tool calls.
\<close>

record 'w surroundings =
  su_ext :: ext
  su_env :: "(string \<times> string) list"
  su_dbg :: dbg
  su_child_token :: nat
  su_world :: "nat \<Rightarrow> nat \<Rightarrow> 'w"
  su_order :: "nat \<Rightarrow> agent_event list \<Rightarrow> agent_event list"

definition user_text_of :: "item list \<Rightarrow> string" where
  "user_text_of conversation =
     concat (map (\<lambda>i. case i of UserMessage content \<Rightarrow> flatten_text content | _ \<Rightarrow> []) conversation)"

subsection \<open>Tool calls\<close>

text \<open>
  One call: the pre hook, authorization on the effective arguments, the invocation, the post hook,
  redaction last. The result is the outcome and, for a denied call, the event to report.
\<close>

definition post_tool :: "'w surroundings \<Rightarrow> ('u, 'w) llm_agent \<Rightarrow> 'u run_context \<Rightarrow> nat \<Rightarrow> string
    \<Rightarrow> string + json \<Rightarrow> string + content_part list" where
  "post_tool U A ctx k nm outcome =
     (case outcome of
        Inl e \<Rightarrow> Err e
      | Inr output_json \<Rightarrow>
          (let post = fire k ctx (la_hooks A) (PostToolUse nm output_json)
           in case rh_denied post of
                Some reason \<Rightarrow> Err (''blocked by PostToolUse hook: '' @ reason)
              | None \<Rightarrow> Ok (finalize_tool_output (su_ext U) (unwrap_or output_json (rh_replacement post))
                  (rx_redact_output ctx) (from_env_and_extra (su_env U) (rx_extra_secrets ctx)))))"

definition invoke_json :: "'w surroundings \<Rightarrow> 'u tool_context \<Rightarrow> ('u, 'w) tool option \<Rightarrow> string
    \<Rightarrow> json \<Rightarrow> 'w \<Rightarrow> (string + json) \<times> 'w" where
  "invoke_json U tctx tool nm args w =
     (case tool of
        Some t \<Rightarrow> (case tl_invoke t tctx args w of
            (Inr v, w') \<Rightarrow> (Ok v, w')
          | (Inl e, w') \<Rightarrow> (Err (tool_error_display (su_ext U) e), w'))
      | None \<Rightarrow> (Err (''unknown tool: '' @ nm), w))"

definition run_tool_call :: "'w surroundings \<Rightarrow> ('u, 'w) llm_agent \<Rightarrow> 'u run_context
    \<Rightarrow> 'u tool_context \<Rightarrow> nat \<Rightarrow> tool_call_request \<Rightarrow> 'w
    \<Rightarrow> (tool_call_outcome \<times> agent_event option) \<times> 'w" where
  "run_tool_call U A ctx tctx k call w =
     (let nm = tcr_name call;
          tool = find_tool (la_tools A) nm;
          done = (\<lambda>r. \<lparr>tco_call_id = tcr_call_id call, tco_result = r\<rparr>);
          pre = fire k ctx (la_hooks A) (PreToolUse nm (tcr_args call));
          go = (\<lambda>args. case invoke_json U tctx tool nm args w of
                   (r, w') \<Rightarrow> ((done (post_tool U A ctx k nm r), None), w'));
          deny = (\<lambda>reason. ((done (Err (''permission denied: '' @ reason)),
                     Some (PermissionDenied nm reason)), w))
      in case rh_denied pre of
           Some reason \<Rightarrow> ((done (Err (''blocked by PreToolUse hook: '' @ reason)), None), w)
         | None \<Rightarrow>
             (let args = unwrap_or (tcr_args call) (rh_replacement pre)
              in case authorize_tool ctx nm (effective_effect tool) args of
                   PAllow \<Rightarrow> go args
                 | PReplace sanitized \<Rightarrow> go sanitized
                 | PDeny reason \<Rightarrow> deny reason
                 | PAskUser reason \<Rightarrow> deny reason))"

text \<open>\<open>join_all\<close> and \<open>buffered\<close> both return the outcomes in the order of the calls.\<close>

definition run_tools_concurrent :: "'w surroundings \<Rightarrow> ('u, 'w) llm_agent \<Rightarrow> 'u run_context
    \<Rightarrow> 'u tool_context \<Rightarrow> nat \<Rightarrow> tool_call_request list
    \<Rightarrow> tool_call_outcome list \<times> agent_event list" where
  "run_tools_concurrent U A ctx tctx k calls =
     (let results = map (\<lambda>(i, call). fst (run_tool_call U A ctx tctx k call (su_world U k i)))
          (zip [0..<length calls] calls)
      in (map fst results, su_order U k (List.map_filter snd results)))"

subsection \<open>Before the loop\<close>

definition effective_config :: "('u, 'w) llm_agent \<Rightarrow> 'u run_context \<Rightarrow> run_config" where
  "effective_config A ctx = unwrap_or (la_config A) (rx_run_config ctx)"

definition tool_defs :: "('u, 'w) llm_agent \<Rightarrow> tool_def list" where
  "tool_defs A = map (\<lambda>t. \<lparr>td_name = tl_name t, td_description = tl_description t,
     td_schema = tl_schema t\<rparr>) (la_tools A)"

definition seed_conversation :: "string \<Rightarrow> item list \<Rightarrow> item list" where
  "seed_conversation instructions_text messages =
     (if instructions_text \<noteq> [] then [System [Text instructions_text]] else []) @ messages"

fun handoff_collision :: "string list \<Rightarrow> string list \<Rightarrow> handoff_def list \<Rightarrow> string option" where
  "handoff_collision real seen [] = None"
| "handoff_collision real seen (d # ds) =
     (if hd_tool_name d \<in> set seen \<or> hd_tool_name d \<in> set real then Some (hd_tool_name d)
      else handoff_collision real (hd_tool_name d # seen) ds)"

definition collision_error :: "string \<Rightarrow> agent_error" where
  "collision_error nm = OtherError (''handoff transfer-tool name collision: '' @ [CHR 0x27] @ nm @ [CHR 0x27])"

text \<open>\<open>failure.set(err)\<close> followed by the matching \<open>RunFailed\<close> and a return.\<close>

definition fail_with :: "ext \<Rightarrow> agent_error \<Rightarrow> agent_event list \<times> agent_error option" where
  "fail_with E err = ([RunFailed (agent_error_display E err)], Some err)"

subsection \<open>The loop\<close>

record driver =
  dv_state :: loop_state
  dv_input :: transition_input
  dv_conversation :: "item list"
  dv_pending :: "string list"
  dv_step :: nat

definition transition_ctx_of :: "('u, 'w) llm_agent \<Rightarrow> 'u run_context \<Rightarrow> item list \<Rightarrow> transition_ctx" where
  "transition_ctx_of A ctx conversation =
     \<lparr>tc_tools = tool_defs A, tc_model_settings = la_model_settings A,
      tc_max_turns = cfg_max_turns (effective_config A ctx), tc_conversation = conversation,
      tc_output = la_output_type A, tc_handoffs = map to_def (la_handoffs A)\<rparr>"

text \<open>The output guardrails see a finished output before its events are shown.\<close>

definition output_trip :: "('u, 'w) llm_agent \<Rightarrow> 'u run_context \<Rightarrow> nat \<Rightarrow> loop_state
    \<Rightarrow> (guardrail_kind \<times> json) option" where
  "output_trip A ctx k st =
     (case st of
        Done out \<Rightarrow> run_guardrails k ctx (la_output_guardrails A) (ModelOutput (as_text out))
      | _ \<Rightarrow> None)"

text \<open>Showing the events of a transition, with the turn hook before each turn; the last component is an abort.\<close>

fun emit_events :: "(hook_event \<Rightarrow> resolved_hook) \<Rightarrow> agent_event list \<Rightarrow> string list
    \<Rightarrow> agent_event list \<times> string list \<times> agent_error option" where
  "emit_events on_event [] pending = ([], pending, None)"
| "emit_events on_event (TurnStarted turn # evs) pending =
     (let on_turn = on_event (OnTurnStart turn)
      in case rh_denied on_turn of
           Some reason \<Rightarrow> ([], pending, Some (HookDenied ''OnTurnStart'' reason))
         | None \<Rightarrow> (case emit_events on_event evs (pending @ rh_injections on_turn) of
               (shown, pending', abort) \<Rightarrow> (TurnStarted turn # shown, pending', abort)))"
| "emit_events on_event (ev # evs) pending =
     (case emit_events on_event evs pending of
        (shown, pending', abort) \<Rightarrow> (ev # shown, pending', abort))"

fun relay_event :: "model_event \<Rightarrow> agent_event list" where
  "relay_event (MTokenDelta text) = [TokenDelta text]"
| "relay_event (MReasoningDelta text) = [ReasoningDelta text]"
| "relay_event (MToolCallDelta c nm d) = [ToolCallDelta c nm d]"
| "relay_event (MUsage _ _ _ _) = []"
| "relay_event (MFinish _) = []"

fun relay_model :: "model_turn_accumulator \<Rightarrow> (model_error + model_event) list
    \<Rightarrow> agent_event list \<times> (model_error + model_turn_accumulator)" where
  "relay_model acc [] = ([], Ok acc)"
| "relay_model acc (Inl e # rest) = ([], Err e)"
| "relay_model acc (Inr ev # rest) =
     (case relay_model (observe acc ev) rest of (evs, r) \<Rightarrow> (relay_event ev @ evs, r))"

text \<open>The result of an action: the events it shows and either the next input or the end of the stream.\<close>

datatype action_result =
    Feed transition_input "item list"
  | EndStream "agent_error option"

definition call_model :: "'w surroundings \<Rightarrow> ('u, 'w) llm_agent \<Rightarrow> nat \<Rightarrow> string list
    \<Rightarrow> model_request \<Rightarrow> agent_event list \<times> action_result" where
  "call_model U A k pending request =
     (let request = request\<lparr>mr_messages := mr_messages request @ map (\<lambda>t. System [Text t]) pending\<rparr>;
          model_failed = (\<lambda>e. ([RunFailed (model_error_display e)], EndStream (Some (ModelFailed e))))
      in case la_model A k request of
           Inl e \<Rightarrow> model_failed e
         | Inr strm \<Rightarrow>
             (case relay_model (accumulator_new (la_name A)) strm of
                (evs, Inl e) \<Rightarrow> (evs @ fst (model_failed e), snd (model_failed e))
              | (evs, Inr acc) \<Rightarrow>
                  (case finish (su_ext U) acc of
                     Inl e \<Rightarrow> (evs @ [RunFailed e], EndStream (Some (OtherError e)))
                   | Inr turn \<Rightarrow> (evs, Feed (ModelResponse (mt_items turn) (mt_usage turn)
                         (mt_finish_reason turn)) (mt_items turn)))))"

definition execute_tools :: "'w surroundings \<Rightarrow> ('u, 'w) llm_agent \<Rightarrow> 'u run_context \<Rightarrow> nat
    \<Rightarrow> tool_call_request list \<Rightarrow> agent_event list \<times> action_result" where
  "execute_tools U A ctx k calls =
     (let tctx = to_tool_context (su_child_token U) ctx
      in case run_tools_concurrent U A ctx tctx k calls of (outcomes, denied) \<Rightarrow>
           (denied, Feed (ToolResults outcomes)
              (map (\<lambda>oc. ToolResult (tco_call_id oc)
                 (unwrap_or_else (\<lambda>e. [Text e]) (tco_result oc))) outcomes)))"

text \<open>The events of the run a handoff continues in; the parent's usage is added to its completion.\<close>

fun relay_sub :: "token_usage \<Rightarrow> agent_event \<Rightarrow> agent_event list" where
  "relay_sub parent_usage (RunStarted _) = []"
| "relay_sub parent_usage (RunCompleted usage) = [RunCompleted (usage_add parent_usage usage)]"
| "relay_sub parent_usage other = [other]"

definition apply_handoff :: "'w surroundings \<Rightarrow> ('u, 'w) llm_agent \<Rightarrow> 'u run_context \<Rightarrow> nat
    \<Rightarrow> string \<Rightarrow> item list \<Rightarrow> token_usage \<Rightarrow> agent_event list \<times> agent_error option" where
  "apply_handoff U A ctx k target transcript parent_usage =
     (let E = su_ext U; child = handoff_child ctx;
          mx = cfg_max_agent_depth (effective_config A ctx)
      in if rx_agent_depth child > mx
         then fail_with E (MaxAgentDepthExceeded (rx_agent_depth child) mx)
         else (case find (\<lambda>h. ho_name h = target) (la_handoffs A) of
             None \<Rightarrow> fail_with E (OtherError (''unknown handoff target: '' @ target))
           | Some h \<Rightarrow>
               (case rh_denied (fire k ctx (la_hooks A) (OnHandoff (la_name A) target)) of
                  Some reason \<Rightarrow> fail_with E (HookDenied ''OnHandoff'' reason)
                | None \<Rightarrow>
                    (let shown = [HandoffItem (la_name A) target, AgentUpdated target]
                     in case ho_run h child transcript of
                          Inl e \<Rightarrow> (shown @ fst (fail_with E e), snd (fail_with E e))
                        | Inr (evs, slot) \<Rightarrow> (shown @ concat (map (relay_sub parent_usage) evs), slot)))))"

definition perform :: "'w surroundings \<Rightarrow> ('u, 'w) llm_agent \<Rightarrow> 'u run_context \<Rightarrow> nat \<Rightarrow> string list
    \<Rightarrow> loop_state \<Rightarrow> next_action \<Rightarrow> agent_event list \<times> action_result" where
  "perform U A ctx k pending st action =
     (case action of
        CallModel request \<Rightarrow> call_model U A k pending request
      | ExecuteTools calls \<Rightarrow> execute_tools U A ctx k calls
      | Terminate \<Rightarrow> ([], EndStream (case st of Failed err \<Rightarrow> Some err | _ \<Rightarrow> None))
      | Handoff \<Rightarrow> (case st of
            ApplyingHandoff target transcript usage \<Rightarrow>
              (case apply_handoff U A ctx k target transcript usage of (evs, slot) \<Rightarrow> (evs, EndStream slot))
          | _ \<Rightarrow> ([], EndStream None)))"

text \<open>
  One iteration. The pending injections are consumed by a model call; a tripped output guardrail
  replaces the events of the transition and ends the run.
\<close>

definition iterate :: "'w surroundings \<Rightarrow> ('u, 'w) llm_agent \<Rightarrow> 'u run_context \<Rightarrow> driver
    \<Rightarrow> agent_event list \<times> (driver + agent_error option)" where
  "iterate U A ctx d =
     (let k = dv_step d;
          out = transition (su_ext U) (su_dbg U) (dv_state d) (dv_input d)
                  (transition_ctx_of A ctx (dv_conversation d))
      in case output_trip A ctx k (to_next_state out) of
           Some (kind, info) \<Rightarrow>
             ([GuardrailTriggered kind info, RunFailed ''output guardrail tripwire''],
              Inr (Some (Guardrail kind)))
         | None \<Rightarrow>
             (case emit_events (fire k ctx (la_hooks A)) (to_events out) (dv_pending d) of
                (shown, pending, Some err) \<Rightarrow>
                  (shown @ fst (fail_with (su_ext U) err), Inr (Some err))
              | (shown, pending, None) \<Rightarrow>
                  (case perform U A ctx k pending (to_next_state out) (to_next_action out) of
                     (evs, EndStream slot) \<Rightarrow> (shown @ evs, Inr slot)
                   | (evs, Feed inp items) \<Rightarrow>
                       (shown @ evs, Inl \<lparr>dv_state = to_next_state out, dv_input = inp,
                          dv_conversation = dv_conversation d @ to_appends out @ items,
                          dv_pending = (case to_next_action out of CallModel _ \<Rightarrow> [] | _ \<Rightarrow> pending),
                          dv_step = Suc k\<rparr>))))"

fun drive :: "nat \<Rightarrow> 'w surroundings \<Rightarrow> ('u, 'w) llm_agent \<Rightarrow> 'u run_context \<Rightarrow> driver
    \<Rightarrow> (agent_event list \<times> agent_error option) option" where
  "drive 0 U A ctx d = None"
| "drive (Suc n) U A ctx d =
     (case iterate U A ctx d of
        (evs, Inr slot) \<Rightarrow> Some (evs, slot)
      | (evs, Inl d') \<Rightarrow> map_option (\<lambda>(rest, slot). (evs @ rest, slot)) (drive n U A ctx d'))"

text \<open>Enough iterations for every run of the state machine, see \<open>llm_run_total\<close>.\<close>

definition drive_fuel :: "('u, 'w) llm_agent \<Rightarrow> 'u run_context \<Rightarrow> nat" where
  "drive_fuel A ctx = 2 * unat (cfg_max_turns (effective_config A ctx)) + 5"

definition start_driver :: "('u, 'w) llm_agent \<Rightarrow> 'u run_context \<Rightarrow> item list \<Rightarrow> string list \<Rightarrow> driver" where
  "start_driver A ctx messages injections =
     \<lparr>dv_state = CallingModel 0 usage_default, dv_input = Start messages,
      dv_conversation = seed_conversation (la_instructions A (scope_of ctx)) messages,
      dv_pending = injections, dv_step = 1\<rparr>"

definition llm_stream :: "'w surroundings \<Rightarrow> ('u, 'w) llm_agent \<Rightarrow> 'u run_context \<Rightarrow> item list
    \<Rightarrow> (agent_event list \<times> agent_error option) option" where
  "llm_stream U A ctx messages =
     map_option (\<lambda>(evs, slot). (RunStarted (la_name A) # evs, slot))
       (case handoff_collision (map td_name (tool_defs A)) [] (map to_def (la_handoffs A)) of
          Some nm \<Rightarrow> Some (fail_with (su_ext U) (collision_error nm))
        | None \<Rightarrow>
            (let on_start = fire 0 ctx (la_hooks A) OnRunStart
             in case rh_denied on_start of
                  Some reason \<Rightarrow> Some (fail_with (su_ext U) (HookDenied ''OnRunStart'' reason))
                | None \<Rightarrow>
                    (case run_guardrails 0 ctx (la_input_guardrails A)
                        (UserText (user_text_of (seed_conversation (la_instructions A (scope_of ctx)) messages))) of
                       Some (kind, info) \<Rightarrow>
                         Some ([GuardrailTriggered kind info, RunFailed ''input guardrail tripwire''],
                           Some (Guardrail kind))
                     | None \<Rightarrow> drive (drive_fuel A ctx) U A ctx
                         (start_driver A ctx messages (rh_injections on_start)))))"

definition llm_run :: "'w surroundings \<Rightarrow> ('u, 'w) llm_agent \<Rightarrow> 'u agent_run" where
  "llm_run U A ctx messages =
     (case llm_stream U A ctx messages of
        Some r \<Rightarrow> Ok r
      | None \<Rightarrow> Err (NotImplemented ''agent loop budget''))"

section \<open>The loop ends\<close>

lemma rank_conversation:
  "rank (transition_ctx_of A ctx c) st = rank (transition_ctx_of A ctx c') st"
  "wf_state (transition_ctx_of A ctx c) st = wf_state (transition_ctx_of A ctx c') st"
  by (cases st; simp add: transition_ctx_of_def)+

definition machine_step :: "'w surroundings \<Rightarrow> ('u, 'w) llm_agent \<Rightarrow> 'u run_context \<Rightarrow> driver \<Rightarrow> transition_outcome" where
  "machine_step U A ctx d = transition (su_ext U) (su_dbg U) (dv_state d) (dv_input d)
     (transition_ctx_of A ctx (dv_conversation d))"

text \<open>An iteration that continues has fed the machine what its action asked for.\<close>

lemma iterate_continues:
  assumes "iterate U A ctx d = (evs, Inl d')"
  shows "dv_state d' = to_next_state (machine_step U A ctx d)"
    and "\<And>ms. dv_input d' \<noteq> Start ms"
    and "(\<exists>r. to_next_action (machine_step U A ctx d) = CallModel r)
       \<or> (\<exists>cs. to_next_action (machine_step U A ctx d) = ExecuteTools cs)"
  using assms
  by (auto simp: iterate_def machine_step_def [symmetric] perform_def call_model_def execute_tools_def Let_def
      split: option.splits prod.splits sum.splits action_result.splits next_action.splits loop_state.splits)

lemma continues_rank:
  assumes "iterate U A ctx d = (evs, Inl d')"
  shows "rank (transition_ctx_of A ctx c) (dv_state d') \<noteq> 0"
proof -
  have "coherent (machine_step U A ctx d)"
    by (simp add: machine_step_def transition_coherent_lemma)
  then show ?thesis
    using iterate_continues(1,3) [OF assms]
    by (cases "to_next_state (machine_step U A ctx d)") (auto simp: coherent_def)
qed

lemma terminal_rank_stops:
  assumes "rank C st = 0"
  shows "rank C (to_next_state (transition E dbg st inp C)) = 0"
  using assms by (cases st) (auto simp: transition_def split: transition_input.splits)

lemma drive_total_from:
  assumes "wf_state (transition_ctx_of A ctx []) (dv_state d)" "\<And>ms. dv_input d \<noteq> Start ms"
    and "rank (transition_ctx_of A ctx []) (dv_state d) < n"
  shows "drive n U A ctx d \<noteq> None"
  using assms
proof (induction n arbitrary: d)
  case (Suc n)
  let ?C = "transition_ctx_of A ctx (dv_conversation d)"
  note conv = rank_conversation [of A ctx "dv_conversation d" _ "[]"]
  obtain evs r where it: "iterate U A ctx d = (evs, r)" by fastforce
  show ?case
  proof (cases r)
    case (Inl d')
    note it' = it [unfolded Inl]
    have nx: "dv_state d' = to_next_state (transition (su_ext U) (su_dbg U) (dv_state d) (dv_input d) ?C)"
      using iterate_continues(1) [OF it'] by (simp add: machine_step_def)
    have wf: "wf_state ?C (dv_state d)" using Suc.prems(1) by (simp add: conv)
    have "rank ?C (dv_state d) \<noteq> 0"
      using terminal_rank_stops [of ?C "dv_state d"] continues_rank [OF it'] nx by metis
    then have "rank ?C (dv_state d') < rank ?C (dv_state d)"
      unfolding nx using wf Suc.prems(2) by (intro transition_rank)
    moreover have "wf_state ?C (dv_state d')" unfolding nx using wf by (rule transition_wf)
    ultimately have "drive n U A ctx d' \<noteq> None"
      using Suc.prems(3) iterate_continues(2) [OF it'] by (intro Suc.IH) (simp_all add: conv)
    then show ?thesis using it Inl by auto
  qed (simp add: it)
qed simp

lemma drive_total_start:
  assumes "dv_state d = CallingModel 0 u" "dv_input d = Start ms" "drive_fuel A ctx \<le> n"
  shows "drive n U A ctx d \<noteq> None"
proof -
  let ?C = "transition_ctx_of A ctx (dv_conversation d)"
  note conv = rank_conversation [of A ctx "dv_conversation d" _ "[]"]
  obtain m where n: "n = Suc m" using assms(3) by (cases n) (auto simp: drive_fuel_def)
  obtain evs r where it: "iterate U A ctx d = (evs, r)" by fastforce
  show ?thesis
  proof (cases r)
    case (Inl d')
    note it' = it [unfolded Inl]
    have nx: "dv_state d' = to_next_state (transition (su_ext U) (su_dbg U) (CallingModel 0 u) (Start ms) ?C)"
      using iterate_continues(1) [OF it'] assms by (simp add: machine_step_def)
    have "wf_state ?C (dv_state d')" unfolding nx by (rule transition_wf) simp
    moreover have "rank ?C (dv_state d') \<le> 2 * unat (cfg_max_turns (effective_config A ctx)) + 3"
      unfolding nx by (auto simp: transition_def max_turns_reached_def transition_start_def
          transition_ctx_of_def split: option.splits)
    ultimately have "drive m U A ctx d' \<noteq> None"
      using assms(3) n iterate_continues(2) [OF it']
      by (intro drive_total_from) (simp_all add: conv drive_fuel_def)
    then show ?thesis using it Inl n by auto
  qed (simp add: it n)
qed

lemma llm_stream_total: "llm_stream U A ctx messages \<noteq> None"
  using drive_total_start [of "start_driver A ctx messages _" usage_default messages A ctx "drive_fuel A ctx" U]
  by (auto simp: llm_stream_def start_driver_def fail_with_def Let_def split: option.splits)

section \<open>The stream contract\<close>

lemma closes_append [stream_intros]: "no_terminal xs \<Longrightarrow> closes ys slot \<Longrightarrow> closes (xs @ ys) slot"
  by (fastforce simp: closes_def)

lemma closes_single [stream_intros]: "ends_with_slot e slot \<Longrightarrow> closes [e] slot"
  by (auto simp: closes_def)

lemma closes_Cons: "closes (e # evs) slot \<longleftrightarrow> evs = [] \<and> ends_with_slot e slot \<or> \<not> is_terminal e \<and> closes evs slot"
proof (cases evs rule: rev_cases)
  case (snoc pre x)
  then show ?thesis by (auto simp: closes_def no_terminal_def Cons_eq_append_conv)
qed (auto simp: closes_def)

lemma closes_Nil [simp]: "\<not> closes [] slot"
  by (simp add: closes_def)

lemma closes_fail_with: "closes (fst (fail_with E err)) (snd (fail_with E err))"
  by (auto simp: fail_with_def closes_def)

lemma closes_fail_with_eq [stream_intros]: "fail_with E err = (evs, slot) \<Longrightarrow> closes evs slot"
  using closes_fail_with [of E err] by simp

lemma closes_guardrail [stream_intros]: "closes [GuardrailTriggered k i, RunFailed m] (Some e)"
  by (auto simp: closes_def intro: exI [of _ "[GuardrailTriggered k i]"])

lemma emit_events_spec:
  "emit_events f evs pending = (shown, pending', abort) \<Longrightarrow>
     (abort = None \<longrightarrow> shown = evs) \<and> (abort \<noteq> None \<longrightarrow> (\<exists>e rest. evs = shown @ e # rest))"
  by (induction f evs pending arbitrary: shown pending' rule: emit_events.induct)
    (fastforce simp: Let_def split: option.splits prod.splits)+

lemma relay_model_no_terminal: "relay_model acc strm = (evs, r) \<Longrightarrow> no_terminal evs"
proof (induction acc strm arbitrary: evs rule: relay_model.induct)
  case (3 acc ev rest)
  then show ?case by (cases ev) (auto split: prod.splits)
qed auto

lemma call_model_result:
  assumes "call_model U A k pending req = (evs, r)"
  shows "(\<forall>inp items. r = Feed inp items \<longrightarrow> no_terminal evs) \<and> (\<forall>slot. r = EndStream slot \<longrightarrow> closes evs slot)"
  using assms
  by (auto simp: call_model_def Let_def split: sum.splits prod.splits dest!: relay_model_no_terminal
      intro!: closes_append closes_single)

locale agent_env =
  fixes U :: "'w surroundings" and A :: "('u, 'w) llm_agent"
  assumes order_permutes: "mset (su_order U k evs) = mset evs"
    and handoffs_keep_contract: "h \<in> set (la_handoffs A) \<Longrightarrow> agent_contract (ho_name h) (ho_run h)"
begin

lemma denied_no_terminal: "no_terminal (snd (run_tools_concurrent U A ctx tctx k calls))"
proof -
  have one: "snd (fst (run_tool_call U A ctx tctx k call w)) = Some e \<Longrightarrow> \<not> is_terminal e" for call w e
    by (auto simp: run_tool_call_def Let_def split: option.splits permission_decision.splits prod.splits)
  have "set (su_order U k xs) = set xs" for xs
    using order_permutes [of k xs] by (metis set_mset_mset)
  then show ?thesis
    using one
    by (auto simp: run_tools_concurrent_def Let_def no_terminal_def list_all_iff List.map_filter_def)
      (metis snd_conv)
qed

lemma execute_tools_result:
  assumes "execute_tools U A ctx k calls = (evs, r)"
  shows "no_terminal evs \<and> (\<exists>inp items. r = Feed inp items)"
  using assms denied_no_terminal [of ctx "to_tool_context (su_child_token U) ctx" k calls]
  by (auto simp: execute_tools_def Let_def split: prod.splits)

lemma relay_sub_closes:
  assumes "closes rest slot"
  shows "closes (concat (map (relay_sub u) (RunStarted a # rest))) slot"
proof -
  obtain pre e where r: "rest = pre @ [e]" "no_terminal pre" "ends_with_slot e slot"
    using assms by (auto simp: closes_def)
  have "no_terminal (concat (map (relay_sub u) pre))"
    using r(2)
  proof (induction pre)
    case (Cons x xs)
    then show ?case by (cases x) auto
  qed simp
  moreover have "closes (relay_sub u e) slot"
    using r(3) by (cases e) (auto intro: closes_single)
  ultimately show ?thesis using r(1) by (simp add: closes_append)
qed

lemma apply_handoff_closes:
  assumes "apply_handoff U A ctx k target transcript usage = (evs, slot)"
  shows "closes evs slot"
proof -
  have pre: "no_terminal [HandoffItem (la_name A) target, AgentUpdated target]" by simp
  note fail = closes_fail_with_eq closes_append [OF pre closes_fail_with, simplified]
  show ?thesis
  proof (cases "find (\<lambda>h. ho_name h = target) (la_handoffs A)")
    case None
    then show ?thesis using assms by (auto simp: apply_handoff_def Let_def intro: fail split: if_splits)
  next
    case (Some h)
    then have "agent_contract (ho_name h) (ho_run h)"
      using handoffs_keep_contract find_SomeD by fastforce
    note run_closes = agent_contract.run_closes [OF this]
    have sub: "closes (concat (map (relay_sub usage) sevs)) s"
      if "ho_run h c t = Ok (sevs, s)" for c t sevs s
      using run_closes [OF that] relay_sub_closes by fastforce
    note sub' = closes_append [OF pre sub, simplified]
    show ?thesis
      using assms Some
      by (auto simp: apply_handoff_def Let_def intro: fail sub'
          split: if_splits option.splits sum.splits prod.splits)
  qed
qed

lemma perform_result:
  assumes "coherent out" "perform U A ctx k pending (to_next_state out) (to_next_action out) = (evs, r)"
  shows "(\<forall>inp items. r = Feed inp items \<longrightarrow> no_terminal (to_events out) \<and> no_terminal evs)
    \<and> (\<forall>slot. r = EndStream slot \<longrightarrow> closes (to_events out @ evs) slot)"
proof (cases "to_next_action out")
  case (CallModel req)
  then have "no_terminal (to_events out)"
    using assms(1) by (cases "to_next_state out") (auto simp: coherent_def)
  then show ?thesis
    using assms(2) CallModel call_model_result [of U A k pending req evs r]
    by (auto simp: perform_def intro: closes_append)
next
  case (ExecuteTools calls)
  then have "no_terminal (to_events out)"
    using assms(1) by (cases "to_next_state out") (auto simp: coherent_def)
  then show ?thesis
    using assms(2) ExecuteTools execute_tools_result [of ctx k calls evs r] by (auto simp: perform_def)
next
  case Terminate
  then show ?thesis
    using assms by (cases "to_next_state out")
      (auto simp: coherent_def perform_def intro!: closes_append closes_single)
next
  case Handoff
  then obtain t ts u where st: "to_next_state out = ApplyingHandoff t ts u" and "no_terminal (to_events out)"
    using assms(1) by (cases "to_next_state out") (auto simp: coherent_def)
  then show ?thesis
    using assms(2) Handoff apply_handoff_closes
    by (auto simp: perform_def intro: closes_append split: prod.splits)
qed

lemma iterate_result:
  assumes "iterate U A ctx d = (evs, r)"
  shows "(\<forall>d'. r = Inl d' \<longrightarrow> no_terminal evs) \<and> (\<forall>slot. r = Inr slot \<longrightarrow> closes evs slot)"
proof -
  define out where "out = transition (su_ext U) (su_dbg U) (dv_state d) (dv_input d)
    (transition_ctx_of A ctx (dv_conversation d))"
  define k where "k = dv_step d"
  have coh: "coherent out" by (simp add: out_def transition_coherent_lemma)
  obtain shown pending abort where em:
    "emit_events (fire k ctx (la_hooks A)) (to_events out) (dv_pending d) = (shown, pending, abort)"
    by (metis prod.exhaust)
  note def = assms[unfolded iterate_def Let_def, folded out_def k_def]
  show ?thesis
  proof (cases "output_trip A ctx k (to_next_state out)")
    case (Some t)
    then show ?thesis using def closes_guardrail by (auto split: prod.splits)
  next
    case None
    show ?thesis
    proof (cases abort)
      case (Some err)
      then obtain e rest where ev: "to_events out = shown @ e # rest" using emit_events_spec [OF em] by auto
      have "no_terminal shown"
        using coh ev unfolding coherent_def
        by (cases "to_next_state out") (auto simp: append_eq_append_conv2 Cons_eq_append_conv append_eq_Cons_conv)
      then have "closes (shown @ fst (fail_with (su_ext U) err)) (Some err)"
        using closes_append closes_fail_with [of "su_ext U" err] by (simp add: fail_with_def)
      then show ?thesis using def None em Some by auto
    next
      case None
      then have shown: "shown = to_events out" using emit_events_spec [OF em] by simp
      obtain evs' r' where pf:
        "perform U A ctx k pending (to_next_state out) (to_next_action out) = (evs', r')" by fastforce
      show ?thesis
        using def \<open>output_trip A ctx k (to_next_state out) = None\<close> em None shown pf
          perform_result [OF coh pf]
        by (auto split: action_result.splits)
    qed
  qed
qed

lemma drive_closes: "drive n U A ctx d = Some (evs, slot) \<Longrightarrow> closes evs slot"
proof (induction n arbitrary: d evs)
  case (Suc n)
  obtain evs1 r where it: "iterate U A ctx d = (evs1, r)" by fastforce
  show ?case
  proof (cases r)
    case (Inl d')
    then obtain rest where "drive n U A ctx d' = Some (rest, slot)" "evs = evs1 @ rest"
      using Suc.prems it by auto
    then show ?thesis using Suc.IH iterate_result [OF it] Inl closes_append by blast
  next
    case (Inr s)
    then show ?thesis using Suc.prems it iterate_result [OF it] by simp
  qed
qed simp

lemma llm_stream_ok: "llm_stream U A ctx messages = Some r \<Longrightarrow> stream_ok (la_name A) r"
proof -
  assume run: "llm_stream U A ctx messages = Some r"
  then obtain evs slot where r: "r = (RunStarted (la_name A) # evs, slot)"
    by (auto simp: llm_stream_def)
  have "closes evs slot"
  proof (cases "handoff_collision (map td_name (tool_defs A)) [] (map to_def (la_handoffs A))")
    case (Some nm)
    then show ?thesis using run r by (auto simp: llm_stream_def intro: closes_fail_with_eq split: prod.splits)
  next
    case None
    note no_collision = None
    show ?thesis
    proof (cases "rh_denied (fire 0 ctx (la_hooks A) OnRunStart)")
      case (Some reason)
      then show ?thesis using run r no_collision by (auto simp: llm_stream_def intro: closes_fail_with_eq split: prod.splits)
    next
      case None
      then show ?thesis using run r no_collision
        by (auto simp: llm_stream_def Let_def intro: drive_closes closes_guardrail split: option.splits)
    qed
  qed
  then show ?thesis by (simp add: stream_ok_def r)
qed

end

sublocale agent_env \<subseteq> agent_contract "la_name A" "llm_run U A"
proof
  fix ctx input r
  assume "llm_run U A ctx input = Ok r"
  then have "llm_stream U A ctx input = Some r" by (simp add: llm_run_def split: option.splits)
  then show "stream_ok (la_name A) r" by (rule llm_stream_ok)
qed

text \<open>
  An agent without handoffs, whatever its model, tools, hooks and guardrails are; and an agent
  that can hand over to such agents.
\<close>

definition in_order :: "'w surroundings \<Rightarrow> 'w surroundings" where
  "in_order U = U\<lparr>su_order := \<lambda>_ evs. evs\<rparr>"

definition leaf_agent :: "('u, 'w) llm_agent \<Rightarrow> ('u, 'w) llm_agent" where
  "leaf_agent A = A\<lparr>la_handoffs := []\<rparr>"

definition handoff_to :: "'w surroundings \<Rightarrow> ('u, 'w) llm_agent \<Rightarrow> 'u handoff" where
  "handoff_to U A = \<lparr>ho_name = la_name A, ho_description = la_description A, ho_run = llm_run U A\<rparr>"

interpretation leaf: agent_env "in_order U" "leaf_agent A" for U A
  by unfold_locales (simp_all add: in_order_def leaf_agent_def)

lemma handoff_to_leaf: "agent_contract (ho_name (handoff_to (in_order U) (leaf_agent A)))
    (ho_run (handoff_to (in_order U) (leaf_agent A)))"
  using leaf.agent_contract_axioms by (simp add: handoff_to_def)

interpretation triage: agent_env "in_order U"
    "A\<lparr>la_handoffs := map (\<lambda>B. handoff_to (in_order V) (leaf_agent B)) Bs\<rparr>" for U V A Bs
  using handoff_to_leaf by (intro agent_env.intro) (auto simp: in_order_def [of U])

text \<open>
  C3. The agent loop always ends: for every model, every set of tools, hooks and guardrails and
  every input, the driver stops within \<open>2 * max_turns + 5\<close> iterations, so a run yields a finite
  stream (given that each model stream does).
\<close>

theorem llm_run_total: "\<exists>r. llm_run U A ctx messages = Ok r"
  using llm_stream_total [of U A ctx messages] by (auto simp: llm_run_def)


definition model_ex :: "nat \<Rightarrow> model_request \<Rightarrow> model_error + (model_error + model_event) list" where
  "model_ex k req = Ok [Ok (MTokenDelta ''hi''), Ok (MFinish Stop)]"

definition agent_a :: "(unit, nat) llm_agent" where
  "agent_a = \<lparr>la_name = ''a'', la_description = ''A'', la_instructions = (\<lambda>_. ''be brief''),
     la_model = model_ex, la_tools = [echo_tool], la_handoffs = [], la_output_type = None,
     la_input_guardrails = [], la_output_guardrails = [], la_hooks = [],
     la_model_settings = model_settings_default, la_config = run_config_default\<rparr>"

definition around :: "nat surroundings" where
  "around = \<lparr>su_ext = ext_ex, su_env = [], su_dbg = (\<lambda>_ _. []), su_child_token = 0,
     su_world = (\<lambda>k i. k + i), su_order = (\<lambda>_ evs. rev evs)\<rparr>"


section \<open>Tool calls in the loop\<close>

text \<open>
  C17. Hooks cannot get around the permission layer or redaction: a call of the loop changes the
  world only if no pre hook denied it, its tool exists and the authorization of the arguments the
  hooks left permits it, and then it is invoked once on the arguments that decision gives; and
  any successful result is the output of the redacting finalizer, applied after the post hooks.
\<close>

theorem loop_tool_call_guarded:
  assumes "run_tool_call U A ctx tctx k call w = ((out, ev), w')"
    and "pre = fire k ctx (la_hooks A) (PreToolUse (tcr_name call) (tcr_args call))"
    and "args = unwrap_or (tcr_args call) (rh_replacement pre)"
    and "d = authorize_tool ctx (tcr_name call)
      (effective_effect (find_tool (la_tools A) (tcr_name call))) args"
  shows "tco_call_id out = tcr_call_id call
    \<and> (w' \<noteq> w \<longrightarrow> rh_denied pre = None \<and> permits d \<and>
        (\<exists>t. find_tool (la_tools A) (tcr_name call) = Some t
           \<and> w' = snd (tl_invoke t tctx (case d of PReplace a \<Rightarrow> a | _ \<Rightarrow> args) w)))
    \<and> (rh_denied pre = None \<and> \<not> permits d \<longrightarrow> ev \<noteq> None)
    \<and> (\<forall>parts. tco_result out = Ok parts \<longrightarrow> permits d \<and>
        (\<exists>v. parts = finalize_tool_output (su_ext U) v (rx_redact_output ctx)
               (from_env_and_extra (su_env U) (rx_extra_secrets ctx))))"
proof -
  note run = assms(1)[unfolded run_tool_call_def Let_def, folded assms(2), folded assms(3), folded assms(4)]
  show ?thesis
  proof (cases "rh_denied pre")
    case (Some reason)
    then show ?thesis using run by auto
  next
    case None
    then show ?thesis
      using run
      by (cases d) (auto simp: invoke_json_def post_tool_def Let_def
          split: option.splits prod.splits sum.splits)
  qed
qed

theorem loop_tool_call_guarded_witness:
  "\<exists>out ev w'. run_tool_call around agent_a ctx_dont_ask (to_tool_context 0 ctx_dont_ask) 0 call_ex 3
       = ((out, ev), w') \<and> w' = 3 \<and> ev \<noteq> None"
proof -
  obtain out ev w' where run: "run_tool_call around agent_a ctx_dont_ask
      (to_tool_context 0 ctx_dont_ask) 0 call_ex 3 = ((out, ev), w')"
    by (metis prod.exhaust)
  have no_hook: "rh_denied (fire 0 ctx_dont_ask (la_hooks agent_a)
      (PreToolUse (tcr_name call_ex) (tcr_args call_ex))) = None"
    and refused: "\<not> permits (authorize_tool ctx_dont_ask (tcr_name call_ex)
      (effective_effect (find_tool (la_tools agent_a) (tcr_name call_ex)))
      (unwrap_or (tcr_args call_ex) (rh_replacement (fire 0 ctx_dont_ask (la_hooks agent_a)
        (PreToolUse (tcr_name call_ex) (tcr_args call_ex))))))"
    by code_simp+
  show ?thesis
    using loop_tool_call_guarded [OF run refl refl refl] no_hook refused run by blast
qed

lemma run_tool_call_id: "tco_call_id (fst (fst (run_tool_call U A ctx tctx k call w))) = tcr_call_id call"
  by (simp add: run_tool_call_def Let_def split: option.splits permission_decision.splits prod.splits)

text \<open>
  Concurrent tool calls are answered one for one and in order: whatever the interleaving,
  and whether calls are denied, blocked, unknown, failing or successful, the outcomes carry the
  identifiers of the calls in the order in which the model made them, and are fed back as one
  tool result each.
\<close>

theorem outcomes_in_call_order:
  "map tco_call_id (fst (run_tools_concurrent U A ctx tctx k calls)) = map tcr_call_id calls
   \<and> (\<exists>outcomes items. snd (execute_tools U A ctx k calls) = Feed (ToolResults outcomes) items
        \<and> map tco_call_id outcomes = map tcr_call_id calls
        \<and> map (\<lambda>i. case i of ToolResult c _ \<Rightarrow> c | _ \<Rightarrow> []) items = map tcr_call_id calls)"
proof -
  have ids: "map tco_call_id (fst (run_tools_concurrent U A ctx t k calls)) = map tcr_call_id calls" for t
  proof -
    have "map tco_call_id (fst (run_tools_concurrent U A ctx t k calls))
        = map (\<lambda>(i, call). tcr_call_id call) (zip [0..<length calls] calls)"
      by (simp add: run_tools_concurrent_def Let_def run_tool_call_id case_prod_beta)
    moreover have "map (\<lambda>(i, call). tcr_call_id call) zs = map tcr_call_id (map snd zs)"
      for zs :: "(nat \<times> tool_call_request) list"
      by (induction zs) auto
    ultimately show ?thesis by simp
  qed
  then show ?thesis
    by (auto simp: execute_tools_def Let_def comp_def split: prod.splits) (metis fst_conv)
qed

section \<open>Gates and transfer-tool names\<close>

text \<open>
  A run stopped at a gate never reaches the model: when two transfer tools collide, the start
  hooks deny, or an input guardrail trips (or fails), the stream is the same for every model.
\<close>

theorem gated_run_ignores_model:
  assumes "handoff_collision (map td_name (tool_defs A)) [] (map to_def (la_handoffs A)) \<noteq> None
    \<or> rh_denied (fire 0 ctx (la_hooks A) OnRunStart) \<noteq> None
    \<or> run_guardrails 0 ctx (la_input_guardrails A)
        (UserText (user_text_of (seed_conversation (la_instructions A (scope_of ctx)) messages))) \<noteq> None"
  shows "llm_run U (A\<lparr>la_model := m\<rparr>) ctx messages = llm_run U A ctx messages
    \<and> (\<exists>evs err. llm_run U A ctx messages = Ok (evs, Some err) \<and> length evs \<le> 3)"
  using assms
  by (auto simp: llm_run_def llm_stream_def tool_defs_def fail_with_def Let_def split: option.splits)

theorem gated_run_ignores_model_witness:
  "llm_run around (agent_a\<lparr>la_input_guardrails := [\<lambda>_ _ _. Ok (Tripwire InputPolicy JNull)],
       la_model := \<lambda>_ _. Err Unavailable\<rparr>) ctx_bypass []
   = llm_run around (agent_a\<lparr>la_input_guardrails := [\<lambda>_ _ _. Ok (Tripwire InputPolicy JNull)]\<rparr>) ctx_bypass []"
  using gated_run_ignores_model [of "agent_a\<lparr>la_input_guardrails := [\<lambda>_ _ _. Ok (Tripwire InputPolicy JNull)]\<rparr>"
      ctx_bypass "[]" around "\<lambda>_ _. Err Unavailable"]
  by simp

definition slug_char :: "char \<Rightarrow> bool" where
  "slug_char c = (c = CHR ''_'' \<or> is_ascii_digit c \<or> 97 \<le> byte c \<and> byte c \<le> 122)"

text \<open>No two underscores in a row.\<close>

fun single_underscores :: "string \<Rightarrow> bool" where
  "single_underscores (c # d # s) = (\<not> (c = CHR ''_'' \<and> d = CHR ''_'') \<and> single_underscores (d # s))"
| "single_underscores _ = True"

lemma ascii_lower_slug: "is_ascii_alphanumeric c \<Longrightarrow> slug_char (ascii_lower c) \<and> ascii_lower c \<noteq> CHR ''_''"
proof -
  assume a: "is_ascii_alphanumeric c"
  have b: "byte (ascii_lower c) = (if 65 \<le> byte c \<and> byte c \<le> 90 then byte c + 32 else byte c)"
    by (simp add: ascii_lower_def)
  then have "48 \<le> byte (ascii_lower c) \<and> byte (ascii_lower c) \<le> 57
      \<or> 97 \<le> byte (ascii_lower c) \<and> byte (ascii_lower c) \<le> 122"
    using a by (auto simp: is_ascii_alphanumeric_def is_ascii_alphabetic_def is_ascii_digit_def)
  moreover then have "ascii_lower c \<noteq> CHR ''_''" by auto
  ultimately show ?thesis by (auto simp: slug_char_def is_ascii_digit_def)
qed

lemma slug_loop_chars: "list_all slug_char (slug_loop p s)"
  by (induction p s rule: slug_loop.induct) (auto simp: ascii_lower_slug, simp add: slug_char_def)

lemma slug_loop_single:
  "single_underscores (slug_loop p s) \<and> (p \<longrightarrow> slug_loop p s = [] \<or> hd (slug_loop p s) \<noteq> CHR ''_'')"
proof (induction p s rule: slug_loop.induct)
  case (2 p c cs)
  have cons: "single_underscores (x # xs)"
    if "single_underscores xs" "x \<noteq> CHR ''_'' \<or> xs = [] \<or> hd xs \<noteq> CHR ''_''" for x xs
    using that by (cases xs) auto
  from 2 show ?case
    by (auto intro!: cons simp: ascii_lower_slug)
qed simp

lemma single_dropWhile: "single_underscores s \<Longrightarrow> single_underscores (dropWhile P s)"
proof (induction s rule: single_underscores.induct)
  case (1 c d s)
  then show ?case by (cases "P c") auto
qed auto

lemma single_snoc:
  "single_underscores (s @ [c, d]) = (single_underscores (s @ [c]) \<and> \<not> (c = CHR ''_'' \<and> d = CHR ''_''))"
  by (induction s rule: single_underscores.induct) auto

lemma single_rev: "single_underscores (rev s) = single_underscores s"
  by (induction s rule: single_underscores.induct) (auto simp: single_snoc)

text \<open>
  Transfer-tool names are well formed for every agent name: the slug consists of lower-case
  letters, digits and underscores, has no two underscores in a row and neither starts nor ends
  with one.
\<close>

theorem slug_well_formed:
  "list_all slug_char (slug nm) \<and> single_underscores (slug nm)
   \<and> (slug nm = [] \<or> hd (slug nm) \<noteq> CHR ''_'' \<and> last (slug nm) \<noteq> CHR ''_'')"
proof -
  let ?u = "\<lambda>c. c = CHR ''_''" and ?s = "slug_loop False nm"
  let ?t = "dropWhile ?u ?s"
  have slug: "slug nm = rev (dropWhile ?u (rev ?t))" by (simp add: slug_def trim_underscores_def)
  have "set (slug nm) \<subseteq> set ?s"
  proof
    fix c
    assume "c \<in> set (slug nm)"
    then have "c \<in> set (dropWhile ?u (rev ?t))" by (simp only: slug set_rev)
    then have "c \<in> set (rev ?t)" by (rule set_dropWhileD)
    then show "c \<in> set ?s" unfolding set_rev by (rule set_dropWhileD)
  qed
  then have chars: "list_all slug_char (slug nm)"
    using slug_loop_chars [of False nm] by (auto simp: list_all_iff)
  have single: "single_underscores (slug nm)"
    unfolding slug single_rev by (intro single_dropWhile) (simp add: single_rev single_dropWhile slug_loop_single)
  have "hd (slug nm) \<noteq> CHR ''_'' \<and> last (slug nm) \<noteq> CHR ''_''" if ne: "slug nm \<noteq> []"
  proof
    have d: "dropWhile ?u (rev ?t) \<noteq> []" using ne slug by auto
    then show "last (slug nm) \<noteq> CHR ''_''"
      using hd_dropWhile [OF d] unfolding slug by (metis last_rev)
    have "rev ?t = takeWhile ?u (rev ?t) @ dropWhile ?u (rev ?t)" by (rule takeWhile_dropWhile_id [symmetric])
    then have "last (rev ?t) = last (dropWhile ?u (rev ?t))" using d by (metis last_appendR)
    moreover have t: "?t \<noteq> []" using d by (metis dropWhile.simps(1) rev.simps(1))
    ultimately have "hd ?t = hd (slug nm)"
      using d by (metis hd_rev last_rev rev_rev_ident slug)
    then show "hd (slug nm) \<noteq> CHR ''_''" using hd_dropWhile [OF t] by metis
  qed
  then show ?thesis using chars single by blast
qed

end
