(* ===== verification/Workflow.thy ===== *)
theory Workflow
  imports Agent_Loop
begin

text \<open>
  Deterministic workflow agents (\<open>workflow.rs\<close>): running sub-agents in sequence, in a loop until one
  escalates, and in parallel. Each merges the streams of its sub-agents: a child's \<open>RunStarted\<close> is
  dropped, its usage is added up, and one outer stream remains. Sub-agents are parameters; the
  ones of a sequence or a loop read and write the shared coordination state and may raise the
  escalate signal. It is shown that all three keep the stream contract when their sub-agents do,
  and that the result of a parallel run does not depend on the interleaving of its branches.
\<close>

section \<open>Shared pieces\<close>

type_synonym kv = "string \<Rightarrow> json option"

text \<open>A sub-agent with its effects: the result, the coordination state it leaves, and the escalate signal.\<close>

record 'u sub_agent =
  sa_name :: string
  sa_run :: "'u run_context \<Rightarrow> item list \<Rightarrow> kv
     \<Rightarrow> (agent_error + agent_event list \<times> agent_error option) \<times> kv \<times> bool"

definition assistant_text :: "item \<Rightarrow> string option" where
  "assistant_text it = (case it of AssistantMessage content _ \<Rightarrow> Some (flatten_text content) | _ \<Rightarrow> None)"

definition max_depth :: "run_config option \<Rightarrow> u32" where
  "max_depth rc = (case rc of Some c \<Rightarrow> cfg_max_agent_depth c
     | None \<Rightarrow> cfg_max_agent_depth run_config_default)"

text \<open>The depth guard every workflow agent opens with; the addition is unchecked \<open>u32\<close> arithmetic.\<close>

definition depth_error :: "'u run_context \<Rightarrow> agent_error option" where
  "depth_error ctx =
     (let mx = max_depth (rx_run_config ctx)
      in if rx_agent_depth ctx + 1 > mx then Some (MaxAgentDepthExceeded (rx_agent_depth ctx + 1) mx)
         else None)"

text \<open>Draining one child: the events passed on, the usage so far, the last text, and whether it failed.\<close>

record drain_acc =
  da_shown :: "agent_event list"
  da_total :: token_usage
  da_text :: string
  da_failed :: bool

fun drain_event :: "drain_acc \<Rightarrow> agent_event \<Rightarrow> drain_acc" where
  "drain_event a (RunStarted _) = a"
| "drain_event a (RunCompleted usage) = a\<lparr>da_total := usage_add (da_total a) usage\<rparr>"
| "drain_event a (RunFailed e) = a\<lparr>da_shown := da_shown a @ [RunFailed e], da_failed := True\<rparr>"
| "drain_event a (MessageOutput it) =
     a\<lparr>da_shown := da_shown a @ [MessageOutput it], da_text := unwrap_or (da_text a) (assistant_text it)\<rparr>"
| "drain_event a other = a\<lparr>da_shown := da_shown a @ [other]\<rparr>"

definition drain_child :: "token_usage \<Rightarrow> agent_event list \<Rightarrow> drain_acc" where
  "drain_child tot evs =
     foldl drain_event \<lparr>da_shown = [], da_total = tot, da_text = [], da_failed = False\<rparr> evs"

text \<open>One step of a sequence or loop: it ends the stream, or goes on with the new total and state.\<close>

datatype step_result =
    StepEnd "agent_error option"
  | StepOn token_usage bool

definition run_step :: "ext \<Rightarrow> 'u run_context \<Rightarrow> item list \<Rightarrow> token_usage \<Rightarrow> kv \<Rightarrow> string \<times> 'u sub_agent
    \<Rightarrow> agent_event list \<times> step_result \<times> kv" where
  "run_step E child input tot st step =
     (case sa_run (snd step) child input st of
        (Inl e, st', _) \<Rightarrow>
          (AgentUpdated (sa_name (snd step)) # fst (fail_with E e), StepEnd (Some e), st')
      | (Inr (evs, slot), st', escalated) \<Rightarrow>
          (let a = drain_child tot evs
           in if da_failed a
              then (AgentUpdated (sa_name (snd step)) # da_shown a, StepEnd slot, st')
              else (AgentUpdated (sa_name (snd step)) # da_shown a, StepOn (da_total a) escalated,
                    st'(fst step \<mapsto> JString (da_text a)))))"

section \<open>SequentialAgent\<close>

record 'u flow =
  fl_name :: string
  fl_description :: string
  fl_agents :: "(string \<times> 'u sub_agent) list"

text \<open>\<open>fr k\<close> gives the addresses of the fresh slots of the \<open>k\<close>-th child.\<close>

fun seq_steps :: "ext \<Rightarrow> (nat \<Rightarrow> addr \<times> addr) \<Rightarrow> 'u run_context \<Rightarrow> item list \<Rightarrow> nat \<Rightarrow> token_usage \<Rightarrow> kv
    \<Rightarrow> (string \<times> 'u sub_agent) list \<Rightarrow> agent_event list \<times> agent_error option \<times> kv" where
  "seq_steps E fr ctx input k tot st [] = ([RunCompleted tot], None, st)"
| "seq_steps E fr ctx input k tot st (step # steps) =
     (case run_step E (subagent_child (fst (fr k)) (snd (fr k)) ctx) input tot st step of
        (evs, StepEnd slot, st') \<Rightarrow> (evs, slot, st')
      | (evs, StepOn tot' _, st') \<Rightarrow>
          (case seq_steps E fr ctx input (Suc k) tot' st' steps of
             (rest, slot, st'') \<Rightarrow> (evs @ rest, slot, st'')))"

definition sequential_run :: "ext \<Rightarrow> (nat \<Rightarrow> addr \<times> addr) \<Rightarrow> 'u flow \<Rightarrow> 'u run_context \<Rightarrow> item list \<Rightarrow> kv
    \<Rightarrow> (agent_event list \<times> agent_error option) \<times> kv" where
  "sequential_run E fr S ctx input st =
     (case depth_error ctx of
        Some err \<Rightarrow> ((RunStarted (fl_name S) # fst (fail_with E err), Some err), st)
      | None \<Rightarrow> (case seq_steps E fr ctx input 0 usage_default st (fl_agents S) of
            (evs, slot, st') \<Rightarrow> ((RunStarted (fl_name S) # evs, slot), st')))"

section \<open>LoopAgent\<close>

fun loop_pass :: "ext \<Rightarrow> (nat \<Rightarrow> addr \<times> addr) \<Rightarrow> 'u run_context \<Rightarrow> item list \<Rightarrow> nat \<Rightarrow> token_usage \<Rightarrow> kv
    \<Rightarrow> (string \<times> 'u sub_agent) list \<Rightarrow> agent_event list \<times> step_result \<times> kv" where
  "loop_pass E fr ctx input k tot st [] = ([], StepOn tot False, st)"
| "loop_pass E fr ctx input k tot st (step # steps) =
     (case run_step E (subagent_child (fst (fr k)) (snd (fr k)) ctx) input tot st step of
        (evs, StepEnd slot, st') \<Rightarrow> (evs, StepEnd slot, st')
      | (evs, StepOn tot' escalated, st') \<Rightarrow>
          (if escalated then (evs @ [RunCompleted tot'], StepEnd None, st')
           else (case loop_pass E fr ctx input (Suc k) tot' st' steps of
              (rest, r, st'') \<Rightarrow> (evs @ rest, r, st''))))"

fun loop_iterations :: "ext \<Rightarrow> (nat \<Rightarrow> addr \<times> addr) \<Rightarrow> u32 \<Rightarrow> 'u run_context \<Rightarrow> item list \<Rightarrow> nat
    \<Rightarrow> nat \<Rightarrow> token_usage \<Rightarrow> kv \<Rightarrow> (string \<times> 'u sub_agent) list
    \<Rightarrow> agent_event list \<times> agent_error option \<times> kv" where
  "loop_iterations E fr mx ctx input k 0 tot st agents =
     (fst (fail_with E (MaxIterationsExceeded mx)), Some (MaxIterationsExceeded mx), st)"
| "loop_iterations E fr mx ctx input k (Suc n) tot st agents =
     (case loop_pass E fr ctx input k tot st agents of
        (evs, StepEnd slot, st') \<Rightarrow> (evs, slot, st')
      | (evs, StepOn tot' _, st') \<Rightarrow>
          (case loop_iterations E fr mx ctx input (k + length agents) n tot' st' agents of
             (rest, slot, st'') \<Rightarrow> (evs @ rest, slot, st'')))"

definition loop_agent_run :: "ext \<Rightarrow> (nat \<Rightarrow> addr \<times> addr) \<Rightarrow> 'u flow \<Rightarrow> u32 \<Rightarrow> 'u run_context \<Rightarrow> item list
    \<Rightarrow> kv \<Rightarrow> (agent_event list \<times> agent_error option) \<times> kv" where
  "loop_agent_run E fr L max_iterations ctx input st =
     (case depth_error ctx of
        Some err \<Rightarrow> ((RunStarted (fl_name L) # fst (fail_with E err), Some err), st)
      | None \<Rightarrow> (case loop_iterations E fr max_iterations ctx input 0 (unat max_iterations)
              usage_default st (fl_agents L) of
            (evs, slot, st') \<Rightarrow> ((RunStarted (fl_name L) # evs, slot), st')))"

section \<open>ParallelAgent\<close>

record 'u branch =
  br_key :: string
  br_name :: string
  br_run :: "'u agent_run"

text \<open>Starting the branches one after the other: \<open>Inl\<close> is an early return.\<close>

fun par_start :: "(nat \<Rightarrow> addr \<times> addr) \<Rightarrow> 'u run_context \<Rightarrow> item list \<Rightarrow> nat \<Rightarrow> string list \<Rightarrow> 'u branch list
    \<Rightarrow> agent_event list \<times> (agent_error + (agent_event list \<times> agent_error option) list)" where
  "par_start fr ctx input k seen [] = ([], Ok [])"
| "par_start fr ctx input k seen (b # bs) =
     (if br_key b \<in> set seen
      then ([], Err (OtherError (''duplicate parallel branch key: '' @ br_key b)))
      else (case br_run b (subagent_child (fst (fr k)) (snd (fr k)) ctx) input of
          Inl e \<Rightarrow> ([AgentUpdated (br_name b)], Err e)
        | Inr r \<Rightarrow> (case par_start fr ctx input (Suc k) (br_key b # seen) bs of
              (evs, res) \<Rightarrow> (AgentUpdated (br_name b) # evs, map_sum (\<lambda>e. e) (\<lambda>rs. r # rs) res))))"

record par_acc =
  pa_shown :: "agent_event list"
  pa_total :: token_usage
  pa_finals :: "string list"
  pa_completed :: "string btree"
  pa_writes :: "(string \<times> json) list"
  pa_saw_failure :: bool

definition par_init :: "nat \<Rightarrow> par_acc" where
  "par_init n = \<lparr>pa_shown = [], pa_total = usage_default, pa_finals = replicate n [],
     pa_completed = [], pa_writes = [], pa_saw_failure = False\<rparr>"

text \<open>One event of the merged stream, tagged with the index of its branch.\<close>

definition par_event :: "string list \<Rightarrow> par_acc \<Rightarrow> nat \<times> agent_event \<Rightarrow> par_acc" where
  "par_event keys a tagged =
     (case tagged of (i, ev) \<Rightarrow>
       (case ev of
          RunStarted _ \<Rightarrow> a
        | RunCompleted usage \<Rightarrow>
            a\<lparr>pa_total := usage_add (pa_total a) usage,
              pa_completed := bt_insert (keys ! i) (pa_finals a ! i) (pa_completed a),
              pa_writes := pa_writes a @ [(keys ! i, JString (pa_finals a ! i))]\<rparr>
        | RunFailed _ \<Rightarrow> a\<lparr>pa_saw_failure := True\<rparr>
        | MessageOutput it \<Rightarrow>
            a\<lparr>pa_shown := pa_shown a @ [ev],
              pa_finals := (case assistant_text it of
                  Some t \<Rightarrow> (pa_finals a)[i := t] | None \<Rightarrow> pa_finals a)\<rparr>
        | _ \<Rightarrow> a\<lparr>pa_shown := pa_shown a @ [ev]\<rparr>))"

definition first_error :: "agent_error option list \<Rightarrow> agent_error option" where
  "first_error slots = find_map (\<lambda>s. s) slots"

text \<open>The end of the stream: one aggregate failure, or the synthesized message and the completion.\<close>

definition par_finish :: "ext \<Rightarrow> string \<Rightarrow> par_acc \<Rightarrow> agent_error option list \<Rightarrow> agent_event list \<times> agent_error option" where
  "par_finish E nm a slots =
     (let first_err = first_error slots
      in if pa_saw_failure a \<or> first_err \<noteq> None
         then fail_with E (unwrap_or (OtherError ''a parallel branch failed'') first_err)
         else ([MessageOutput (AssistantMessage
                  [Text (to_string E (JObject (map (\<lambda>(k, t). (k, JString t)) (pa_completed a))))] (Some nm)),
                RunCompleted (pa_total a)], None))"

text \<open>
  \<open>merge\<close> is the order in which the merged stream delivers the events of the branches, \<open>st\<close> the
  shared coordination state, which gets the text of every branch that completes.
\<close>

definition parallel_run :: "ext \<Rightarrow> (nat \<Rightarrow> addr \<times> addr)
    \<Rightarrow> (agent_event list list \<Rightarrow> (nat \<times> agent_event) list)
    \<Rightarrow> string \<Rightarrow> 'u branch list \<Rightarrow> 'u run_context \<Rightarrow> item list \<Rightarrow> kv
    \<Rightarrow> (agent_event list \<times> agent_error option) \<times> kv" where
  "parallel_run E fr merge nm branches ctx input st =
     (case depth_error ctx of
        Some err \<Rightarrow> ((RunStarted nm # fst (fail_with E err), Some err), st)
      | None \<Rightarrow>
          (case par_start fr ctx input 0 [] branches of
             (evs, Inl err) \<Rightarrow> ((RunStarted nm # evs @ fst (fail_with E err), Some err), st)
           | (evs, Inr rs) \<Rightarrow>
               (let a = foldl (par_event (map br_key branches)) (par_init (length branches))
                      (merge (map fst rs))
                in case par_finish E nm a (map snd rs) of
                     (closing, slot) \<Rightarrow>
                       ((RunStarted nm # evs @ pa_shown a @ closing, slot), st ++ map_of (rev (pa_writes a))))))"

section \<open>Sequences and loops keep the contract\<close>

lemma drain_no_terminal:
  assumes "no_terminal evs" "no_terminal (da_shown a)"
  shows "no_terminal (da_shown (foldl drain_event a evs))
    \<and> da_failed (foldl drain_event a evs) = da_failed a
    \<and> da_total (foldl drain_event a evs) = da_total a"
  using assms
proof (induction evs arbitrary: a)
  case (Cons e es)
  then have "no_terminal (da_shown (drain_event a e)) \<and> da_failed (drain_event a e) = da_failed a
      \<and> da_total (drain_event a e) = da_total a"
    by (cases e) simp_all
  then show ?case using Cons by simp
qed simp

lemma closes_failed [stream_intros]: "closes [RunFailed m] (Some e)"
  by (rule closes_single) simp

lemma closes_step [stream_intros]: "\<not> is_terminal ev \<Longrightarrow> closes evs slot \<Longrightarrow> closes (ev # evs) slot"
  using closes_append [of "[ev]"] by simp

lemma drain_child_ok:
  assumes "stream_ok nm (evs, slot)"
  shows "da_failed (drain_child tot evs) \<Longrightarrow> closes (da_shown (drain_child tot evs)) slot"
    and "\<not> da_failed (drain_child tot evs) \<Longrightarrow> no_terminal (da_shown (drain_child tot evs))
      \<and> slot = None \<and> (\<exists>u. last evs = RunCompleted u \<and> da_total (drain_child tot evs) = tot + u)"
proof -
  obtain pre e where evs: "evs = RunStarted nm # pre @ [e]" "no_terminal pre" "ends_with_slot e slot"
    using assms by (auto simp: stream_ok_def closes_def)
  define a where "a = foldl drain_event \<lparr>da_shown = [], da_total = tot, da_text = [], da_failed = False\<rparr> pre"
  have a: "no_terminal (da_shown a)" "\<not> da_failed a" "da_total a = tot"
    using drain_no_terminal [OF evs(2)] by (simp_all add: a_def)
  have d: "drain_child tot evs = drain_event a e" by (simp add: drain_child_def evs(1) a_def)
  show "da_failed (drain_child tot evs) \<Longrightarrow> closes (da_shown (drain_child tot evs)) slot"
    using a evs(3) unfolding d by (cases e) (auto intro: stream_intros)
  show "\<not> da_failed (drain_child tot evs) \<Longrightarrow> no_terminal (da_shown (drain_child tot evs))
      \<and> slot = None \<and> (\<exists>u. last evs = RunCompleted u \<and> da_total (drain_child tot evs) = tot + u)"
    using a evs unfolding d by (cases e) auto
qed

locale flow_children =
  fixes agents :: "(string \<times> 'u sub_agent) list"
  assumes child_keeps_contract:
    "step \<in> set agents \<Longrightarrow> sa_run (snd step) c inp st = (Ok r, st', esc) \<Longrightarrow> stream_ok (sa_name (snd step)) r"
begin

lemma run_step_result:
  assumes "step \<in> set agents" "run_step E c inp tot st step = (evs, r, st')"
  shows "(\<forall>slot. r = StepEnd slot \<longrightarrow> closes evs slot)
    \<and> (\<forall>t b. r = StepOn t b \<longrightarrow> no_terminal evs)"
proof (cases "sa_run (snd step) c inp st")
  case (fields x st1 esc)
  show ?thesis
  proof (cases x)
    case (Inl e)
    then show ?thesis using assms(2) fields
      by (auto simp: run_step_def fail_with_def intro: stream_intros)
  next
    case (Inr y)
    then obtain cevs slot where y: "x = Ok (cevs, slot)" by (cases y) auto
    then have ok: "stream_ok (sa_name (snd step)) (cevs, slot)"
      using child_keeps_contract assms(1) fields by blast
    show ?thesis
      using assms(2) fields y drain_child_ok [OF ok, of tot]

      by (auto simp: run_step_def Let_def intro: stream_intros split: if_splits)
  qed
qed

lemma seq_steps_closes:
  "set steps \<subseteq> set agents \<Longrightarrow> seq_steps E fr ctx inp k tot st steps = (evs, slot, st') \<Longrightarrow> closes evs slot"
proof (induction E fr ctx inp k tot st steps arbitrary: evs slot st' rule: seq_steps.induct)
  case (1 E fr ctx inp k tot st)
  then show ?case by (auto intro: stream_intros)
next
  case (2 E fr ctx inp k tot st step steps)
  obtain evs1 r st1 where rs: "run_step E (subagent_child (fst (fr k)) (snd (fr k)) ctx) inp tot st step
      = (evs1, r, st1)" by (metis prod.exhaust)
  from "2.prems"(1) have mem: "step \<in> set agents" by simp
  show ?case
  proof (cases r)
    case (StepEnd s)
    then show ?thesis using "2.prems"(2) rs run_step_result [OF mem rs] by simp
  next
    case (StepOn t b)
    obtain rest s2 st2 where rest: "seq_steps E fr ctx inp (Suc k) t st1 steps = (rest, s2, st2)"
      by (metis prod.exhaust)
    have "closes rest s2"
      using "2.IH" [OF rs [symmetric] refl StepOn _ rest] "2.prems"(1) by simp
    then show ?thesis
      using "2.prems"(2) rs StepOn rest run_step_result [OF mem rs] by (auto intro: stream_intros)
  qed
qed

lemma loop_pass_result:
  "set steps \<subseteq> set agents \<Longrightarrow> loop_pass E fr ctx inp k tot st steps = (evs, r, st') \<Longrightarrow>
     (\<forall>slot. r = StepEnd slot \<longrightarrow> closes evs slot) \<and> (\<forall>t b. r = StepOn t b \<longrightarrow> no_terminal evs)"
proof (induction E fr ctx inp k tot st steps arbitrary: evs r st' rule: loop_pass.induct)
  case (2 E fr ctx inp k tot st step steps)
  obtain evs1 r1 st1 where rs: "run_step E (subagent_child (fst (fr k)) (snd (fr k)) ctx) inp tot st step
      = (evs1, r1, st1)" by (metis prod.exhaust)
  from "2.prems"(1) have mem: "step \<in> set agents" by simp
  note one = run_step_result [OF mem rs]
  show ?case
  proof (cases r1)
    case (StepEnd s)
    then show ?thesis using "2.prems"(2) rs one by auto
  next
    case (StepOn t b)
    obtain rest r2 st2 where rest: "loop_pass E fr ctx inp (Suc k) t st1 steps = (rest, r2, st2)"
      by (metis prod.exhaust)
    have "\<not> b \<Longrightarrow> (\<forall>slot. r2 = StepEnd slot \<longrightarrow> closes rest slot)
        \<and> (\<forall>t b. r2 = StepOn t b \<longrightarrow> no_terminal rest)"
      using "2.IH" [OF rs [symmetric] refl StepOn _ _ rest] "2.prems"(1) by simp
    then show ?thesis
      using "2.prems"(2) rs StepOn rest one
      by (auto split: if_splits intro!: closes_append closes_single)
  qed
qed simp

lemma loop_iterations_closes:
  "loop_iterations E fr mx ctx inp k n tot st agents = (evs, slot, st') \<Longrightarrow> closes evs slot"
proof (induction n arbitrary: k tot st evs slot st')
  case 0
  then show ?case by (auto simp: fail_with_def intro: stream_intros)
next
  case (Suc n)
  obtain evs1 r st1 where ps: "loop_pass E fr ctx inp k tot st agents = (evs1, r, st1)"
    by (metis prod.exhaust)
  note one = loop_pass_result [OF subset_refl ps]
  show ?case
  proof (cases r)
    case (StepEnd s)
    then show ?thesis using Suc.prems ps one by simp
  next
    case (StepOn t b)
    obtain rest s2 st2 where rest:
      "loop_iterations E fr mx ctx inp (k + length agents) n t st1 agents = (rest, s2, st2)"
      by (metis prod.exhaust)
    then have "closes rest s2" by (rule Suc.IH)
    then show ?thesis using Suc.prems ps StepOn rest one by (auto intro: stream_intros)
  qed
qed

lemma sequential_stream:
  assumes "fl_agents S = agents"
  shows "stream_ok (fl_name S) (fst (sequential_run E fr S ctx inp st))"
proof (cases "depth_error ctx")
  case None
  obtain evs slot st' where "seq_steps E fr ctx inp 0 usage_default st agents = (evs, slot, st')"
    by (metis prod.exhaust)
  then show ?thesis using seq_steps_closes [OF subset_refl] None assms
    by (simp add: sequential_run_def stream_ok_def)
qed (simp add: sequential_run_def stream_ok_def fail_with_def closes_single)

lemma loop_stream:
  assumes "fl_agents L = agents"
  shows "stream_ok (fl_name L) (fst (loop_agent_run E fr L mx ctx inp st))"
proof (cases "depth_error ctx")
  case None
  obtain evs slot st' where
    "loop_iterations E fr mx ctx inp 0 (unat mx) usage_default st agents = (evs, slot, st')"
    by (metis prod.exhaust)
  then show ?thesis using loop_iterations_closes None assms
    by (simp add: loop_agent_run_def stream_ok_def)
qed (simp add: loop_agent_run_def stream_ok_def fail_with_def closes_single)

end

text \<open>Agents of the loop driver as steps of a workflow.\<close>

definition llm_step :: "'w surroundings \<Rightarrow> ('u, 'w) llm_agent \<Rightarrow> string \<times> 'u sub_agent" where
  "llm_step U A = (la_name A, \<lparr>sa_name = la_name A, sa_run = (\<lambda>c i st. (llm_run U A c i, st, False))\<rparr>)"

lemma leaf_stream: "llm_run (in_order U) (leaf_agent A) c i = Ok r \<Longrightarrow> stream_ok (la_name (leaf_agent A)) r"
  by (rule leaf.run_stream)

interpretation pipeline: flow_children "map (\<lambda>A. llm_step (in_order U) (leaf_agent A)) As" for U As
  by unfold_locales (auto simp: llm_step_def intro: leaf_stream)

text \<open>
  Workflow agents compose: when every sub-agent keeps the stream contract, so do the sequence
  and the loop built from them, for every input, budget, depth and coordination state: one
  \<open>RunStarted\<close>, one terminal event at the end, and a structured error exactly for a failure.
\<close>

theorem flows_keep_contract:
  assumes "\<And>step c inp st r st' esc. step \<in> set (fl_agents S) \<Longrightarrow>
      sa_run (snd step) c inp st = (Ok r, st', esc) \<Longrightarrow> stream_ok (sa_name (snd step)) r"
  shows "stream_ok (fl_name S) (fst (sequential_run E fr S ctx input st))
    \<and> stream_ok (fl_name S) (fst (loop_agent_run E fr S max_iterations ctx input st))"
proof -
  have "flow_children (fl_agents S)" using assms by (rule flow_children.intro)
  then show ?thesis
    using flow_children.sequential_stream flow_children.loop_stream by blast
qed

theorem flows_keep_contract_witness:
  "stream_ok ''flow'' (fst (loop_agent_run ext_ex (\<lambda>k. (k, k))
     \<lparr>fl_name = ''flow'', fl_description = [],
       fl_agents = [llm_step (in_order around) (leaf_agent agent_a)]\<rparr> 2 ctx_bypass [] Map.empty))"
  using flows_keep_contract [of "\<lparr>fl_name = ''flow'', fl_description = [],
       fl_agents = [llm_step (in_order around) (leaf_agent agent_a)]\<rparr>" ext_ex "\<lambda>k. (k, k)" ctx_bypass "[]"
       Map.empty 2] leaf_stream
  by (fastforce simp: llm_step_def)

section \<open>Interleavings of parallel branches\<close>

text \<open>The events of one branch in a merged stream, and the merges a fair scheduler may produce.\<close>

definition proj :: "nat \<Rightarrow> (nat \<times> 'e) list \<Rightarrow> 'e list" where
  "proj i tagged = map snd (filter (\<lambda>t. fst t = i) tagged)"

definition interleaves :: "'e list list \<Rightarrow> (nat \<times> 'e) list \<Rightarrow> bool" where
  "interleaves ss tagged \<longleftrightarrow>
     (\<forall>t\<in>set tagged. fst t < length ss) \<and> (\<forall>i<length ss. proj i tagged = ss ! i)"

lemma proj_simps [simp]:
  "proj i [] = []"
  "proj i (t # ts') = (if fst t = i then snd t # proj i ts' else proj i ts')"
  "proj i (xs @ ys) = proj i xs @ proj i ys"
  by (simp_all add: proj_def)

lemma proj_eq_Nil: "proj i tagged = [] \<longleftrightarrow> (\<forall>t\<in>set tagged. fst t \<noteq> i)"
  by (auto simp: proj_def filter_empty_conv)

lemma proj_first:
  assumes "proj i tagged = e # es"
  obtains p q where "tagged = p @ (i, e) # q" "\<forall>t\<in>set p. fst t \<noteq> i"
  using assms
proof (induction tagged arbitrary: thesis)
  case (Cons t tagged)
  show ?case
  proof (cases "fst t = i")
    case True
    then show ?thesis using Cons.prems(1) [of "[]" tagged] Cons.prems(2) by (cases t) auto
  next
    case False
    then have "proj i tagged = e # es" using Cons.prems(2) by simp
    then obtain p q where "tagged = p @ (i, e) # q" "\<forall>t\<in>set p. fst t \<noteq> i" using Cons.IH by blast
    then show ?thesis using Cons.prems(1) [of "t # p" q] False by auto
  qed
qed simp

text \<open>
  An accumulator whose steps commute, up to an equivalence, when they come from different
  branches: its result depends only on what each branch contributes.
\<close>

locale commuting_branches =
  fixes f :: "'s \<Rightarrow> nat \<times> 'e \<Rightarrow> 's" and same :: "'s \<Rightarrow> 's \<Rightarrow> bool" and tags :: "nat set"
  assumes same_refl: "same a a"
    and same_trans: "same a b \<Longrightarrow> same b c \<Longrightarrow> same a c"
    and step_cong: "same a b \<Longrightarrow> same (f a t) (f b t)"
    and commute: "i \<in> tags \<Longrightarrow> j \<in> tags \<Longrightarrow> i \<noteq> j \<Longrightarrow> same (f (f a (i, x)) (j, y)) (f (f a (j, y)) (i, x))"
begin

lemma fold_cong: "same a b \<Longrightarrow> same (foldl f a xs) (foldl f b xs)"
  by (induction xs arbitrary: a b) (simp_all add: step_cong)

lemma move_front:
  assumes "\<forall>t\<in>set p. fst t \<in> tags \<and> fst t \<noteq> i" "i \<in> tags"
  shows "same (foldl f (f a (i, x)) p) (f (foldl f a p) (i, x))"
  using assms
proof (induction p arbitrary: a)
  case (Cons t p)
  have "same (f (f a (i, x)) t) (f (f a t) (i, x))" using Cons.prems commute [of i "fst t" a x "snd t"] by simp
  then have "same (foldl f (f (f a (i, x)) t) p) (foldl f (f (f a t) (i, x)) p)" by (rule fold_cong)
  then show ?case using Cons same_trans by fastforce
qed (simp add: same_refl)

lemma interleaving_irrelevant:
  assumes "\<And>i. proj i t1 = proj i t2" "\<forall>t\<in>set t1. fst t \<in> tags" "\<forall>t\<in>set t2. fst t \<in> tags"
  shows "same (foldl f a t1) (foldl f a t2)"
  using assms
proof (induction t1 arbitrary: t2 a)
  case Nil
  then have "t2 = []" using proj_eq_Nil [of _ t2] by (cases t2) auto
  then show ?case by (simp add: same_refl)
next
  case (Cons t t1)
  obtain i e where t: "t = (i, e)" by force
  have "proj i t2 = e # proj i t1" using Cons.prems(1) [of i] t by simp
  then obtain p q where t2: "t2 = p @ (i, e) # q" and p: "\<forall>t\<in>set p. fst t \<noteq> i" by (rule proj_first)
  have "proj j t1 = proj j (p @ q)" for j
    using Cons.prems(1) [of j] t t2 p proj_eq_Nil [of i p] by (auto split: if_splits)
  then have "same (foldl f (f a t) t1) (foldl f (foldl f (f a t) p) q)"
    using Cons.IH [of "p @ q" "f a t"] Cons.prems t2 by simp
  moreover have "same (foldl f (foldl f (f a t) p) q) (foldl f (f (foldl f a p) (i, e)) q)"
    using move_front [of p i a e] p Cons.prems(2,3) t t2 by (intro fold_cong) simp
  ultimately show ?case using t2 t same_trans by simp
qed

end

text \<open>Accumulators that differ only in the order of the relayed events and of the state writes.\<close>

definition par_same :: "par_acc \<Rightarrow> par_acc \<Rightarrow> bool" where
  "par_same a b \<longleftrightarrow> mset (pa_shown a) = mset (pa_shown b) \<and> pa_total a = pa_total b
     \<and> pa_finals a = pa_finals b \<and> pa_completed a = pa_completed b
     \<and> map_of (rev (pa_writes a)) = map_of (rev (pa_writes b)) \<and> pa_saw_failure a = pa_saw_failure b"

lemma bt_insert_commute: "k \<noteq> k' \<Longrightarrow> bt_insert k v (bt_insert k' v' m) = bt_insert k' v' (bt_insert k v m)"
  by (induction m) (auto split: prod.splits)

definition clear_tags :: "string list \<Rightarrow> nat set" where
  "clear_tags keys = {i. i < length keys \<and> (\<forall>j<length keys. keys ! j = keys ! i \<longrightarrow> j = i)}"

interpretation par: commuting_branches "par_event keys" par_same "clear_tags keys" for keys
proof unfold_locales
  show "par_same a b \<Longrightarrow> par_same (par_event keys a t) (par_event keys b t)" for a b t
    by (cases t; cases "snd t")
      (auto simp: par_same_def par_event_def split: option.splits)
next
  fix i j a x y
  assume tags: "i \<in> clear_tags keys" "j \<in> clear_tags keys" "i \<noteq> j"
  then have "keys ! i \<noteq> keys ! j" by (auto simp: clear_tags_def)
  then show "par_same (par_event keys (par_event keys a (i, x)) (j, y))
      (par_event keys (par_event keys a (j, y)) (i, x))"
    using tags(3)
    by (cases x; cases y)
      (auto simp: par_same_def par_event_def bt_insert_commute list_update_swap add_ac fun_upd_twist
        split: option.splits)
qed (auto simp: par_same_def)

lemma par_start_ok:
  "par_start fr ctx inp k seen bs = (evs, Inr rs) \<Longrightarrow>
     length rs = length bs \<and> distinct (map br_key bs) \<and> set (map br_key bs) \<inter> set seen = {}"
proof (induction fr ctx inp k seen bs arbitrary: evs rs rule: par_start.induct)
  case (2 fr ctx inp k seen b bs)
  obtain evs' res where rest: "par_start fr ctx inp (Suc k) (br_key b # seen) bs = (evs', res)" by force
  then show ?case using "2.prems" "2.IH" by (cases res) (fastforce split: if_splits sum.splits)+
qed simp

lemma par_start_no_terminal: "par_start fr ctx inp k seen bs = (evs, res) \<Longrightarrow> no_terminal evs"
  by (induction fr ctx inp k seen bs arbitrary: evs res rule: par_start.induct)
    (fastforce split: if_splits sum.splits prod.splits)+

lemma par_shown_no_terminal:
  "no_terminal (pa_shown a) \<Longrightarrow> no_terminal (pa_shown (foldl (par_event keys) a tagged))"
proof (induction tagged arbitrary: a)
  case (Cons t tagged)
  then have "no_terminal (pa_shown (par_event keys a t))"
    by (cases t; cases "snd t") (auto simp: par_event_def)
  then show ?case using Cons.IH by simp
qed simp

lemma par_finish_closes: "par_finish E nm a slots = (closing, slot) \<Longrightarrow> closes closing slot"
  using closes_step [OF _ closes_single]
  by (auto simp: par_finish_def fail_with_def Let_def intro: stream_intros split: if_splits)

lemma par_finish_same: "par_same a b \<Longrightarrow> par_finish E nm a slots = par_finish E nm b slots"
  by (simp add: par_same_def par_finish_def Let_def)

lemma interleaves_proj_eq:
  "interleaves ss t1 \<Longrightarrow> interleaves ss t2 \<Longrightarrow> proj i t1 = proj i t2"
  using proj_eq_Nil [of i t1] proj_eq_Nil [of i t2]
  by (cases "i < length ss") (auto simp: interleaves_def)

lemma par_fold_same:
  assumes "distinct keys" "interleaves ss t1" "interleaves ss t2" "length ss = length keys"
  shows "par_same (foldl (par_event keys) a t1) (foldl (par_event keys) a t2)"
proof -
  have "clear_tags keys = {..<length keys}"
    using assms(1) by (auto simp: clear_tags_def distinct_conv_nth)
  then show ?thesis
    using par.interleaving_irrelevant [OF interleaves_proj_eq [OF assms(2,3)]] assms(2-4)
    by (simp add: interleaves_def)
qed

lemma parallel_too_deep:
  "depth_error ctx = Some err \<Longrightarrow> parallel_run E fr merge nm branches ctx input st
     = (([RunStarted nm, RunFailed (agent_error_display E err)], Some err), st)"
  by (simp add: parallel_run_def fail_with_def)


text \<open>Two schedulers: branch after branch, in either direction.\<close>

definition branch_order :: "(nat \<Rightarrow> nat list) \<Rightarrow> 'e list list \<Rightarrow> (nat \<times> 'e) list" where
  "branch_order ord ss = concat (map (\<lambda>i. map (Pair i) (ss ! i)) (ord (length ss)))"

lemma branch_order_interleaves:
  assumes "\<And>n. distinct (ord n)" "\<And>n. set (ord n) = {..<n}"
  shows "interleaves ss (branch_order ord ss)"
proof -
  have "proj i (concat (map (\<lambda>i. map (Pair i) (ss ! i)) is)) = (if i \<in> set is then ss ! i else [])"
    if "distinct is" for i "is"
    using that by (induction "is") (auto simp: proj_def filter_map o_def filter_empty_conv)
  then show ?thesis using assms by (auto simp: interleaves_def branch_order_def)
qed


end
