(* ===== verification/Session_Log.thy ===== *)
theory Session_Log
  imports Messages
begin

text \<open>
  Conversation persistence (\<open>session.rs\<close>): the append-only \<open>SessionEvent\<close> log, its
  projection to a message list (\<open>project\<close>), the in-memory backend and the \<open>SessionRecorder\<close>
  that turns a run's events into log entries. \<open>project\<close> keeps a message vector and a parallel
  vector of contributions; it is shown to refine a log of blocks on which compaction replaces
  the last blocks by the summary. The locales state what every backend promises.
\<close>

section \<open>The log\<close>

datatype session_event =
    SUserMessage "content_part list" int
  | SAssistantMessage "content_part list" string int
  | SToolCalled string string json int
  | SToolReturned string "content_part list" int
  | SHandoffOccurred string string int
  | SCompacted string u64 int

fun kind :: "session_event \<Rightarrow> string" where
  "kind (SUserMessage _ _) = ''user_message''"
| "kind (SAssistantMessage _ _ _) = ''assistant_message''"
| "kind (SToolCalled _ _ _ _) = ''tool_called''"
| "kind (SToolReturned _ _ _) = ''tool_returned''"
| "kind (SHandoffOccurred _ _ _) = ''handoff_occurred''"
| "kind (SCompacted _ _ _) = ''compacted''"

fun ts :: "session_event \<Rightarrow> int" where
  "ts (SUserMessage _ t) = t"
| "ts (SAssistantMessage _ _ t) = t"
| "ts (SToolCalled _ _ _ t) = t"
| "ts (SToolReturned _ _ t) = t"
| "ts (SHandoffOccurred _ _ t) = t"
| "ts (SCompacted _ _ t) = t"

text \<open>Timestamps are integers (\<open>i128\<close> nanoseconds); the audit column saturates to \<open>i64\<close>.\<close>

definition i64_min :: int where "i64_min = - (2 ^ 63)"
definition i64_max :: int where "i64_max = 2 ^ 63 - 1"

definition ts_nanos_saturating :: "session_event \<Rightarrow> int" where
  "ts_nanos_saturating e =
     (let nanos = ts e; saturated = (if nanos < 0 then i64_min else i64_max)
      in if i64_min \<le> nanos \<and> nanos \<le> i64_max then nanos else saturated)"

section \<open>Projection\<close>

text \<open>The message an event yields; a compaction marker is handled by the loop itself.\<close>

fun event_items :: "session_event \<Rightarrow> item list" where
  "event_items (SUserMessage content _) = [UserMessage content]"
| "event_items (SAssistantMessage content agent _) = [AssistantMessage content (Some agent)]"
| "event_items (SToolCalled c nm args _) = [ToolCall c nm args]"
| "event_items (SToolReturned c content _) = [ToolResult c content]"
| "event_items (SHandoffOccurred _ _ _) = []"
| "event_items (SCompacted summary _ _) = [System [Text summary]]"

fun project_step :: "item list \<times> nat list \<Rightarrow> session_event \<Rightarrow> item list \<times> nat list" where
  "project_step (messages, contributions) (SCompacted summary original_count t) =
     (let n = unat original_count;
          drop_from_idx = length contributions - n;
          drop_msg_count = sum_list (drop drop_from_idx contributions);
          new_len = length messages - drop_msg_count
      in (take new_len messages @ [System [Text summary]],
          take drop_from_idx contributions @ [1]))"
| "project_step (messages, contributions) ev =
     (messages @ event_items ev, contributions @ [length (event_items ev)])"

definition project :: "session_event list \<Rightarrow> item list" where
  "project evs = fst (foldl project_step ([], []) evs)"

subsection \<open>Blocks: the abstract log\<close>

fun is_compacted :: "session_event \<Rightarrow> bool" where
  "is_compacted (SCompacted _ _ _) = True"
| "is_compacted _ = False"

fun block_step :: "item list list \<Rightarrow> session_event \<Rightarrow> item list list" where
  "block_step bs (SCompacted summary n t) =
     take (length bs - unat n) bs @ [[System [Text summary]]]"
| "block_step bs ev = bs @ [event_items ev]"

definition blocks :: "session_event list \<Rightarrow> item list list" where
  "blocks evs = foldl block_step [] evs"

lemma block_step_plain: "\<not> is_compacted ev \<Longrightarrow> block_step bs ev = bs @ [event_items ev]"
  by (cases ev) simp_all

lemma project_step_plain:
  "\<not> is_compacted ev \<Longrightarrow> project_step (ms, cs) ev
     = (ms @ event_items ev, cs @ [length (event_items ev)])"
  by (cases ev) simp_all

lemma take_concat_blocks:
  "take (length (concat bs) - sum_list (drop k (map length bs))) (concat bs)
     = concat (take k bs)"
proof -
  have "concat bs = concat (take k bs) @ concat (drop k bs)"
    by (metis append_take_drop_id concat_append)
  moreover have "sum_list (drop k (map length bs)) = length (concat (drop k bs))"
    by (simp add: length_concat drop_map)
  ultimately show ?thesis by simp
qed

lemma project_step_refines:
  "project_step (concat bs, map length bs) ev
     = (concat (block_step bs ev), map length (block_step bs ev))"
proof (cases "is_compacted ev")
  case True
  then obtain s n t where ev: "ev = SCompacted s n t" by (cases ev) auto
  show ?thesis
    by (simp add: ev Let_def take_concat_blocks take_map)
next
  case False
  then show ?thesis by (simp add: project_step_plain block_step_plain)
qed

lemma project_fold:
  "foldl project_step (concat bs, map length bs) evs
     = (concat (foldl block_step bs evs), map length (foldl block_step bs evs))"
  by (induction evs arbitrary: bs) (simp_all add: project_step_refines del: project_step.simps)

text \<open>
  C6. The message/contribution bookkeeping of the projection refines the log of blocks: the
  projected conversation is the concatenation of the blocks, on which a marker replaces the
  last \<open>original_count\<close> blocks by its summary; so the subtraction that computes the truncation
  length never underflows.
\<close>

theorem project_refines_blocks:
  "foldl project_step ([], []) evs = (concat (blocks evs), map length (blocks evs))"
  using project_fold [of "[]" evs] by (simp add: blocks_def)

lemma project_blocks: "project evs = concat (blocks evs)"
  using project_fold [of "[]" evs] by (simp add: project_def blocks_def)

lemma blocks_append: "blocks (xs @ ys) = foldl block_step (blocks xs) ys"
  by (simp add: blocks_def)

lemma blocks_snoc: "blocks (xs @ [e]) = block_step (blocks xs) e"
  by (simp add: blocks_def)

lemma foldl_block_plain:
  "list_all (\<lambda>e. \<not> is_compacted e) evs \<Longrightarrow> foldl block_step bs evs = bs @ map event_items evs"
  by (induction evs arbitrary: bs) (simp_all add: block_step_plain)

lemma project_append_plain:
  "list_all (\<lambda>e. \<not> is_compacted e) ys \<Longrightarrow>
     project (xs @ ys) = project xs @ concat (map event_items ys)"
  by (simp add: project_blocks blocks_append foldl_block_plain)

lemma project_plain:
  "list_all (\<lambda>e. \<not> is_compacted e) evs \<Longrightarrow> project evs = concat (map event_items evs)"
  using project_append_plain [of evs "[]"] by (simp add: project_def)

section \<open>Backends\<close>

text \<open>
  The \<open>Session\<close> trait as a record of its methods over a state \<open>'s\<close>. \<open>append\<close> returns the state it
  leaves also when it fails. What a session promises its clients is stated by two locales: every
  session is append-only, that is, it keeps the log it had and, when it succeeds, the events it
  was given, in order; a backend adds exactly those and reads return the log or its tail after a
  sequence id.
\<close>

record 's session_ops =
  ses_append :: "'s \<Rightarrow> session_event list \<Rightarrow> (session_error + unit) \<times> 's"
  ses_events :: "'s \<Rightarrow> u64 option \<Rightarrow> session_error + session_event list"
  ses_snapshot :: "'s \<Rightarrow> session_error + item list"

locale append_only_session =
  fixes ops :: "'s session_ops" and slog :: "'s \<Rightarrow> session_event list"
  assumes append_keeps: "ses_append ops s evs = (Ok (), s') \<Longrightarrow> prefix (slog s @ evs) (slog s')"
    and append_fails: "ses_append ops s evs = (Err e, s') \<Longrightarrow> prefix (slog s) (slog s')"
    and read_all: "ses_events ops s None = Ok es \<Longrightarrow> es = slog s"
    and read_snapshot: "ses_snapshot ops s = Ok ms \<Longrightarrow> ms = project (slog s)"
begin

text \<open>Whatever sequence of appends is made, the earlier log is a prefix of the later one.\<close>

lemma append_prefix: "prefix (slog s) (slog (snd (ses_append ops s evs)))"
proof (cases "ses_append ops s evs")
  case (Pair r s')
  then show ?thesis
    by (cases r) (auto dest: append_fails append_keeps append_prefixD)
qed

lemma append_all_prefix: "prefix (slog s) (slog (foldl (\<lambda>s evs. snd (ses_append ops s evs)) s batches))"
proof (induction batches arbitrary: s)
  case (Cons evs rest)
  from append_prefix [of s evs] Cons.IH show ?case by (auto intro: prefix_order.trans)
qed simp

end

locale session_backend =
  fixes ops :: "'s session_ops" and slog :: "'s \<Rightarrow> session_event list"
  assumes append_exact: "ses_append ops s evs = (Ok (), s') \<Longrightarrow> slog s' = slog s @ evs"
    and append_error: "ses_append ops s evs = (Err e, s') \<Longrightarrow> slog s' = slog s"
    and read_none: "ses_events ops s None = Ok es \<Longrightarrow> es = slog s"
    and read_since: "ses_events ops s (Some q) = Ok es \<Longrightarrow> length (slog s) < 2 ^ 64 \<Longrightarrow>
      es = drop (unat q + 1) (slog s)"
    and snapshot_log: "ses_snapshot ops s = Ok ms \<Longrightarrow> ms = project (slog s)"
begin

text \<open>
  A reader that remembers the position of the last event it saw gets exactly what was
  appended since.
\<close>

lemma resume_reads_new:
  assumes "ses_append ops s evs = (Ok (), s')" "slog s \<noteq> []" "length (slog s') < 2 ^ 64"
    and "ses_events ops s' (Some (word_of_nat (length (slog s) - 1))) = Ok es"
  shows "es = evs"
proof -
  have log: "slog s' = slog s @ evs" using assms(1) by (rule append_exact)
  with assms(2,3) have "unat (word_of_nat (length (slog s) - 1) :: u64) + 1 = length (slog s)"
    by (cases "slog s") (simp_all add: unsigned_of_nat take_bit_nat_eq_self)
  with read_since [OF assms(4,3)] log show ?thesis by (simp del: of_nat_diff)
qed

end

sublocale session_backend \<subseteq> append_only_session ops slog
  by unfold_locales (auto dest: append_exact append_error read_none snapshot_log)

subsection \<open>MemorySession\<close>

type_synonym memory_session = "session_event list"

definition memory_new :: memory_session where "memory_new = []"

definition memory_append ::
  "memory_session \<Rightarrow> session_event list \<Rightarrow> (session_error + unit) \<times> memory_session" where
  "memory_append guard evs = (Ok (), guard @ evs)"

definition memory_events ::
  "memory_session \<Rightarrow> u64 option \<Rightarrow> session_error + session_event list" where
  "memory_events guard since =
     (let start = (case since of Some s \<Rightarrow> saturating_add (unat s) 1 | None \<Rightarrow> 0)
      in Ok (if start \<le> length guard then drop start guard else []))"

definition memory_snapshot :: "memory_session \<Rightarrow> session_error + item list" where
  "memory_snapshot guard =
     (case memory_events guard None of Inl e \<Rightarrow> Err e | Inr evs \<Rightarrow> Ok (project evs))"

definition memory_session_ops :: "memory_session session_ops" where
  "memory_session_ops = \<lparr>ses_append = memory_append, ses_events = memory_events,
     ses_snapshot = memory_snapshot\<rparr>"

interpretation mem: session_backend memory_session_ops "\<lambda>s. s"
proof unfold_locales
  fix s q es
  assume es: "ses_events memory_session_ops s (Some q) = Ok es" and len: "length s < 2 ^ 64"
  have "unat q < 2 ^ 64" using unsigned_less [of q] by simp
  then have "min (Suc (unat q)) usize_max = Suc (unat q) \<or> Suc (unat q) = 2 ^ 64"
    by (auto simp: usize_max_def)
  then show "es = drop (unat q + 1) s"
    using es len
    by (auto simp: memory_session_ops_def memory_events_def saturating_add_def usize_max_def Let_def)
qed (auto simp: memory_session_ops_def memory_append_def memory_events_def memory_snapshot_def Let_def)

section \<open>SessionRecorder\<close>

text \<open>
  The clock is a parameter: entry \<open>k\<close> of the recorder's log is stamped \<open>clk k\<close>.
\<close>

record session_recorder =
  rec_events :: "session_event list"
  rec_current_agent :: string

definition recorder_new :: "string \<Rightarrow> session_recorder" where
  "recorder_new root_agent = \<lparr>rec_events = [], rec_current_agent = root_agent\<rparr>"

definition rec_push :: "(int \<Rightarrow> session_event) \<Rightarrow> (nat \<Rightarrow> int) \<Rightarrow> session_recorder \<Rightarrow> session_recorder"
  where "rec_push mk clk r = r\<lparr>rec_events := rec_events r @ [mk (clk (length (rec_events r)))]\<rparr>"

fun record_input_item :: "(nat \<Rightarrow> int) \<Rightarrow> session_recorder \<Rightarrow> item \<Rightarrow> session_recorder" where
  "record_input_item clk r (UserMessage content) = rec_push (SUserMessage content) clk r"
| "record_input_item clk r (AssistantMessage content agent) =
     rec_push (SAssistantMessage content (unwrap_or (rec_current_agent r) agent)) clk r"
| "record_input_item clk r (ToolCall c nm args) = rec_push (SToolCalled c nm args) clk r"
| "record_input_item clk r (ToolResult c content) = rec_push (SToolReturned c content) clk r"
| "record_input_item clk r (System _) = r"

definition record_input :: "(nat \<Rightarrow> int) \<Rightarrow> session_recorder \<Rightarrow> item list \<Rightarrow> session_recorder" where
  "record_input clk r messages = foldl (record_input_item clk) r messages"

fun rec_observe :: "(nat \<Rightarrow> int) \<Rightarrow> session_recorder \<Rightarrow> agent_event \<Rightarrow> session_recorder" where
  "rec_observe clk r (RunStarted agent) = r\<lparr>rec_current_agent := agent\<rparr>"
| "rec_observe clk r (AgentUpdated agent) = r\<lparr>rec_current_agent := agent\<rparr>"
| "rec_observe clk r (MessageOutput (AssistantMessage content agent)) =
     rec_push (SAssistantMessage content (unwrap_or (rec_current_agent r) agent)) clk r"
| "rec_observe clk r (ToolCallItem (ToolCall c nm args)) = rec_push (SToolCalled c nm args) clk r"
| "rec_observe clk r (ToolOutputItem (ToolResult c content)) =
     rec_push (SToolReturned c content) clk r"
| "rec_observe clk r (HandoffItem fromA toA) = rec_push (SHandoffOccurred fromA toA) clk r"
| "rec_observe clk r _ = r"

definition interrupted_content :: "content_part list" where
  "interrupted_content = [Text ''tool call did not complete (run cancelled/timed out)'']"

fun called_id :: "session_event \<Rightarrow> string option" where
  "called_id (SToolCalled c _ _ _) = Some c"
| "called_id _ = None"

fun returned_id :: "session_event \<Rightarrow> string option" where
  "returned_id (SToolReturned c _ _) = Some c"
| "returned_id _ = None"

fun synthesize :: "(nat \<Rightarrow> int) \<Rightarrow> nat \<Rightarrow> string list \<Rightarrow> session_event list \<Rightarrow> session_event list" where
  "synthesize clk k returned [] = []"
| "synthesize clk k returned (e # es) =
     (case called_id e of
        Some c \<Rightarrow> if c \<notin> set returned
          then SToolReturned c interrupted_content (clk k) # synthesize clk (Suc k) returned es
          else synthesize clk k returned es
      | None \<Rightarrow> synthesize clk k returned es)"

definition drain ::
  "(nat \<Rightarrow> int) \<Rightarrow> session_recorder \<Rightarrow> session_event list \<times> session_recorder" where
  "drain clk r =
     (let returned = List.map_filter returned_id (rec_events r);
          synthesized = synthesize clk (length (rec_events r)) returned (rec_events r)
      in (rec_events r @ synthesized, r\<lparr>rec_events := []\<rparr>))"

subsection \<open>What a run leaves in the log\<close>

definition rec_observe_all ::
  "(nat \<Rightarrow> int) \<Rightarrow> session_recorder \<Rightarrow> agent_event list \<Rightarrow> session_recorder" where
  "rec_observe_all clk r evs = foldl (rec_observe clk) r evs"

text \<open>
  The specification: the conversation an input and an event stream stand for, with every
  unattributed assistant message given to the agent that is active at that point.
\<close>

fun recorded :: "string \<Rightarrow> item list \<Rightarrow> item list" where
  "recorded agent [] = []"
| "recorded agent (System _ # ms) = recorded agent ms"
| "recorded agent (AssistantMessage content a # ms) =
     AssistantMessage content (Some (unwrap_or agent a)) # recorded agent ms"
| "recorded agent (m # ms) = m # recorded agent ms"

fun emitted :: "string \<Rightarrow> agent_event list \<Rightarrow> item list" where
  "emitted agent [] = []"
| "emitted agent (RunStarted a # es) = emitted a es"
| "emitted agent (AgentUpdated a # es) = emitted a es"
| "emitted agent (MessageOutput (AssistantMessage content a) # es) =
     AssistantMessage content (Some (unwrap_or agent a)) # emitted agent es"
| "emitted agent (ToolCallItem (ToolCall c nm args) # es) = ToolCall c nm args # emitted agent es"
| "emitted agent (ToolOutputItem (ToolResult c content) # es) =
     ToolResult c content # emitted agent es"
| "emitted agent (e # es) = emitted agent es"

lemma rec_push_simps [simp]:
  "rec_events (rec_push mk clk r) = rec_events r @ [mk (clk (length (rec_events r)))]"
  "rec_current_agent (rec_push mk clk r) = rec_current_agent r"
  by (simp_all add: rec_push_def)

definition plain :: "session_event list \<Rightarrow> bool" where
  "plain evs = list_all (\<lambda>e. \<not> is_compacted e) evs"

definition messages_of :: "session_event list \<Rightarrow> item list" where
  "messages_of evs = concat (map event_items evs)"

lemma plain_simps [simp]:
  "plain []" "plain (e # es) = (\<not> is_compacted e \<and> plain es)"
  "plain (xs @ ys) = (plain xs \<and> plain ys)"
  by (simp_all add: plain_def)

lemma messages_of_simps [simp]:
  "messages_of [] = []" "messages_of (e # es) = event_items e @ messages_of es"
  "messages_of (xs @ ys) = messages_of xs @ messages_of ys"
  by (simp_all add: messages_of_def)

lemma record_input_messages:
  "messages_of (rec_events (record_input clk r msgs))
     = messages_of (rec_events r) @ recorded (rec_current_agent r) msgs
   \<and> plain (rec_events (record_input clk r msgs)) = plain (rec_events r)
   \<and> rec_current_agent (record_input clk r msgs) = rec_current_agent r"
  unfolding record_input_def
  by (induction "rec_current_agent r" msgs arbitrary: r rule: recorded.induct) simp_all

lemma rec_observe_all_messages:
  "messages_of (rec_events (rec_observe_all clk r evs))
     = messages_of (rec_events r) @ emitted (rec_current_agent r) evs
   \<and> plain (rec_events (rec_observe_all clk r evs)) = plain (rec_events r)"
  unfolding rec_observe_all_def
  by (induction "rec_current_agent r" evs arbitrary: r rule: emitted.induct) simp_all

lemma synthesize_map:
  "map event_items (synthesize clk k returned evs)
     = map (\<lambda>c. [ToolResult c interrupted_content])
         (filter (\<lambda>c. c \<notin> set returned) (List.map_filter called_id evs))"
  by (induction evs arbitrary: k) (auto simp: List.map_filter_simps split: option.splits)

lemma synthesize_plain: "plain (synthesize clk k returned evs)"
  by (induction evs arbitrary: k) (auto split: option.splits)

text \<open>The call identifiers of the tool calls and of the tool results of a conversation.\<close>

fun call_ids :: "item list \<Rightarrow> string list" where
  "call_ids (ToolCall c _ _ # ms) = c # call_ids ms"
| "call_ids (m # ms) = call_ids ms"
| "call_ids [] = []"

fun result_ids :: "item list \<Rightarrow> string list" where
  "result_ids (ToolResult c _ # ms) = c # result_ids ms"
| "result_ids (m # ms) = result_ids ms"
| "result_ids [] = []"

lemma call_ids_append [simp]: "call_ids (xs @ ys) = call_ids xs @ call_ids ys"
  by (induction xs rule: call_ids.induct) simp_all

lemma result_ids_append [simp]: "result_ids (xs @ ys) = result_ids xs @ result_ids ys"
  by (induction xs rule: result_ids.induct) simp_all

lemma call_ids_messages: "call_ids (messages_of evs) = List.map_filter called_id evs"
proof (induction evs)
  case (Cons e es)
  then show ?case by (cases e) (simp_all add: List.map_filter_simps)
qed (simp add: List.map_filter_simps)

lemma result_ids_messages: "result_ids (messages_of evs) = List.map_filter returned_id evs"
proof (induction evs)
  case (Cons e es)
  then show ?case by (cases e) (simp_all add: List.map_filter_simps)
qed (simp add: List.map_filter_simps)

definition interrupted :: "item list \<Rightarrow> item list" where
  "interrupted ms = map (\<lambda>c. ToolResult c interrupted_content)
     (filter (\<lambda>c. c \<notin> set (result_ids ms)) (call_ids ms))"

lemma drain_messages:
  assumes "plain (rec_events r)"
  shows "messages_of (fst (drain clk r))
      = messages_of (rec_events r) @ interrupted (messages_of (rec_events r))"
    and "plain (fst (drain clk r))"
proof -
  have single: "concat (map (\<lambda>c. [f c]) cs) = map f cs" for f :: "string \<Rightarrow> item" and cs
    by (induction cs) simp_all
  show "messages_of (fst (drain clk r))
      = messages_of (rec_events r) @ interrupted (messages_of (rec_events r))"
    by (simp add: drain_def Let_def interrupted_def call_ids_messages result_ids_messages
        messages_of_def [of "synthesize _ _ _ _"] synthesize_map single)
  show "plain (fst (drain clk r))"
    using assms by (simp add: drain_def Let_def synthesize_plain)
qed

lemma project_append_messages:
  "plain ys \<Longrightarrow> project (xs @ ys) = project xs @ messages_of ys"
  by (simp add: plain_def messages_of_def project_append_plain)

text \<open>The log a run's recorder hands to the session, projected after the log that was there.\<close>

lemma recorder_turn:
  assumes "r = rec_observe_all clk (record_input clk (recorder_new root) input) evs"
    and "turn = recorded root input @ emitted root evs"
  shows "messages_of (rec_events r) = turn" and "plain (rec_events r)"
proof -
  let ?r0 = "record_input clk (recorder_new root) input"
  have r0: "messages_of (rec_events ?r0) = recorded root input" "plain (rec_events ?r0)"
      "rec_current_agent ?r0 = root"
    using record_input_messages [of clk "recorder_new root" input]
    by (simp_all add: recorder_new_def)
  show "messages_of (rec_events r) = turn" and "plain (rec_events r)"
    using rec_observe_all_messages [of clk ?r0 evs] r0 assms by simp_all
qed

lemma recorder_project:
  assumes "r = rec_observe_all clk (record_input clk (recorder_new root) input) evs"
    and "turn = recorded root input @ emitted root evs"
  shows "project (log @ fst (drain clk r)) = project log @ turn @ interrupted turn"
  using drain_messages [OF recorder_turn(2) [OF assms], of clk] recorder_turn(1) [OF assms]
  by (simp add: project_append_messages)

text \<open>
  Persistence round trip: the events the recorder hands over at the end of a run, once
  appended to any log, project back to the earlier conversation followed by the run's input
  (system items dropped), the messages, tool calls and tool results of its event stream, and a
  closing result for every call left open, with unattributed messages given to the active agent.
\<close>

theorem recorded_turn_roundtrip:
  "project (log @ fst (drain clk
       (rec_observe_all clk (record_input clk (recorder_new root) input) evs)))
   = project log @ (recorded root input @ emitted root evs)
       @ interrupted (recorded root input @ emitted root evs)"
  by (rule recorder_project) simp_all

lemma interrupted_result_ids:
  "result_ids (interrupted ms) = filter (\<lambda>c. c \<notin> set (result_ids ms)) (call_ids ms)"
  "call_ids (interrupted ms) = []"
proof -
  have "result_ids (map (\<lambda>c. ToolResult c interrupted_content) cs) = cs"
    "call_ids (map (\<lambda>c. ToolResult c interrupted_content) cs) = []" for cs
    by (induction cs) simp_all
  then show "result_ids (interrupted ms) = filter (\<lambda>c. c \<notin> set (result_ids ms)) (call_ids ms)"
    "call_ids (interrupted ms) = []"
    by (simp_all add: interrupted_def)
qed

lemma filter_count_list:
  "count_list (filter P xs) x = (if P x then count_list xs x else 0)"
  by (induction xs) auto

text \<open>
  Whatever the recorder saw, the drained log leaves no tool call open: every call
  identifier has a result, a call that had none gets exactly as many as it was called, nothing
  is added for an answered call, and the recorder is empty afterwards.
\<close>

theorem drain_closes_calls:
  fixes clk
  assumes "r = rec_observe_all clk (record_input clk (recorder_new root) input) evs"
  shows "set (call_ids (project (fst (drain clk r)))) \<subseteq> set (result_ids (project (fst (drain clk r))))
    \<and> count_list (result_ids (project (fst (drain clk r)))) c =
        (if c \<in> set (result_ids (project (rec_events r)))
         then count_list (result_ids (project (rec_events r))) c
         else count_list (call_ids (project (rec_events r))) c)
    \<and> rec_events (snd (drain clk r)) = []"
proof -
  define turn where "turn = recorded root input @ emitted root evs"
  have proj: "project (fst (drain clk r)) = turn @ interrupted turn"
    using recorder_project [OF assms turn_def, of "[]"] by (simp add: project_def)
  have pr: "project (rec_events r) = turn"
    using recorder_turn [OF assms turn_def] project_append_messages [of "rec_events r" "[]"]
    by (simp add: project_def)
  have "rec_events (snd (drain clk r)) = []" by (simp add: drain_def Let_def)
  then show ?thesis
    by (auto simp: proj pr interrupted_result_ids filter_count_list)
qed

theorem drain_closes_calls_witness:
  "\<exists>r. r = rec_observe_all (\<lambda>k. int k)
         (record_input (\<lambda>k. int k) (recorder_new ''root'') [UserMessage [Text ''hi'']])
         [ToolCallItem (ToolCall ''c1'' ''grep'' JNull)]
     \<and> call_ids (project (fst (drain (\<lambda>k. int k) r))) = [''c1'']
     \<and> count_list (result_ids (project (fst (drain (\<lambda>k. int k) r)))) ''c1'' = 1"
  using drain_closes_calls [OF refl, of "\<lambda>k. int k" "''root''" "[UserMessage [Text ''hi'']]"
      "[ToolCallItem (ToolCall ''c1'' ''grep'' JNull)]" "''c1''"]
  by (simp add: rec_observe_all_def record_input_def recorder_new_def drain_def Let_def
      List.map_filter_simps project_def interrupted_content_def)

end
