(* ===== verification/Compacting_Session.thy ===== *)
theory Compacting_Session
  imports Session_Log
begin

text \<open>
  \<open>CompactingSession\<close> (\<open>compacting_session.rs\<close>): a session wrapper that asks a model for a
  summary once the projected token count passes a threshold and appends a \<open>Compacted\<close> marker.
  The wrapped session is a record of methods and the model, the token counter and the clock are
  parameters. It is shown that the wrapper stays append-only over every backend, that a marker
  written on a log it compacted itself collapses the whole conversation to the summary, and that
  with the default counter the cheap character gate never hides a log above the threshold.
\<close>

section \<open>Model\<close>

type_synonym invoke_fn = "model_request \<Rightarrow> model_error + (model_error + model_event) list"
type_synonym count_fn = "item list \<Rightarrow> nat"

definition DEFAULT_PROMPT :: string where
  "DEFAULT_PROMPT = ''Summarize the conversation so far into a concise summary, preserving key facts, decisions, and open questions.''"

definition DEFAULT_THRESHOLD :: nat where "DEFAULT_THRESHOLD = 8000"

record 's compacting_session =
  cs_inner :: 's
  cs_model :: invoke_fn
  cs_counter :: count_fn
  cs_threshold :: nat
  cs_settings :: model_settings
  cs_prompt :: string
  cs_cheap_estimate :: nat
  cs_compacting :: bool

record 's compacting_builder =
  cb_inner :: 's
  cb_model :: invoke_fn
  cb_counter :: "count_fn option"
  cb_threshold :: nat
  cb_settings :: model_settings
  cb_prompt :: string

datatype compacting_error = ZeroThreshold

definition cs_builder :: "'s \<Rightarrow> invoke_fn \<Rightarrow> 's compacting_builder" where
  "cs_builder inner model = \<lparr>cb_inner = inner, cb_model = model, cb_counter = None,
     cb_threshold = DEFAULT_THRESHOLD, cb_settings = model_settings_default,
     cb_prompt = DEFAULT_PROMPT\<rparr>"

definition cs_build :: "ext \<Rightarrow> 's compacting_builder \<Rightarrow> compacting_error + 's compacting_session" where
  "cs_build E b =
     (if cb_threshold b = 0 then Err ZeroThreshold
      else Ok \<lparr>cs_inner = cb_inner b, cs_model = cb_model b,
        cs_counter = unwrap_or (heuristic_count E) (cb_counter b),
        cs_threshold = cb_threshold b, cs_settings = cb_settings b, cs_prompt = cb_prompt b,
        cs_cheap_estimate = usize_max, cs_compacting = False\<rparr>)"

text \<open>The product in \<open>add_estimate\<close> is unchecked \<open>usize\<close> arithmetic and wraps.\<close>

definition add_estimate :: "'s compacting_session \<Rightarrow> session_event list \<Rightarrow> 's compacting_session" where
  "add_estimate s evs =
     (let chars = (cs_counter s (project evs) * 4) mod 2 ^ 64
      in s\<lparr>cs_cheap_estimate := saturating_add (cs_cheap_estimate s) chars\<rparr>)"

fun collect_deltas :: "string \<Rightarrow> (model_error + model_event) list \<Rightarrow> session_error + string" where
  "collect_deltas summary [] = Ok summary"
| "collect_deltas summary (Inl e # rest) = Err (SessionOther (model_error_display e))"
| "collect_deltas summary (Inr (MTokenDelta text) # rest) = collect_deltas (summary @ text) rest"
| "collect_deltas summary (Inr (MFinish _) # rest) = Ok summary"
| "collect_deltas summary (Inr _ # rest) = collect_deltas summary rest"

definition collect_summary :: "'s compacting_session \<Rightarrow> model_request \<Rightarrow> session_error + string" where
  "collect_summary s req =
     (case cs_model s req of
        Inl e \<Rightarrow> Err (SessionOther (model_error_display e))
      | Inr strm \<Rightarrow> collect_deltas [] strm)"

text \<open>The number of events since, and including, the last marker.\<close>

definition live_count :: "session_event list \<Rightarrow> nat" where
  "live_count evs =
     (if \<exists>e\<in>set evs. is_compacted e
      then Suc (length (takeWhile (\<lambda>e. \<not> is_compacted e) (rev evs)))
      else length evs)"

definition nothing_to_collapse :: "item list \<Rightarrow> bool" where
  "nothing_to_collapse ms =
     (case ms of [] \<Rightarrow> True | [m] \<Rightarrow> (case m of System _ \<Rightarrow> True | _ \<Rightarrow> False) | _ \<Rightarrow> False)"

definition summary_request :: "'s compacting_session \<Rightarrow> item list \<Rightarrow> model_request" where
  "summary_request s ms = \<lparr>mr_messages = ms @ [UserMessage [Text (cs_prompt s)]],
     mr_tools = [], mr_model_settings = cs_settings s\<rparr>"

text \<open>Steps 3 to 9 of \<open>maybe_compact\<close>, with the single-flight flag held.\<close>

definition compact_held :: "'s session_ops \<Rightarrow> int \<Rightarrow> 's compacting_session
    \<Rightarrow> (session_error + unit) \<times> 's compacting_session" where
  "compact_held inner_ops now s =
     (case ses_events inner_ops (cs_inner s) None of
        Inl e \<Rightarrow> (Err e, s)
      | Inr evs \<Rightarrow>
        (let ms = project evs; tokens = cs_counter s ms in
         if tokens \<le> cs_threshold s
         then (Ok (), s\<lparr>cs_cheap_estimate := saturating_mul tokens 4\<rparr>)
         else if nothing_to_collapse ms then (Ok (), s)
         else (case collect_summary s (summary_request s ms) of
             Inl _ \<Rightarrow> (Ok (), s)
           | Inr summary \<Rightarrow>
               if trim summary = [] then (Ok (), s)
               else (case ses_append inner_ops (cs_inner s)
                       [SCompacted summary (word_of_nat (live_count evs)) now] of
                   (Inl e, i) \<Rightarrow> (Err e, s\<lparr>cs_inner := i\<rparr>)
                 | (Inr _, i) \<Rightarrow> (Ok (), s\<lparr>cs_inner := i,
                     cs_cheap_estimate := saturating_mul (cs_counter s [System [Text summary]]) 4\<rparr>)))))"

text \<open>The gate, the compare-and-exchange on the flag, and the guard that resets it on every exit.\<close>

definition maybe_compact :: "'s session_ops \<Rightarrow> int \<Rightarrow> 's compacting_session
    \<Rightarrow> (session_error + unit) \<times> 's compacting_session" where
  "maybe_compact inner_ops now s =
     (if cs_cheap_estimate s \<le> saturating_mul (cs_threshold s) 4 then (Ok (), s)
      else if cs_compacting s then (Ok (), s)
      else (case compact_held inner_ops now (s\<lparr>cs_compacting := True\<rparr>) of
              (r, s') \<Rightarrow> (r, s'\<lparr>cs_compacting := False\<rparr>)))"

definition cs_append :: "'s session_ops \<Rightarrow> int \<Rightarrow> 's compacting_session \<Rightarrow> session_event list
    \<Rightarrow> (session_error + unit) \<times> 's compacting_session" where
  "cs_append inner_ops now s evs =
     (case ses_append inner_ops (cs_inner s) evs of
        (Inl e, i) \<Rightarrow> (Err e, s\<lparr>cs_inner := i\<rparr>)
      | (Inr _, i) \<Rightarrow> maybe_compact inner_ops now (add_estimate (s\<lparr>cs_inner := i\<rparr>) evs))"

definition cs_events ::
  "'s session_ops \<Rightarrow> 's compacting_session \<Rightarrow> u64 option \<Rightarrow> session_error + session_event list" where
  "cs_events inner_ops s since = ses_events inner_ops (cs_inner s) since"

definition cs_snapshot ::
  "'s session_ops \<Rightarrow> 's compacting_session \<Rightarrow> session_error + item list" where
  "cs_snapshot inner_ops s = ses_snapshot inner_ops (cs_inner s)"

definition compacting_ops :: "'s session_ops \<Rightarrow> int \<Rightarrow> 's compacting_session session_ops" where
  "compacting_ops inner_ops now = \<lparr>ses_append = cs_append inner_ops now,
     ses_events = cs_events inner_ops, ses_snapshot = cs_snapshot inner_ops\<rparr>"

section \<open>Blocks and the live count\<close>

text \<open>
  A batch of events acts on the blocks as if it started a log of its own, except that it may
  truncate the blocks before it.
\<close>

lemma foldl_block_split: "\<exists>k. foldl block_step (bs @ cs) evs = take k bs @ foldl block_step cs evs"
proof (induction evs arbitrary: bs cs)
  case Nil
  have "bs @ cs = take (length bs) bs @ cs" by simp
  then show ?case by (metis foldl_Nil)
next
  case (Cons e es)
  have "\<exists>k. block_step (bs @ cs) e = take k bs @ block_step cs e"
  proof (cases e)
    case (SCompacted s n t)
    show ?thesis
    proof (cases "unat n \<le> length cs")
      case True
      then have "length bs + length cs - unat n = length bs + (length cs - unat n)" by simp
      then have "block_step (bs @ cs) e = take (length bs) bs @ block_step cs e"
        by (simp add: SCompacted)
      then show ?thesis by blast
    next
      case False
      then show ?thesis by (auto simp: SCompacted)
    qed
  qed (auto intro: exI [of _ "length bs"])
  then obtain k where k: "block_step (bs @ cs) e = take k bs @ block_step cs e" by blast
  from Cons.IH [of "take k bs" "block_step cs e"]
  obtain k' where "foldl block_step (take k bs @ block_step cs e) es
      = take k' (take k bs) @ foldl block_step (block_step cs e) es" by blast
  then show ?case by (auto simp: k)
qed

lemma blocks_batch: "\<exists>k. blocks (xs @ ys) = take k (blocks xs) @ blocks ys"
  using foldl_block_split [of "blocks xs" "[]" ys] by (simp add: blocks_append) (simp add: blocks_def)

lemma takeWhile_rev_all:
  "list_all (\<lambda>e. \<not> is_compacted e) ys \<Longrightarrow>
     takeWhile (\<lambda>e. \<not> is_compacted e) (rev (xs @ ys))
       = rev ys @ takeWhile (\<lambda>e. \<not> is_compacted e) (rev xs)"
  by (simp add: list_all_iff takeWhile_append)

lemma live_count_append:
  assumes "plain ys"
  shows "live_count (xs @ ys) = live_count xs + length ys"
proof -
  have "\<not> (\<exists>e\<in>set ys. is_compacted e)" using assms by (simp add: plain_def list_all_iff)
  then show ?thesis
    using takeWhile_rev_all [of ys xs] assms by (auto simp: live_count_def plain_def)
qed

lemma live_count_marker: "live_count (xs @ [SCompacted s n t]) = 1"
  by (simp add: live_count_def)

text \<open>
  The logs the wrapper produces: the events since the last marker are all there is, because
  that marker replaced everything before it.
\<close>

definition self_compacted :: "session_event list \<Rightarrow> bool" where
  "self_compacted evs = (length (blocks evs) = live_count evs)"

lemma self_compacted_Nil: "self_compacted []"
  by (simp add: self_compacted_def blocks_def live_count_def)

lemma length_foldl_plain:
  "plain ys \<Longrightarrow> length (foldl block_step bs ys) = length bs + length ys"
  by (simp add: plain_def foldl_block_plain)

lemma self_compacted_append: "self_compacted xs \<Longrightarrow> plain ys \<Longrightarrow> self_compacted (xs @ ys)"
  by (simp add: self_compacted_def blocks_append length_foldl_plain live_count_append)

lemma live_count_le: "live_count evs \<le> length evs"
proof (cases "\<exists>e\<in>set evs. is_compacted e")
  case True
  then obtain e where e: "e \<in> set (rev evs)" "\<not> \<not> is_compacted e" by auto
  then have "takeWhile (\<lambda>e. \<not> is_compacted e) (rev evs) \<noteq> rev evs"
    by (metis set_takeWhileD)
  then have "length (takeWhile (\<lambda>e. \<not> is_compacted e) (rev evs)) < length evs"
    by (metis length_rev length_takeWhile_le order_le_less takeWhile_eq_take take_all le_refl)
  then show ?thesis by (simp add: live_count_def)
qed (simp add: live_count_def)

lemma live_count_word:
  "length evs < 2 ^ 64 \<Longrightarrow> unat (word_of_nat (live_count evs) :: u64) = live_count evs"
  using live_count_le [of evs] by (simp add: unsigned_of_nat take_bit_nat_eq_self)

lemma marker_collapses:
  assumes "self_compacted evs" "length evs < 2 ^ 64"
  shows "blocks (evs @ [SCompacted s (word_of_nat (live_count evs)) t]) = [[System [Text s]]]"
    and "self_compacted (evs @ [SCompacted s (word_of_nat (live_count evs)) t])"
  using assms by (simp_all add: blocks_snoc live_count_word self_compacted_def live_count_marker)

section \<open>The wrapper over any backend\<close>

definition marker :: "string \<Rightarrow> session_event list \<Rightarrow> int \<Rightarrow> session_event" where
  "marker summary evs now = SCompacted summary (word_of_nat (live_count evs)) now"

text \<open>Why \<open>maybe_compact\<close> may leave a log above the threshold as it is.\<close>

definition no_summary :: "'s compacting_session \<Rightarrow> item list \<Rightarrow> bool" where
  "no_summary s ms =
     (case collect_summary s (summary_request s ms) of Inl _ \<Rightarrow> True | Inr t \<Rightarrow> trim t = [])"

lemma config_irrelevant [simp]:
  "no_summary (s\<lparr>cs_inner := i\<rparr>) = no_summary s"
  "no_summary (s\<lparr>cs_cheap_estimate := n\<rparr>) = no_summary s"
  "no_summary (s\<lparr>cs_compacting := b\<rparr>) = no_summary s"
  by (simp_all add: no_summary_def collect_summary_def summary_request_def fun_eq_iff)

context session_backend
begin

text \<open>The three ways the held part of \<open>maybe_compact\<close> can end.\<close>

lemma compact_held_cases:
  fixes s :: "'s compacting_session"
  assumes "compact_held ops now s = (r, s')"
    and "evs = slog (cs_inner s)" and "ms = project evs"
  obtains (failed) e where "r = Err e" "slog (cs_inner s') = evs"
  | (kept) est where "r = Ok ()" "s' = s\<lparr>cs_cheap_estimate := est\<rparr>"
      "cs_counter s ms \<le> cs_threshold s \<and> est = saturating_mul (cs_counter s ms) 4
       \<or> (nothing_to_collapse ms \<or> no_summary s ms) \<and> est = cs_cheap_estimate s"
  | (compacted) summary i where "r = Ok ()" "trim summary \<noteq> []"
      "s' = s\<lparr>cs_inner := i,
         cs_cheap_estimate := saturating_mul (cs_counter s [System [Text summary]]) 4\<rparr>"
      "slog i = evs @ [marker summary evs now]"
proof (cases "ses_events ops (cs_inner s) None")
  case (Inl e)
  then have "r = Err e" "s' = s" using assms(1) by (simp_all add: compact_held_def)
  then show ?thesis using assms(2) by (intro failed) simp_all
next
  case (Inr es)
  then have es: "es = evs" using assms(2) by (simp add: read_none)
  note step = assms(1)[unfolded compact_held_def Inr Let_def, simplified, unfolded es assms(3)[symmetric]]
  show ?thesis
  proof (cases "cs_counter s ms \<le> cs_threshold s \<or> nothing_to_collapse ms \<or> no_summary s ms")
    case True
    then show ?thesis
      using step kept [of "cs_cheap_estimate s"] kept [of "saturating_mul (cs_counter s ms) 4"]
      by (auto simp: no_summary_def split: if_splits sum.splits)
  next
    case False
    then obtain summary where sm: "collect_summary s (summary_request s ms) = Ok summary"
        "trim summary \<noteq> []"
      by (auto simp: no_summary_def split: sum.splits)
    obtain q i where ap: "ses_append ops (cs_inner s) [marker summary evs now] = (q, i)"
      by fastforce
    show ?thesis
    proof (cases q)
      case (Inl e)
      then have "r = Err e" "s' = s\<lparr>cs_inner := i\<rparr>" using step False sm ap by (simp_all add: marker_def)
      moreover have "slog i = evs" using append_error ap Inl assms(2) by metis
      ultimately show ?thesis using failed by simp
    next
      case (Inr u)
      then have "slog i = evs @ [marker summary evs now]" using append_exact ap assms(2) by simp
      then show ?thesis using compacted [of summary i] step False sm ap Inr by (simp add: marker_def)
    qed
  qed
qed

lemma maybe_compact_log:
  "maybe_compact ops now s = (r, s') \<Longrightarrow> prefix (slog (cs_inner s)) (slog (cs_inner s'))"
proof -
  assume "maybe_compact ops now s = (r, s')"
  then consider "s' = s"
    | t where "compact_held ops now (s\<lparr>cs_compacting := True\<rparr>) = (r, t)" "cs_inner s' = cs_inner t"
    by (auto simp: maybe_compact_def split: if_splits prod.splits)
  then show ?thesis
  proof cases
    case 2
    show ?thesis
      by (rule compact_held_cases [OF 2(1) refl refl]) (auto simp: 2(2))
  qed simp
qed

end

locale compacting_backend = session_backend ops slog
  for ops :: "'s session_ops" and slog :: "'s \<Rightarrow> session_event list" +
  fixes now :: int

sublocale compacting_backend \<subseteq> cs: append_only_session "compacting_ops ops now" "\<lambda>s. slog (cs_inner s)"
proof unfold_locales
  fix s :: "'s compacting_session" and evs s'
  assume ok: "ses_append (compacting_ops ops now) s evs = (Ok (), s')"
  then obtain i u where ap: "ses_append ops (cs_inner s) evs = (Inr u, i)"
    and mc: "maybe_compact ops now (add_estimate (s\<lparr>cs_inner := i\<rparr>) evs) = (Ok (), s')"
    by (auto simp: compacting_ops_def cs_append_def split: prod.splits sum.splits)
  have "slog i = slog (cs_inner s) @ evs" using ap append_exact by simp
  with maybe_compact_log [OF mc] show "prefix (slog (cs_inner s) @ evs) (slog (cs_inner s'))"
    by (simp add: add_estimate_def Let_def)
next
  fix s :: "'s compacting_session" and evs e s'
  assume err: "ses_append (compacting_ops ops now) s evs = (Err e, s')"
  obtain q i where ap: "ses_append ops (cs_inner s) evs = (q, i)" by fastforce
  show "prefix (slog (cs_inner s)) (slog (cs_inner s'))"
  proof (cases q)
    case (Inl e')
    then show ?thesis using err ap append_error
      by (auto simp: compacting_ops_def cs_append_def)
  next
    case (Inr u)
    then have "maybe_compact ops now (add_estimate (s\<lparr>cs_inner := i\<rparr>) evs) = (Err e, s')"
      using err ap by (simp add: compacting_ops_def cs_append_def)
    from maybe_compact_log [OF this] Inr ap show ?thesis
      using append_exact [of "cs_inner s" evs i] by (auto simp: add_estimate_def Let_def dest: append_prefixD)
  qed
qed (auto simp: compacting_ops_def cs_events_def cs_snapshot_def dest: read_none snapshot_log)

interpretation memc: compacting_backend memory_session_ops "\<lambda>s. s" now for now
  by unfold_locales

text \<open>
  Compaction never loses history: whatever batches are appended through a compacting
  session over the in-memory backend, and whatever the model answers, fails or omits, the log it
  started from is a prefix of the log it ends with, and reading it back returns that log.
\<close>

theorem compacting_append_only:
  "prefix (cs_inner s) (cs_inner (foldl (\<lambda>s evs. snd (cs_append memory_session_ops now s evs)) s batches))
   \<and> cs_events memory_session_ops s None = Ok (cs_inner s)"
  using memc.cs.append_all_prefix [of s now batches]
  by (simp add: compacting_ops_def cs_events_def memory_session_ops_def memory_events_def Let_def)

section \<open>The threshold gate\<close>

definition estimate_ok :: "ext \<Rightarrow> memory_session compacting_session \<Rightarrow> bool" where
  "estimate_ok E s = (cs_cheap_estimate s = usize_max
     \<or> 4 * heuristic_count E (project (cs_inner s)) \<le> cs_cheap_estimate s)"

lemma heuristic_subadditive:
  "heuristic_count E (xs @ ys) \<le> heuristic_count E xs + heuristic_count E ys"
  by (simp add: heuristic_count_def)

lemma heuristic_mono_prefix: "heuristic_count E (concat (take k bs)) \<le> heuristic_count E (concat bs)"
proof -
  have "concat bs = concat (take k bs) @ concat (drop k bs)"
    by (metis append_take_drop_id concat_append)
  then have "heuristic_count E (concat bs) = heuristic_count E (concat (take k bs) @ concat (drop k bs))"
    by simp
  then show ?thesis by (simp add: heuristic_count_def div_le_mono)
qed

lemma heuristic_batch:
  "heuristic_count E (project (xs @ ys)) \<le> heuristic_count E (project xs) + heuristic_count E (project ys)"
proof -
  obtain k where "blocks (xs @ ys) = take k (blocks xs) @ blocks ys" using blocks_batch by blast
  then show ?thesis
    using heuristic_subadditive [of E "concat (take k (blocks xs))" "concat (blocks ys)"]
      heuristic_mono_prefix [of E k "blocks xs"]
    by (simp add: project_blocks)
qed

lemma estimate_ok_add:
  assumes "estimate_ok E s" "cs_counter s = heuristic_count E"
    and "4 * heuristic_count E (project evs) < 2 ^ 64"
  shows "estimate_ok E (add_estimate (s\<lparr>cs_inner := cs_inner s @ evs\<rparr>) evs)"
  using assms heuristic_batch [of E "cs_inner s" evs]
  by (auto simp: estimate_ok_def add_estimate_def saturating_add_def Let_def)

lemma estimate_ok_sync:
  "heuristic_count E (project (cs_inner s)) = n \<Longrightarrow> estimate_ok E (s\<lparr>cs_cheap_estimate := saturating_mul n 4\<rparr>)"
  by (auto simp: estimate_ok_def saturating_mul_def)

text \<open>What holds after a successful append: the estimate still dominates the true count, the
  log is still one the wrapper can collapse, and a log above the threshold has a reason.\<close>

definition within_budget :: "ext \<Rightarrow> memory_session compacting_session \<Rightarrow> bool" where
  "within_budget E s =
     (heuristic_count E (project (cs_inner s)) \<le> cs_threshold s
      \<or> nothing_to_collapse (project (cs_inner s)) \<or> no_summary s (project (cs_inner s)))"

lemma maybe_compact_budget:
  assumes mc: "maybe_compact memory_session_ops now s = (Ok (), s')"
    and cnt: "cs_counter s = heuristic_count E" and est: "estimate_ok E s"
    and free: "\<not> cs_compacting s" and self: "self_compacted (cs_inner s)"
    and len: "length (cs_inner s) < 2 ^ 64" and thr: "4 * cs_threshold s < usize_max"
  shows "within_budget E s' \<and> estimate_ok E s' \<and> self_compacted (cs_inner s') \<and> \<not> cs_compacting s'"
proof (cases "cs_cheap_estimate s \<le> saturating_mul (cs_threshold s) 4")
  case True
  then have "s' = s" using mc by (simp add: maybe_compact_def)
  moreover have "heuristic_count E (project (cs_inner s)) \<le> cs_threshold s"
    using True est thr by (auto simp: estimate_ok_def saturating_mul_def)
  ultimately show ?thesis using est self free by (simp add: within_budget_def)
next
  case False
  define h where "h = s\<lparr>cs_compacting := True\<rparr>"
  obtain u where held: "compact_held memory_session_ops now h = (Ok (), u)"
    and s': "s' = u\<lparr>cs_compacting := False\<rparr>"
    using False mc free by (auto simp: maybe_compact_def h_def split: prod.splits)
  show ?thesis
  proof (rule mem.compact_held_cases [OF held refl refl])
    fix est'
    assume "u = h\<lparr>cs_cheap_estimate := est'\<rparr>"
      and "cs_counter h (project (cs_inner h)) \<le> cs_threshold h
           \<and> est' = saturating_mul (cs_counter h (project (cs_inner h))) 4
         \<or> (nothing_to_collapse (project (cs_inner h)) \<or> no_summary h (project (cs_inner h)))
           \<and> est' = cs_cheap_estimate h"
    then show ?thesis using s' cnt est self
      by (auto simp: h_def within_budget_def estimate_ok_def saturating_mul_def)
  next
    fix summary i
    assume u: "u = h\<lparr>cs_inner := i,
        cs_cheap_estimate := saturating_mul (cs_counter h [System [Text summary]]) 4\<rparr>"
      and i: "i = cs_inner h @ [marker summary (cs_inner h) now]"
    have "project i = [System [Text summary]]" "self_compacted i"
      using i marker_collapses [OF self len] by (simp_all add: h_def marker_def project_blocks)
    then show ?thesis using s' cnt u
      by (auto simp: h_def within_budget_def nothing_to_collapse_def estimate_ok_def saturating_mul_def)
  qed simp
qed

text \<open>
  The threshold gate is sound and compaction converges: with the default counter, after a
  successful append of ordinary events to a log the wrapper manages, the conversation is within
  the threshold, or is nothing but one summary, or the model gave no usable summary for it; and
  the state is again one this applies to, whatever the batches were.
\<close>

theorem compacting_within_budget:
  assumes "cs_append memory_session_ops now s evs = (Ok (), s')"
    and "cs_counter s = heuristic_count E" "estimate_ok E s" "\<not> cs_compacting s"
    and "self_compacted (cs_inner s)" "plain evs" "length (cs_inner s @ evs) < 2 ^ 64"
    and "4 * cs_threshold s < usize_max" "4 * heuristic_count E (project evs) < 2 ^ 64"
  shows "within_budget E s' \<and> estimate_ok E s' \<and> self_compacted (cs_inner s') \<and> \<not> cs_compacting s'"
proof -
  define t where "t = add_estimate (s\<lparr>cs_inner := cs_inner s @ evs\<rparr>) evs"
  have "maybe_compact memory_session_ops now t = (Ok (), s')"
    using assms(1) by (simp add: cs_append_def memory_session_ops_def memory_append_def t_def)
  moreover have "cs_counter t = heuristic_count E" "\<not> cs_compacting t"
      "length (cs_inner t) < 2 ^ 64" "4 * cs_threshold t < usize_max" "cs_inner t = cs_inner s @ evs"
    using assms by (simp_all add: t_def add_estimate_def Let_def)
  moreover have "estimate_ok E t" unfolding t_def using assms by (intro estimate_ok_add)
  moreover have "self_compacted (cs_inner t)"
    using calculation(6) assms by (simp add: self_compacted_append)
  ultimately show ?thesis by (intro maybe_compact_budget)
qed

definition cs_ex :: "memory_session compacting_session" where
  "cs_ex = \<lparr>cs_inner = [], cs_model = (\<lambda>_. Ok [Ok (MTokenDelta ''ok''), Ok (MFinish Stop)]),
     cs_counter = heuristic_count ext_ex, cs_threshold = 1, cs_settings = model_settings_default,
     cs_prompt = ''sum'', cs_cheap_estimate = usize_max, cs_compacting = False\<rparr>"

lemma trim_ok: "trim ''ok'' = ''ok''"
  by code_simp

lemma cs_ex_append:
  "cs_append memory_session_ops 7 cs_ex [SUserMessage [Text ''hello''] 0]
     = (Ok (), cs_ex\<lparr>cs_inner := [SUserMessage [Text ''hello''] 0, SCompacted ''ok'' 1 7],
          cs_cheap_estimate := 4\<rparr>)"
  by (simp add: cs_append_def cs_ex_def memory_session_ops_def memory_append_def add_estimate_def
      maybe_compact_def compact_held_def memory_events_def project_def heuristic_count_def
      char_count_def collect_summary_def nothing_to_collapse_def live_count_def
      saturating_mul_def saturating_add_def usize_max_def Let_def trim_ok)

theorem compacting_within_budget_witness:
  "\<exists>s'. cs_append memory_session_ops 7 cs_ex [SUserMessage [Text ''hello''] 0] = (Ok (), s')
     \<and> within_budget ext_ex s' \<and> project (cs_inner s') = [System [Text ''ok'']]"
  using compacting_within_budget [OF cs_ex_append, of ext_ex]
  unfolding cs_ex_append
  by (simp add: cs_ex_def estimate_ok_def self_compacted_Nil project_def
      heuristic_count_def char_count_def usize_max_def Let_def)

text \<open>
  The live count is right only for the logs above. A log that already holds a marker which
  replaced part of its events (the event type allows any count) has more live blocks than events
  since that marker, and the next marker then leaves the older messages in place.
\<close>

lemma live_count_partial_marker:
  fixes u v w s summary
  assumes "log = [SUserMessage u 0, SUserMessage v 0, SUserMessage w 0, SCompacted s 1 0]"
  shows "project (log @ [marker summary log now])
    = [UserMessage u, UserMessage v, System [Text summary]]"
  using assms by (simp add: project_def marker_def live_count_def Let_def)

end
