(* ===== verification/Runner.thy ===== *)
theory Runner
  imports Session_Log Run_Context
begin

text \<open>
  The runner boundary: result aggregation and interrupt precedence (\<open>runner.rs\<close>) and the Tokio
  runner (\<open>paigasus-helikon-runtime-tokio/src/lib.rs\<close>), which loads the session, drives the agent's
  stream under cancellation and a deadline, records it and persists it. The agent's stream and
  its surroundings are a list of polls: what is ready when the runner's \<open>select!\<close> looks.
\<close>

section \<open>Results\<close>

datatype run_error =
    RunAgent agent_error
  | RunMaxIterations
  | RunCancelled
  | RunTimeout
  | RunOther string

record run_result =
  rr_final_output :: string
  rr_events :: "agent_event list"
  rr_usage :: token_usage

record collect_state =
  co_final :: string
  co_usage :: token_usage
  co_structured :: "(string list \<times> string) option"
  co_failed :: "string option"

definition collect_init :: collect_state where
  "collect_init = \<lparr>co_final = [], co_usage = usage_default, co_structured = None, co_failed = None\<rparr>"

fun collect_event :: "collect_state \<Rightarrow> agent_event \<Rightarrow> collect_state" where
  "collect_event s (MessageOutput (AssistantMessage content a)) = s\<lparr>co_final := flatten_text content\<rparr>"
| "collect_event s (RunCompleted u) = s\<lparr>co_usage := u\<rparr>"
| "collect_event s (StructuredOutputFailed es ft) = s\<lparr>co_structured := Some (es, ft)\<rparr>"
| "collect_event s (RunFailed e) = s\<lparr>co_failed := Some e\<rparr>"
| "collect_event s _ = s"

text \<open>\<open>failure\<close> is the structured error found in the slot once the stream has ended, if one was wired in.\<close>

definition collect :: "agent_event list \<Rightarrow> agent_error option \<Rightarrow> run_error + run_result" where
  "collect evs failure =
     (let s = foldl collect_event collect_init evs
      in case co_failed s of
           Some err_msg \<Rightarrow> (case failure of
               Some err \<Rightarrow> Err (RunAgent err) | None \<Rightarrow> Err (RunOther err_msg))
         | None \<Rightarrow> Ok \<lparr>rr_final_output = co_final s, rr_events = evs, rr_usage = co_usage s\<rparr>)"

definition collect_typed :: "(string \<Rightarrow> string + 't) \<Rightarrow> agent_event list \<Rightarrow> agent_error option
    \<Rightarrow> agent_error + 't \<times> agent_event list \<times> token_usage" where
  "collect_typed parse evs failure =
     (let s = foldl collect_event collect_init evs
      in case co_failed s of
           Some err_msg \<Rightarrow> (case failure of
               Some err \<Rightarrow> Err err
             | None \<Rightarrow> (case co_structured s of
                   Some (es, ft) \<Rightarrow> Err (InvalidStructuredOutput es ft)
                 | None \<Rightarrow> Err (OtherError err_msg)))
         | None \<Rightarrow> (case parse (trim (co_final s)) of
               Inl e \<Rightarrow> Err (OtherError (''collect_typed: failed to deserialize final output: '' @ e))
             | Inr v \<Rightarrow> Ok (v, evs, co_usage s)))"

definition parse_final :: "(string \<Rightarrow> string + 't) \<Rightarrow> run_result \<Rightarrow> string + 't \<times> agent_event list \<times> token_usage" where
  "parse_final parse r =
     (case parse (rr_final_output r) of
        Inl e \<Rightarrow> Err e
      | Inr v \<Rightarrow> Ok (v, rr_events r, rr_usage r))"

section \<open>Interrupts\<close>

datatype run_interrupt = Cancelled | TimedOut

fun interrupt_error :: "run_interrupt \<Rightarrow> run_error" where
  "interrupt_error Cancelled = RunCancelled"
| "interrupt_error TimedOut = RunTimeout"

fun terminal_message :: "run_interrupt \<Rightarrow> string" where
  "terminal_message Cancelled = ''run cancelled''"
| "terminal_message TimedOut = ''run timed out''"

definition terminal_event :: "run_interrupt \<Rightarrow> agent_event" where
  "terminal_event i = RunFailed (terminal_message i)"

definition effective_interrupt :: "run_interrupt option \<Rightarrow> bool \<Rightarrow> run_interrupt option" where
  "effective_interrupt interrupt saw_terminal = (if saw_terminal then None else interrupt)"

section \<open>The Tokio runner\<close>

text \<open>
  One poll: the agent stream is pending (\<open>None\<close>), has ended (\<open>Some None\<close>) or has an event; the
  cancellation token has fired or not; the deadline has passed or not.
\<close>

record poll =
  pl_next :: "agent_event option option"
  pl_cancelled :: bool
  pl_expired :: bool

fun controlled :: "nat option \<Rightarrow> poll list \<Rightarrow> agent_event list \<times> run_interrupt option" where
  "controlled timeout [] = ([], None)"
| "controlled timeout (p # ps) =
     (case pl_next p of
        Some (Some ev) \<Rightarrow> (case controlled timeout ps of (evs, i) \<Rightarrow> (ev # evs, i))
      | Some None \<Rightarrow> ([], None)
      | None \<Rightarrow>
          if pl_cancelled p then ([], Some Cancelled)
          else if timeout \<noteq> None \<and> pl_expired p then ([], Some TimedOut)
          else controlled timeout ps)"

text \<open>
  An agent as the runner sees it: its name and its run, which fails before the stream starts or
  yields the polls of the stream and the structured error its slot holds at the end.
\<close>

record 'u agent =
  ag_name :: string
  ag_run :: "'u run_context \<Rightarrow> item list \<Rightarrow> agent_error + poll list \<times> agent_error option"

definition load_and_record :: "'s session_ops \<Rightarrow> (nat \<Rightarrow> int) \<Rightarrow> 's \<Rightarrow> string \<Rightarrow> item list
    \<Rightarrow> run_error + item list \<times> session_recorder" where
  "load_and_record S clk session agent_name input =
     (case ses_snapshot S session of
        Inl e \<Rightarrow> Err (RunOther (session_error_display e))
      | Inr messages \<Rightarrow>
          Ok (messages @ input, record_input clk (recorder_new agent_name) input))"

definition finalize :: "'s session_ops \<Rightarrow> (nat \<Rightarrow> int) \<Rightarrow> 's \<Rightarrow> session_recorder \<Rightarrow> 's \<times> session_recorder" where
  "finalize S clk session recorder =
     (case drain clk recorder of (evs, recorder') \<Rightarrow> (snd (ses_append S session evs), recorder'))"

definition tokio_run :: "'s session_ops \<Rightarrow> (nat \<Rightarrow> int) \<Rightarrow> 'u agent \<Rightarrow> 'u run_context \<Rightarrow> 's
    \<Rightarrow> item list \<Rightarrow> run_config \<Rightarrow> (run_error + run_result) \<times> 's" where
  "tokio_run S clk agent ctx session input config =
     (let ctx = with_run_config config ctx in
      case load_and_record S clk session (ag_name agent) input of
        Inl e \<Rightarrow> (Err e, session)
      | Inr (merged, recorder) \<Rightarrow>
          (case ag_run agent ctx merged of
             Inl e \<Rightarrow> (Err (RunAgent e), session)
           | Inr (polls, failure) \<Rightarrow>
               (case controlled (cfg_timeout config) polls of (evs, interrupt) \<Rightarrow>
                 (let collected = collect evs failure;
                      session' = fst (finalize S clk session (rec_observe_all clk recorder evs));
                      saw_terminal = (case collected of
                          Inr r \<Rightarrow> list_ex is_terminal (rr_events r) | Inl _ \<Rightarrow> True)
                  in case effective_interrupt interrupt saw_terminal of
                       Some i \<Rightarrow> (Err (interrupt_error i), session')
                     | None \<Rightarrow> (collected, session')))))"

text \<open>
  The generated stream: the recorder observes each event before it is passed on, and the session is
  written before the first terminal event is exposed.
\<close>

record 's stream_state =
  st_session :: 's
  st_recorder :: session_recorder
  st_saw_terminal :: bool
  st_finalized :: bool

definition stream_event :: "'s session_ops \<Rightarrow> (nat \<Rightarrow> int) \<Rightarrow> 's stream_state \<Rightarrow> agent_event \<Rightarrow> 's stream_state" where
  "stream_event S clk st ev =
     (let st = st\<lparr>st_recorder := rec_observe clk (st_recorder st) ev\<rparr>
      in if is_terminal ev then
           (let st = (if \<not> st_finalized st then
                (case finalize S clk (st_session st) (st_recorder st) of
                   (session, recorder) \<Rightarrow>
                     st\<lparr>st_session := session, st_recorder := recorder, st_finalized := True\<rparr>)
              else st)
            in st\<lparr>st_saw_terminal := True\<rparr>)
         else st)"

definition stream_out :: "'s session_ops \<Rightarrow> (nat \<Rightarrow> int) \<Rightarrow> session_recorder \<Rightarrow> 's
    \<Rightarrow> agent_event list \<Rightarrow> run_interrupt option \<Rightarrow> agent_event list \<times> 's" where
  "stream_out S clk recorder session evs interrupt =
     (let st = foldl (stream_event S clk)
          \<lparr>st_session = session, st_recorder = recorder, st_saw_terminal = False, st_finalized = False\<rparr> evs
      in case effective_interrupt interrupt (st_saw_terminal st) of
           Some i \<Rightarrow> (evs @ [terminal_event i],
             fst (finalize S clk (st_session st) (st_recorder st)))
         | None \<Rightarrow> (evs, st_session st))"

definition tokio_run_streamed :: "'s session_ops \<Rightarrow> (nat \<Rightarrow> int) \<Rightarrow> 'u agent \<Rightarrow> 'u run_context \<Rightarrow> 's
    \<Rightarrow> item list \<Rightarrow> run_config \<Rightarrow> (run_error + agent_event list \<times> agent_error option) \<times> 's" where
  "tokio_run_streamed S clk agent ctx session input config =
     (let ctx = with_run_config config ctx in
      case load_and_record S clk session (ag_name agent) input of
        Inl e \<Rightarrow> (Err e, session)
      | Inr (merged, recorder) \<Rightarrow>
          (case ag_run agent ctx merged of
             Inl e \<Rightarrow> (Err (RunAgent e), session)
           | Inr (polls, failure) \<Rightarrow>
               (case controlled (cfg_timeout config) polls of (evs, interrupt) \<Rightarrow>
                 (case stream_out S clk recorder session evs interrupt of (out, session') \<Rightarrow>
                   (Ok (out, failure), session')))))"

definition resume :: "'s session_ops \<Rightarrow> (nat \<Rightarrow> int) \<Rightarrow> 'u agent \<Rightarrow> 'u run_context \<Rightarrow> 's
    \<Rightarrow> run_config \<Rightarrow> (run_error + run_result) \<times> 's" where
  "resume S clk agent ctx session config = tokio_run S clk agent ctx session [] config"

section \<open>Aggregation\<close>

definition is_failed :: "agent_event \<Rightarrow> bool" where
  "is_failed e = (case e of RunFailed _ \<Rightarrow> True | _ \<Rightarrow> False)"

lemma is_failed_simps [simp]: "is_failed (RunFailed m)" "is_failed e \<Longrightarrow> is_terminal e"
  by (auto simp: is_failed_def is_terminal_def split: agent_event.splits)

lemma collect_event_failed:
  "co_failed (collect_event s e) = (case e of RunFailed m \<Rightarrow> Some m | _ \<Rightarrow> co_failed s)"
  by (cases "(s, e)" rule: collect_event.cases) simp_all

lemma collect_fold_failed:
  "co_failed (foldl collect_event s evs) = None \<longleftrightarrow> co_failed s = None \<and> \<not> list_ex is_failed evs"
  by (induction evs arbitrary: s)
    (auto simp: collect_event_failed is_failed_def split: agent_event.splits)

lemma collect_ok_iff: "(\<exists>r. collect evs failure = Ok r) \<longleftrightarrow> \<not> list_ex is_failed evs"
  using collect_fold_failed [of collect_init evs]
  by (auto simp: collect_def collect_init_def Let_def split: option.splits)

lemma collect_events: "collect evs failure = Ok r \<Longrightarrow> rr_events r = evs"
  by (auto simp: collect_def Let_def split: option.splits)

text \<open>The specification of the aggregated values: the last message and the last completion win.\<close>

fun final_text :: "agent_event list \<Rightarrow> string option" where
  "final_text [] = None"
| "final_text (e # es) = (case final_text es of Some t \<Rightarrow> Some t
     | None \<Rightarrow> (case e of MessageOutput (AssistantMessage content _) \<Rightarrow> Some (flatten_text content) | _ \<Rightarrow> None))"

fun completed_usage :: "agent_event list \<Rightarrow> token_usage option" where
  "completed_usage [] = None"
| "completed_usage (e # es) = (case completed_usage es of Some u \<Rightarrow> Some u
     | None \<Rightarrow> (case e of RunCompleted u \<Rightarrow> Some u | _ \<Rightarrow> None))"

lemma collect_event_values:
  "co_final (collect_event s e) = (case e of
     MessageOutput (AssistantMessage content _) \<Rightarrow> flatten_text content | _ \<Rightarrow> co_final s)"
  "co_usage (collect_event s e) = (case e of RunCompleted u \<Rightarrow> u | _ \<Rightarrow> co_usage s)"
  by (cases "(s, e)" rule: collect_event.cases; simp)+

lemma collect_fold_values:
  "co_final (foldl collect_event s evs) = unwrap_or (co_final s) (final_text evs)
   \<and> co_usage (foldl collect_event s evs) = unwrap_or (co_usage s) (completed_usage evs)"
  by (induction evs arbitrary: s)
    (simp_all add: collect_event_values unwrap_or_def split: option.splits agent_event.splits item.splits)

text \<open>
  Aggregation of a stream: it succeeds exactly when no failure event occurred, then returns
  all events with the text of the last assistant message and the usage of the last completion;
  otherwise it returns the structured error of the failure slot when there is one.
\<close>

theorem collect_spec:
  "collect evs failure =
     (if list_ex is_failed evs
      then (case failure of Some err \<Rightarrow> Err (RunAgent err)
          | None \<Rightarrow> Err (RunOther (the (co_failed (foldl collect_event collect_init evs)))))
      else Ok \<lparr>rr_final_output = unwrap_or [] (final_text evs), rr_events = evs,
                rr_usage = unwrap_or 0 (completed_usage evs)\<rparr>)"
  using collect_fold_failed [of collect_init evs] collect_fold_values [of collect_init evs]
  by (auto simp: collect_def collect_init_def Let_def split: option.splits)

section \<open>Outcome, persistence and the stream\<close>

text \<open>An agent that calls a tool and is then cancelled while it waits, for closed examples.\<close>

definition agent_ex :: "unit agent" where
  "agent_ex = \<lparr>ag_name = ''root'', ag_run = (\<lambda>_ _. Ok
     ([\<lparr>pl_next = Some (Some (RunStarted ''root'')), pl_cancelled = False, pl_expired = False\<rparr>,
       \<lparr>pl_next = Some (Some (ToolCallItem (ToolCall ''c1'' ''grep'' JNull))),
        pl_cancelled = True, pl_expired = False\<rparr>,
       \<lparr>pl_next = None, pl_cancelled = True, pl_expired = True\<rparr>], None))\<rparr>"

definition events_ex :: "agent_event list" where
  "events_ex = [RunStarted ''root'', ToolCallItem (ToolCall ''c1'' ''grep'' JNull)]"

text \<open>What a started run is given and sees.\<close>

definition started :: "'s session_ops \<Rightarrow> 'u agent \<Rightarrow> 'u run_context \<Rightarrow> 's \<Rightarrow> item list \<Rightarrow> run_config
    \<Rightarrow> item list \<Rightarrow> agent_event list \<Rightarrow> run_interrupt option \<Rightarrow> agent_error option \<Rightarrow> bool" where
  "started S agent ctx session input config history evs interrupt failure \<longleftrightarrow>
     ses_snapshot S session = Ok history
     \<and> (\<exists>polls. ag_run agent (with_run_config config ctx) (history @ input) = Ok (polls, failure)
         \<and> controlled (cfg_timeout config) polls = (evs, interrupt))"

definition run_recorder :: "(nat \<Rightarrow> int) \<Rightarrow> string \<Rightarrow> item list \<Rightarrow> agent_event list \<Rightarrow> session_recorder" where
  "run_recorder clk nm input evs = rec_observe_all clk (record_input clk (recorder_new nm) input) evs"

lemma started_ex:
  "started memory_session_ops agent_ex ctx_bypass [] [UserMessage [Text ''hi'']] run_config_default
     [] events_ex (Some Cancelled) None"
  by (simp add: started_def agent_ex_def events_ex_def memory_session_ops_def memory_snapshot_def
      memory_events_def project_def Let_def)

lemma tokio_run_started:
  assumes "started S agent ctx session input config history evs interrupt failure"
  shows "tokio_run S clk agent ctx session input config =
    (if list_ex is_terminal evs then collect evs failure
     else (case interrupt of Some i \<Rightarrow> Err (interrupt_error i) | None \<Rightarrow> collect evs failure),
     fst (finalize S clk session (run_recorder clk (ag_name agent) input evs)))"
proof -
  have saw: "(case collect evs failure of Inr r \<Rightarrow> list_ex is_terminal (rr_events r) | Inl _ \<Rightarrow> True)
      = list_ex is_terminal evs"
  proof (cases "list_ex is_failed evs")
    case True
    then have "list_ex is_terminal evs" by (auto simp: list_ex_iff intro: is_failed_simps(2))
    moreover have "\<exists>e. collect evs failure = Err e"
      using True collect_ok_iff [of evs failure] by (cases "collect evs failure") auto
    ultimately show ?thesis by auto
  next
    case False
    then obtain r where "collect evs failure = Ok r" using collect_ok_iff [of evs failure] by auto
    then show ?thesis using collect_events by auto
  qed
  show ?thesis
    using assms
    by (auto simp: started_def tokio_run_def load_and_record_def effective_interrupt_def saw
        run_recorder_def Let_def split: option.splits)
qed

text \<open>
  Interrupt precedence: once the agent has started, a run reports cancellation or a timeout
  exactly when the boundary was interrupted and no terminal event had been seen; a genuine
  terminal event always decides the outcome, in the same poll or earlier.
\<close>

theorem terminal_beats_interrupt:
  assumes "started S agent ctx session input config history evs interrupt failure"
  shows "fst (tokio_run S clk agent ctx session input config) =
    (case (list_ex is_terminal evs, interrupt) of
       (False, Some i) \<Rightarrow> Err (interrupt_error i)
     | _ \<Rightarrow> collect evs failure)"
  by (auto simp: tokio_run_started [OF assms] split: option.splits bool.splits)

theorem terminal_beats_interrupt_witness:
  "fst (tokio_run memory_session_ops (\<lambda>k. int k) agent_ex ctx_bypass [] [UserMessage [Text ''hi'']]
      run_config_default) = Err RunCancelled"
  using terminal_beats_interrupt [OF started_ex] by (simp add: events_ex_def)

context session_backend
begin

lemma finalize_log:
  assumes "fst (ses_append ops session (fst (drain clk r))) = Ok ()"
  shows "slog (fst (finalize ops clk session r)) = slog session @ fst (drain clk r)"
proof -
  obtain d r' where d: "drain clk r = (d, r')" by fastforce
  obtain s' where "ses_append ops session d = (Ok (), s')"
    using assms d by (cases "ses_append ops session d") auto
  then show ?thesis by (simp add: finalize_def d append_exact)
qed

lemma finalize_projects:
  assumes "fst (ses_append ops session (fst (drain clk (run_recorder clk nm input evs)))) = Ok ()"
    and "turn = recorded nm input @ emitted nm evs"
  shows "project (slog (fst (finalize ops clk session (run_recorder clk nm input evs))))
    = project (slog session) @ turn @ interrupted turn"
  using finalize_log [OF assms(1)] recorder_project [OF run_recorder_def assms(2)] by simp

end

lemma memory_append_ok: "fst (ses_append memory_session_ops s evs) = Ok ()"
  by (simp add: memory_session_ops_def memory_append_def)

text \<open>
  C7. Every started run is persisted as one turn, whatever its outcome (success, agent failure,
  cancellation, timeout): over the in-memory session the stored conversation becomes the earlier
  one followed by the input, the emitted messages, calls and results, and a closing result for
  each call cut off; and the next run starts from exactly that conversation.
\<close>

theorem run_persists_turn:
  assumes "started memory_session_ops agent ctx session input config history evs interrupt failure"
    and "session' = snd (tokio_run memory_session_ops clk agent ctx session input config)"
    and "turn = recorded (ag_name agent) input @ emitted (ag_name agent) evs"
  shows "project session' = history @ turn @ interrupted turn
    \<and> load_and_record memory_session_ops clk session' nm next
        = Ok (history @ turn @ interrupted turn @ next, record_input clk (recorder_new nm) next)"
proof -
  have h: "history = project session"
    using assms(1) by (auto simp: started_def memory_session_ops_def memory_snapshot_def
        memory_events_def Let_def)
  have "project session' = project session @ turn @ interrupted turn"
    using mem.finalize_projects [OF memory_append_ok assms(3)] assms(2)
    by (simp add: tokio_run_started [OF assms(1)])
  then show ?thesis
    by (simp add: h load_and_record_def memory_session_ops_def memory_snapshot_def memory_events_def Let_def)
qed

theorem run_persists_turn_witness:
  "project (snd (tokio_run memory_session_ops (\<lambda>k. int k) agent_ex ctx_bypass []
       [UserMessage [Text ''hi'']] run_config_default))
     = [UserMessage [Text ''hi''], ToolCall ''c1'' ''grep'' JNull,
        ToolResult ''c1'' interrupted_content]"
  using run_persists_turn [OF started_ex refl refl]
  by (simp add: events_ex_def agent_ex_def interrupted_def)

text \<open>The streamed variant.\<close>

lemma stream_event_plain:
  "\<not> is_terminal ev \<Longrightarrow> stream_event S clk st ev = st\<lparr>st_recorder := rec_observe clk (st_recorder st) ev\<rparr>"
  by (simp add: stream_event_def Let_def)

lemma stream_fold_plain:
  "\<not> list_ex is_terminal evs \<Longrightarrow> foldl (stream_event S clk) st evs
     = st\<lparr>st_recorder := rec_observe_all clk (st_recorder st) evs\<rparr>"
  by (induction evs arbitrary: st) (simp_all add: stream_event_plain rec_observe_all_def)

text \<open>A stream whose only terminal event, if any, is its last event.\<close>

definition terminal_last :: "agent_event list \<Rightarrow> bool" where
  "terminal_last evs = (\<not> list_ex is_terminal (butlast evs))"

lemma terminal_last_cases:
  assumes "terminal_last evs"
  obtains (none) "\<not> list_ex is_terminal evs"
  | (last) es e where "evs = es @ [e]" "is_terminal e" "\<not> list_ex is_terminal es"
  using assms by (cases evs rule: rev_cases) (auto simp: terminal_last_def)

lemma stream_out_terminal:
  assumes "terminal_last evs" "list_ex is_terminal evs \<or> interrupt \<noteq> None"
  shows "stream_out S clk rec session evs interrupt =
    (if list_ex is_terminal evs then evs else evs @ [terminal_event (the interrupt)],
     fst (finalize S clk session (rec_observe_all clk rec evs)))"
  using assms(1)
proof (cases rule: terminal_last_cases)
  case none
  then show ?thesis using assms(2)
    by (auto simp: stream_out_def stream_fold_plain effective_interrupt_def Let_def)
next
  case (last es e)
  then show ?thesis
    by (simp add: stream_out_def stream_fold_plain effective_interrupt_def stream_event_def
        rec_observe_all_def Let_def split: prod.splits)
qed



end
