(* ===== verification/Graph_Build.thy ===== *)
theory Graph_Build
  imports Workflow
begin

text \<open>
  Building a graph of agents (\<open>graph.rs\<close>, \<open>GraphAgentBuilder::build\<close>): the checks of names and edges,
  the adjacency lists, and Kahn's algorithm for the cycle check. It is shown that the algorithm
  ends, that its in-degrees never underflow, and that building succeeds exactly for a
  well-formed acyclic graph.
\<close>

section \<open>The builder\<close>

type_synonym 'u node = "string \<times> 'u agent_run"

text \<open>A node: its name in the graph, the name of its agent and the agent's run.\<close>

record 'u graph_builder =
  gb_name :: "string option"
  gb_description :: string
  gb_nodes :: "(string \<times> 'u node) list"
  gb_edges :: "(string \<times> string) list"

datatype graph_build_error =
    GraphEmpty
  | GraphMissingName
  | DuplicateNode string
  | UnknownNode string
  | GraphCycle "string list"

record 'u graph_agent =
  ga_name :: string
  ga_description :: string
  ga_nodes :: "(string \<times> 'u node) list"
  ga_preds :: "nat list list"
  ga_succs :: "nat list list"

definition graph_builder_new :: "'u graph_builder" where
  "graph_builder_new = \<lparr>gb_name = None, gb_description = [], gb_nodes = [], gb_edges = []\<rparr>"

definition graph_with_name :: "string \<Rightarrow> 'u graph_builder \<Rightarrow> 'u graph_builder" where
  "graph_with_name nm b = b\<lparr>gb_name := Some nm\<rparr>"

definition graph_with_description :: "string \<Rightarrow> 'u graph_builder \<Rightarrow> 'u graph_builder" where
  "graph_with_description d b = b\<lparr>gb_description := d\<rparr>"

definition graph_node :: "string \<Rightarrow> 'u node \<Rightarrow> 'u graph_builder \<Rightarrow> 'u graph_builder" where
  "graph_node nm ag b = b\<lparr>gb_nodes := gb_nodes b @ [(nm, ag)]\<rparr>"

definition graph_edge :: "string \<Rightarrow> string \<Rightarrow> 'u graph_builder \<Rightarrow> 'u graph_builder" where
  "graph_edge f t b = b\<lparr>gb_edges := gb_edges b @ [(f, t)]\<rparr>"

fun duplicate_in :: "string list \<Rightarrow> string list \<Rightarrow> string option" where
  "duplicate_in seen [] = None"
| "duplicate_in seen (n # ns) = (if n \<in> set seen then Some n else duplicate_in (n # seen) ns)"

text \<open>The index of a name; names are distinct when it is consulted.\<close>

fun position :: "string list \<Rightarrow> string \<Rightarrow> nat option" where
  "position [] x = None"
| "position (n # ns) x = (if n = x then Some 0 else map_option Suc (position ns x))"

fun link :: "string list \<Rightarrow> (nat \<times> nat) list \<Rightarrow> nat list list \<Rightarrow> nat list list \<Rightarrow> (string \<times> string) list
    \<Rightarrow> graph_build_error + nat list list \<times> nat list list" where
  "link names seen preds succs [] = Ok (preds, succs)"
| "link names seen preds succs ((a, b) # es) =
     (case position names a of
        None \<Rightarrow> Err (UnknownNode a)
      | Some f \<Rightarrow> (case position names b of
            None \<Rightarrow> Err (UnknownNode b)
          | Some t \<Rightarrow>
              if (f, t) \<in> set seen then link names seen preds succs es
              else link names ((f, t) # seen) (preds[t := preds ! t @ [f]]) (succs[f := succs ! f @ [t]]) es))"

subsection \<open>Kahn's algorithm\<close>

text \<open>\<open>usize\<close> subtraction wraps in a release build.\<close>

definition pred_usize :: "nat \<Rightarrow> nat" where
  "pred_usize d = (if d = 0 then usize_max else d - 1)"

fun relax :: "nat list \<Rightarrow> nat list \<times> nat list \<Rightarrow> nat list \<times> nat list" where
  "relax [] (indegree, queue) = (indegree, queue)"
| "relax (j # js) (indegree, queue) =
     (let d = pred_usize (indegree ! j)
      in relax js (indegree[j := d], if d = 0 then queue @ [j] else queue))"

text \<open>The loop with a bound on its rounds; the second component counts the visited nodes.\<close>

fun kahn :: "nat \<Rightarrow> nat list list \<Rightarrow> nat list \<Rightarrow> nat list \<Rightarrow> nat \<Rightarrow> (nat list \<times> nat) option" where
  "kahn fuel succs indegree [] visited = Some (indegree, visited)"
| "kahn 0 succs indegree (i # queue) visited = None"
| "kahn (Suc fuel) succs indegree (i # queue) visited =
     (case relax (succs ! i) (indegree, queue) of
        (indegree', queue') \<Rightarrow> kahn fuel succs indegree' queue' (Suc visited))"

definition roots :: "nat list \<Rightarrow> nat list" where
  "roots indegree = filter (\<lambda>i. indegree ! i = 0) [0..<length indegree]"

text \<open>The whole build; a node is visited at most once, so one round per node is enough.\<close>

definition graph_build :: "'u graph_builder \<Rightarrow> (graph_build_error + 'u graph_agent) option" where
  "graph_build b =
     (case gb_name b of
        None \<Rightarrow> Some (Err GraphMissingName)
      | Some nm \<Rightarrow>
          (let names = map fst (gb_nodes b); n = length names in
           if n = 0 then Some (Err GraphEmpty)
           else (case duplicate_in [] names of
               Some d \<Rightarrow> Some (Err (DuplicateNode d))
             | None \<Rightarrow>
                 (case link names [] (replicate n []) (replicate n []) (gb_edges b) of
                    Inl e \<Rightarrow> Some (Err e)
                  | Inr (preds, succs) \<Rightarrow>
                      (let indegree = map length preds
                       in map_option (\<lambda>(left, visited).
                            if visited \<noteq> n
                            then Err (GraphCycle (sort (map (\<lambda>i. names ! i)
                                   (filter (\<lambda>i. 0 < left ! i) [0..<n]))))
                            else Ok \<lparr>ga_name = nm, ga_description = gb_description b,
                              ga_nodes = gb_nodes b, ga_preds = preds, ga_succs = succs\<rparr>)
                          (kahn n succs indegree (roots indegree) 0))))))"

section \<open>Adjacency lists\<close>

text \<open>The edges on indices, and lists that represent them.\<close>

definition adjacency :: "nat \<Rightarrow> (nat \<times> nat) set \<Rightarrow> nat list list \<Rightarrow> nat list list \<Rightarrow> bool" where
  "adjacency n E preds succs \<longleftrightarrow>
     E \<subseteq> {..<n} \<times> {..<n} \<and> length preds = n \<and> length succs = n
     \<and> (\<forall>i<n. distinct (preds ! i) \<and> distinct (succs ! i)
          \<and> set (preds ! i) = {f. (f, i) \<in> E} \<and> set (succs ! i) = {t. (i, t) \<in> E})"

lemma position_Some: "position ns x = Some i \<Longrightarrow> i < length ns \<and> ns ! i = x"
  by (induction ns arbitrary: i) (auto split: if_splits)

lemma position_None: "position ns x = None \<longleftrightarrow> x \<notin> set ns"
  by (induction ns) auto

lemma duplicate_in_None: "duplicate_in seen ns = None \<longleftrightarrow> distinct ns \<and> set ns \<inter> set seen = {}"
  by (induction seen ns rule: duplicate_in.induct) auto

lemma adjacency_insert:
  assumes "adjacency n E preds succs" "f < n" "t < n" "(f, t) \<notin> E"
  shows "adjacency n (insert (f, t) E) (preds[t := preds ! t @ [f]]) (succs[f := succs ! f @ [t]])"
  using assms by (auto simp: adjacency_def nth_list_update)

lemma link_adjacency:
  assumes "link names seen preds succs es = Ok (preds', succs')" "adjacency (length names) (set seen) preds succs"
  shows "adjacency (length names)
      (set seen \<union> {(f, t). \<exists>(a, b)\<in>set es. position names a = Some f \<and> position names b = Some t}) preds' succs'"
  using assms
proof (induction names seen preds succs es arbitrary: preds' succs' rule: link.induct)
  case (2 names seen preds succs a b es)
  obtain f t where ft: "position names a = Some f" "position names b = Some t"
    using "2.prems"(1) by (auto split: option.splits)
  let ?new = "{(f, t). \<exists>(a, b)\<in>set es. position names a = Some f \<and> position names b = Some t}"
  have split: "{(f', t'). \<exists>(a', b')\<in>set ((a, b) # es). position names a' = Some f' \<and> position names b' = Some t'}
      = insert (f, t) ?new"
    using ft by auto
  show ?case
  proof (cases "(f, t) \<in> set seen")
    case True
    then show ?thesis
      using "2.IH"(1) [OF ft True] "2.prems" ft unfolding split by (simp add: insert_absorb)
  next
    case False
    have "adjacency (length names) (set ((f, t) # seen)) (preds[t := preds ! t @ [f]]) (succs[f := succs ! f @ [t]])"
      using adjacency_insert [OF "2.prems"(2) _ _ False] ft position_Some by simp
    then show ?thesis
      using "2.IH"(2) [OF ft False] "2.prems"(1) ft False unfolding split by simp
  qed
qed simp

lemma link_ok_iff:
  "is_ok (link names seen preds succs es) \<longleftrightarrow> (\<forall>(a, b)\<in>set es. a \<in> set names \<and> b \<in> set names)"
  by (induction names seen preds succs es rule: link.induct)
    (auto simp: position_None dest: position_Some split: option.splits)

section \<open>Kahn's algorithm decides acyclicity\<close>

text \<open>
  The invariant of the loop, with the list of nodes already visited: the in-degree of a node counts
  its unvisited predecessors, the nodes of in-degree zero are those visited or queued, and every
  visited node comes after its predecessors.
\<close>

definition kahn_inv :: "nat \<Rightarrow> (nat \<times> nat) set \<Rightarrow> nat list \<Rightarrow> nat list \<Rightarrow> nat list \<Rightarrow> bool" where
  "kahn_inv n E indegree queue visited \<longleftrightarrow>
     length indegree = n \<and> distinct (visited @ queue) \<and> set (visited @ queue) \<subseteq> {..<n}
     \<and> (\<forall>j<n. indegree ! j = card ({i. (i, j) \<in> E} - set visited))
     \<and> (\<forall>j<n. indegree ! j = 0 \<longleftrightarrow> j \<in> set (visited @ queue))
     \<and> (\<forall>k<length visited. {i. (i, visited ! k) \<in> E} \<subseteq> set (take k visited))"

lemma relax_result:
  assumes "distinct js" "\<forall>j\<in>set js. j < length indegree \<and> 0 < indegree ! j"
  shows "relax js (indegree, queue) =
    (map (\<lambda>j. if j \<in> set js then indegree ! j - 1 else indegree ! j) [0..<length indegree],
     queue @ filter (\<lambda>j. indegree ! j = 1) js)"
  using assms
proof (induction js arbitrary: indegree queue)
  case Nil
  then show ?case by (simp add: map_nth)
next
  case (Cons j js)
  let ?ind = "indegree[j := indegree ! j - 1]"
  have f: "filter (\<lambda>i. ?ind ! i = 1) js = filter (\<lambda>i. indegree ! i = 1) js"
    using Cons.prems(1) by (intro filter_cong refl) (metis distinct.simps(2) nth_list_update_neq)
  have m: "map (\<lambda>i. if i \<in> set js then ?ind ! i - 1 else ?ind ! i) [0..<length indegree]
      = map (\<lambda>i. if i \<in> set (j # js) then indegree ! i - 1 else indegree ! i) [0..<length indegree]"
    using Cons.prems by (auto simp: nth_list_update)
  have p: "pred_usize (indegree ! j) = indegree ! j - 1" "(indegree ! j - 1 = 0) = (indegree ! j = 1)"
    using Cons.prems(2) by (auto simp: pred_usize_def)
  have "relax js (?ind, q) = (map (\<lambda>i. if i \<in> set js then ?ind ! i - 1 else ?ind ! i) [0..<length indegree],
      q @ filter (\<lambda>i. ?ind ! i = 1) js)" for q
    using Cons.IH [of ?ind] Cons.prems by (simp add: nth_list_update)
  moreover have "indegree ! j \<le> 1 \<longleftrightarrow> indegree ! j = 1" using Cons.prems(2) by auto
  ultimately show ?case unfolding f m by (simp add: Let_def p)
qed

lemma kahn_step:
  assumes inv: "kahn_inv n E indegree (i # queue) visited" and adj: "adjacency n E preds succs"
    and rel: "relax (succs ! i) (indegree, queue) = (indegree', queue')"
  shows "kahn_inv n E indegree' queue' (visited @ [i])"
proof -
  note I = inv [unfolded kahn_inv_def]
  have i: "i < n" "i \<notin> set visited" "i \<notin> set queue" using I by auto
  have succs: "distinct (succs ! i)" "set (succs ! i) = {t. (i, t) \<in> E}" "{t. (i, t) \<in> E} \<subseteq> {..<n}"
    and fin: "finite {a. (a, j) \<in> E}" for j
    using adj i(1) by (auto simp: adjacency_def intro: finite_subset [of _ "{..<n}"])
  have pos: "0 < indegree ! j" if "(i, j) \<in> E" for j
  proof -
    have "i \<in> {a. (a, j) \<in> E} - set visited" using that i(2) by simp
    then have "0 < card ({a. (a, j) \<in> E} - set visited)" using fin [of j] by (auto simp: card_gt_0_iff)
    moreover have "j < n" using that succs(3) by auto
    ultimately show ?thesis using I by auto
  qed
  have r: "indegree' = map (\<lambda>j. if (i, j) \<in> E then indegree ! j - 1 else indegree ! j) [0..<n]"
      "queue' = queue @ filter (\<lambda>j. indegree ! j = 1) (succs ! i)"
    using rel relax_result [of "succs ! i" indegree queue] succs pos I by auto
  have deg: "indegree' ! j = card ({a. (a, j) \<in> E} - set (visited @ [i]))" if "j < n" for j
  proof -
    have "{a. (a, j) \<in> E} - set (visited @ [i]) = ({a. (a, j) \<in> E} - set visited) - {i}" by auto
    then show ?thesis using I that i(2) fin [of j] by (simp add: r(1) card_Diff_singleton_if)
  qed
  have zero: "indegree' ! j = 0 \<longleftrightarrow> j \<in> set (visited @ [i] @ queue')" if "j < n" for j
    using I that pos [of j] succs(2) by (auto simp: r)
  have "distinct (visited @ [i] @ queue')"
    using I succs(1,2) pos by (auto simp: r(2))
  moreover have "set (visited @ [i] @ queue') \<subseteq> {..<n}" using I succs by (auto simp: r(2))
  moreover have "{a. (a, (visited @ [i]) ! k) \<in> E} \<subseteq> set (take k (visited @ [i]))"
    if "k < length (visited @ [i])" for k
  proof (cases "k < length visited")
    case True
    then show ?thesis using I by (simp add: nth_append)
  next
    case False
    then have k: "k = length visited" using that by simp
    have "indegree ! i = 0" using I i(1) by auto
    then have "{a. (a, i) \<in> E} - set visited = {}" using I i(1) fin [of i] by simp
    then show ?thesis using k by auto
  qed
  ultimately show ?thesis
    using deg zero by (simp add: kahn_inv_def r(1) del: upt_Suc)
qed

lemma kahn_inv_bound: "kahn_inv n E indegree queue visited \<Longrightarrow> length visited + length queue \<le> n"
proof -
  assume "kahn_inv n E indegree queue visited"
  then have "card (set (visited @ queue)) \<le> card {..<n}" "distinct (visited @ queue)"
    unfolding kahn_inv_def by (blast intro: card_mono finite_lessThan)+
  then show ?thesis by (metis card_lessThan distinct_card length_append)
qed

text \<open>The loop ends within its bound, in a state that satisfies the invariant with an empty queue.\<close>

lemma kahn_result:
  assumes "kahn_inv n E indegree queue visited" "adjacency n E preds succs" "n \<le> fuel + length visited"
  shows "\<exists>left order. kahn fuel succs indegree queue (length visited) = Some (left, length order)
    \<and> kahn_inv n E left [] order"
  using assms(1,3)
proof (induction fuel arbitrary: indegree queue visited)
  case 0
  then have "length queue = 0" using kahn_inv_bound [OF "0.prems"(1)] by linarith
  then show ?case using "0.prems" by auto
next
  case (Suc fuel)
  show ?case
  proof (cases queue)
    case Nil
    then show ?thesis using Suc.prems by auto
  next
    case (Cons i q)
    obtain indegree' queue' where rel: "relax (succs ! i) (indegree, q) = (indegree', queue')" by force
    have "kahn_inv n E indegree' queue' (visited @ [i])"
      using kahn_step [OF _ assms(2) rel] Suc.prems(1) Cons by simp
    then show ?thesis using Suc.IH [of indegree' queue' "visited @ [i]"] Suc.prems(2) Cons rel by simp
  qed
qed

lemma kahn_inv_start:
  assumes "adjacency n E preds succs"
  shows "kahn_inv n E (map length preds) (roots (map length preds)) []"
proof -
  have "length (preds ! j) = card {i. (i, j) \<in> E}" if "j < n" for j
    using assms that by (auto simp: adjacency_def simp flip: distinct_card)
  then show ?thesis using assms by (auto simp: kahn_inv_def roots_def adjacency_def)
qed

lemma kahn_acyclic:
  assumes "kahn_inv n E left [] order" "adjacency n E preds succs"
  shows "length order = n \<longleftrightarrow> acyclic E"
proof
  have sub: "E \<subseteq> {..<n} \<times> {..<n}" using assms(2) by (simp add: adjacency_def)
  have ord: "distinct order" "set order \<subseteq> {..<n}" using assms(1) by (auto simp: kahn_inv_def)
  {
    assume "length order = n"
    then have all: "set order = {..<n}"
      using ord card_subset_eq [of "{..<n}" "set order"] by (simp add: distinct_card)
    define idx where "idx j = (THE k. k < n \<and> order ! k = j)" for j
    have idx: "idx (order ! k) = k" if "k < n" for k
      unfolding idx_def using that ord(1) \<open>length order = n\<close>
      by (intro the_equality) (auto simp: nth_eq_iff_index_eq)
    have "(i, j) \<in> inv_image less_than idx" if "(i, j) \<in> E" for i j
    proof -
      have "j \<in> set order" using that sub all by auto
      then obtain k where k: "k < n" "order ! k = j" using \<open>length order = n\<close> by (auto simp: in_set_conv_nth)
      then have "i \<in> set (take k order)" using assms(1) that \<open>length order = n\<close> by (auto simp: kahn_inv_def)
      then obtain l where "l < k" "order ! l = i" by (auto simp: in_set_conv_nth)
      then show ?thesis using idx k by auto
    qed
    then have "E \<subseteq> inv_image less_than idx" by auto
    then show "acyclic E" by (meson wf_acyclic wf_inv_image wf_less_than wf_subset)
  }
  assume "acyclic E"
  moreover have "finite E" using sub finite_subset by blast
  ultimately have "wf E" by (rule finite_acyclic_wf [rotated])
  have "{..<n} \<subseteq> set order"
  proof
    fix j
    assume "j \<in> {..<n}"
    with \<open>wf E\<close> show "j \<in> set order"
    proof (induction j rule: wf_induct_rule)
      case (less j)
      then have "{i. (i, j) \<in> E} \<subseteq> set order" using sub by auto
      then have "{i. (i, j) \<in> E} - set order = {}" by auto
      then have "left ! j = 0" using assms(1) less.prems unfolding kahn_inv_def by (metis card.empty lessThan_iff)
      moreover have "left ! j = 0 \<longleftrightarrow> j \<in> set order"
        using assms(1) less.prems unfolding kahn_inv_def by (metis append_Nil2 lessThan_iff)
      ultimately show ?case by simp
    qed
  qed
  then show "length order = n"
    using ord by (metis card_lessThan distinct_card subset_antisym)
qed

section \<open>What building decides\<close>

definition edge_indices :: "string list \<Rightarrow> (string \<times> string) list \<Rightarrow> (nat \<times> nat) set" where
  "edge_indices names es = {(f, t). \<exists>(a, b)\<in>set es. position names a = Some f \<and> position names b = Some t}"

lemma adjacency_empty: "adjacency n {} (replicate n []) (replicate n [])"
  by (auto simp: adjacency_def)

lemma link_start:
  "link names [] (replicate (length names) []) (replicate (length names) []) es = Ok (preds, succs)
   \<Longrightarrow> adjacency (length names) (edge_indices names es) preds succs"
  using link_adjacency [of names "[]"] adjacency_empty by (fastforce simp: edge_indices_def)

lemma position_eq: "distinct names \<Longrightarrow> i < length names \<Longrightarrow> position names (names ! i) = Some i"
  by (induction names arbitrary: i) (auto simp: nth_Cons split: nat.splits)

text \<open>Edges on indices and edges on names are the same relation.\<close>

lemma acyclic_edge_indices:
  assumes "distinct names" "\<forall>(a, b)\<in>set es. a \<in> set names \<and> b \<in> set names"
  shows "acyclic (edge_indices names es) \<longleftrightarrow> acyclic (set es)"
proof -
  have up: "(names ! f, names ! t) \<in> (set es)\<^sup>+" if "(f, t) \<in> (edge_indices names es)\<^sup>+" for f t
    using that
  proof (induction rule: trancl_induct)
    case (base t)
    then show ?case by (auto simp: edge_indices_def dest!: position_Some)
  next
    case (step t u)
    then have "(names ! t, names ! u) \<in> set es" by (auto simp: edge_indices_def dest!: position_Some)
    then show ?case using step.IH by (rule trancl_into_trancl [rotated])
  qed
  have edge: "\<exists>f t. position names a = Some f \<and> position names b = Some t \<and> (f, t) \<in> edge_indices names es"
    if ab: "(a, b) \<in> set es" for a b
  proof -
    obtain f t where "position names a = Some f" "position names b = Some t"
      using bspec [OF assms(2) ab] position_None [of names a] position_None [of names b] by auto
    then show ?thesis using ab by (auto simp: edge_indices_def)
  qed
  have down: "\<exists>f t. position names a = Some f \<and> position names b = Some t \<and> (f, t) \<in> (edge_indices names es)\<^sup>+"
    if "(a, b) \<in> (set es)\<^sup>+" for a b
    using that
  proof (induction rule: trancl_induct)
    case (base b)
    then show ?case using edge by blast
  next
    case (step b c)
    then show ?case using edge [of b c] by (metis option.inject trancl.trancl_into_trancl)
  qed
  show ?thesis using up down unfolding acyclic_def by (metis option.inject)
qed

lemma graph_build_result:
  fixes b :: "'u graph_builder"
  defines "names \<equiv> map fst (gb_nodes b)"
  shows "\<exists>r. graph_build b = Some r
    \<and> (is_ok r \<longleftrightarrow> gb_name b \<noteq> None \<and> gb_nodes b \<noteq> [] \<and> distinct names
        \<and> (\<forall>(f, t)\<in>set (gb_edges b). f \<in> set names \<and> t \<in> set names) \<and> acyclic (set (gb_edges b)))
    \<and> (\<forall>g. r = Ok g \<longrightarrow> ga_nodes g = gb_nodes b
        \<and> adjacency (length names) (edge_indices names (gb_edges b)) (ga_preds g) (ga_succs g))"
proof -
  let ?n = "length names"
  let ?link = "link names [] (replicate ?n []) (replicate ?n []) (gb_edges b)"
  have n: "?n = 0 \<longleftrightarrow> gb_nodes b = []" by (simp add: names_def)
  consider (early) "gb_name b = None \<or> gb_nodes b = [] \<or> \<not> distinct names \<or> \<not> is_ok ?link"
    | (late) nm preds succs where "gb_name b = Some nm" "gb_nodes b \<noteq> []" "distinct names" "?link = Ok (preds, succs)"
    by (cases "gb_name b"; cases ?link) auto
  then show ?thesis
  proof cases
    case early
    then have "\<exists>e. graph_build b = Some (Err e)"
      using duplicate_in_None [of "[]" names] n
      by (auto simp: graph_build_def Let_def names_def split: option.splits sum.splits)
    then show ?thesis using early link_ok_iff [of names "[]"] by auto
  next
    case late
    note adj = link_start [OF late(4)]
    obtain left order where k: "kahn ?n succs (map length preds) (roots (map length preds)) 0 = Some (left, length order)"
      and inv: "kahn_inv ?n (edge_indices names (gb_edges b)) left [] order"
      using kahn_result [OF kahn_inv_start [OF adj] adj, of ?n] by auto
    have acyc: "length order = ?n \<longleftrightarrow> acyclic (set (gb_edges b))"
      using kahn_acyclic [OF inv adj] acyclic_edge_indices [OF late(3)] link_ok_iff [of names "[]"] late(4)
      by (metis is_ok.simps(1))
    have "graph_build b = Some (if length order \<noteq> ?n
        then Err (GraphCycle (sort (map (\<lambda>i. names ! i) (filter (\<lambda>i. 0 < left ! i) [0..<?n]))))
        else Ok \<lparr>ga_name = nm, ga_description = gb_description b, ga_nodes = gb_nodes b,
          ga_preds = preds, ga_succs = succs\<rparr>)"
      using late k duplicate_in_None [of "[]" names] n
      by (simp add: graph_build_def Let_def flip: names_def)
    moreover have "\<forall>(f, t)\<in>set (gb_edges b). f \<in> set names \<and> t \<in> set names"
      using link_ok_iff [of names "[]"] late(4) by (metis is_ok.simps(1))
    ultimately show ?thesis using late(1-3) acyc adj by (cases "length order = ?n") simp_all
  qed
qed

lemma graph_build_ok:
  assumes "graph_build b = Some (Ok g)"
  shows "ga_nodes g = gb_nodes b" "distinct (map fst (gb_nodes b))"
    and "adjacency (length (gb_nodes b)) (edge_indices (map fst (gb_nodes b)) (gb_edges b)) (ga_preds g) (ga_succs g)"
    and "acyclic (edge_indices (map fst (gb_nodes b)) (gb_edges b))"
  using assms graph_build_result [of b] acyclic_edge_indices [of "map fst (gb_nodes b)" "gb_edges b"] by auto

text \<open>
  C14. Building a graph succeeds exactly for a well-formed acyclic graph: a name is given, there is a
  node, node names are distinct, every edge joins known nodes and the edges have no cycle. The cycle
  check always ends, and the adjacency lists of a built graph list each declared edge once, in both
  directions.
\<close>

theorem graph_build_correct:
  fixes b :: "'u graph_builder"
  defines "names \<equiv> map fst (gb_nodes b)"
  shows "\<exists>r. graph_build b = Some r
    \<and> (is_ok r \<longleftrightarrow> gb_name b \<noteq> None \<and> gb_nodes b \<noteq> [] \<and> distinct names
        \<and> (\<forall>(f, t)\<in>set (gb_edges b). f \<in> set names \<and> t \<in> set names) \<and> acyclic (set (gb_edges b)))
    \<and> (\<forall>g. r = Ok g \<longrightarrow> ga_nodes g = gb_nodes b
        \<and> adjacency (length names) (edge_indices names (gb_edges b)) (ga_preds g) (ga_succs g))"
  unfolding names_def by (rule graph_build_result)

definition builder_ex :: "(string \<times> string) list \<Rightarrow> unit graph_builder" where
  "builder_ex es = fold (\<lambda>(f, t). graph_edge f t) es
     (fold (\<lambda>n. graph_node n (n, \<lambda>c i. Ok ([RunStarted n, RunCompleted usage_default], None))) [''a'', ''b'', ''c'']
        (graph_with_name ''g'' graph_builder_new))"

lemma builder_ex_fields:
  "gb_name (builder_ex es) = Some ''g''" "gb_edges (builder_ex es) = es"
  "gb_nodes (builder_ex es) = map (\<lambda>n. (n, n, \<lambda>c i. Ok ([RunStarted n, RunCompleted usage_default], None))) [''a'', ''b'', ''c'']"
proof -
  have "fold (\<lambda>(f, t). graph_edge f t) es b = b\<lparr>gb_edges := gb_edges b @ es\<rparr>" for b :: "unit graph_builder"
    by (induction es arbitrary: b) (auto simp: graph_edge_def)
  then show "gb_name (builder_ex es) = Some ''g''" "gb_edges (builder_ex es) = es"
    "gb_nodes (builder_ex es) = map (\<lambda>n. (n, n, \<lambda>c i. Ok ([RunStarted n, RunCompleted usage_default], None))) [''a'', ''b'', ''c'']"
    by (simp_all add: builder_ex_def graph_node_def graph_with_name_def graph_builder_new_def)
qed

theorem graph_build_correct_witness:
  "\<exists>r. graph_build (builder_ex [(''a'', ''b''), (''a'', ''c''), (''b'', ''c'')]) = Some r \<and> is_ok r"
proof -
  let ?es = "[(''a'', ''b''), (''a'', ''c''), (''b'', ''c'')]"
  have "set ?es \<subseteq> inv_image less_than (\<lambda>s. of_char (hd s))" by (simp add: of_char_def)
  then have "acyclic (set ?es)" by (meson wf_acyclic wf_inv_image wf_less_than wf_subset)
  moreover have "distinct (map fst (gb_nodes (builder_ex ?es)))" "gb_nodes (builder_ex ?es) \<noteq> []"
      "\<forall>(f, t)\<in>set (gb_edges (builder_ex ?es)). f \<in> set (map fst (gb_nodes (builder_ex ?es)))
        \<and> t \<in> set (map fst (gb_nodes (builder_ex ?es)))"
      "gb_name (builder_ex ?es) \<noteq> None" "gb_edges (builder_ex ?es) = ?es"
    by (simp_all add: builder_ex_fields)
  ultimately show ?thesis using graph_build_correct [of "builder_ex ?es"] by metis
qed

text \<open>The nodes reported with a cycle include nodes behind it that lie on no cycle.\<close>

lemma cycle_reports_downstream:
  "map_option (map_sum (\<lambda>e. e) ga_preds) (graph_build (builder_ex [(''a'', ''b''), (''b'', ''a''), (''b'', ''c'')]))
   = Some (Err (GraphCycle [''a'', ''b'', ''c'']))"
  by code_simp

end
