(* ===== verification/Graph_Run.thy ===== *)
theory Graph_Run
  imports Graph_Build
begin

text \<open>
  Running a graph of agents (\<open>graph.rs\<close>, \<open>GraphAgent::run\<close>): the wavefront scheduler. Ready nodes are
  started with the outputs of their predecessors as extra messages, the streams of the running nodes
  are merged in any order, a completion releases successors and a failure marks all descendants as
  skipped. The step relation covers every order in which events may arrive. It is shown that
  marking skipped nodes marks exactly the descendants; \<open>Graph_Sched\<close> has the theorems about runs.
\<close>

section \<open>The scheduler\<close>

record 'u graph_setup =
  gs_ext :: ext
  gs_fresh :: "nat \<Rightarrow> addr \<times> addr"
  gs_graph :: "'u graph_agent"
  gs_ctx :: "'u run_context"
  gs_input :: "item list"

text \<open>\<open>gr_failures\<close> holds the failure slot of every started node, \<open>gr_running\<close> what is left of the streams.\<close>

record graph_run =
  gr_indegree :: "nat list"
  gr_finals :: "string option list"
  gr_skipped :: "bool list"
  gr_failed :: "nat list"
  gr_failures :: "agent_error option option list"
  gr_total :: token_usage
  gr_running :: "(nat \<times> agent_event list) list"
  gr_ready :: "nat list"
  gr_shown :: "agent_event list"
  gr_state :: kv

abbreviation g_succs :: "'u graph_setup \<Rightarrow> nat list list" where "g_succs S \<equiv> ga_succs (gs_graph S)"
abbreviation g_preds :: "'u graph_setup \<Rightarrow> nat list list" where "g_preds S \<equiv> ga_preds (gs_graph S)"
abbreviation node_name :: "'u graph_setup \<Rightarrow> nat \<Rightarrow> string" where
  "node_name S i \<equiv> fst (ga_nodes (gs_graph S) ! i)"
abbreviation node_agent :: "'u graph_setup \<Rightarrow> nat \<Rightarrow> 'u node" where
  "node_agent S i \<equiv> snd (ga_nodes (gs_graph S) ! i)"

subsection \<open>Skipping descendants\<close>

fun push_unskipped :: "nat list \<Rightarrow> bool list \<times> nat list \<Rightarrow> bool list \<times> nat list" where
  "push_unskipped [] (skipped, stack) = (skipped, stack)"
| "push_unskipped (j # js) (skipped, stack) =
     (if j < length skipped \<and> \<not> skipped ! j then push_unskipped js (skipped[j := True], j # stack)
      else push_unskipped js (skipped, stack))"

definition unskipped :: "bool list \<Rightarrow> nat" where
  "unskipped skipped = length (filter Not skipped)"

lemma unskipped_mark:
  assumes "j < length skipped" "\<not> skipped ! j"
  shows "Suc (unskipped (skipped[j := True])) = unskipped skipped"
proof -
  have "filter Not skipped = filter Not (take j skipped @ False # drop (Suc j) skipped)"
    using assms by (metis id_take_nth_drop)
  moreover have "filter Not (skipped[j := True]) = filter Not (take j skipped @ True # drop (Suc j) skipped)"
    using assms by (simp add: upd_conv_take_nth_drop)
  ultimately show ?thesis by (simp add: unskipped_def)
qed

lemma push_unskipped_measure:
  "push_unskipped js (skipped, stack) = (skipped', stack')
   \<Longrightarrow> 2 * unskipped skipped' + length stack' \<le> 2 * unskipped skipped + length stack"
proof (induction js arbitrary: skipped stack)
  case (Cons j js)
  show ?case
  proof (cases "j < length skipped \<and> \<not> skipped ! j")
    case True
    then show ?thesis using Cons.IH [of "skipped[j := True]" "j # stack"] Cons.prems unskipped_mark [of j skipped] by simp
  next
    case False
    then have "push_unskipped js (skipped, stack) = (skipped', stack')" using Cons.prems by (auto split: if_splits)
    then show ?thesis by (rule Cons.IH)
  qed
qed simp

function mark_loop :: "nat list list \<Rightarrow> nat list \<Rightarrow> bool list \<Rightarrow> bool list" where
  "mark_loop succs [] skipped = skipped"
| "mark_loop succs (k # stack) skipped =
     (case push_unskipped (succs ! k) (skipped, stack) of (skipped', stack') \<Rightarrow> mark_loop succs stack' skipped')"
  by pat_completeness auto
termination
  by (relation "measure (\<lambda>(_, stack, skipped). 2 * unskipped skipped + length stack)")
    (auto dest!: push_unskipped_measure [OF sym] simp: less_Suc_eq_le)

definition mark_skipped :: "nat \<Rightarrow> nat list list \<Rightarrow> bool list \<Rightarrow> bool list" where
  "mark_skipped i succs skipped = mark_loop succs [i] skipped"

subsection \<open>Starting nodes\<close>

definition output_message :: "string \<Rightarrow> string \<Rightarrow> item" where
  "output_message nm txt = UserMessage [Text (''['' @ nm @ '' output]'' @ [CHR 0x0A] @ txt)]"

definition node_input :: "'u graph_setup \<Rightarrow> string option list \<Rightarrow> nat \<Rightarrow> item list" where
  "node_input S finals i = gs_input S @ concat (map (\<lambda>p. case finals ! p of
       Some txt \<Rightarrow> [output_message (node_name S p) txt] | None \<Rightarrow> []) (g_preds S ! i))"

definition node_outcome :: "'u graph_setup \<Rightarrow> string option list \<Rightarrow> nat
    \<Rightarrow> agent_error + agent_event list \<times> agent_error option" where
  "node_outcome S finals i = snd (node_agent S i)
     (subagent_child (fst (gs_fresh S i)) (snd (gs_fresh S i)) (gs_ctx S)) (node_input S finals i)"

definition launch_one :: "'u graph_setup \<Rightarrow> graph_run \<Rightarrow> nat \<Rightarrow> graph_run" where
  "launch_one S s i =
     (let s = s\<lparr>gr_shown := gr_shown s @ [AgentUpdated (fst (node_agent S i))]\<rparr>
      in case node_outcome S (gr_finals s) i of
           Inr (evs, slot) \<Rightarrow> s\<lparr>gr_running := gr_running s @ [(i, evs)], gr_failures := (gr_failures s)[i := Some slot]\<rparr>
         | Inl e \<Rightarrow> s\<lparr>gr_failed := gr_failed s @ [i], gr_failures := (gr_failures s)[i := Some (Some e)],
             gr_skipped := mark_skipped i (g_succs S) (gr_skipped s)\<rparr>)"

definition launch :: "'u graph_setup \<Rightarrow> graph_run \<Rightarrow> graph_run" where
  "launch S s = foldl (launch_one S) (s\<lparr>gr_ready := []\<rparr>) (gr_ready s)"

subsection \<open>Events\<close>

fun release :: "nat list \<Rightarrow> bool list \<Rightarrow> nat list \<times> nat list \<Rightarrow> nat list \<times> nat list" where
  "release [] skipped (indegree, ready) = (indegree, ready)"
| "release (j # js) skipped (indegree, ready) =
     (let d = pred_usize (indegree ! j)
      in release js skipped (indegree[j := d], if d = 0 \<and> \<not> skipped ! j then ready @ [j] else ready))"

definition node_completed :: "'u graph_setup \<Rightarrow> graph_run \<Rightarrow> nat \<Rightarrow> token_usage \<Rightarrow> graph_run" where
  "node_completed S s i usage =
     (case release (g_succs S ! i) (gr_skipped s) (gr_indegree s, gr_ready s) of
        (indegree, ready) \<Rightarrow> s\<lparr>gr_total := usage_add (gr_total s) usage,
          gr_state := (gr_state s)(node_name S i \<mapsto> JString (unwrap_or [] (gr_finals s ! i))),
          gr_indegree := indegree, gr_ready := ready\<rparr>)"

definition node_failed :: "'u graph_setup \<Rightarrow> graph_run \<Rightarrow> nat \<Rightarrow> graph_run" where
  "node_failed S s i = s\<lparr>gr_failed := gr_failed s @ [i],
     gr_skipped := mark_skipped i (g_succs S) (gr_skipped s)\<rparr>"

definition on_event :: "'u graph_setup \<Rightarrow> graph_run \<Rightarrow> nat \<Rightarrow> agent_event \<Rightarrow> graph_run" where
  "on_event S s i ev =
     (case ev of
        RunStarted _ \<Rightarrow> s
      | MessageOutput it \<Rightarrow> s\<lparr>gr_shown := gr_shown s @ [ev],
          gr_finals := (case assistant_text it of
             Some t \<Rightarrow> (gr_finals s)[i := Some t] | None \<Rightarrow> gr_finals s)\<rparr>
      | RunCompleted usage \<Rightarrow> node_completed S s i usage
      | RunFailed _ \<Rightarrow> node_failed S s i
      | _ \<Rightarrow> s\<lparr>gr_shown := gr_shown s @ [ev]\<rparr>)"

text \<open>The stream at position \<open>p\<close> delivers its next event, or has ended and is dropped.\<close>

definition graph_step :: "'u graph_setup \<Rightarrow> graph_run \<Rightarrow> nat \<Rightarrow> graph_run" where
  "graph_step S s p =
     (case gr_running s ! p of
        (i, []) \<Rightarrow> s\<lparr>gr_running := take p (gr_running s) @ drop (Suc p) (gr_running s)\<rparr>
      | (i, ev # rest) \<Rightarrow> launch S (on_event S (s\<lparr>gr_running := (gr_running s)[p := (i, rest)]\<rparr>) i ev))"

definition graph_init :: "'u graph_setup \<Rightarrow> kv \<Rightarrow> graph_run" where
  "graph_init S st =
     (let n = length (ga_nodes (gs_graph S)); indegree = map length (g_preds S)
      in \<lparr>gr_indegree = indegree, gr_finals = replicate n None, gr_skipped = replicate n False,
          gr_failed = [], gr_failures = replicate n None, gr_total = usage_default, gr_running = [],
          gr_ready = roots indegree, gr_shown = [], gr_state = st\<rparr>)"

text \<open>The states any schedule can reach, and the loop under one schedule.\<close>

inductive graph_reach :: "'u graph_setup \<Rightarrow> kv \<Rightarrow> graph_run \<Rightarrow> bool" for S st where
  start: "graph_reach S st (launch S (graph_init S st))"
| event: "graph_reach S st s \<Longrightarrow> p < length (gr_running s) \<Longrightarrow> graph_reach S st (graph_step S s p)"

partial_function (option) graph_loop ::
    "'u graph_setup \<Rightarrow> (nat \<Rightarrow> nat) \<Rightarrow> nat \<Rightarrow> graph_run \<Rightarrow> graph_run option" where
  "graph_loop S pick k s =
     (if gr_running s = [] then Some s
      else graph_loop S pick (Suc k) (graph_step S s (pick k mod length (gr_running s))))"

declare graph_loop.simps [code]

subsection \<open>The end of the stream\<close>

definition first_failure :: "graph_run \<Rightarrow> agent_error" where
  "first_failure s = unwrap_or (OtherError ''a graph node failed'')
     (find_map (\<lambda>i. Option.bind (gr_failures s ! i) (\<lambda>slot. slot)) (gr_failed s))"

definition failure_message :: "'u graph_setup \<Rightarrow> graph_run \<Rightarrow> string" where
  "failure_message S s =
     (let E = gs_ext S;
          failed_names = sort (map (node_name S) (gr_failed s));
          skipped_names = sort (map (node_name S) (filter (\<lambda>i. gr_skipped s ! i) [0..<length (gr_skipped s)]))
      in ''graph node(s) '' @ dbg_strings E failed_names @ '' failed ('' @ agent_error_display E (first_failure s)
         @ ''); skipped downstream: '' @ dbg_strings E skipped_names)"

definition sink_outputs :: "'u graph_setup \<Rightarrow> string option list \<Rightarrow> string btree" where
  "sink_outputs S finals = fold (\<lambda>i. bt_insert (node_name S i) (unwrap_or [] (finals ! i)))
     (filter (\<lambda>i. g_succs S ! i = []) [0..<length (g_succs S)]) []"

definition sink_text :: "ext \<Rightarrow> string btree \<Rightarrow> string" where
  "sink_text E outs = (case outs of [(_, txt)] \<Rightarrow> txt
     | _ \<Rightarrow> to_string E (JObject (map (\<lambda>(k, t). (k, JString t)) outs)))"

definition graph_finish :: "'u graph_setup \<Rightarrow> graph_run \<Rightarrow> agent_event list \<times> agent_error option" where
  "graph_finish S s =
     (if gr_failed s \<noteq> [] then ([RunFailed (failure_message S s)], Some (first_failure s))
      else ([MessageOutput (AssistantMessage [Text (sink_text (gs_ext S) (sink_outputs S (gr_finals s)))]
               (Some (ga_name (gs_graph S)))),
             RunCompleted (gr_total s)], None))"

definition graph_agent_run :: "'u graph_setup \<Rightarrow> (nat \<Rightarrow> nat) \<Rightarrow> kv
    \<Rightarrow> ((agent_event list \<times> agent_error option) \<times> kv) option" where
  "graph_agent_run S pick st =
     (let nm = ga_name (gs_graph S)
      in case depth_error (gs_ctx S) of
           Some err \<Rightarrow> Some ((RunStarted nm # fst (fail_with (gs_ext S) err), Some err), st)
         | None \<Rightarrow> map_option (\<lambda>s. case graph_finish S s of (closing, slot) \<Rightarrow>
               ((RunStarted nm # gr_shown s @ closing, slot), gr_state s))
             (graph_loop S pick 0 (launch S (graph_init S st))))"

section \<open>Skipping marks exactly the descendants\<close>

definition marked :: "bool list \<Rightarrow> nat set" where
  "marked skipped = {j. j < length skipped \<and> skipped ! j}"

lemma push_unskipped_result:
  assumes "set js \<subseteq> {..<length skipped}" "push_unskipped js (skipped, stack) = (skipped', stack')"
  shows "marked skipped' = marked skipped \<union> set js \<and> set stack' = set stack \<union> (set js - marked skipped)
    \<and> length skipped' = length skipped"
  using assms
proof (induction js arbitrary: skipped stack)
  case (Cons j js)
  show ?case
  proof (cases "skipped ! j")
    case True
    then show ?thesis using Cons.IH [of skipped stack] Cons.prems by (auto simp: marked_def)
  next
    case False
    have "marked (skipped[j := True]) = insert j (marked skipped)"
      using Cons.prems(1) by (auto simp: marked_def nth_list_update)
    then show ?thesis
      using Cons.IH [of "skipped[j := True]" "j # stack"] Cons.prems False by (auto simp: marked_def)
  qed
qed simp

lemma mark_loop_result:
  assumes "adjacency n E preds succs" "length skipped = n" "set stack \<subseteq> {..<n}"
    and "\<forall>x\<in>marked skipped \<union> R. x \<notin> set stack \<longrightarrow> E `` {x} \<subseteq> marked skipped"
  shows "marked skipped \<subseteq> marked (mark_loop succs stack skipped)
    \<and> marked (mark_loop succs stack skipped) \<subseteq> marked skipped \<union> E\<^sup>+ `` set stack
    \<and> (\<forall>x\<in>marked (mark_loop succs stack skipped) \<union> R. E `` {x} \<subseteq> marked (mark_loop succs stack skipped))
    \<and> length (mark_loop succs stack skipped) = n"
  using assms
proof (induction succs stack skipped rule: mark_loop.induct)
  case (2 succs k stack skipped)
  obtain skipped' stack' where push: "push_unskipped (succs ! k) (skipped, stack) = (skipped', stack')" by force
  have k: "k < n" "set (succs ! k) = E `` {k}" "E `` {k} \<subseteq> {..<n}"
    using "2.prems" by (auto simp: adjacency_def)
  then have r: "marked skipped' = marked skipped \<union> E `` {k}" "set stack' = set stack \<union> (E `` {k} - marked skipped)"
      "length skipped' = n"
    using push_unskipped_result [OF _ push] "2.prems"(2) by auto
  have closed: "\<forall>x\<in>marked skipped' \<union> R. x \<notin> set stack' \<longrightarrow> E `` {x} \<subseteq> marked skipped'"
  proof (intro ballI impI)
    fix x
    assume x: "x \<in> marked skipped' \<union> R" "x \<notin> set stack'"
    show "E `` {x} \<subseteq> marked skipped'"
    proof (cases "x = k")
      case False
      then have "x \<in> marked skipped \<union> R" "x \<notin> set (k # stack)" using x r by auto
      then show ?thesis using "2.prems"(4) r(1) by blast
    qed (use r(1) in blast)
  qed
  have "set stack' \<subseteq> {..<n}" using r(2) k(3) "2.prems"(3) by auto
  note IH = "2.IH" [OF push [symmetric] "2.prems"(1) r(3) this closed]
  have "E\<^sup>+ `` set stack' \<subseteq> E\<^sup>+ `` set (k # stack)"
    unfolding r(2) by (auto intro: trancl_trans dest: r_into_trancl)
  moreover have "E `` {k} \<subseteq> E\<^sup>+ `` set (k # stack)" by auto
  ultimately show ?case using IH push r(1) by simp blast
qed auto

lemma mark_skipped_result:
  assumes "adjacency n E preds succs" "length skipped = n" "i < n" "marked skipped = E\<^sup>+ `` F"
  shows "marked (mark_skipped i succs skipped) = E\<^sup>+ `` insert i F \<and> length (mark_skipped i succs skipped) = n"
proof -
  let ?m = "marked (mark_skipped i succs skipped)"
  have "\<forall>x\<in>marked skipped \<union> {i}. x \<notin> set [i] \<longrightarrow> E `` {x} \<subseteq> marked skipped"
    unfolding assms(4) by (auto intro: trancl_into_trancl)
  from mark_loop_result [OF assms(1,2) _ this] assms(3)
  have r: "marked skipped \<subseteq> ?m" "?m \<subseteq> marked skipped \<union> E\<^sup>+ `` {i}" "\<forall>x\<in>?m \<union> {i}. E `` {x} \<subseteq> ?m"
      "length (mark_skipped i succs skipped) = n"
    by (simp_all add: mark_skipped_def)
  have "j \<in> ?m" if "(i, j) \<in> E\<^sup>+" for j
    using that by (induction rule: trancl_induct) (use r(3) in blast)+
  then show ?thesis using r assms(4) by auto
qed

end
