(* ===== verification/Graph_Sched.thy ===== *)
theory Graph_Sched
  imports Graph_Run
begin

text \<open>
  The correctness of the wavefront scheduler of \<open>Graph_Run\<close>: an invariant that every step keeps, a
  measure that every step decreases, and from them that every execution ends, that each node runs
  only after its predecessors completed, that exactly the descendants of failed nodes are never
  started, and that the outcome does not depend on the schedule. The interface is the locale
  \<open>graph_contract\<close>, interpreted on chains of language-model agents.
\<close>

section \<open>The invariant of the scheduler\<close>

text \<open>The text a node has shown last, and the usage it completed with.\<close>

fun text_event :: "string option \<Rightarrow> agent_event \<Rightarrow> string option" where
  "text_event t (MessageOutput it) = (case assistant_text it of Some x \<Rightarrow> Some x | None \<Rightarrow> t)"
| "text_event t _ = t"

definition text_after :: "agent_event list \<Rightarrow> string option" where
  "text_after evs = foldl text_event None evs"

definition node_usage :: "'u graph_setup \<Rightarrow> string option list \<Rightarrow> nat \<Rightarrow> token_usage" where
  "node_usage S finals i = (case node_outcome S finals i of
     Inr (evs, _) \<Rightarrow> (case last evs of RunCompleted u \<Rightarrow> u | _ \<Rightarrow> 0) | Inl _ \<Rightarrow> 0)"

text \<open>What the state holds of a started node whose stream was \<open>seen @ rest\<close>.\<close>

definition progress :: "'u graph_setup \<Rightarrow> graph_run \<Rightarrow> nat set \<Rightarrow> nat \<Rightarrow> bool" where
  "progress S s done i \<longleftrightarrow>
     (case node_outcome S (gr_finals s) i of
        Inl e \<Rightarrow> i \<in> set (gr_failed s) \<and> i \<notin> done \<and> i \<notin> fst ` set (gr_running s)
          \<and> gr_failures s ! i = Some (Some e) \<and> gr_finals s ! i = None
      | Inr (evs, slot) \<Rightarrow> gr_failures s ! i = Some slot
          \<and> (\<exists>seen rest. evs = seen @ rest \<and> gr_finals s ! i = text_after seen
              \<and> (\<forall>r. (i, r) \<in> set (gr_running s) \<longrightarrow> r = rest)
              \<and> (i \<notin> fst ` set (gr_running s) \<longrightarrow> rest = [])
              \<and> (i \<in> done \<longleftrightarrow> (\<exists>u. RunCompleted u \<in> set seen))
              \<and> (i \<in> set (gr_failed s) \<longleftrightarrow> (\<exists>m. RunFailed m \<in> set seen))))"

definition launched :: "graph_run \<Rightarrow> nat set" where
  "launched s = {i. i < length (gr_failures s) \<and> gr_failures s ! i \<noteq> None}"

text \<open>
  \<open>done\<close> are the completed nodes and \<open>todo\<close> the nodes to launch: the in-degrees count uncompleted
  predecessors, a launched node has only completed predecessors, the skipped nodes are the
  descendants of failed ones, and a node that is neither launched, skipped nor to be launched waits
  for a predecessor.
\<close>

definition sized :: "nat \<Rightarrow> graph_run \<Rightarrow> bool" where
  "sized n s \<longleftrightarrow> length (gr_indegree s) = n \<and> length (gr_finals s) = n \<and> length (gr_skipped s) = n
     \<and> length (gr_failures s) = n"

definition waiting_ok :: "nat \<Rightarrow> (nat \<times> nat) set \<Rightarrow> graph_run \<Rightarrow> nat set \<Rightarrow> nat list \<Rightarrow> bool" where
  "waiting_ok n E s done todo \<longleftrightarrow>
     (\<forall>j<n. gr_indegree s ! j = card ({i. (i, j) \<in> E} - done))
     \<and> (\<forall>j\<in>launched s. {i. (i, j) \<in> E} \<subseteq> done)
     \<and> marked (gr_skipped s) = E\<^sup>+ `` set (gr_failed s)
     \<and> (\<forall>j<n. j \<notin> launched s \<longrightarrow> gr_indegree s ! j = 0 \<longrightarrow> j \<in> marked (gr_skipped s) \<union> set todo)
     \<and> distinct todo \<and> set todo \<subseteq> {j. j < n \<and> j \<notin> launched s \<and> gr_indegree s ! j = 0}"

definition ledger_ok :: "'u graph_setup \<Rightarrow> kv \<Rightarrow> graph_run \<Rightarrow> nat set \<Rightarrow> bool" where
  "ledger_ok S st s done \<longleftrightarrow>
     gr_total s = (\<Sum>i\<in>done. node_usage S (gr_finals s) i)
     \<and> (\<forall>i\<in>done. gr_state s (node_name S i) = Some (JString (unwrap_or [] (gr_finals s ! i))))
     \<and> (\<forall>k. k \<notin> node_name S ` done \<longrightarrow> gr_state s k = st k)
     \<and> no_terminal (gr_shown s)"

definition sched_inv :: "'u graph_setup \<Rightarrow> (nat \<times> nat) set \<Rightarrow> kv \<Rightarrow> graph_run \<Rightarrow> nat set \<Rightarrow> nat list \<Rightarrow> bool" where
  "sched_inv S E st s done todo \<longleftrightarrow>
     (let n = length (ga_nodes (gs_graph S))
      in sized n s \<and> waiting_ok n E s done todo \<and> ledger_ok S st s done
         \<and> done \<subseteq> launched s \<and> set (gr_failed s) \<subseteq> launched s \<and> done \<inter> set (gr_failed s) = {}
         \<and> distinct (map fst (gr_running s)) \<and> fst ` set (gr_running s) \<subseteq> launched s
         \<and> (\<forall>i\<in>launched s. progress S s done i) \<and> (\<forall>i<n. i \<notin> launched s \<longrightarrow> gr_finals s ! i = None))"

lemma stream_ok_parts:
  assumes "stream_ok nm (seen @ ev # rest, slot)"
  shows "\<not> list_ex is_terminal seen \<and> (is_terminal ev \<longleftrightarrow> rest = [])"
proof -
  obtain pre e where e: "seen @ ev # rest = RunStarted nm # pre @ [e]" "no_terminal pre" "ends_with_slot e slot"
    using assms by (auto simp: stream_ok_def closes_def)
  have te: "is_terminal e" using e(3) by (cases e) auto
  have nt: "no_terminal (RunStarted nm # pre)" using e(2) by (simp add: no_terminal_def)
  show ?thesis
  proof (cases rest rule: rev_cases)
    case Nil
    then have "seen = RunStarted nm # pre" "ev = e" using e(1) by (metis append_Cons append1_eq_conv)+
    then show ?thesis using nt te Nil by (auto simp: no_terminal_def list_ex_iff list_all_iff)
  next
    case (snoc r x)
    then have "(seen @ ev # r) @ [x] = (RunStarted nm # pre) @ [e]" using e(1) by simp
    then have "seen @ ev # r = RunStarted nm # pre" by blast
    then have "no_terminal (seen @ ev # r)" using nt by simp
    then show ?thesis using snoc by (auto simp: no_terminal_def list_ex_iff list_all_iff)
  qed
qed

lemma text_after_snoc: "text_after (seen @ [ev]) = text_event (text_after seen) ev"
  by (simp add: text_after_def)

lemma progressI:
  assumes "node_outcome S (gr_finals s) i = Ok (seen @ rest, slot)" "gr_failures s ! i = Some slot"
    and "gr_finals s ! i = text_after seen" "\<And>r. (i, r) \<in> set (gr_running s) \<Longrightarrow> r = rest"
    and "i \<notin> fst ` set (gr_running s) \<Longrightarrow> rest = []"
    and "i \<in> done \<longleftrightarrow> (\<exists>u. RunCompleted u \<in> set seen)" "i \<in> set (gr_failed s) \<longleftrightarrow> (\<exists>m. RunFailed m \<in> set seen)"
  shows "progress S s done i"
  using assms unfolding progress_def by auto

lemma ready_irrelevant [simp]:
  "progress S (s\<lparr>gr_ready := r\<rparr>) done i = progress S s done i" "launched (s\<lparr>gr_ready := r\<rparr>) = launched s"
  by (auto simp: progress_def launched_def split: sum.splits)

lemmas sched_defs = sched_inv_def sized_def waiting_ok_def ledger_ok_def Let_def

lemma sched_invI:
  assumes "sized (length (ga_nodes (gs_graph S))) s" "waiting_ok (length (ga_nodes (gs_graph S))) E s done todo"
    and "ledger_ok S st s done" "done \<subseteq> launched s" "set (gr_failed s) \<subseteq> launched s"
    and "done \<inter> set (gr_failed s) = {}" "distinct (map fst (gr_running s))"
    and "fst ` set (gr_running s) \<subseteq> launched s" "\<And>i. i \<in> launched s \<Longrightarrow> progress S s done i"
    and "\<And>i. i < length (ga_nodes (gs_graph S)) \<Longrightarrow> i \<notin> launched s \<Longrightarrow> gr_finals s ! i = None"
  shows "sched_inv S E st s done todo"
  using assms unfolding sched_inv_def Let_def by blast

lemma sched_invD:
  assumes "sched_inv S E st s done todo"
  shows "sized (length (ga_nodes (gs_graph S))) s" "waiting_ok (length (ga_nodes (gs_graph S))) E s done todo"
    and "ledger_ok S st s done" "done \<subseteq> launched s" "set (gr_failed s) \<subseteq> launched s"
    and "done \<inter> set (gr_failed s) = {}" "distinct (map fst (gr_running s))"
    and "fst ` set (gr_running s) \<subseteq> launched s" "\<And>i. i \<in> launched s \<Longrightarrow> progress S s done i"
    and "\<And>i. i < length (ga_nodes (gs_graph S)) \<Longrightarrow> i \<notin> launched s \<Longrightarrow> gr_finals s ! i = None"
  using assms unfolding sched_inv_def Let_def by blast+

lemma sched_inv_ready [simp]: "sched_inv S E st (s\<lparr>gr_ready := r\<rparr>) done todo = sched_inv S E st s done todo"
  by (simp add: sched_defs)

lemma waiting_cong:
  assumes "gr_indegree s = gr_indegree s'" "gr_skipped s = gr_skipped s'" "gr_failed s = gr_failed s'"
    and "gr_failures s = gr_failures s'"
  shows "waiting_ok n E s done todo = waiting_ok n E s' done todo"
  unfolding waiting_ok_def launched_def assms ..

lemma running_update:
  assumes "distinct (map fst xs)" "p < length xs" "xs ! p = (i, r0)"
  shows "map fst (xs[p := (i, r)]) = map fst xs"
    and "(j, r') \<in> set (xs[p := (i, r)]) \<longleftrightarrow> (if j = i then r' = r else (j, r') \<in> set xs)"
proof -
  show eq: "map fst (xs[p := (i, r)]) = map fst xs"
    using assms(2,3) by (metis fst_conv list_update_id map_update nth_map)
  have idx: "k = p" if "k < length xs" "fst (xs ! k) = i" for k
    using that assms by (metis fst_conv length_map nth_eq_iff_index_eq nth_map)
  show "(j, r') \<in> set (xs[p := (i, r)]) \<longleftrightarrow> (if j = i then r' = r else (j, r') \<in> set xs)"
  proof (cases "j = i")
    case True
    then show ?thesis using assms(2) idx by (auto simp: in_set_conv_nth nth_list_update)
  next
    case False
    then show ?thesis using assms(2,3) by (auto simp: in_set_conv_nth nth_list_update) (metis fst_conv)+
  qed
qed

lemma release_result:
  assumes "distinct js" "\<forall>j\<in>set js. j < length indegree \<and> 0 < indegree ! j"
  shows "release js skipped (indegree, ready) =
    (map (\<lambda>j. if j \<in> set js then indegree ! j - 1 else indegree ! j) [0..<length indegree],
     ready @ filter (\<lambda>j. indegree ! j = 1 \<and> \<not> skipped ! j) js)"
  using assms
proof (induction js arbitrary: indegree ready)
  case Nil
  then show ?case by (simp add: map_nth)
next
  case (Cons j js)
  let ?ind = "indegree[j := indegree ! j - 1]"
  have f: "filter (\<lambda>i. ?ind ! i = 1 \<and> \<not> skipped ! i) js = filter (\<lambda>i. indegree ! i = 1 \<and> \<not> skipped ! i) js"
    using Cons.prems(1) by (intro filter_cong refl) (metis distinct.simps(2) nth_list_update_neq)
  have m: "map (\<lambda>i. if i \<in> set js then ?ind ! i - 1 else ?ind ! i) [0..<length indegree]
      = map (\<lambda>i. if i \<in> set (j # js) then indegree ! i - 1 else indegree ! i) [0..<length indegree]"
    using Cons.prems by (auto simp: nth_list_update)
  have p: "pred_usize (indegree ! j) = indegree ! j - 1" "(indegree ! j - 1 = 0) = (indegree ! j = 1)"
      "indegree ! j \<le> 1 \<longleftrightarrow> indegree ! j = 1"
    using Cons.prems(2) by (auto simp: pred_usize_def)
  have "release js skipped (?ind, q) = (map (\<lambda>i. if i \<in> set js then ?ind ! i - 1 else ?ind ! i) [0..<length indegree],
      q @ filter (\<lambda>i. ?ind ! i = 1 \<and> \<not> skipped ! i) js)" for q
    using Cons.IH [of ?ind] Cons.prems by (simp add: nth_list_update)
  then show ?case unfolding f m using p by (auto simp: Let_def)
qed

text \<open>A graph as the builder makes it, whose nodes keep the stream contract.\<close>

locale graph_contract =
  fixes S :: "'u graph_setup" and E :: "(nat \<times> nat) set"
  assumes adj: "adjacency (length (ga_nodes (gs_graph S))) E (g_preds S) (g_succs S)"
    and acyc: "acyclic E"
    and names_distinct: "distinct (map fst (ga_nodes (gs_graph S)))"
    and node_stream: "i < length (ga_nodes (gs_graph S)) \<Longrightarrow> snd (node_agent S i) c inp = Ok r
      \<Longrightarrow> stream_ok (fst (node_agent S i)) r"
begin

lemma preds_set: "i < length (ga_nodes (gs_graph S)) \<Longrightarrow> set (g_preds S ! i) = {p. (p, i) \<in> E}"
  using adj by (simp add: adjacency_def)

lemma wf_edges: "wf E"
  using adj acyc by (auto simp: adjacency_def intro!: finite_acyclic_wf
      finite_subset [of E "{..<length (ga_nodes (gs_graph S))} \<times> {..<length (ga_nodes (gs_graph S))}"])

lemma finite_preds: "finite {p. (p, i) \<in> E}"
  using adj by (auto simp: adjacency_def intro: finite_subset [of _ "{..<length (ga_nodes (gs_graph S))}"])

lemma outcome_stable:
  assumes "i < length (ga_nodes (gs_graph S))" "\<And>p. (p, i) \<in> E \<Longrightarrow> finals ! p = finals' ! p"
  shows "node_outcome S finals i = node_outcome S finals' i"
proof -
  have "node_input S finals i = node_input S finals' i"
    unfolding node_input_def using assms preds_set [OF assms(1)]
    by (intro arg_cong2 [of _ _ _ _ append] arg_cong [of _ _ concat] map_cong refl) auto
  then show ?thesis by (simp add: node_outcome_def)
qed

lemma not_behind:
  assumes "x \<notin> done" "done \<subseteq> ls" "\<forall>j\<in>ls. {i. (i, j) \<in> E} \<subseteq> done"
    and "(x, j) \<in> E\<^sup>+" "{i. (i, j) \<in> E} \<subseteq> done"
  shows False
  using assms(4,5)
proof (induction rule: trancl_induct)
  case (base y)
  then show ?case using assms(1) by auto
next
  case (step y z)
  then show ?case using assms(2,3) by blast
qed

lemma outcome_stream:
  assumes "i < length (ga_nodes (gs_graph S))" "node_outcome S finals i = Ok r"
  shows "stream_ok (fst (node_agent S i)) r"
  using assms(2) node_stream [OF assms(1)] unfolding node_outcome_def by blast

text \<open>What a step does for one node leaves the progress of the other nodes alone.\<close>

lemma progress_other:
  assumes "progress S s done j" "j \<noteq> i" "j < length (ga_nodes (gs_graph S))"
    and "\<And>p. (p, j) \<in> E \<Longrightarrow> p \<noteq> i"
    and "\<And>k. k \<noteq> i \<Longrightarrow> gr_finals s' ! k = gr_finals s ! k" "gr_failures s' ! j = gr_failures s ! j"
    and "\<And>r. (j, r) \<in> set (gr_running s') \<longleftrightarrow> (j, r) \<in> set (gr_running s)"
    and "j \<in> set (gr_failed s') \<longleftrightarrow> j \<in> set (gr_failed s)" "j \<in> done' \<longleftrightarrow> j \<in> done"
  shows "progress S s' done' j"
proof -
  have "node_outcome S (gr_finals s') j = node_outcome S (gr_finals s) j"
    using assms(3-5) by (intro outcome_stable) auto
  moreover have "j \<in> fst ` set (gr_running s') \<longleftrightarrow> j \<in> fst ` set (gr_running s)"
    using assms(7) by force
  ultimately show ?thesis
    using assms(1) assms(5) [OF assms(2)] assms(6-9) unfolding progress_def
    by (cases "node_outcome S (gr_finals s) j") auto
qed

lemma degree_zero:
  assumes "sched_inv S E st s done todo" "i < length (ga_nodes (gs_graph S))" "gr_indegree s ! i = 0"
  shows "{p. (p, i) \<in> E} \<subseteq> done"
proof -
  have "card ({p. (p, i) \<in> E} - done) = 0" using assms by (simp add: sched_defs)
  then show ?thesis using finite_preds [of i] by simp
qed

lemma launch_one_inv:
  assumes inv: "sched_inv S E st s done (i # todo)"
  shows "sched_inv S E st (launch_one S s i) done todo"
proof -
  let ?n = "length (ga_nodes (gs_graph S))"
  note I = inv [unfolded sched_defs]
  have i: "i < ?n" "i \<notin> launched s" "gr_indegree s ! i = 0" using I by auto
  have pre: "{p. (p, i) \<in> E} \<subseteq> done" using degree_zero [OF inv i(1,3)] .
  have len: "length (gr_failures s) = ?n" "length (gr_skipped s) = ?n" using I by auto
  have notin: "i \<notin> done" "i \<notin> set (gr_failed s)" "i \<notin> fst ` set (gr_running s)" "gr_finals s ! i = None"
    using I i by auto
  let ?s = "launch_one S s i"
  have fin: "gr_finals ?s = gr_finals s" "gr_indegree ?s = gr_indegree s" "gr_total ?s = gr_total s"
      "gr_state ?s = gr_state s" "gr_shown ?s = gr_shown s @ [AgentUpdated (fst (node_agent S i))]"
    by (auto simp: launch_one_def Let_def split: sum.splits)
  obtain x where fail: "gr_failures ?s = (gr_failures s)[i := Some x]"
    by (cases "node_outcome S (gr_finals s) i") (auto simp: launch_one_def Let_def)
  have la: "launched ?s = insert i (launched s)"
    using i(1) len by (auto simp: launched_def fail nth_list_update)
  have other: "progress S ?s done j" if j: "j \<in> launched s" for j
  proof (rule progress_other [where i = i and s = s])
    show "progress S s done j" using I j by blast
    show "j \<noteq> i" using j i by auto
    show "j < ?n" using j len by (simp add: launched_def)
    show "p \<noteq> i" if "(p, j) \<in> E" for p using that I j notin(1) by auto
    show "gr_failures ?s ! j = gr_failures s ! j" using j i(2) by (metis fail nth_list_update_neq)
  qed (use j i in \<open>auto simp: launch_one_def Let_def split: sum.splits\<close>)
  have own: "progress S ?s done i"
  proof (cases "node_outcome S (gr_finals s) i")
    case (Inl e)
    then show ?thesis using notin by (simp add: progress_def launch_one_def Let_def len i(1))
  next
    case (Inr r)
    obtain evs slot where r: "r = (evs, slot)" by force
    have "\<forall>r. (i, r) \<in> set (gr_running s) \<longrightarrow> r = evs" using notin(3) by force
    then show ?thesis using notin Inr r
      by (intro progressI [where seen = "[]" and rest = evs and slot = slot])
        (auto simp: launch_one_def Let_def len i(1) text_after_def)
  qed
  have skip: "marked (gr_skipped ?s) = E\<^sup>+ `` set (gr_failed ?s) \<and> length (gr_skipped ?s) = ?n
      \<and> marked (gr_skipped s) \<subseteq> marked (gr_skipped ?s)"
    using mark_skipped_result [OF adj len(2) i(1), of "set (gr_failed s)"] I
    by (auto simp: launch_one_def Let_def split: sum.splits)
  have sets: "set (gr_failed ?s) \<subseteq> insert i (set (gr_failed s))"
      "fst ` set (gr_running ?s) \<subseteq> insert i (fst ` set (gr_running s))" "distinct (map fst (gr_running ?s))"
      "done \<inter> set (gr_failed ?s) = {}"
    using sched_invD(6,7) [OF inv] notin by (auto simp: launch_one_def Let_def split: sum.splits)
  show ?thesis
  proof (rule sched_invI)
    show "waiting_ok ?n E ?s done todo"
      unfolding waiting_ok_def
    proof (intro conjI)
      show "\<forall>j\<in>launched ?s. {p. (p, j) \<in> E} \<subseteq> done" using I pre by (simp add: la)
      show "\<forall>j<?n. j \<notin> launched ?s \<longrightarrow> gr_indegree ?s ! j = 0 \<longrightarrow> j \<in> marked (gr_skipped ?s) \<union> set todo"
      proof (intro allI impI)
        fix j
        assume j: "j < ?n" "j \<notin> launched ?s" "gr_indegree ?s ! j = 0"
        then have "j \<in> marked (gr_skipped s) \<union> set (i # todo)" "j \<noteq> i" using I by (auto simp: la fin)
        then show "j \<in> marked (gr_skipped ?s) \<union> set todo" using skip by auto
      qed
      show "set todo \<subseteq> {j. j < ?n \<and> j \<notin> launched ?s \<and> gr_indegree ?s ! j = 0}" using I by (auto simp: la fin)
    qed (use I skip in \<open>simp_all add: fin\<close>)
    show "sized ?n ?s" "ledger_ok S st ?s done"
      using I skip by (simp_all add: sized_def ledger_ok_def fin fail no_terminal_def)
    show "progress S ?s done j" if "j \<in> launched ?s" for j using that other own by (auto simp: la)
    show "gr_finals ?s ! j = None" if "j < ?n" "j \<notin> launched ?s" for j
      using that sched_invD(10) [OF inv] by (simp add: la fin(1))
    show "done \<subseteq> launched ?s" using sched_invD(4) [OF inv] by (auto simp: la)
    show "set (gr_failed ?s) \<subseteq> launched ?s" using sets(1) sched_invD(5) [OF inv] by (auto simp: la)
    show "fst ` set (gr_running ?s) \<subseteq> launched ?s" using sets(2) sched_invD(8) [OF inv] unfolding la by blast
  qed (fact sets)+
qed

lemma launch_inv:
  assumes "sched_inv S E st s done (gr_ready s)"
  shows "sched_inv S E st (launch S s) done []"
proof -
  have "sched_inv S E st s done xs \<Longrightarrow> sched_inv S E st (foldl (launch_one S) s xs) done []" for s xs
    by (induction xs arbitrary: s) (simp_all add: launch_one_inv)
  then show ?thesis using assms by (simp add: launch_def)
qed

lemma init_inv: "sched_inv S E st (graph_init S st) {} (gr_ready (graph_init S st))"
proof -
  have "length (g_preds S ! j) = card {i. (i, j) \<in> E}" if "j < length (ga_nodes (gs_graph S))" for j
    using adj that by (auto simp: adjacency_def simp flip: distinct_card)
  then show ?thesis
    using adj by (auto simp: sched_defs graph_init_def launched_def marked_def roots_def adjacency_def no_terminal_def)
qed

text \<open>The next event of a running node: what the stream has shown before, and that the node is not settled.\<close>

lemma next_event:
  assumes inv: "sched_inv S E st s done []" and ev: "(i, ev # rest) \<in> set (gr_running s)"
  obtains seen slot where "node_outcome S (gr_finals s) i = Ok (seen @ ev # rest, slot)"
    "gr_finals s ! i = text_after seen" "i \<in> launched s" "i < length (ga_nodes (gs_graph S))"
    "gr_failures s ! i = Some slot" "i \<notin> done" "i \<notin> set (gr_failed s)" "\<not> list_ex is_terminal seen"
    "is_terminal ev \<longleftrightarrow> rest = []"
proof -
  have "i \<in> fst ` set (gr_running s)" using ev by force
  then have la: "i \<in> launched s" using inv unfolding sched_defs by blast
  then have n: "i < length (ga_nodes (gs_graph S))" using inv by (auto simp: sched_defs launched_def)
  have pr: "progress S s done i" using inv la by (auto simp: sched_defs)
  then obtain evs slot where out: "node_outcome S (gr_finals s) i = Ok (evs, slot)"
    using ev by (cases "node_outcome S (gr_finals s) i") (force simp: progress_def)+
  with pr ev obtain seen where seen: "evs = seen @ ev # rest" "gr_finals s ! i = text_after seen"
      "i \<in> done \<longleftrightarrow> (\<exists>u. RunCompleted u \<in> set seen)" "i \<in> set (gr_failed s) \<longleftrightarrow> (\<exists>m. RunFailed m \<in> set seen)"
      "gr_failures s ! i = Some slot"
    by (auto simp: progress_def)
  note parts = stream_ok_parts [OF outcome_stream [OF n out, unfolded seen(1)]]
  then have "i \<notin> done" "i \<notin> set (gr_failed s)" using seen(3,4) by (auto simp: list_ex_iff)
  then show thesis using that [of seen slot] out seen la n parts by auto
qed

lemma event_progress:
  assumes inv: "sched_inv S E st s done []" and p: "p < length (gr_running s)" "gr_running s ! p = (i, ev # rest)"
    and s': "gr_running s' = (gr_running s)[p := (i, rest)]" "gr_failures s' = gr_failures s"
      "\<And>k. k \<noteq> i \<Longrightarrow> gr_finals s' ! k = gr_finals s ! k" "gr_finals s' ! i = text_event (gr_finals s ! i) ev"
      "set (gr_failed s') = set (gr_failed s) \<union> {k. k = i \<and> (\<exists>m. ev = RunFailed m)}"
      "done' = done \<union> {k. k = i \<and> (\<exists>u. ev = RunCompleted u)}"
    and j: "j \<in> launched s"
  shows "progress S s' done' j"
proof -
  let ?n = "length (ga_nodes (gs_graph S))"
  have "(i, ev # rest) \<in> set (gr_running s)" using p by (metis nth_mem)
  then obtain seen slot where i: "node_outcome S (gr_finals s) i = Ok (seen @ ev # rest, slot)"
      "gr_finals s ! i = text_after seen" "i \<in> launched s" "i < ?n" "gr_failures s ! i = Some slot"
      "i \<notin> done" "i \<notin> set (gr_failed s)" "\<not> list_ex is_terminal seen"
    using next_event [OF inv] by blast
  note run = running_update [OF sched_invD(7) [OF inv] p]
  have pre: "(q, k) \<in> E \<Longrightarrow> q \<noteq> i" if "k \<in> launched s" for q k
    using sched_invD(2) [OF inv] that i(6) by (auto simp: waiting_ok_def)
  have "j < ?n" using j sched_invD(1) [OF inv] by (simp add: launched_def sized_def)
  show ?thesis
  proof (cases "j = i")
    case False
    show ?thesis
    proof (rule progress_other [OF sched_invD(9) [OF inv j] False \<open>j < ?n\<close> pre [OF j]])
      show "(j, r) \<in> set (gr_running s') \<longleftrightarrow> (j, r) \<in> set (gr_running s)" for r
        unfolding s'(1) run(2) using False by simp
    qed (use False s'(2,3,5,6) in auto)
  next
    case True
    have out: "node_outcome S (gr_finals s') i = node_outcome S (gr_finals s) i"
      using pre [OF i(3)] s'(3) i(4) by (intro outcome_stable) auto
    have fresh: "RunCompleted u \<notin> set seen" "RunFailed m \<notin> set seen" for u m
      using i(8) by (auto simp: list_ex_iff)
    have mine: "(i, r) \<in> set (gr_running s') \<longleftrightarrow> r = rest" for r using run(2) s'(1) by simp
    show ?thesis unfolding True
    proof (rule progressI)
      show "node_outcome S (gr_finals s') i = Ok ((seen @ [ev]) @ rest, slot)" using out i(1) by simp
      show "gr_failures s' ! i = Some slot" using i(5) s'(2) by simp
      show "gr_finals s' ! i = text_after (seen @ [ev])" using s'(4) i(2) by (simp add: text_after_snoc)
      show "r = rest" if "(i, r) \<in> set (gr_running s')" for r using that mine by simp
      show "rest = []" if "i \<notin> fst ` set (gr_running s')" using that mine [of rest] by force
      show "i \<in> done' \<longleftrightarrow> (\<exists>u. RunCompleted u \<in> set (seen @ [ev]))" using s'(6) i(6) fresh(1) by auto
      show "i \<in> set (gr_failed s') \<longleftrightarrow> (\<exists>m. RunFailed m \<in> set (seen @ [ev]))" using s'(5) i(7) fresh(2) by auto
    qed
  qed
qed

text \<open>The ledger of the completed nodes is not touched by what another node does.\<close>

lemma ledger_other:
  assumes inv: "sched_inv S E st s done todo" and i: "i \<notin> done"
    and s': "\<And>k. k \<noteq> i \<Longrightarrow> gr_finals s' ! k = gr_finals s ! k" "gr_total s' = gr_total s" "gr_state s' = gr_state s"
      "no_terminal (gr_shown s')"
  shows "ledger_ok S st s' done"
proof -
  have "node_usage S (gr_finals s') k = node_usage S (gr_finals s) k" if "k \<in> done" for k
  proof -
    have "k \<in> launched s" using that sched_invD(4) [OF inv] by blast
    then have "{q. (q, k) \<in> E} \<subseteq> done" "k < length (ga_nodes (gs_graph S))"
      using sched_invD(1,2) [OF inv] by (auto simp: waiting_ok_def launched_def sized_def)
    then have "node_outcome S (gr_finals s') k = node_outcome S (gr_finals s) k"
      using i by (intro outcome_stable s'(1)) auto
    then show ?thesis by (simp add: node_usage_def)
  qed
  moreover have "gr_finals s' ! k = gr_finals s ! k" if "k \<in> done" for k using that i s'(1) by metis
  ultimately show ?thesis using sched_invD(3) [OF inv] s'(2-4) by (simp add: ledger_ok_def)
qed

text \<open>An event that is not the last of its stream changes only what is shown and the text of its node.\<close>

lemma quiet_event_inv:
  assumes inv: "sched_inv S E st s done []" and p: "p < length (gr_running s)" "gr_running s ! p = (i, ev # rest)"
    and ev: "\<not> is_terminal ev"
    and s': "gr_running s' = (gr_running s)[p := (i, rest)]" "gr_failures s' = gr_failures s"
      "gr_indegree s' = gr_indegree s" "gr_skipped s' = gr_skipped s" "gr_failed s' = gr_failed s"
      "gr_total s' = gr_total s" "gr_state s' = gr_state s" "no_terminal (gr_shown s')"
      "gr_finals s' = (gr_finals s)[i := text_event (gr_finals s ! i) ev]"
  shows "sched_inv S E st s' done []"
proof -
  have "(i, ev # rest) \<in> set (gr_running s)" using p by (metis nth_mem)
  from next_event [OF inv this] have i: "i \<in> launched s" "i \<notin> done" "i < length (gr_finals s)"
    using sched_invD(1) [OF inv] by (auto simp: sized_def)
  have la: "launched s' = launched s" by (simp add: launched_def s'(2))
  note run = running_update [OF sched_invD(7) [OF inv] p]
  show ?thesis
  proof (rule sched_invI)
    show "sized (length (ga_nodes (gs_graph S))) s'" using sched_invD(1) [OF inv] s' by (simp add: sized_def)
    show "waiting_ok (length (ga_nodes (gs_graph S))) E s' done []"
      using sched_invD(2) [OF inv] unfolding waiting_ok_def la s'(3-5) .
    show "ledger_ok S st s' done" by (rule ledger_other [OF inv i(2)]) (use s' in simp_all)
    show "done \<subseteq> launched s'" "set (gr_failed s') \<subseteq> launched s'" "done \<inter> set (gr_failed s') = {}"
      using sched_invD(4-6) [OF inv] by (simp_all add: la s'(5))
    show "distinct (map fst (gr_running s'))" using sched_invD(7) [OF inv] by (simp add: s'(1) run(1))
    have "fst ` set (gr_running s') = set (map fst (gr_running s'))" by simp
    also have "\<dots> = fst ` set (gr_running s)" unfolding s'(1) run(1) by simp
    finally show "fst ` set (gr_running s') \<subseteq> launched s'" using sched_invD(8) [OF inv] by (simp add: la)
    show "progress S s' done j" if "j \<in> launched s'" for j
      by (rule event_progress [OF inv p]) (use that la s' ev i(3) in auto)
    show "gr_finals s' ! j = None" if "j < length (ga_nodes (gs_graph S))" "j \<notin> launched s'" for j
      using that sched_invD(10) [OF inv] i(1) unfolding la s'(9) by (metis nth_list_update_neq)
  qed
qed

text \<open>A completion releases the successors that waited for this node only.\<close>

lemma completed_waiting:
  assumes inv: "sched_inv S E st s done []" and i: "i < length (ga_nodes (gs_graph S))" "i \<notin> done"
    and s': "gr_failures s' = gr_failures s" "gr_skipped s' = gr_skipped s" "gr_failed s' = gr_failed s"
    and rel: "release (g_succs S ! i) (gr_skipped s) (gr_indegree s, []) = (gr_indegree s', todo)"
  shows "waiting_ok (length (ga_nodes (gs_graph S))) E s' (insert i done) todo
    \<and> length (gr_indegree s') = length (ga_nodes (gs_graph S))"
proof -
  let ?n = "length (ga_nodes (gs_graph S))"
  let ?P = "\<lambda>j. {p. (p, j) \<in> E}"
  have la: "launched s' = launched s" by (simp add: launched_def s'(1))
  have W: "\<And>j. j < ?n \<Longrightarrow> gr_indegree s ! j = card (?P j - done)" "\<And>j. j \<in> launched s \<Longrightarrow> ?P j \<subseteq> done"
      "marked (gr_skipped s) = E\<^sup>+ `` set (gr_failed s)"
      "\<And>j. j < ?n \<Longrightarrow> j \<notin> launched s \<Longrightarrow> gr_indegree s ! j = 0 \<Longrightarrow> j \<in> marked (gr_skipped s)"
    using sched_invD(2) [OF inv] unfolding waiting_ok_def by auto
  have len: "length (gr_indegree s) = ?n" "length (gr_skipped s) = ?n" using sched_invD(1) [OF inv] by (auto simp: sized_def)
  have succ: "set (g_succs S ! i) = {j. (i, j) \<in> E}" "distinct (g_succs S ! i)" "(i, j) \<in> E \<Longrightarrow> j < ?n" for j
    using adj i(1) unfolding adjacency_def by blast+
  have card: "card (?P j - done) = Suc (card (?P j - insert i done))" if "(i, j) \<in> E" for j
  proof -
    have "card (insert i (?P j - insert i done)) = Suc (card (?P j - insert i done))"
      by (rule card_insert_disjoint) (simp_all add: finite_preds)
    moreover have "insert i (?P j - insert i done) = ?P j - done" using that i(2) by auto
    ultimately show ?thesis by metis
  qed
  have other: "?P j - insert i done = ?P j - done" if "(i, j) \<notin> E" for j using that by auto
  have pos: "\<forall>j\<in>set (g_succs S ! i). j < length (gr_indegree s) \<and> 0 < gr_indegree s ! j"
  proof
    fix j
    assume "j \<in> set (g_succs S ! i)"
    then have e: "(i, j) \<in> E" using succ(1) by blast
    then show "j < length (gr_indegree s) \<and> 0 < gr_indegree s ! j"
      using succ(3) [OF e] W(1) [OF succ(3) [OF e]] card [OF e] len(1) by simp
  qed
  have r: "gr_indegree s' = map (\<lambda>j. if (i, j) \<in> E then gr_indegree s ! j - 1 else gr_indegree s ! j) [0..<?n]"
      "todo = filter (\<lambda>j. gr_indegree s ! j = 1 \<and> \<not> gr_skipped s ! j) (g_succs S ! i)"
    using release_result [OF succ(2) pos, of "gr_skipped s" "[]"] unfolding rel succ(1) len(1) by simp_all
  have deg: "gr_indegree s' ! j = card (?P j - insert i done)" if "j < ?n" for j
    using that card [of j] other [of j] W(1) [of j] by (cases "(i, j) \<in> E") (simp_all add: r(1))
  have "waiting_ok ?n E s' (insert i done) todo"
    unfolding waiting_ok_def la s'
  proof (intro conjI)
    show "\<forall>j<?n. gr_indegree s' ! j = card (?P j - insert i done)" using deg by blast
    show "\<forall>j\<in>launched s. ?P j \<subseteq> insert i done" using W(2) by blast
    show "\<forall>j<?n. j \<notin> launched s \<longrightarrow> gr_indegree s' ! j = 0 \<longrightarrow> j \<in> marked (gr_skipped s) \<union> set todo"
    proof (intro allI impI)
      fix j
      assume j: "j < ?n" "j \<notin> launched s" "gr_indegree s' ! j = 0"
      show "j \<in> marked (gr_skipped s) \<union> set todo"
      proof (cases "(i, j) \<in> E")
        case True
        then have "gr_indegree s ! j = 1" using deg [OF j(1)] j(3) W(1) [OF j(1)] card [OF True] by simp
        then show ?thesis using True j(1) len(2) by (auto simp: r(2) succ marked_def)
      next
        case False
        then show ?thesis using j(3) deg [OF j(1)] W(1) [OF j(1)] W(4) [OF j(1,2)] other [OF False] by simp
      qed
    qed
    show "distinct todo" using succ(2) by (simp add: r(2))
    show "set todo \<subseteq> {j. j < ?n \<and> j \<notin> launched s \<and> gr_indegree s' ! j = 0}"
      using succ(3) W(2) i(2) unfolding r succ(1) set_filter by fastforce
  qed (rule W(3))
  then show ?thesis by (simp add: r(1))
qed

lemma completed_ledger:
  assumes inv: "sched_inv S E st s done []" and i: "i < length (ga_nodes (gs_graph S))" "i \<notin> done"
    and out: "node_outcome S (gr_finals s) i = Ok (evs @ [RunCompleted u], slot)"
    and s': "gr_finals s' = gr_finals s" "gr_total s' = usage_add (gr_total s) u" "gr_shown s' = gr_shown s"
      "gr_state s' = (gr_state s)(node_name S i \<mapsto> JString (unwrap_or [] (gr_finals s ! i)))"
  shows "ledger_ok S st s' (insert i done)"
proof -
  let ?n = "length (ga_nodes (gs_graph S))"
  have L: "gr_total s = (\<Sum>k\<in>done. node_usage S (gr_finals s) k)"
      "\<And>k. k \<in> done \<Longrightarrow> gr_state s (node_name S k) = Some (JString (unwrap_or [] (gr_finals s ! k)))"
      "\<And>x. x \<notin> node_name S ` done \<Longrightarrow> gr_state s x = st x" "no_terminal (gr_shown s)"
    using sched_invD(3) [OF inv] unfolding ledger_ok_def by blast+
  have sub: "done \<subseteq> {..<?n}" using sched_invD(1,4) [OF inv] by (auto simp: launched_def sized_def)
  then have fin: "finite done" by (rule finite_subset) simp
  have other: "node_name S k \<noteq> node_name S i" if "k \<in> done" for k
  proof -
    have "k < ?n" "k \<noteq> i" using that sub i(2) by auto
    then show ?thesis using names_distinct i(1) nth_eq_iff_index_eq [OF names_distinct, of k i] by simp
  qed
  have "node_usage S (gr_finals s) i = u" by (simp add: node_usage_def out)
  then show ?thesis
    unfolding ledger_ok_def s' using L fin i(2) other by (simp add: add.commute)
qed

lemma settled_inv:
  assumes inv: "sched_inv S E st s done []" and p: "p < length (gr_running s)" "gr_running s ! p = (i, ev # rest)"
    and s': "gr_running s' = (gr_running s)[p := (i, rest)]" "gr_failures s' = gr_failures s" "gr_finals s' = gr_finals s"
      "length (gr_indegree s') = length (ga_nodes (gs_graph S))" "length (gr_skipped s') = length (ga_nodes (gs_graph S))"
      "set (gr_failed s') = set (gr_failed s) \<union> {k. k = i \<and> (\<exists>m. ev = RunFailed m)}"
      "done' = done \<union> {k. k = i \<and> (\<exists>u. ev = RunCompleted u)}"
    and ev: "is_terminal ev" and parts: "waiting_ok (length (ga_nodes (gs_graph S))) E s' done' todo" "ledger_ok S st s' done'"
  shows "sched_inv S E st s' done' todo"
proof -
  have "(i, ev # rest) \<in> set (gr_running s)" using p by (metis nth_mem)
  from next_event [OF inv this] have i: "i \<in> launched s" "i \<notin> done" "i \<notin> set (gr_failed s)" by auto
  have la: "launched s' = launched s" by (simp add: launched_def s'(2))
  note run = running_update [OF sched_invD(7) [OF inv] p]
  have own: "gr_finals s' ! i = text_event (gr_finals s ! i) ev" using ev by (cases ev) (simp_all add: s'(3))
  show ?thesis
  proof (rule sched_invI [OF _ parts])
    show "sized (length (ga_nodes (gs_graph S))) s'" using sched_invD(1) [OF inv] s' by (simp add: sized_def)
    show "done' \<subseteq> launched s'" "set (gr_failed s') \<subseteq> launched s'"
      using sched_invD(4,5) [OF inv] i(1) by (auto simp: la s'(6,7))
    show "done' \<inter> set (gr_failed s') = {}" using sched_invD(6) [OF inv] i(2,3) by (auto simp: s'(6,7))
    show "distinct (map fst (gr_running s'))" using sched_invD(7) [OF inv] by (simp add: s'(1) run(1))
    have "fst ` set (gr_running s') = set (map fst (gr_running s'))" by simp
    also have "\<dots> = fst ` set (gr_running s)" unfolding s'(1) run(1) by simp
    finally show "fst ` set (gr_running s') \<subseteq> launched s'" using sched_invD(8) [OF inv] by (simp add: la)
    show "progress S s' done' j" if "j \<in> launched s'" for j
      using that event_progress [OF inv p s'(1,2) _ own s'(6,7)] by (simp add: la s'(3))
    show "gr_finals s' ! j = None" if "j < length (ga_nodes (gs_graph S))" "j \<notin> launched s'" for j
      using that sched_invD(10) [OF inv] by (simp add: la s'(3))
  qed
qed

lemma completed_inv:
  assumes inv: "sched_inv S E st s done []" and p: "p < length (gr_running s)" "gr_running s ! p = (i, RunCompleted u # rest)"
    and ready: "gr_ready s = []"
  defines "s' \<equiv> node_completed S (s\<lparr>gr_running := (gr_running s)[p := (i, rest)]\<rparr>) i u"
  shows "sched_inv S E st s' (insert i done) (gr_ready s')"
proof -
  have "(i, RunCompleted u # rest) \<in> set (gr_running s)" using p by (metis nth_mem)
  then obtain seen slot where i: "node_outcome S (gr_finals s) i = Ok (seen @ [RunCompleted u], slot)"
      "i < length (ga_nodes (gs_graph S))" "i \<notin> done"
    by (rule next_event [OF inv]) auto
  have s': "gr_running s' = (gr_running s)[p := (i, rest)]" "gr_failures s' = gr_failures s" "gr_finals s' = gr_finals s"
      "gr_skipped s' = gr_skipped s" "gr_failed s' = gr_failed s" "gr_shown s' = gr_shown s"
      "gr_total s' = usage_add (gr_total s) u"
      "gr_state s' = (gr_state s)(node_name S i \<mapsto> JString (unwrap_or [] (gr_finals s ! i)))"
      "release (g_succs S ! i) (gr_skipped s) (gr_indegree s, []) = (gr_indegree s', gr_ready s')"
    by (simp_all add: s'_def node_completed_def ready split: prod.splits)
  note w = completed_waiting [OF inv i(2,3) s'(2,4,5,9)]
  show ?thesis
  proof (rule settled_inv [OF inv p s'(1-3)])
    show "ledger_ok S st s' (insert i done)" by (rule completed_ledger [OF inv i(2,3,1) s'(3,7,6,8)])
    show "length (gr_skipped s') = length (ga_nodes (gs_graph S))"
      using sched_invD(1) [OF inv] by (simp add: s'(4) sized_def)
  qed (use w s'(5) in auto)
qed

lemma failed_inv:
  assumes inv: "sched_inv S E st s done []" and p: "p < length (gr_running s)" "gr_running s ! p = (i, RunFailed m # rest)"
  defines "s' \<equiv> node_failed S (s\<lparr>gr_running := (gr_running s)[p := (i, rest)]\<rparr>) i"
  shows "sched_inv S E st s' done []"
proof -
  let ?n = "length (ga_nodes (gs_graph S))"
  have "(i, RunFailed m # rest) \<in> set (gr_running s)" using p by (metis nth_mem)
  from next_event [OF inv this] have i: "i < ?n" "i \<notin> done" by auto
  have s': "gr_running s' = (gr_running s)[p := (i, rest)]" "gr_failures s' = gr_failures s" "gr_finals s' = gr_finals s"
      "gr_indegree s' = gr_indegree s" "gr_failed s' = gr_failed s @ [i]"
      "gr_skipped s' = mark_skipped i (g_succs S) (gr_skipped s)"
      "gr_total s' = gr_total s" "gr_state s' = gr_state s" "gr_shown s' = gr_shown s"
    by (simp_all add: s'_def node_failed_def)
  have W: "\<forall>j<?n. gr_indegree s ! j = card ({i. (i, j) \<in> E} - done)" "\<forall>j\<in>launched s. {i. (i, j) \<in> E} \<subseteq> done"
      "marked (gr_skipped s) = E\<^sup>+ `` set (gr_failed s)"
      "\<And>j. j < ?n \<Longrightarrow> j \<notin> launched s \<Longrightarrow> gr_indegree s ! j = 0 \<Longrightarrow> j \<in> marked (gr_skipped s)"
    using sched_invD(2) [OF inv] unfolding waiting_ok_def by auto
  have "length (gr_skipped s) = ?n" "length (gr_indegree s) = ?n" using sched_invD(1) [OF inv] by (simp_all add: sized_def)
  note len = this
  have skip: "marked (gr_skipped s') = E\<^sup>+ `` insert i (set (gr_failed s))" "length (gr_skipped s') = ?n"
    using mark_skipped_result [OF adj len(1) i(1) W(3)] by (simp_all add: s'(6))
  have la: "launched s' = launched s" by (simp add: launched_def s'(2))
  show ?thesis
  proof (rule settled_inv [OF inv p s'(1-3)])
    show "ledger_ok S st s' done"
      by (rule ledger_other [OF inv i(2)]) (use sched_invD(3) [OF inv] s' in \<open>simp_all add: ledger_ok_def\<close>)
    show "waiting_ok ?n E s' done []"
      unfolding waiting_ok_def la s'(4,5)
    proof (intro conjI)
      show "\<forall>j<?n. j \<notin> launched s \<longrightarrow> gr_indegree s ! j = 0 \<longrightarrow> j \<in> marked (gr_skipped s') \<union> set []"
        using W(4) unfolding W(3) skip(1) by blast
    qed (use W(1,2) skip(1) in \<open>auto simp: s'(5)\<close>)
  qed (use s'(4,5) skip len in auto)
qed

lemma progress_drop:
  assumes pr: "progress S s done j" and ended: "(i, []) \<in> set (gr_running s)"
    and s': "gr_finals s' = gr_finals s" "gr_failures s' = gr_failures s" "gr_failed s' = gr_failed s"
      "\<And>j r. (j, r) \<in> set (gr_running s') \<longleftrightarrow> j \<noteq> i \<and> (j, r) \<in> set (gr_running s)"
  shows "progress S s' done j"
proof (cases "node_outcome S (gr_finals s) j")
  case (Inl e)
  then show ?thesis using pr s' by (force simp: progress_def)
next
  case (Inr r)
  then obtain seen rest slot where P: "r = (seen @ rest, slot)" "gr_failures s ! j = Some slot"
      "gr_finals s ! j = text_after seen" "\<forall>r. (j, r) \<in> set (gr_running s) \<longrightarrow> r = rest"
      "j \<notin> fst ` set (gr_running s) \<longrightarrow> rest = []" "j \<in> done \<longleftrightarrow> (\<exists>u. RunCompleted u \<in> set seen)"
      "j \<in> set (gr_failed s) \<longleftrightarrow> (\<exists>m. RunFailed m \<in> set seen)"
    using pr unfolding progress_def by auto
  show ?thesis
  proof (rule progressI)
    show "rest = []" if "j \<notin> fst ` set (gr_running s')"
    proof (cases "j = i")
      case False
      then have "j \<notin> fst ` set (gr_running s)" using that s'(4) by force
      then show ?thesis using P(5) by blast
    qed (use P(4) ended in blast)
  qed (use Inr P s' in auto)
qed

lemma dropped_inv:
  assumes inv: "sched_inv S E st s done []" and p: "p < length (gr_running s)" "gr_running s ! p = (i, [])"
  shows "sched_inv S E st (s\<lparr>gr_running := take p (gr_running s) @ drop (Suc p) (gr_running s)\<rparr>) done []"
    (is "sched_inv S E st ?s done []")
proof -
  have split: "gr_running s = take p (gr_running s) @ (i, []) # drop (Suc p) (gr_running s)"
    using p by (metis id_take_nth_drop)
  have d: "distinct (map fst (gr_running s))" by (rule sched_invD(7) [OF inv])
  have run: "(j, r) \<in> set (gr_running ?s) \<longleftrightarrow> j \<noteq> i \<and> (j, r) \<in> set (gr_running s)" for j r
    using d by (subst (asm) split, subst (2) split) (auto simp: image_iff)
  have la: "launched ?s = launched s" by (simp add: launched_def)
  show ?thesis
  proof (rule sched_invI)
    show "distinct (map fst (gr_running ?s))" using d by (subst (asm) split) simp
    show "fst ` set (gr_running ?s) \<subseteq> launched ?s" using sched_invD(8) [OF inv] run la by fastforce
    show "progress S ?s done j" if "j \<in> launched ?s" for j
    proof -
      have ended: "(i, []) \<in> set (gr_running s)" using p by (metis nth_mem)
      have "progress S s done j" using that sched_invD(9) [OF inv] by (simp add: la)
      then show ?thesis by (rule progress_drop [OF _ ended _ _ _ run]) simp_all
    qed
    show "waiting_ok (length (ga_nodes (gs_graph S))) E ?s done []"
      using sched_invD(2) [OF inv] by (rule waiting_cong [THEN iffD1, rotated -1]) simp_all
  qed (use sched_invD(1,3-6,10) [OF inv] in \<open>simp_all add: la sized_def ledger_ok_def\<close>)
qed

lemma event_inv:
  assumes inv: "sched_inv S E st s done []" and ready: "gr_ready s = []"
    and p: "p < length (gr_running s)" and r: "gr_running s ! p = (i, ev # rest)"
  defines "s' \<equiv> on_event S (s\<lparr>gr_running := (gr_running s)[p := (i, rest)]\<rparr>) i ev"
  shows "\<exists>done'. done \<subseteq> done' \<and> sched_inv S E st s' done' (gr_ready s')"
proof (cases "is_terminal ev")
  case True
  then consider u where "ev = RunCompleted u" | m where "ev = RunFailed m" by (cases ev) auto
  then show ?thesis
  proof cases
    case 1
    then show ?thesis using completed_inv [OF inv p] r ready by (auto simp: s'_def on_event_def)
  next
    case 2
    then show ?thesis using failed_inv [OF inv p] r ready by (auto simp: s'_def on_event_def node_failed_def)
  qed
next
  case False
  have nt: "no_terminal (gr_shown s)" using sched_invD(3) [OF inv] by (simp add: ledger_ok_def)
  have "sched_inv S E st s' done []"
    by (rule quiet_event_inv [OF inv p r False])
      (use False nt in \<open>auto simp: s'_def on_event_def no_terminal_def split: agent_event.splits option.splits\<close>)
  moreover have "gr_ready s' = []" using False ready by (cases ev) (auto simp: s'_def on_event_def)
  ultimately show ?thesis by auto
qed

text \<open>
  Every step of the scheduler keeps the invariant, and every step launches a node or consumes
  something of the streams that are running.
\<close>

lemma launched_launch:
  assumes "sched_inv S E st s done (gr_ready s)"
  shows "launched (launch S s) = launched s \<union> set (gr_ready s)"
proof -
  have "set xs \<subseteq> {..<length (gr_failures s)} \<Longrightarrow> launched (foldl (launch_one S) s xs) = launched s \<union> set xs" for s xs
  proof (induction xs arbitrary: s)
    case (Cons x xs)
    obtain y where f: "gr_failures (launch_one S s x) = (gr_failures s)[x := Some y]"
      by (cases "node_outcome S (gr_finals s) x") (auto simp: launch_one_def Let_def)
    have "launched (launch_one S s x) = insert x (launched s)"
      using Cons.prems by (auto simp: launched_def f nth_list_update)
    then show ?case using Cons by (simp add: f)
  qed simp
  moreover have "set (gr_ready s) \<subseteq> {..<length (gr_failures s)}"
    using sched_invD(1,2) [OF assms] by (auto simp: sized_def waiting_ok_def)
  ultimately show ?thesis by (simp add: launch_def)
qed

definition left_over :: "graph_run \<Rightarrow> nat \<times> nat" where
  "left_over s = (length (ga_nodes (gs_graph S)) - card (launched s), \<Sum>(_, evs)\<leftarrow>gr_running s. Suc (length evs))"

lemma step_inv:
  assumes inv: "sched_inv S E st s done []" and ready: "gr_ready s = []" and p: "p < length (gr_running s)"
  shows "\<exists>done'. done \<subseteq> done' \<and> sched_inv S E st (graph_step S s p) done' []"
    and "gr_ready (graph_step S s p) = []"
    and "(left_over (graph_step S s p), left_over s) \<in> less_than <*lex*> less_than"
proof -
  obtain i evs where r: "gr_running s ! p = (i, evs)" by force
  let ?s = "graph_step S s p"
  have split: "gr_running s = take p (gr_running s) @ (i, evs) # drop (Suc p) (gr_running s)"
    using p r by (metis id_take_nth_drop)
  have "(\<exists>done'. done \<subseteq> done' \<and> sched_inv S E st ?s done' []) \<and> gr_ready ?s = []
      \<and> (left_over ?s, left_over s) \<in> less_than <*lex*> less_than"
  proof (cases evs)
    case Nil
    have "(\<Sum>(_, evs)\<leftarrow>gr_running s. Suc (length evs))
        = Suc (\<Sum>(_, evs)\<leftarrow>take p (gr_running s) @ drop (Suc p) (gr_running s). Suc (length evs))"
      by (subst split) (simp add: Nil)
    moreover have "?s = s\<lparr>gr_running := take p (gr_running s) @ drop (Suc p) (gr_running s)\<rparr>"
      using r Nil by (simp add: graph_step_def)
    ultimately show ?thesis using dropped_inv [OF inv p] r Nil ready by (auto simp: left_over_def launched_def)
  next
    case (Cons ev rest)
    let ?t = "on_event S (s\<lparr>gr_running := (gr_running s)[p := (i, rest)]\<rparr>) i ev"
    have r: "gr_running s ! p = (i, ev # rest)" using r Cons by simp
    obtain done' where d: "done \<subseteq> done'" "sched_inv S E st ?t done' (gr_ready ?t)"
      using event_inv [OF inv ready p r] by blast
    have s: "?s = launch S ?t" using r by (simp add: graph_step_def)
    have ts: "gr_running ?t = (gr_running s)[p := (i, rest)]" "launched ?t = launched s"
      by (cases ev; simp add: on_event_def node_completed_def node_failed_def launched_def split: prod.splits)+
    have la: "launched ?s = launched s \<union> set (gr_ready ?t)" using launched_launch [OF d(2)] by (simp add: s ts)
    have dec: "(left_over ?s, left_over s) \<in> less_than <*lex*> less_than"
    proof (cases "gr_ready ?t")
      case Nil
      have "gr_running ?s = take p (gr_running s) @ (i, rest) # drop (Suc p) (gr_running s)"
      proof -
        have "gr_running ?s = gr_running ?t" by (simp add: s launch_def Nil)
        then show ?thesis using ts p by (simp add: upd_conv_take_nth_drop)
      qed
      then have "(\<Sum>(_, evs)\<leftarrow>gr_running s. Suc (length evs)) = Suc (\<Sum>(_, evs)\<leftarrow>gr_running ?s. Suc (length evs))"
        by (subst split) (simp add: Cons)
      then show ?thesis using la Nil by (simp add: left_over_def)
    next
      case (Cons x xs)
      have sub: "launched ?s \<subseteq> {..<length (ga_nodes (gs_graph S))}" "x \<notin> launched s" "x \<in> launched ?s"
      proof -
        have "set (gr_ready ?t) \<subseteq> {j. j < length (ga_nodes (gs_graph S)) \<and> j \<notin> launched s}"
          using sched_invD(2) [OF d(2)] unfolding waiting_ok_def ts(2) by blast
        moreover have "launched s \<subseteq> {..<length (ga_nodes (gs_graph S))}"
          using sched_invD(1) [OF inv] by (auto simp: sized_def launched_def)
        ultimately show "launched ?s \<subseteq> {..<length (ga_nodes (gs_graph S))}" "x \<notin> launched s" "x \<in> launched ?s"
          unfolding la Cons by auto
      qed
      then have "card (launched s) < card (launched ?s)"
        using la by (intro psubset_card_mono) (auto intro: finite_subset)
      moreover have "card (launched ?s) \<le> length (ga_nodes (gs_graph S))" using card_mono [OF _ sub(1)] by simp
      ultimately show ?thesis by (simp add: left_over_def diff_less_mono2)
    qed
    have "gr_ready (foldl (launch_one S) s xs) = gr_ready s" for s xs
      by (induction xs arbitrary: s) (simp_all add: launch_one_def Let_def split: sum.splits prod.splits)
    then have "gr_ready ?s = []" by (simp add: s launch_def)
    then show ?thesis using d(1) launch_inv [OF d(2)] dec by (auto simp: s)
  qed
  then show "\<exists>done'. done \<subseteq> done' \<and> sched_inv S E st ?s done' []" "gr_ready ?s = []"
      "(left_over ?s, left_over s) \<in> less_than <*lex*> less_than" by blast+
qed

lemma reach_inv: "graph_reach S st s \<Longrightarrow> (\<exists>done. sched_inv S E st s done []) \<and> gr_ready s = []"
proof (induction rule: graph_reach.induct)
  case start
  have "gr_ready (foldl (launch_one S) s xs) = gr_ready s" for s xs
    by (induction xs arbitrary: s) (simp_all add: launch_one_def Let_def split: sum.splits prod.splits)
  then show ?case using launch_inv [OF init_inv] by (auto simp: launch_def)
next
  case (event s p)
  then show ?case using step_inv by blast
qed

text \<open>Under every schedule the loop ends in a state that is reached by steps, with no stream running.\<close>

lemma loop_ends:
  "graph_reach S st s \<Longrightarrow> \<exists>s'. graph_loop S pick k s = Some s' \<and> graph_reach S st s' \<and> gr_running s' = []"
proof (induction s arbitrary: k
    rule: wf_induct_rule [OF wf_inv_image [OF wf_lex_prod [OF wf_less_than wf_less_than], of left_over]])
  case (1 s)
  let ?p = "pick k mod length (gr_running s)"
  show ?case
  proof (cases "gr_running s = []")
    case False
    then have p: "?p < length (gr_running s)" by simp
    have "(left_over (graph_step S s ?p), left_over s) \<in> less_than <*lex*> less_than"
      using reach_inv [OF "1.prems"] step_inv(3) [OF _ _ p] by blast
    then have "\<exists>s'. graph_loop S pick (Suc k) (graph_step S s ?p) = Some s' \<and> graph_reach S st s' \<and> gr_running s' = []"
      by (intro "1.IH" graph_reach.event "1.prems" p) simp
    then show ?thesis using False by (simp add: graph_loop.simps [of S pick k s])
  qed (use "1.prems" in \<open>simp add: graph_loop.simps [of S pick k s]\<close>)
qed

text \<open>
  When no stream is running, every node is settled: completed with all predecessors completed,
  failed, or skipped because it lies behind a failed node.
\<close>

lemma all_settled:
  assumes inv: "sched_inv S E st s done []" and idle: "gr_running s = []"
  shows "launched s = done \<union> set (gr_failed s)"
    and "i < length (ga_nodes (gs_graph S)) \<Longrightarrow> i \<notin> launched s \<longleftrightarrow> i \<in> E\<^sup>+ `` set (gr_failed s)"
proof -
  let ?n = "length (ga_nodes (gs_graph S))"
  have n: "i < ?n" if "i \<in> launched s" for i using that sched_invD(1) [OF inv] by (simp add: launched_def sized_def)
  have W: "\<And>j. j \<in> launched s \<Longrightarrow> {i. (i, j) \<in> E} \<subseteq> done" "marked (gr_skipped s) = E\<^sup>+ `` set (gr_failed s)"
      "\<And>j. j < ?n \<Longrightarrow> j \<notin> launched s \<Longrightarrow> card ({i. (i, j) \<in> E} - done) = 0 \<Longrightarrow> j \<in> marked (gr_skipped s)"
    using sched_invD(2) [OF inv] unfolding waiting_ok_def by auto
  have "i \<in> done \<union> set (gr_failed s)" if i: "i \<in> launched s" for i
  proof (cases "node_outcome S (gr_finals s) i")
    case (Inl e)
    then show ?thesis using sched_invD(9) [OF inv i] by (simp add: progress_def)
  next
    case (Inr r)
    obtain evs slot where r: "r = (evs, slot)" by force
    have "(i \<in> done \<longleftrightarrow> (\<exists>u. RunCompleted u \<in> set evs)) \<and> (i \<in> set (gr_failed s) \<longleftrightarrow> (\<exists>m. RunFailed m \<in> set evs))"
      using sched_invD(9) [OF inv i] Inr r by (auto simp: progress_def idle)
    moreover have "\<exists>e\<in>set evs. is_terminal e"
      using outcome_stream [OF n [OF i] Inr] r
      by (auto simp: stream_ok_def closes_def elim: ends_with_slot.elims)
    moreover have "is_terminal e \<Longrightarrow> (\<exists>u. e = RunCompleted u) \<or> (\<exists>m. e = RunFailed m)" for e by (cases e) auto
    ultimately show ?thesis by blast
  qed
  then show la: "launched s = done \<union> set (gr_failed s)" using sched_invD(4,5) [OF inv] by auto
  show "i \<notin> launched s \<longleftrightarrow> i \<in> E\<^sup>+ `` set (gr_failed s)" if i: "i < ?n"
  proof
    assume "i \<in> E\<^sup>+ `` set (gr_failed s)"
    then obtain f where f: "f \<in> set (gr_failed s)" "(f, i) \<in> E\<^sup>+" by blast
    show "i \<notin> launched s"
    proof
      assume "i \<in> launched s"
      moreover have "f \<notin> done" using f(1) sched_invD(6) [OF inv] by blast
      ultimately show False
        using not_behind [OF _ sched_invD(4) [OF inv] _ f(2)] W(1) by blast
    qed
  next
    show "i \<in> E\<^sup>+ `` set (gr_failed s)" if "i \<notin> launched s" using wf_edges that i
    proof (induction i rule: wf_induct_rule)
      case (less i)
      show ?case
      proof (cases "{p. (p, i) \<in> E} \<subseteq> done")
        case True
        then have "{p. (p, i) \<in> E} - done = {}" by blast
        then show ?thesis using W(2,3) less.prems by (metis card.empty)
      next
        case False
        then obtain p where p: "(p, i) \<in> E" "p \<notin> done" by blast
        then have "p < ?n" using adj by (auto simp: adjacency_def)
        then have "p \<in> set (gr_failed s) \<or> p \<in> E\<^sup>+ `` set (gr_failed s)"
          using less.IH [OF p(1)] la p(2) by blast
        then show ?thesis using p(1) by (auto intro: trancl_into_trancl)
      qed
    qed
  qed
qed

lemma idle_launched:
  assumes inv: "sched_inv S E st s done []" and idle: "gr_running s = []" and i: "i < length (ga_nodes (gs_graph S))"
  shows "i \<in> launched s \<longleftrightarrow> {p. (p, i) \<in> E} \<subseteq> done"
proof
  show "{p. (p, i) \<in> E} \<subseteq> done" if "i \<in> launched s"
    using that sched_invD(2) [OF inv] unfolding waiting_ok_def by blast
next
  assume pre: "{p. (p, i) \<in> E} \<subseteq> done"
  show "i \<in> launched s"
  proof (rule ccontr)
    assume "i \<notin> launched s"
    then obtain f where f: "f \<in> set (gr_failed s)" "(f, i) \<in> E\<^sup>+" using all_settled(2) [OF inv idle i] by blast
    then have "f \<notin> done" using sched_invD(6) [OF inv] by blast
    then show False using not_behind [OF _ sched_invD(4) [OF inv] _ f(2) pre] sched_invD(2) [OF inv]
      unfolding waiting_ok_def by blast
  qed
qed

lemma idle_node:
  assumes inv: "sched_inv S E st s done []" and idle: "gr_running s = []" and i: "i \<in> launched s"
  shows "case node_outcome S (gr_finals s) i of
      Inl e \<Rightarrow> gr_finals s ! i = None \<and> i \<notin> done \<and> i \<in> set (gr_failed s)
    | Inr (evs, slot) \<Rightarrow> gr_finals s ! i = text_after evs \<and> (i \<in> done \<longleftrightarrow> (\<exists>u. RunCompleted u \<in> set evs))
        \<and> (i \<in> set (gr_failed s) \<longleftrightarrow> (\<exists>m. RunFailed m \<in> set evs))"
  using sched_invD(9) [OF inv i] by (auto simp: progress_def idle split: sum.splits)

text \<open>Two executions that have ended agree on every node.\<close>

lemma idle_node_unique:
  assumes inv: "sched_inv S E st s done []" "sched_inv S E st t done' []" and idle: "gr_running s = []" "gr_running t = []"
  shows "i < length (ga_nodes (gs_graph S)) \<Longrightarrow> gr_finals s ! i = gr_finals t ! i
    \<and> (i \<in> done \<longleftrightarrow> i \<in> done') \<and> (i \<in> set (gr_failed s) \<longleftrightarrow> i \<in> set (gr_failed t))"
proof (induction i rule: wf_induct_rule [OF wf_edges])
  case (1 i)
  let ?n = "length (ga_nodes (gs_graph S))"
  have pre: "gr_finals s ! p = gr_finals t ! p" "p \<in> done \<longleftrightarrow> p \<in> done'" if "(p, i) \<in> E" for p
  proof -
    have "p < ?n" using that adj by (auto simp: adjacency_def)
    then show "gr_finals s ! p = gr_finals t ! p" "p \<in> done \<longleftrightarrow> p \<in> done'" using "1.IH" [OF that] by blast+
  qed
  have la: "i \<in> launched s \<longleftrightarrow> i \<in> launched t"
    unfolding idle_launched [OF inv(1) idle(1) "1.prems"] idle_launched [OF inv(2) idle(2) "1.prems"] using pre(2) by blast
  have out: "node_outcome S (gr_finals s) i = node_outcome S (gr_finals t) i" by (rule outcome_stable [OF "1.prems" pre(1)])
  show ?case
  proof (cases "i \<in> launched s")
    case True
    note a = idle_node [OF inv(1) idle(1) True, unfolded out] and b = idle_node [OF inv(2) idle(2) True [unfolded la]]
    then show ?thesis by (cases "node_outcome S (gr_finals t) i") auto
  next
    case False
    then show ?thesis using la sched_invD(4,5,10) [OF inv(1)] sched_invD(4,5,10) [OF inv(2)] "1.prems" by auto
  qed
qed

lemma idle_unique:
  assumes inv: "sched_inv S E st s done []" "sched_inv S E st t done' []" and idle: "gr_running s = []" "gr_running t = []"
  shows "gr_finals s = gr_finals t" "set (gr_failed s) = set (gr_failed t)" "gr_skipped s = gr_skipped t"
    and "gr_total s = gr_total t" "gr_state s = gr_state t"
proof -
  let ?n = "length (ga_nodes (gs_graph S))"
  note one = idle_node_unique [OF inv idle]
  have len: "length (gr_finals s) = ?n" "length (gr_finals t) = ?n" "length (gr_skipped s) = ?n" "length (gr_skipped t) = ?n"
    using sched_invD(1) [OF inv(1)] sched_invD(1) [OF inv(2)] by (simp_all add: sized_def)
  have bound: "done \<subseteq> {..<?n}" "done' \<subseteq> {..<?n}" "set (gr_failed s) \<subseteq> {..<?n}" "set (gr_failed t) \<subseteq> {..<?n}"
    using sched_invD(1,4,5) [OF inv(1)] sched_invD(1,4,5) [OF inv(2)] by (auto simp: sized_def launched_def)
  show fin: "gr_finals s = gr_finals t" using one len by (intro nth_equalityI) auto
  show fl: "set (gr_failed s) = set (gr_failed t)" using one bound(3,4) by blast
  have "marked (gr_skipped s) = marked (gr_skipped t)"
    using sched_invD(2) [OF inv(1)] sched_invD(2) [OF inv(2)] fl unfolding waiting_ok_def by simp
  then show "gr_skipped s = gr_skipped t" using len by (intro nth_equalityI) (auto simp: marked_def)
  have d: "done = done'" using one bound(1,2) by blast
  have L: "ledger_ok S st s done" "ledger_ok S st t done" using sched_invD(3) [OF inv(1)] sched_invD(3) [OF inv(2)] d by auto
  then show "gr_total s = gr_total t" by (simp add: ledger_ok_def fin)
  show "gr_state s = gr_state t"
  proof
    fix k
    show "gr_state s k = gr_state t k"
      using L by (cases "k \<in> node_name S ` done") (auto simp: ledger_ok_def fin)
  qed
qed

lemma started_after_predecessors:
  assumes "graph_reach S st s" "i \<in> launched s" "p \<in> set (g_preds S ! i)"
  shows "\<exists>evs u slot. node_outcome S (gr_finals s) p = Ok (evs @ [RunCompleted u], slot)
    \<and> gr_finals s ! p = text_after evs
    \<and> gr_state s (node_name S p) = Some (JString (unwrap_or [] (gr_finals s ! p)))"
proof -
  obtain D where inv: "sched_inv S E st s D []" using reach_inv [OF assms(1)] by blast
  have n: "i < length (ga_nodes (gs_graph S))" using assms(2) sched_invD(1) [OF inv] by (simp add: launched_def sized_def)
  have p: "p \<in> D" using assms(2,3) preds_set [OF n] sched_invD(2) [OF inv] unfolding waiting_ok_def by blast
  then have la: "p \<in> launched s" using sched_invD(4) [OF inv] by blast
  then have np: "p < length (ga_nodes (gs_graph S))" using sched_invD(1) [OF inv] by (simp add: launched_def sized_def)
  obtain evs slot where out: "node_outcome S (gr_finals s) p = Ok (evs, slot)"
    using sched_invD(9) [OF inv la] p by (cases "node_outcome S (gr_finals s) p") (auto simp: progress_def)
  obtain seen rest where sr: "evs = seen @ rest" "gr_finals s ! p = text_after seen" "\<exists>u. RunCompleted u \<in> set seen"
    using sched_invD(9) [OF inv la] p by (auto simp: progress_def out)
  then obtain u xs ys where u: "seen = xs @ RunCompleted u # ys" by (metis split_list)
  have "ys @ rest = []"
    using stream_ok_parts [of _ xs "RunCompleted u" "ys @ rest" slot] outcome_stream [OF np out] by (simp add: sr(1) u)
  moreover have "text_after (xs @ [RunCompleted u]) = text_after xs" by (simp add: text_after_snoc)
  ultimately show ?thesis using out sr u sched_invD(3) [OF inv] p by (auto simp: ledger_ok_def)
qed

lemma agent_run_stream:
  assumes "sched_inv S E st s done []"
  shows "stream_ok nm (RunStarted nm # gr_shown s @ fst (graph_finish S s), snd (graph_finish S s))"
proof -
  have "no_terminal (gr_shown s)" using sched_invD(3) [OF assms] by (simp add: ledger_ok_def)
  moreover have "closes (fst (graph_finish S s)) (snd (graph_finish S s))"
    by (auto simp: graph_finish_def closes_def no_terminal_def intro: exI [of _ "[MessageOutput x]" for x])
  ultimately show ?thesis by (auto simp: stream_ok_def intro: closes_append)
qed

end

section \<open>Graphs of language-model agents\<close>

definition chain_setup :: "ext \<Rightarrow> 'w surroundings \<Rightarrow> ('u, 'w) llm_agent list \<Rightarrow> 'u run_context \<Rightarrow> item list
    \<Rightarrow> 'u graph_setup" where
  "chain_setup X U As ctx inp =
     (let n = length As
      in \<lparr>gs_ext = X, gs_fresh = \<lambda>i. (2 * i, 2 * i + 1),
          gs_graph = \<lparr>ga_name = ''chain'', ga_description = [],
            ga_nodes = map (\<lambda>(i, A). (replicate i (CHR ''n''), la_name (leaf_agent A), llm_run (in_order U) (leaf_agent A)))
              (enumerate 0 As),
            ga_preds = map (\<lambda>i. if i = 0 then [] else [i - 1]) [0..<n],
            ga_succs = map (\<lambda>i. if Suc i < n then [Suc i] else []) [0..<n]\<rparr>,
          gs_ctx = ctx, gs_input = inp\<rparr>)"

interpretation chain: graph_contract "chain_setup X U As ctx inp" "{(i, j). j = Suc i \<and> j < length As}" for X U As ctx inp
proof unfold_locales
  let ?E = "{(i, j). j = Suc i \<and> j < length As}"
  have "?E \<subseteq> less_than" by auto
  then show "acyclic ?E" by (meson wf_acyclic wf_less_than wf_subset)
  show "distinct (map fst (ga_nodes (gs_graph (chain_setup X U As ctx inp))))"
    by (auto simp: chain_setup_def Let_def distinct_conv_nth nth_enumerate_eq dest: arg_cong [where f = length])
  show "adjacency (length (ga_nodes (gs_graph (chain_setup X U As ctx inp)))) ?E
      (g_preds (chain_setup X U As ctx inp)) (g_succs (chain_setup X U As ctx inp))"
    by (auto simp: chain_setup_def Let_def adjacency_def)
  show "i < length (ga_nodes (gs_graph (chain_setup X U As ctx inp)))
      \<Longrightarrow> snd (node_agent (chain_setup X U As ctx inp) i) c i' = Ok r
      \<Longrightarrow> stream_ok (fst (node_agent (chain_setup X U As ctx inp) i)) r" for i c i' r
    by (auto simp: chain_setup_def Let_def nth_enumerate_eq intro: leaf_stream)
qed

section \<open>What running a built graph guarantees\<close>

text \<open>Every node agent keeps the stream contract.\<close>

definition keep_streams :: "'u graph_builder \<Rightarrow> bool" where
  "keep_streams b \<longleftrightarrow> (\<forall>(_, ag)\<in>set (gb_nodes b). \<forall>c inp r. snd ag c inp = Ok r \<longrightarrow> stream_ok (fst ag) r)"

lemma built_graph_contract:
  assumes "graph_build b = Some (Ok (gs_graph S))"
    and "keep_streams b"
  shows "graph_contract S (edge_indices (map fst (gb_nodes b)) (gb_edges b))"
proof
  note g = graph_build_ok [OF assms(1)]
  show "stream_ok (fst (node_agent S i)) r"
    if "i < length (ga_nodes (gs_graph S))" "snd (node_agent S i) c inp = Ok r" for i c inp r
    using that bspec [OF assms(2) [unfolded keep_streams_def], of "ga_nodes (gs_graph S) ! i"]
    by (cases r) (simp add: split_beta flip: g(1))
qed (use graph_build_ok [OF assms(1)] in simp_all)


definition graph_ex :: "unit graph_agent" where
  "graph_ex = (case graph_build (builder_ex [(''a'', ''b''), (''b'', ''c'')]) of
     Some (Inr g) \<Rightarrow> g | _ \<Rightarrow> \<lparr>ga_name = [], ga_description = [], ga_nodes = [], ga_preds = [], ga_succs = []\<rparr>)"

definition setup_ex :: "unit graph_setup" where
  "setup_ex = \<lparr>gs_ext = su_ext around, gs_fresh = \<lambda>i. (2 * i, 2 * i + 1), gs_graph = graph_ex,
     gs_ctx = ctx_bypass, gs_input = []\<rparr>"

lemma setup_ex_built:
  "graph_build (builder_ex [(''a'', ''b''), (''b'', ''c'')]) = Some (Ok (gs_graph setup_ex))"
proof -
  have "map_option is_ok (graph_build (builder_ex [(''a'', ''b''), (''b'', ''c'')])) = Some True" by code_simp
  then show ?thesis by (auto simp: setup_ex_def graph_ex_def split: sum.splits)
qed

lemma builder_ex_streams: "keep_streams (builder_ex es)"
  by (auto simp: keep_streams_def builder_ex_fields stream_ok_def closes_def no_terminal_def)


text \<open>
  C13. At every moment of every execution of a built graph, a node that has been started has only
  predecessors that completed: each one's stream ended with \<open>RunCompleted\<close>, its recorded output is
  the last assistant text of that whole stream, and the coordination state holds this output under the
  node's name.
\<close>

theorem graph_starts_after_predecessors:
  assumes "graph_build b = Some (Ok (gs_graph S))"
    and "keep_streams b"
    and "graph_reach S st s" "i \<in> launched s" "p \<in> set (g_preds S ! i)"
  shows "\<exists>evs u slot. node_outcome S (gr_finals s) p = Ok (evs @ [RunCompleted u], slot)
    \<and> gr_finals s ! p = text_after evs
    \<and> gr_state s (node_name S p) = Some (JString (unwrap_or [] (gr_finals s ! p)))"
proof -
  have "graph_contract S (edge_indices (map fst (gb_nodes b)) (gb_edges b))"
    using assms(1,2) by (rule built_graph_contract)
  then show ?thesis using assms(3-5) by (rule graph_contract.started_after_predecessors)
qed

definition run_ex :: graph_run where
  "run_ex = graph_step setup_ex (graph_step setup_ex (launch setup_ex (graph_init setup_ex Map.empty)) 0) 0"

theorem graph_starts_after_predecessors_witness:
  "\<exists>evs u slot. node_outcome setup_ex (gr_finals run_ex) 0 = Ok (evs @ [RunCompleted u], slot)
    \<and> gr_finals run_ex ! 0 = text_after evs
    \<and> gr_state run_ex (node_name setup_ex 0) = Some (JString (unwrap_or [] (gr_finals run_ex ! 0)))"
proof -
  let ?s0 = "launch setup_ex (graph_init setup_ex Map.empty)"
  have n: "length (gr_running ?s0) = 1" "length (gr_running (graph_step setup_ex ?s0 0)) = 1"
      "g_preds setup_ex = [[], [0], [1]]" "map (\<lambda>f. f = None) (gr_failures run_ex) = [False, False, True]"
    by code_simp+
  have "graph_reach setup_ex Map.empty run_ex"
    unfolding run_ex_def using n by (intro graph_reach.event graph_reach.start) simp_all
  moreover have "length (gr_failures run_ex) = 3" "gr_failures run_ex ! 1 \<noteq> None"
    using arg_cong [OF n(4), of length] arg_cong [OF n(4), of "\<lambda>xs. xs ! 1"] by (simp_all add: nth_map)
  then have "1 \<in> launched run_ex" by (simp add: launched_def)
  ultimately show ?thesis
    by (rule graph_starts_after_predecessors [OF setup_ex_built builder_ex_streams]) (simp_all add: n(3))
qed



end
