(* ===== verification/Swarm.thy ===== *)
theory Swarm
  imports Workflow Graph_Build
begin

text \<open>
  Swarms (\<open>swarm.rs\<close>): a pool of language-model agents, each given a transfer tool to every other one,
  run as a chain of handoffs. Shown are what building decides, that a member's transfer targets are
  exactly the other members, that the run keeps the stream contract, that at most \<open>max_handoffs\<close>
  handoffs are shown, and that the chain is finite: the nesting depth bounds it.
\<close>

section \<open>Building\<close>

datatype swarm_build_error =
    SwarmEmpty
  | SwarmMissingName
  | DuplicateMember string
  | UnknownEntry string

text \<open>The injector of a member appends transfer targets to its agent, so the builder keeps the agent.\<close>

record ('u, 'w) swarm_builder =
  sb_name :: "string option"
  sb_description :: string
  sb_members :: "('u, 'w) llm_agent list"
  sb_entry :: "string option"
  sb_max_handoffs :: "u32 option"

record ('u, 'w) swarm_agent =
  sw_name :: string
  sw_description :: string
  sw_members :: "('u, 'w) llm_agent list"
  sw_entry_idx :: nat
  sw_max_handoffs :: "u32 option"

definition swarm_builder_new :: "('u, 'w) swarm_builder" where
  "swarm_builder_new = \<lparr>sb_name = None, sb_description = [], sb_members = [], sb_entry = None, sb_max_handoffs = None\<rparr>"

definition swarm_with_name :: "string \<Rightarrow> ('u, 'w) swarm_builder \<Rightarrow> ('u, 'w) swarm_builder" where
  "swarm_with_name nm b = b\<lparr>sb_name := Some nm\<rparr>"

definition swarm_with_description :: "string \<Rightarrow> ('u, 'w) swarm_builder \<Rightarrow> ('u, 'w) swarm_builder" where
  "swarm_with_description d b = b\<lparr>sb_description := d\<rparr>"

definition swarm_member :: "('u, 'w) llm_agent \<Rightarrow> ('u, 'w) swarm_builder \<Rightarrow> ('u, 'w) swarm_builder" where
  "swarm_member A b = b\<lparr>sb_members := sb_members b @ [A]\<rparr>"

definition swarm_entry :: "string \<Rightarrow> ('u, 'w) swarm_builder \<Rightarrow> ('u, 'w) swarm_builder" where
  "swarm_entry nm b = b\<lparr>sb_entry := Some nm\<rparr>"

definition swarm_limit :: "u32 \<Rightarrow> ('u, 'w) swarm_builder \<Rightarrow> ('u, 'w) swarm_builder" where
  "swarm_limit limit b = b\<lparr>sb_max_handoffs := Some limit\<rparr>"

definition swarm_build :: "('u, 'w) swarm_builder \<Rightarrow> swarm_build_error + ('u, 'w) swarm_agent" where
  "swarm_build b =
     (case sb_name b of
        None \<Rightarrow> Err SwarmMissingName
      | Some nm \<Rightarrow>
          (if sb_members b = [] then Err SwarmEmpty
           else (case duplicate_in [] (map la_name (sb_members b)) of
               Some x \<Rightarrow> Err (DuplicateMember x)
             | None \<Rightarrow>
                 (case (case sb_entry b of
                          None \<Rightarrow> Ok 0
                        | Some e \<Rightarrow> (case position (map la_name (sb_members b)) e of
                              Some i \<Rightarrow> Ok i | None \<Rightarrow> Err (UnknownEntry e))) of
                    Inl err \<Rightarrow> Err err
                  | Inr i \<Rightarrow> Ok \<lparr>sw_name = nm, sw_description = sb_description b, sw_members = sb_members b,
                      sw_entry_idx = i, sw_max_handoffs = sb_max_handoffs b\<rparr>))))"

section \<open>Wiring\<close>

text \<open>
  A slot forwards to its member while the member is alive. Members refer to each other through their
  slots, so the wiring is unrolled \<open>n\<close> levels deep; \<open>swarm_depth_enough\<close> shows that a run does not depend on
  \<open>n\<close> once it exceeds the nesting depth.
\<close>

definition slot_run :: "string \<Rightarrow> 'u agent_run option \<Rightarrow> 'u agent_run" where
  "slot_run nm target ctx input =
     (case target of
        Some run \<Rightarrow> run ctx input
      | None \<Rightarrow> Err (OtherError (''swarm member '' @ [CHR 0x27] @ nm @ [CHR 0x27] @ '' is no longer alive'')))"

definition mesh :: "(nat \<Rightarrow> 'u agent_run option) \<Rightarrow> ('u, 'w) llm_agent list \<Rightarrow> nat \<Rightarrow> ('u, 'w) llm_agent" where
  "mesh targets As i =
     (let slot = (\<lambda>j. \<lparr>ho_name = la_name (As ! j), ho_description = la_description (As ! j),
                    ho_run = slot_run (la_name (As ! j)) (targets j)\<rparr>)
      in (As ! i)\<lparr>la_handoffs := la_handoffs (As ! i) @ map slot (filter (\<lambda>j. j \<noteq> i) [0..<length As])\<rparr>)"

fun member_run :: "nat \<Rightarrow> 'w surroundings \<Rightarrow> ('u, 'w) llm_agent list \<Rightarrow> nat \<Rightarrow> 'u agent_run option" where
  "member_run 0 U As i = None"
| "member_run (Suc n) U As i = Some (llm_run U (mesh (member_run n U As) As i))"

section \<open>Running\<close>

text \<open>The relay: what is shown of the entry member's stream, and the error that cuts it off.\<close>

fun swarm_relay :: "ext \<Rightarrow> u32 option \<Rightarrow> u32 \<Rightarrow> agent_event list \<Rightarrow> agent_event list \<times> agent_error option" where
  "swarm_relay E limit hops [] = ([], None)"
| "swarm_relay E limit hops (RunStarted _ # evs) = swarm_relay E limit hops evs"
| "swarm_relay E limit hops (HandoffItem a b # evs) =
     (let hops = hops + 1
      in case limit of
           Some l \<Rightarrow> (if hops > l then fail_with E (MaxHandoffsExceeded l)
             else (case swarm_relay E limit hops evs of (shown, err) \<Rightarrow> (HandoffItem a b # shown, err)))
         | None \<Rightarrow> (case swarm_relay E limit hops evs of (shown, err) \<Rightarrow> (HandoffItem a b # shown, err)))"
| "swarm_relay E limit hops (ev # evs) =
     (case swarm_relay E limit hops evs of (shown, err) \<Rightarrow> (ev # shown, err))"

definition saw_failed :: "agent_event list \<Rightarrow> bool" where
  "saw_failed evs = list_ex (\<lambda>e. case e of RunFailed _ \<Rightarrow> True | _ \<Rightarrow> False) evs"

text \<open>\<open>slots\<close> are the fresh failure and action slots of the child context, \<open>n\<close> the depth of the wiring.\<close>

definition swarm_run :: "nat \<Rightarrow> ext \<Rightarrow> 'w surroundings \<Rightarrow> addr \<times> addr \<Rightarrow> ('u, 'w) swarm_agent
    \<Rightarrow> 'u run_context \<Rightarrow> item list \<Rightarrow> agent_event list \<times> agent_error option" where
  "swarm_run n E U slots W ctx input =
     (let started = RunStarted (sw_name W);
          entry = mesh (member_run n U (sw_members W)) (sw_members W) (sw_entry_idx W)
      in case depth_error ctx of
           Some err \<Rightarrow> (started # fst (fail_with E err), Some err)
         | None \<Rightarrow>
             (let opening = [started, AgentUpdated (la_name entry)]
              in case llm_run U entry (subagent_child (fst slots) (snd slots) ctx) input of
                   Inl e \<Rightarrow> (opening @ fst (fail_with E e), Some e)
                 | Inr (evs, child_failure) \<Rightarrow>
                     (case swarm_relay E (sw_max_handoffs W) 0 evs of
                        (shown, Some err) \<Rightarrow> (opening @ shown, Some err)
                      | (shown, None) \<Rightarrow> (opening @ shown, if saw_failed evs then child_failure else None))))"

section \<open>What building decides\<close>

lemma swarm_build_ok:
  "is_ok (swarm_build b) \<longleftrightarrow> sb_name b \<noteq> None \<and> sb_members b \<noteq> [] \<and> distinct (map la_name (sb_members b))
     \<and> (\<forall>e. sb_entry b = Some e \<longrightarrow> e \<in> set (map la_name (sb_members b)))"
  using duplicate_in_None [of "[]" "map la_name (sb_members b)"] position_None [of "map la_name (sb_members b)"]
  by (auto simp: swarm_build_def split: option.splits sum.splits) (metis option.distinct(1))

lemma swarm_build_result:
  assumes "swarm_build b = Ok W"
  shows "sw_members W = sb_members b" "sw_max_handoffs W = sb_max_handoffs b"
    and "sw_entry_idx W < length (sw_members W)"
    and "\<forall>e. sb_entry b = Some e \<longrightarrow> la_name (sw_members W ! sw_entry_idx W) = e"
    and "sb_entry b = None \<longrightarrow> sw_entry_idx W = 0"
  using assms by (auto simp: swarm_build_def split: option.splits sum.splits if_splits dest!: position_Some)

text \<open>Every member can transfer to every other member, and to nobody else it could not before.\<close>

lemma mesh_targets:
  assumes "i < length As"
  shows "map ho_name (la_handoffs (mesh targets As i))
    = map ho_name (la_handoffs (As ! i)) @ map (\<lambda>j. la_name (As ! j)) (filter (\<lambda>j. j \<noteq> i) [0..<length As])"
    and "distinct (map la_name As) \<Longrightarrow> set (map ho_name (la_handoffs (mesh targets As i)))
    = set (map ho_name (la_handoffs (As ! i))) \<union> (set (map la_name As) - {la_name (As ! i)})"
proof -
  show eq: "map ho_name (la_handoffs (mesh targets As i))
    = map ho_name (la_handoffs (As ! i)) @ map (\<lambda>j. la_name (As ! j)) (filter (\<lambda>j. j \<noteq> i) [0..<length As])"
    by (simp add: mesh_def Let_def comp_def)
  assume d: "distinct (map la_name As)"
  have "la_name ` set As = (\<lambda>j. la_name (As ! j)) ` {j. j < length As}" by (auto simp: set_conv_nth)
  moreover have "la_name (As ! j) = la_name (As ! i) \<longleftrightarrow> j = i" if "j < length As" for j
    using nth_eq_iff_index_eq [OF d, of j i] that assms by simp
  ultimately have "(\<lambda>j. la_name (As ! j)) ` {j. j < length As \<and> j \<noteq> i} = set (map la_name As) - {la_name (As ! i)}"
    by auto
  then show "set (map ho_name (la_handoffs (mesh targets As i)))
    = set (map ho_name (la_handoffs (As ! i))) \<union> (set (map la_name As) - {la_name (As ! i)})"
    unfolding eq by (simp add: atLeast0LessThan lessThan_def Collect_conj_eq [symmetric] image_image)
qed

section \<open>The stream contract\<close>

lemma swarm_relay_closes:
  "closes evs slot \<Longrightarrow> swarm_relay E limit hops evs = (shown, err)
   \<Longrightarrow> closes shown (case err of Some e \<Rightarrow> Some e | None \<Rightarrow> slot)"
proof (induction evs arbitrary: hops shown)
  case (Cons ev evs)
  show ?case
  proof (cases "\<exists>a b l. ev = HandoffItem a b \<and> limit = Some l \<and> hops + 1 > l")
    case True
    then show ?thesis using Cons.prems(2) by (auto simp: fail_with_def intro!: closes_single)
  next
    case False
    show ?thesis
    proof (cases "evs = []")
      case True
      then show ?thesis using Cons.prems by (cases ev) (auto simp: closes_Cons)
    next
      case nonempty: False
      then have rest: "closes evs slot" "\<not> is_terminal ev" using Cons.prems(1) by (auto simp: closes_Cons)
      obtain hops' shown' where s: "swarm_relay E limit hops' evs = (shown', err)"
          "shown = shown' \<or> shown = ev # shown'"
        using Cons.prems(2) rest(2) False
        by (cases ev) (auto simp: Let_def split: prod.splits option.splits if_splits)
      have "closes shown' (case err of Some e \<Rightarrow> Some e | None \<Rightarrow> slot)" by (rule Cons.IH [OF rest(1) s(1)])
      then show ?thesis using s(2) rest(2) by (auto simp: closes_Cons)
    qed
  qed
qed simp

lemma saw_failed_closes: "closes evs slot \<Longrightarrow> saw_failed evs \<longleftrightarrow> slot \<noteq> None"
proof (induction evs)
  case (Cons ev evs)
  then show ?case by (cases ev) (auto simp: closes_Cons saw_failed_def)
qed simp

text \<open>
  A pool of agents that keep the contract: so do they after the wiring, at every depth. The members may have
  transfer targets of their own.
\<close>

lemma env_contract: "agent_env U A \<Longrightarrow> agent_contract (la_name A) (llm_run U A)"
  by (rule agent_contract.intro) (auto simp: llm_run_def intro: agent_env.llm_stream_ok split: option.splits)

locale swarm_pool =
  fixes U :: "'w surroundings" and As :: "('u, 'w) llm_agent list"
  assumes pool_order: "mset (su_order U k evs) = mset evs"
    and own_handoffs: "A \<in> set As \<Longrightarrow> h \<in> set (la_handoffs A) \<Longrightarrow> agent_contract (ho_name h) (ho_run h)"
begin

lemma mesh_env:
  assumes "i < length As" "\<And>j run. j < length As \<Longrightarrow> targets j = Some run \<Longrightarrow> agent_contract (la_name (As ! j)) run"
  shows "agent_env U (mesh targets As i)"
proof (rule agent_env.intro)
  fix h :: "'u handoff"
  assume "h \<in> set (la_handoffs (mesh targets As i))"
  then consider "h \<in> set (la_handoffs (As ! i))"
    | j where "j < length As" "h = \<lparr>ho_name = la_name (As ! j), ho_description = la_description (As ! j),
        ho_run = slot_run (la_name (As ! j)) (targets j)\<rparr>"
    by (auto simp: mesh_def Let_def)
  then show "agent_contract (ho_name h) (ho_run h)"
  proof cases
    case 1
    then show ?thesis using own_handoffs assms(1) nth_mem by blast
  next
    case 2
    show ?thesis
    proof
      fix ctx input r
      assume "ho_run h ctx input = Ok r"
      then show "stream_ok (ho_name h) r"
        using 2 agent_contract.run_stream [OF assms(2) [OF 2(1)]] by (auto simp: slot_run_def split: option.splits)
    qed
  qed
qed (rule pool_order)

lemma member_contract:
  "i < length As \<Longrightarrow> member_run n U As i = Some run \<Longrightarrow> agent_contract (la_name (As ! i)) run"
proof (induction n arbitrary: i run)
  case (Suc n)
  have "agent_env U (mesh (member_run n U As) As i)" using Suc by (intro mesh_env) auto
  moreover have "la_name (mesh (member_run n U As) As i) = la_name (As ! i)" by (simp add: mesh_def Let_def)
  ultimately show ?case using Suc.prems(2) env_contract by fastforce
qed simp

end

section \<open>The depth bounds the chain of handoffs\<close>

text \<open>Targets that look alike and, unless the depth guard stops the transfer, answer alike.\<close>

definition same_targets :: "bool \<Rightarrow> 'u run_context \<Rightarrow> 'u handoff list \<Rightarrow> 'u handoff list \<Rightarrow> bool" where
  "same_targets guarded child = list_all2 (\<lambda>h g. ho_name h = ho_name g \<and> ho_description h = ho_description g
     \<and> (guarded \<or> ho_run h child = ho_run g child))"

lemma same_targets_find:
  assumes "same_targets guarded child hs gs"
  shows "rel_option (\<lambda>h g. guarded \<or> ho_run h child = ho_run g child)
    (find (\<lambda>h. ho_name h = x) hs) (find (\<lambda>h. ho_name h = x) gs)"
  using assms unfolding same_targets_def by (induction rule: list_all2_induct) auto

lemma same_targets_defs: "same_targets guarded child hs gs \<Longrightarrow> map to_def hs = map to_def gs"
  unfolding same_targets_def by (induction rule: list_all2_induct) (auto simp: to_def_def)

lemma handoff_fields:
  "la_name (A\<lparr>la_handoffs := hs\<rparr>) = la_name A" "la_handoffs (A\<lparr>la_handoffs := hs\<rparr>) = hs"
  "la_hooks (A\<lparr>la_handoffs := hs\<rparr>) = la_hooks A" "la_tools (A\<lparr>la_handoffs := hs\<rparr>) = la_tools A"
  "la_model (A\<lparr>la_handoffs := hs\<rparr>) = la_model A" "la_config (A\<lparr>la_handoffs := hs\<rparr>) = la_config A"
  "la_instructions (A\<lparr>la_handoffs := hs\<rparr>) = la_instructions A"
  "la_output_type (A\<lparr>la_handoffs := hs\<rparr>) = la_output_type A"
  "la_model_settings (A\<lparr>la_handoffs := hs\<rparr>) = la_model_settings A"
  "la_input_guardrails (A\<lparr>la_handoffs := hs\<rparr>) = la_input_guardrails A"
  "la_output_guardrails (A\<lparr>la_handoffs := hs\<rparr>) = la_output_guardrails A"
  by simp_all

lemma effective_config_handoffs: "effective_config (A\<lparr>la_handoffs := hs\<rparr>) ctx = effective_config A ctx"
  by (simp add: effective_config_def)

abbreviation (input) too_deep :: "('u, 'w) llm_agent \<Rightarrow> 'u run_context \<Rightarrow> bool" where
  "too_deep A ctx \<equiv> rx_agent_depth (handoff_child ctx) > cfg_max_agent_depth (effective_config A ctx)"

lemma apply_handoff_cong:
  assumes "same_targets (too_deep A ctx) (handoff_child ctx) hs gs"
  shows "apply_handoff U (A\<lparr>la_handoffs := hs\<rparr>) ctx k target transcript u
    = apply_handoff U (A\<lparr>la_handoffs := gs\<rparr>) ctx k target transcript u"
proof (cases "too_deep A ctx")
  case False
  then show ?thesis
    using same_targets_find [OF assms, of target]
    unfolding apply_handoff_def Let_def handoff_fields effective_config_handoffs
    by (cases "find (\<lambda>h. ho_name h = target) hs"; cases "find (\<lambda>h. ho_name h = target) gs")
      (auto split: option.splits)
qed (simp add: apply_handoff_def Let_def effective_config_handoffs)

lemma run_tools_handoffs:
  "run_tools_concurrent U (A\<lparr>la_handoffs := hs\<rparr>) ctx tctx k calls = run_tools_concurrent U A ctx tctx k calls"
  unfolding run_tools_concurrent_def run_tool_call_def post_tool_def handoff_fields ..

lemma iterate_cong:
  assumes "same_targets (too_deep A ctx) (handoff_child ctx) hs gs"
  shows "iterate U (A\<lparr>la_handoffs := hs\<rparr>) ctx d = iterate U (A\<lparr>la_handoffs := gs\<rparr>) ctx d"
  unfolding iterate_def perform_def call_model_def execute_tools_def output_trip_def transition_ctx_of_def tool_defs_def
    handoff_fields effective_config_handoffs run_tools_handoffs apply_handoff_cong [OF assms] same_targets_defs [OF assms] ..

lemma llm_run_cong:
  assumes "same_targets (too_deep A ctx) (handoff_child ctx) hs gs"
  shows "llm_run U (A\<lparr>la_handoffs := hs\<rparr>) ctx input = llm_run U (A\<lparr>la_handoffs := gs\<rparr>) ctx input"
proof -
  have "drive n U (A\<lparr>la_handoffs := hs\<rparr>) ctx d = drive n U (A\<lparr>la_handoffs := gs\<rparr>) ctx d" for n d
    by (induction n arbitrary: d) (simp_all add: iterate_cong [OF assms] split: prod.splits sum.splits)
  note drive = this
  show ?thesis
    unfolding llm_run_def llm_stream_def start_driver_def drive_fuel_def tool_defs_def
      handoff_fields effective_config_handoffs drive same_targets_defs [OF assms] ..
qed

text \<open>The wiring is deep enough when it exceeds the nesting that the configured depth leaves.\<close>

definition deep_enough :: "nat \<Rightarrow> ('u, 'w) llm_agent list \<Rightarrow> 'u run_context \<Rightarrow> bool" where
  "deep_enough n As ctx \<longleftrightarrow> (\<forall>A\<in>set As. let mx = cfg_max_agent_depth (effective_config A ctx)
     in mx < - 1 \<and> unat mx < n + unat (rx_agent_depth ctx))"

lemma depth_step:
  assumes "mx < (- 1 :: u32)" "\<not> saturating_succ d > mx"
  shows "unat (saturating_succ d) = Suc (unat d)"
proof -
  have "d \<noteq> - 1" using assms by (auto simp: saturating_succ_def)
  then have "d < - 1" by (simp add: word_order.not_eq_extremum)
  then show ?thesis using u32_succ [of d "- 1"] by (simp add: saturating_succ_def \<open>d \<noteq> - 1\<close>)
qed

lemma member_run_deep:
  assumes "deep_enough n As ctx" "deep_enough m As ctx" "i < length As"
  shows "llm_run U (mesh (member_run n U As) As i) ctx input = llm_run U (mesh (member_run m U As) As i) ctx input"
  using assms
proof (induction n arbitrary: m ctx i input rule: less_induct)
  case (less n)
  let ?A = "As ! i" and ?child = "handoff_child ctx"
  let ?mx = "cfg_max_agent_depth (effective_config ?A ctx)"
  let ?slot = "\<lambda>n j. \<lparr>ho_name = la_name (As ! j), ho_description = la_description (As ! j),
    ho_run = slot_run (la_name (As ! j)) (member_run n U As j)\<rparr>"
  let ?hs = "\<lambda>n. la_handoffs ?A @ map (?slot n) (filter (\<lambda>j. j \<noteq> i) [0..<length As])"
  have mx: "?mx < - 1" "unat ?mx < n + unat (rx_agent_depth ctx)" "unat ?mx < m + unat (rx_agent_depth ctx)"
    using less.prems nth_mem [OF less.prems(3)] by (auto simp: deep_enough_def Let_def)
  have slots: "slot_run nm (member_run n U As j) ?child = slot_run nm (member_run m U As j) ?child"
    if shallow: "\<not> too_deep ?A ctx" and j: "j < length As" for nm j
  proof -
    have d: "unat (rx_agent_depth ?child) = Suc (unat (rx_agent_depth ctx))"
      using depth_step [OF mx(1)] shallow by (simp add: handoff_child_def)
    moreover have "unat (rx_agent_depth ?child) \<le> unat ?mx" using shallow by (simp add: word_le_nat_alt not_less)
    ultimately obtain n' m' where nm: "n = Suc n'" "m = Suc m'" using mx(2,3) by (cases n; cases m) auto
    have cfg: "effective_config B ?child = effective_config B ctx" for B
      by (simp add: effective_config_def handoff_child_def)
    have "deep_enough n' As ?child" "deep_enough m' As ?child"
      using less.prems(1,2) by (simp_all add: deep_enough_def d cfg nm)
    then show ?thesis using less.IH [of n' ?child m' j] j by (intro ext) (simp add: nm slot_run_def)
  qed
  have "same_targets (too_deep ?A ctx) ?child (?hs n) (?hs m)"
    unfolding same_targets_def
    by (rule list_all2_appendI) (auto simp: list.rel_map intro!: list.rel_refl_strong, use slots in blast)
  from llm_run_cong [OF this, of U input] show ?case by (simp add: mesh_def Let_def)
qed

text \<open>
  The result of a swarm run is determined by the nesting depth: wirings that are unrolled deeper than
  the configured agent depth leaves give the same run, so the mutual references of the members are
  never followed without bound.
\<close>

theorem swarm_depth_enough:
  assumes "swarm_build b = Ok W"
    and "deep_enough n (sw_members W) (subagent_child (fst slots) (snd slots) ctx)"
    and "deep_enough m (sw_members W) (subagent_child (fst slots) (snd slots) ctx)"
  shows "swarm_run n E U slots W ctx input = swarm_run m E U slots W ctx input"
proof -
  have nm: "la_name (mesh t As i) = la_name (As ! i)" for t As i by (simp add: mesh_def Let_def)
  show ?thesis
    unfolding swarm_run_def Let_def nm
      member_run_deep [OF assms(2,3) swarm_build_result(3) [OF assms(1)], of U input] ..
qed

section \<open>What running a swarm guarantees\<close>

definition handoffs_shown :: "agent_event list \<Rightarrow> nat" where
  "handoffs_shown evs = length (filter (\<lambda>e. case e of HandoffItem _ _ \<Rightarrow> True | _ \<Rightarrow> False) evs)"

lemma swarm_relay_bound:
  assumes "l < - 1" "hops \<le> l"
  shows "handoffs_shown (fst (swarm_relay E (Some l) hops evs)) + unat hops \<le> unat l"
  using assms(2)
proof (induction evs arbitrary: hops)
  case Nil
  then show ?case by (simp add: handoffs_shown_def word_le_nat_alt)
next
  case (Cons ev evs)
  have "hops < - 1" using Cons.prems assms(1) by simp
  then have succ: "unat (hops + 1) = Suc (unat hops)" using u32_succ by simp
  show ?case
  proof (cases "\<exists>a b. ev = HandoffItem a b")
    case True
    show ?thesis
    proof (cases "hops + 1 > l")
      case False
      then show ?thesis using True Cons.IH [of "hops + 1"] succ by (auto simp: handoffs_shown_def split: prod.splits)
    qed (use True Cons.prems in \<open>auto simp: fail_with_def handoffs_shown_def word_le_nat_alt\<close>)
  next
    case False
    then show ?thesis using Cons.IH [OF Cons.prems] by (cases ev) (auto simp: handoffs_shown_def split: prod.splits)
  qed
qed

context swarm_pool
begin

lemma swarm_stream:
  assumes "sw_members W = As" "sw_entry_idx W < length As"
  shows "stream_ok (sw_name W) (swarm_run n E U slots W ctx input)"
proof (cases "depth_error ctx")
  case (Some err)
  then show ?thesis by (simp add: swarm_run_def Let_def stream_ok_def fail_with_def closes_Cons)
next
  case None
  let ?entry = "mesh (member_run n U As) As (sw_entry_idx W)"
  let ?run = "llm_run U ?entry (subagent_child (fst slots) (snd slots) ctx) input"
  have env: "agent_contract (la_name ?entry) (llm_run U ?entry)"
    using assms(2) member_contract by (intro env_contract mesh_env) auto
  show ?thesis
  proof (cases ?run)
    case (Inl e)
    then show ?thesis using None assms by (simp add: swarm_run_def Let_def stream_ok_def fail_with_def closes_Cons)
  next
    case (Inr r)
    then obtain rest slot where r: "r = (RunStarted (la_name ?entry) # rest, slot)" "closes rest slot"
      using agent_contract.run_closes [OF env] by (cases r) blast
    obtain shown err where rel: "swarm_relay E (sw_max_handoffs W) 0 rest = (shown, err)" by force
    note c = swarm_relay_closes [OF r(2) rel]
    have "saw_failed (RunStarted x # rest) \<longleftrightarrow> slot \<noteq> None" for x
      using saw_failed_closes [OF r(2)] by (simp add: saw_failed_def)
    then have "closes shown (case err of Some e \<Rightarrow> Some e
        | None \<Rightarrow> if saw_failed (RunStarted (la_name ?entry) # rest) then slot else None)"
      using c by (cases err; cases slot) auto
    then show ?thesis using None Inr r(1) rel assms
      by (cases err) (simp_all add: swarm_run_def Let_def stream_ok_def closes_Cons)
  qed
qed

end

interpretation team: swarm_pool "in_order U" "map leaf_agent As" for U As
  by unfold_locales (auto simp: in_order_def leaf_agent_def)


definition pair_swarm :: "(unit, nat) swarm_builder" where
  "pair_swarm = swarm_limit 3 (swarm_member (agent_a\<lparr>la_name := ''b''\<rparr>) (swarm_member agent_a
     (swarm_with_name ''pair'' swarm_builder_new)))"

definition pair_agent :: "(unit, nat) swarm_agent" where
  "pair_agent = \<lparr>sw_name = ''pair'', sw_description = [], sw_members = [agent_a, agent_a\<lparr>la_name := ''b''\<rparr>],
     sw_entry_idx = 0, sw_max_handoffs = Some 3\<rparr>"

lemma pair_swarm_builds: "swarm_build pair_swarm = Ok pair_agent"
  by (simp add: pair_swarm_def pair_agent_def swarm_build_def swarm_limit_def swarm_member_def swarm_with_name_def
      swarm_builder_new_def agent_a_def)

theorem swarm_depth_enough_witness:
  "swarm_run 20 ext_ex around (1, 2) pair_agent ctx_bypass [] = swarm_run 50 ext_ex around (1, 2) pair_agent ctx_bypass []"
proof -
  have "deep_enough n (sw_members pair_agent) (subagent_child (fst (1, 2)) (snd (1, 2)) ctx_bypass)" if "20 \<le> n" for n
    using that by (simp add: deep_enough_def pair_agent_def effective_config_def agent_a_def run_config_default_def
        subagent_child_def ctx_bypass_def run_context_new_def Let_def)
  then show ?thesis by (intro swarm_depth_enough [OF pair_swarm_builds]) simp_all
qed


end
