(* ===== verification/Agent_Tool.thy ===== *)
theory Agent_Tool
  imports Runner Workflow Graph_Run
begin

text \<open>
  The coordination state that agents and tools of one run share (\<open>state.rs\<close>) and agents exposed as tools
  (\<open>agent_as_tool.rs\<close>). It is shown that the guarded counter admits exactly as many uses as its limit
  leaves, however the operations of concurrent holders interleave, and what calling an agent as a
  tool returns on every branch.
\<close>

section \<open>The coordination state\<close>

definition state_new :: kv where
  "state_new = Map.empty"

definition state_get :: "kv \<Rightarrow> string \<Rightarrow> json option" where
  "state_get st k = st k"

definition state_set :: "string \<Rightarrow> json \<Rightarrow> kv \<Rightarrow> kv" where
  "state_set k v st = st(k \<mapsto> v)"

definition state_contains :: "kv \<Rightarrow> string \<Rightarrow> bool" where
  "state_contains st k \<longleftrightarrow> st k \<noteq> None"

text \<open>\<open>Value::as_u64\<close>: an unsigned integer literal that fits 64 bits.\<close>

definition json_as_u64 :: "json \<Rightarrow> u64 option" where
  "json_as_u64 v = (case v of
     JNumber s \<Rightarrow> (if s \<noteq> [] \<and> list_all is_ascii_digit s \<and> digits_value s < 2 ^ 64
       then Some (of_nat (digits_value s)) else None)
   | _ \<Rightarrow> None)"

definition json_of_u64 :: "u64 \<Rightarrow> json" where
  "json_of_u64 n = JNumber (show_nat (unat n))"

definition counter :: "kv \<Rightarrow> string \<Rightarrow> u64" where
  "counter st k = unwrap_or 0 (Option.bind (st k) json_as_u64)"

definition increment_u64_if_below :: "string \<Rightarrow> u64 \<Rightarrow> kv \<Rightarrow> bool \<times> kv" where
  "increment_u64_if_below k mx st =
     (let current = counter st k
      in if current < mx then (True, st(k \<mapsto> json_of_u64 (current + 1))) else (False, st))"

text \<open>The signals a tool raises to its driver.\<close>

record event_actions =
  ea_escalate :: bool

definition actions_new :: event_actions where
  "actions_new = \<lparr>ea_escalate = False\<rparr>"

definition escalate :: "event_actions \<Rightarrow> event_actions" where
  "escalate a = a\<lparr>ea_escalate := True\<rparr>"

subsection \<open>The guarded counter\<close>

lemma json_u64_roundtrip [simp]: "json_as_u64 (json_of_u64 n) = Some n"
proof -
  have "unat n < 2 ^ 64" using unsigned_less [of n] by simp
  then show ?thesis using show_nat_digits [of "unat n"] by (simp add: json_as_u64_def json_of_u64_def)
qed

text \<open>
  What the holders of the state do, in the order in which they get the lock; only increments with one
  limit touch the counter.
\<close>

datatype state_op = SetKey string json | TryUse string

fun state_step :: "u64 \<Rightarrow> state_op \<Rightarrow> bool list \<times> kv \<Rightarrow> bool list \<times> kv" where
  "state_step mx (SetKey k v) (admits, st) = (admits, state_set k v st)"
| "state_step mx (TryUse k) (admits, st) =
     (case increment_u64_if_below k mx st of (ok, st') \<Rightarrow> (admits @ [ok], st'))"

definition uses :: "string \<Rightarrow> state_op list \<Rightarrow> nat" where
  "uses k ops = length (filter (\<lambda>oper. oper = TryUse k) ops)"

lemma u64_succ: "(t::u64) < m \<Longrightarrow> unat (t + 1) = unat t + 1"
proof -
  assume "t < m"
  then have "unat t < unat m" by (simp add: word_less_nat_alt)
  moreover have "unat m < 2 ^ 64" using unsigned_less [of m] by simp
  ultimately show ?thesis by (simp add: unat_word_ariths)
qed

lemma increment_result:
  assumes "increment_u64_if_below k mx st = (ok, st')"
  shows "ok \<longleftrightarrow> counter st k < mx" "unat (counter st' k) = unat (counter st k) + (if ok then 1 else 0)"
    and "k' \<noteq> k \<Longrightarrow> st' k' = st k'"
proof -
  show "ok \<longleftrightarrow> counter st k < mx" "k' \<noteq> k \<Longrightarrow> st' k' = st k'"
    using assms by (auto simp: increment_u64_if_below_def Let_def split: if_splits)
  have "unat (counter st k + 1) = unat (counter st k) + 1" if "counter st k < mx"
    using that by (rule u64_succ)
  then show "unat (counter st' k) = unat (counter st k) + (if ok then 1 else 0)"
    using assms by (auto simp: increment_u64_if_below_def Let_def counter_def split: if_splits)
qed

text \<open>
  The guarded counter is exact under contention: whatever the order in which concurrent holders reach the
  state, as long as only guarded increments touch the counter, the number of admitted uses is the
  smaller of the number of attempts and what the limit leaves, so the limit is never exceeded and
  never undershot.
\<close>

theorem counter_admits_exactly:
  assumes "\<And>v. SetKey k v \<notin> set ops" "\<And>j. TryUse j \<in> set ops \<Longrightarrow> j = k"
    and "fold (state_step mx) ops ([], st) = (admits, st')"
  shows "length (filter (\<lambda>ok. ok) admits) = min (uses k ops) (unat mx - unat (counter st k))
    \<and> unat (counter st' k) = unat (counter st k) + length (filter (\<lambda>ok. ok) admits)"
proof -
  have "fold (state_step mx) ops (pre, st) = (admits, st') \<Longrightarrow>
      length (filter (\<lambda>ok. ok) admits) = length (filter (\<lambda>ok. ok) pre) + min (uses k ops) (unat mx - unat (counter st k))
      \<and> unat (counter st' k) + length (filter (\<lambda>ok. ok) pre) = unat (counter st k) + length (filter (\<lambda>ok. ok) admits)"
    for pre
    using assms(1,2)
  proof (induction ops arbitrary: pre st)
    case (Cons oper ops)
    show ?case
    proof (cases oper)
      case (SetKey j v)
      then have "counter (state_set j v st) k = counter st k" using Cons.prems(2) by (auto simp: counter_def state_set_def)
      then show ?thesis using Cons.IH [of pre "state_set j v st"] Cons.prems SetKey by (simp add: uses_def)
    next
      case (TryUse j)
      obtain ok st1 where inc: "increment_u64_if_below k mx st = (ok, st1)" by force
      have j: "j = k" using Cons.prems(3) TryUse by simp
      have "length (filter (\<lambda>ok. ok) admits) = length (filter (\<lambda>ok. ok) (pre @ [ok]))
            + min (uses k ops) (unat mx - unat (counter st1 k))
          \<and> unat (counter st' k) + length (filter (\<lambda>ok. ok) (pre @ [ok])) = unat (counter st1 k) + length (filter (\<lambda>ok. ok) admits)"
      proof (rule Cons.IH)
        show "fold (state_step mx) ops (pre @ [ok], st1) = (admits, st')" using Cons.prems(1) TryUse inc j by simp
        show "SetKey k v \<notin> set ops" for v using Cons.prems(2) [of v] by simp
        show "i = k" if "TryUse i \<in> set ops" for i using Cons.prems(3) [of i] that by simp
      qed
      then show ?thesis
        using increment_result(1,2) [OF inc] TryUse j by (auto simp: uses_def word_less_nat_alt)
    qed
  qed (simp add: uses_def)
  from this [of "[]"] show ?thesis using assms(3) by simp
qed

theorem counter_admits_exactly_witness:
  "length (filter (\<lambda>ok. ok) (fst (fold (state_step 2)
     [TryUse ''n'', SetKey ''x'' JNull, TryUse ''n'', TryUse ''n''] ([], state_new)))) = 2"
proof -
  let ?ops = "[TryUse ''n'', SetKey ''x'' JNull, TryUse ''n'', TryUse ''n'']"
  obtain admits st' where r: "fold (state_step 2) ?ops ([], state_new) = (admits, st')" by force
  have "counter state_new ''n'' = 0" by (simp add: counter_def state_new_def)
  then have "length (filter (\<lambda>ok. ok) admits) = 2"
    using counter_admits_exactly [OF _ _ r, of "''n''"] by (simp add: uses_def)
  then show ?thesis unfolding r fst_conv .
qed

section \<open>Agents as tools\<close>

record 'u agent_tool =
  at_agent_name :: string
  at_run :: "'u agent_run"
  at_name :: string
  at_description :: string
  at_schema :: json

definition agent_tool_schema :: json where
  "agent_tool_schema = JObject [(''type'', JString ''object''),
     (''properties'', JObject [(''input'', JObject [(''type'', JString ''string''),
        (''description'', JString ''The request to pass to the wrapped agent.'')])]),
     (''required'', JArray [JString ''input'']),
     (''additionalProperties'', JBool False)]"

definition agent_tool_shared :: "string \<Rightarrow> string \<Rightarrow> 'u agent_run \<Rightarrow> 'u agent_tool" where
  "agent_tool_shared nm descr run = \<lparr>at_agent_name = nm, at_run = run, at_name = nm, at_description = descr,
     at_schema = agent_tool_schema\<rparr>"

definition agent_tool_with_name :: "string \<Rightarrow> 'u agent_tool \<Rightarrow> 'u agent_tool" where
  "agent_tool_with_name nm t = t\<lparr>at_name := nm\<rparr>"

definition agent_tool_with_description :: "string \<Rightarrow> 'u agent_tool \<Rightarrow> 'u agent_tool" where
  "agent_tool_with_description d t = t\<lparr>at_description := d\<rparr>"

fun run_error_display :: "ext \<Rightarrow> run_error \<Rightarrow> string" where
  "run_error_display E (RunAgent e) = ''agent failed: '' @ agent_error_display E e"
| "run_error_display E RunMaxIterations = ''max iterations reached''"
| "run_error_display E RunCancelled = ''cancelled''"
| "run_error_display E RunTimeout = ''run timed out''"
| "run_error_display E (RunOther e) = e"

fun tool_error_of_run :: "ext \<Rightarrow> run_error \<Rightarrow> tool_error" where
  "tool_error_of_run E (RunAgent a) = ToolOther (agent_error_display E a)"
| "tool_error_of_run E other = ToolOther (run_error_display E other)"

text \<open>\<open>fresh\<close> gives the addresses of the isolated session, failure slot, state and actions.\<close>

definition agent_tool_invoke :: "ext \<Rightarrow> addr \<times> addr \<times> addr \<times> addr \<Rightarrow> 'u agent_tool \<Rightarrow> 'u tool_context \<Rightarrow> json
    \<Rightarrow> tool_error + json" where
  "agent_tool_invoke E fresh t tc args =
     (case json_str_field ''input'' args of
        None \<Rightarrow> Err (InvalidArgs [''expected a string field `input`''])
      | Some text \<Rightarrow>
          (let depth = tc_agent_depth tc; mx = tc_max_agent_depth tc
           in if depth + 1 > mx
              then Err (ToolOther (agent_error_display E (MaxAgentDepthExceeded (depth + 1) mx)))
              else (case fresh of (session, failure, state, actions) \<Rightarrow>
                (case at_run t (agent_tool_context session failure state actions tc) [UserMessage [Text text]] of
                   Inl e \<Rightarrow> Err (ToolOther (agent_error_display E e))
                 | Inr (evs, slot) \<Rightarrow>
                     (case collect evs slot of
                        Inl e \<Rightarrow> Err (tool_error_of_run E e)
                      | Inr r \<Rightarrow> Ok (JString (rr_final_output r)))))))"

lemma failed_iff_slot: "closes evs slot \<Longrightarrow> list_ex is_failed evs \<longleftrightarrow> slot \<noteq> None"
proof (induction evs)
  case (Cons e evs)
  then show ?case by (cases e) (auto simp: closes_Cons is_failed_def)
qed simp

text \<open>
  Calling an agent as a tool: arguments without a text are refused, a call at the depth limit fails
  before the agent runs, and otherwise the agent runs in the isolated context; when it keeps the stream
  contract the result is the text of its last message if it completed, and the rendering of its
  structured error if it failed. No other outcome is possible.
\<close>

theorem agent_tool_outcomes:
  assumes "\<And>c inp r. at_run t c inp = Ok r \<Longrightarrow> stream_ok (at_agent_name t) r"
  shows "agent_tool_invoke E (session, failure, state, actions) t tc args =
    (case json_str_field ''input'' args of
       None \<Rightarrow> Err (InvalidArgs [''expected a string field `input`''])
     | Some text \<Rightarrow>
         (if tc_agent_depth tc + 1 > tc_max_agent_depth tc
          then Err (ToolOther (agent_error_display E (MaxAgentDepthExceeded (tc_agent_depth tc + 1) (tc_max_agent_depth tc))))
          else (case at_run t (agent_tool_context session failure state actions tc) [UserMessage [Text text]] of
              Inl e \<Rightarrow> Err (ToolOther (agent_error_display E e))
            | Inr (evs, Some e) \<Rightarrow> Err (ToolOther (agent_error_display E e))
            | Inr (evs, None) \<Rightarrow> Ok (JString (unwrap_or [] (final_text evs))))))"
proof -
  have c: "collect evs slot = (case slot of Some e \<Rightarrow> Err (RunAgent e)
      | None \<Rightarrow> Ok \<lparr>rr_final_output = unwrap_or [] (final_text evs), rr_events = evs, rr_usage = unwrap_or 0 (completed_usage evs)\<rparr>)"
    if run: "at_run t cx inp = Ok (evs, slot)" for cx inp evs slot
  proof -
    obtain rest where "evs = RunStarted (at_agent_name t) # rest" "closes rest slot"
      using assms [OF run] by (auto simp: stream_ok_def)
    then have "list_ex is_failed evs \<longleftrightarrow> slot \<noteq> None" using failed_iff_slot by (simp add: is_failed_def)
    then show ?thesis
      using collect_fold_failed [of collect_init evs] collect_fold_values [of collect_init evs]
      by (auto simp: collect_def collect_init_def Let_def split: option.splits)
  qed
  show ?thesis
  proof (cases "json_str_field ''input'' args")
    case (Some x)
    show ?thesis
    proof (cases "at_run t (agent_tool_context session failure state actions tc) [UserMessage [Text x]]")
      case (Inr r)
      obtain evs slot where r: "r = (evs, slot)" by force
      show ?thesis using Some Inr c [OF Inr [unfolded r]] r
        by (cases slot) (simp_all add: agent_tool_invoke_def Let_def)
    qed (simp add: agent_tool_invoke_def Let_def Some)
  qed (simp add: agent_tool_invoke_def)
qed

theorem agent_tool_outcomes_witness:
  "agent_tool_invoke ext_ex (5, 6, 7, 8) (agent_tool_shared ''a'' []
      (\<lambda>c inp. Ok ([RunStarted ''a'', MessageOutput (AssistantMessage [Text ''hi''] None), RunCompleted usage_default], None)))
     (to_tool_context 1 ctx_bypass) (JObject [(''input'', JString ''go'')])
   = Ok (JString ''hi'')"
proof -
  let ?t = "agent_tool_shared ''a'' [] (\<lambda>c inp. Ok ([RunStarted ''a'', MessageOutput (AssistantMessage [Text ''hi''] None),
    RunCompleted usage_default], None)) :: unit agent_tool"
  have "stream_ok (at_agent_name ?t) r" if "at_run ?t c inp = Ok r" for c inp r
    using that by (auto simp: agent_tool_shared_def stream_ok_def closes_Cons)
  from agent_tool_outcomes [OF this, where E = ext_ex and session = 5 and failure = 6 and state = 7 and actions = 8
      and tc = "to_tool_context 1 ctx_bypass" and args = "JObject [(''input'', JString ''go'')]"]
  show ?thesis
    by (simp add: agent_tool_shared_def to_tool_context_def ctx_bypass_def run_context_new_def run_config_default_def
        flatten_text_def)
qed

end
