(* ===== verification/Event_Log.thy ===== *)
theory Event_Log
  imports Messages "HOL-Library.Sublist"
begin

text \<open>
  The event log of the HTTP servers (\<open>event_log.rs\<close> of \<open>runtime-axum\<close>; the file of \<open>runtime-actix\<close> is the same):
  a bounded ring of events with sequence numbers, and subscribers that replay it and then follow it
  live. A subscriber is a state machine that interleaves with the writer at the points where it can
  be suspended. Shown are that the ring is a suffix of everything appended, that a parked
  subscriber always has a wake-up pending when there is something to read, that subscribers deliver
  the log in order without repetition and without gaps unless events were evicted, and that they
  finish once the log is terminal. Sequence numbers are natural numbers: 64 bits are never exhausted.
\<close>

section \<open>The log\<close>

record event_log =
  el_events :: "agent_event list"
  el_first_seq :: nat
  el_terminal :: bool
  el_max_events :: nat

text \<open>\<open>EventLog::new\<close> panics for a capacity of zero.\<close>

definition event_log_new :: "nat \<Rightarrow> event_log option" where
  "event_log_new max_events =
     (if max_events > 0
      then Some \<lparr>el_events = [], el_first_seq = 0, el_terminal = False, el_max_events = max_events\<rparr>
      else None)"

text \<open>The loop that evicts from the front while the ring is too long.\<close>

fun evict :: "nat \<Rightarrow> agent_event list \<Rightarrow> nat \<Rightarrow> agent_event list \<times> nat" where
  "evict cap [] first_seq = ([], first_seq)"
| "evict cap (e # es) first_seq =
     (if length (e # es) > cap then evict cap es (first_seq + 1) else (e # es, first_seq))"

definition log_append :: "agent_event \<Rightarrow> event_log \<Rightarrow> event_log" where
  "log_append ev l =
     (case evict (el_max_events l) (el_events l @ [ev]) (el_first_seq l) of
        (events, first_seq) \<Rightarrow> l\<lparr>el_events := events, el_first_seq := first_seq,
          el_terminal := (if is_terminal ev then True else el_terminal l)\<rparr>)"

definition mark_terminal :: "event_log \<Rightarrow> event_log" where
  "mark_terminal l = l\<lparr>el_terminal := True\<rparr>"

record read_slice =
  rs_first_seq :: nat
  rs_events :: "agent_event list"
  rs_next_cursor :: nat
  rs_terminal :: bool

definition read_from :: "event_log \<Rightarrow> nat \<Rightarrow> read_slice" where
  "read_from l cursor =
     (let effective_cursor = max cursor (el_first_seq l);
          events = drop (effective_cursor - el_first_seq l) (el_events l)
      in \<lparr>rs_first_seq = el_first_seq l, rs_events = events,
          rs_next_cursor = effective_cursor + length events, rs_terminal = el_terminal l\<rparr>)"

section \<open>Subscribers\<close>

text \<open>
  Where a subscriber can be suspended: between two calls of \<open>next\<close> (\<open>Idle\<close>), after it has registered for
  the wake-up and before it reads (\<open>Registered\<close>), awaiting the wake-up (\<open>Parked\<close>), or at the end of its
  stream. \<open>ss_woken\<close> is the state of the registered \<open>Notified\<close> future.
\<close>

datatype phase = Idle | Registered | Parked | Ended

record subscriber =
  ss_cursor :: nat
  ss_pending :: "agent_event list"
  ss_done :: bool
  ss_phase :: phase
  ss_woken :: bool
  ss_delivered :: "agent_event list"

definition subscribe :: "nat \<Rightarrow> subscriber" where
  "subscribe c0 = \<lparr>ss_cursor = c0, ss_pending = [], ss_done = False, ss_phase = Idle, ss_woken = False,
     ss_delivered = []\<rparr>"

definition deliver :: "agent_event \<Rightarrow> subscriber \<Rightarrow> subscriber" where
  "deliver ev s = s\<lparr>ss_done := is_terminal ev, ss_delivered := ss_delivered s @ [ev], ss_phase := Idle\<rparr>"

text \<open>One step of a subscriber; \<open>None\<close> when it cannot move: at its end, or parked and not woken.\<close>

definition sub_step :: "event_log \<Rightarrow> subscriber \<Rightarrow> subscriber option" where
  "sub_step l s =
     (case ss_phase s of
        Idle \<Rightarrow> Some (if ss_done s then s\<lparr>ss_phase := Ended\<rparr>
          else (case ss_pending s of
              ev # rest \<Rightarrow> deliver ev (s\<lparr>ss_pending := rest\<rparr>)
            | [] \<Rightarrow> s\<lparr>ss_phase := Registered, ss_woken := False\<rparr>))
      | Registered \<Rightarrow> Some (let slice = read_from l (ss_cursor s)
          in case rs_events slice of
               ev # rest \<Rightarrow> deliver ev (s\<lparr>ss_cursor := rs_next_cursor slice, ss_pending := rest\<rparr>)
             | [] \<Rightarrow> (if rs_terminal slice then s\<lparr>ss_phase := Ended\<rparr> else s\<lparr>ss_phase := Parked\<rparr>))
      | Parked \<Rightarrow> (if ss_woken s then Some (s\<lparr>ss_phase := Registered, ss_woken := False\<rparr>) else None)
      | Ended \<Rightarrow> None)"

text \<open>\<open>notify_waiters\<close> reaches every future that is registered at that moment.\<close>

definition wake :: "subscriber \<Rightarrow> subscriber" where
  "wake s = (if ss_phase s = Registered \<or> ss_phase s = Parked then s\<lparr>ss_woken := True\<rparr> else s)"

text \<open>
  The interleavings of one writer with one subscriber; several subscribers do not affect each other.
  The third component is everything ever appended.
\<close>

inductive log_reach :: "nat \<Rightarrow> nat \<Rightarrow> event_log \<times> subscriber \<times> agent_event list \<Rightarrow> bool" for cap c0 where
  start: "event_log_new cap = Some l \<Longrightarrow> log_reach cap c0 (l, subscribe c0, [])"
| append: "log_reach cap c0 (l, s, evs) \<Longrightarrow> log_reach cap c0 (log_append ev l, wake s, evs @ [ev])"
| mark: "log_reach cap c0 (l, s, evs) \<Longrightarrow> log_reach cap c0 (mark_terminal l, wake s, evs)"
| step: "log_reach cap c0 (l, s, evs) \<Longrightarrow> sub_step l s = Some s' \<Longrightarrow> log_reach cap c0 (l, s', evs)"

section \<open>The ring is a suffix of the log\<close>

lemma evict_result:
  "evict cap es f = (drop (length es - cap) es, f + (length es - cap))"
proof (induction cap es f rule: evict.induct)
  case (2 cap e es f)
  then show ?case by (auto simp: Suc_diff_le)
qed simp

text \<open>The log holds the newest events, at most \<open>cap\<close> of them, and numbers them by their position.\<close>

definition log_ok :: "nat \<Rightarrow> event_log \<Rightarrow> agent_event list \<Rightarrow> bool" where
  "log_ok cap l evs \<longleftrightarrow> el_max_events l = cap \<and> 0 < cap \<and> el_first_seq l = length evs - cap
     \<and> el_events l = drop (length evs - cap) evs \<and> (list_ex is_terminal evs \<longrightarrow> el_terminal l)"

lemma log_ok_append: "log_ok cap l evs \<Longrightarrow> log_ok cap (log_append ev l) (evs @ [ev])"
  by (cases "length evs < cap") (auto simp: log_ok_def log_append_def evict_result Suc_diff_le)

lemma read_from_ok:
  assumes "log_ok cap l evs"
  shows "rs_events (read_from l c) = drop (max c (length evs - cap)) evs"
    and "rs_next_cursor (read_from l c) = max (max c (length evs - cap)) (length evs)"
    and "rs_terminal (read_from l c) = el_terminal l"
  using assms by (auto simp: log_ok_def read_from_def Let_def max_def)

section \<open>The subscriber's view\<close>

text \<open>
  The batch being drained ends at the cursor; a subscriber that is about to wait without a pending
  wake-up has nothing to read; a subscriber at its end has seen a terminal event or the whole log.
\<close>

definition sub_position :: "subscriber \<Rightarrow> nat" where
  "sub_position s = ss_cursor s - length (ss_pending s)"

definition wait_ok :: "event_log \<Rightarrow> subscriber \<Rightarrow> agent_event list \<Rightarrow> bool" where
  "wait_ok l s evs \<longleftrightarrow>
     (ss_phase s = Registered \<or> ss_phase s = Parked \<longrightarrow> ss_pending s = [] \<and> \<not> ss_done s)
     \<and> (ss_phase s = Parked \<longrightarrow> ss_woken s \<or> length evs \<le> ss_cursor s \<and> \<not> el_terminal l)
     \<and> (ss_done s \<longrightarrow> ss_delivered s \<noteq> [] \<and> is_terminal (last (ss_delivered s)))
     \<and> (ss_phase s = Ended \<longrightarrow> ss_done s \<or> el_terminal l)"

definition seen_ok :: "nat \<Rightarrow> nat \<Rightarrow> subscriber \<Rightarrow> agent_event list \<Rightarrow> bool" where
  "seen_ok cap c0 s evs \<longleftrightarrow>
     (ss_cursor s \<le> length evs \<or> ss_cursor s = c0 \<and> ss_pending s = [])
     \<and> length (ss_pending s) \<le> ss_cursor s \<and> c0 \<le> sub_position s
     \<and> ss_pending s = drop (sub_position s) (take (ss_cursor s) evs)
     \<and> subseq (ss_delivered s) (drop c0 (take (sub_position s) evs))
     \<and> (length evs \<le> cap \<longrightarrow> ss_delivered s = drop c0 (take (sub_position s) evs))
     \<and> (\<not> ss_done s \<longrightarrow> \<not> list_ex is_terminal (ss_delivered s))
     \<and> (ss_done s \<longrightarrow> \<not> list_ex is_terminal (butlast (ss_delivered s)))"

lemma log_reach_ok: "log_reach cap c0 (l, s, evs) \<Longrightarrow> log_ok cap l evs"
proof (induction "(l, s, evs)" arbitrary: l s evs rule: log_reach.induct)
  case start
  then show ?case by (auto simp: event_log_new_def log_ok_def split: if_splits)
next
  case (append l s evs ev)
  then show ?case by (simp add: log_ok_append)
next
  case (mark l s evs)
  then show ?case by (auto simp: log_ok_def mark_terminal_def)
qed auto

lemma wake_fields [simp]:
  "ss_cursor (wake s) = ss_cursor s" "ss_pending (wake s) = ss_pending s" "ss_done (wake s) = ss_done s"
  "ss_phase (wake s) = ss_phase s" "ss_delivered (wake s) = ss_delivered s" "sub_position (wake s) = sub_position s"
  by (simp_all add: wake_def sub_position_def)

lemma wake_woken: "ss_phase s = Registered \<or> ss_phase s = Parked \<Longrightarrow> ss_woken (wake s)"
  by (auto simp: wake_def)

lemma wait_ok_wake: "wait_ok l s evs \<Longrightarrow> (el_terminal l \<Longrightarrow> el_terminal l') \<Longrightarrow> wait_ok l' (wake s) evs'"
  using wake_woken [of s] by (auto simp: wait_ok_def)

lemma seen_ok_append:
  assumes "seen_ok cap c0 s evs"
  shows "seen_ok cap c0 (wake s) (evs @ [ev])"
proof (cases "ss_cursor s \<le> length evs")
  case True
  moreover have "sub_position s \<le> ss_cursor s" by (simp add: sub_position_def)
  ultimately show ?thesis using assms by (auto simp: seen_ok_def)
next
  case False
  then have c: "ss_cursor s = c0" "ss_pending s = []" "sub_position s = c0" using assms by (auto simp: seen_ok_def sub_position_def)
  then have "ss_delivered s = []" using assms by (auto simp: seen_ok_def)
  then show ?thesis using c assms False by (simp add: seen_ok_def)
qed

text \<open>Delivering the event at position \<open>p\<close>, at or after the position reached before.\<close>

lemma seen_ok_deliver:
  assumes ok: "seen_ok cap c0 s evs" and idle: "\<not> ss_done s"
    and p: "sub_position s \<le> p" "p < length evs" "length evs \<le> cap \<longrightarrow> p = sub_position s"
    and s': "s' = deliver (evs ! p) (s\<lparr>ss_cursor := c, ss_pending := drop (Suc p) (take c evs)\<rparr>)"
    and c: "Suc p \<le> c" "c \<le> length evs"
  shows "seen_ok cap c0 s' evs"
proof -
  have pos: "sub_position s' = Suc p" "ss_cursor s' = c" using c by (simp_all add: s' sub_position_def deliver_def)
  have split: "take (Suc p) evs = take (sub_position s) evs @ drop (sub_position s) (take p evs) @ [evs ! p]"
  proof -
    have "take p evs = take (sub_position s) evs @ drop (sub_position s) (take p evs)"
      using p(1) by (metis append_take_drop_id min.absorb1 take_take)
    then show ?thesis using p(2) by (simp add: take_Suc_conv_app_nth)
  qed
  have c0: "c0 \<le> sub_position s" "sub_position s \<le> length evs" using ok p by (auto simp: seen_ok_def)
  then have "drop c0 (take (Suc p) evs) = drop c0 (take (sub_position s) evs) @ drop (sub_position s) (take p evs) @ [evs ! p]"
    unfolding split by simp
  moreover have "subseq (ss_delivered s @ [evs ! p]) (drop c0 (take (sub_position s) evs) @ drop (sub_position s) (take p evs) @ [evs ! p])"
    using ok by (intro list_emb_append_mono) (auto simp: seen_ok_def intro: subseq_order.order_trans [of _ "[evs ! p]"])
  moreover have "length evs \<le> cap \<Longrightarrow> drop (sub_position s) (take p evs) = []" using p(3) by simp
  ultimately show ?thesis
    using ok idle c c0 p(1) unfolding seen_ok_def pos
    by (auto simp: s' deliver_def seen_ok_def list_ex_iff)
qed

lemma sub_step_ok:
  assumes inv: "log_ok cap l evs" "wait_ok l s evs" "seen_ok cap c0 s evs" and step: "sub_step l s = Some s'"
  shows "wait_ok l s' evs \<and> seen_ok cap c0 s' evs"
proof (cases "ss_phase s")
  case Idle
  show ?thesis
  proof (cases "ss_done s \<or> ss_pending s = []")
    case True
    then show ?thesis using inv(2,3) step Idle
      by (auto simp: sub_step_def wait_ok_def seen_ok_def sub_position_def split: if_splits list.splits)
  next
    case False
    then obtain ev rest where pend: "ss_pending s = ev # rest" by (cases "ss_pending s") auto
    have p: "ev # rest = drop (sub_position s) (take (ss_cursor s) evs)" "ss_cursor s \<le> length evs" using inv(3) pend by (auto simp: seen_ok_def)
    then have lt: "sub_position s < ss_cursor s" by (metis drop_eq_Nil length_take list.distinct(1) min.absorb2 not_le)
    then have ev: "ev = evs ! sub_position s" "rest = drop (Suc (sub_position s)) (take (ss_cursor s) evs)"
      using p by (metis drop_eq_Nil hd_drop_conv_nth length_take list.sel(1) list.distinct(1) min.absorb2 nth_take not_le,
          metis drop_Suc list.sel(3) tl_drop)
    have s': "s' = deliver ev (s\<lparr>ss_pending := rest\<rparr>)" using step Idle False pend by (simp add: sub_step_def)
    have "seen_ok cap c0 s' evs"
      by (rule seen_ok_deliver [OF inv(3), where p = "sub_position s" and c = "ss_cursor s"])
        (use False lt p ev s' in auto)
    then show ?thesis by (simp add: s' deliver_def wait_ok_def)
  qed
next
  case Registered
  let ?slice = "read_from l (ss_cursor s)"
  have pend: "ss_pending s = []" "\<not> ss_done s" using inv(2) Registered by (auto simp: wait_ok_def)
  note r = read_from_ok [OF inv(1), of "ss_cursor s"]
  show ?thesis
  proof (cases "rs_events ?slice")
    case Nil
    have "length evs \<le> max (ss_cursor s) (length evs - cap)" using Nil r(1) by simp
    moreover have "0 < cap" using inv(1) by (simp add: log_ok_def)
    ultimately have "length evs \<le> ss_cursor s" by linarith
    then show ?thesis using Nil inv(2,3) step Registered r pend
      by (auto simp: sub_step_def wait_ok_def seen_ok_def sub_position_def split: if_splits)
  next
    case (Cons ev rest)
    let ?p = "max (ss_cursor s) (length evs - cap)"
    have lt: "?p < length evs" and ev: "ev = evs ! ?p" "rest = drop (Suc ?p) evs"
    proof -
      show lt: "?p < length evs" using Cons r(1) by (metis drop_eq_Nil list.distinct(1) not_le)
      show "ev = evs ! ?p" "rest = drop (Suc ?p) evs" using Cons r(1) Cons_nth_drop_Suc [OF lt] by simp_all
    qed
    have s': "s' = deliver ev (s\<lparr>ss_cursor := length evs, ss_pending := rest\<rparr>)"
      using step Registered Cons r(2) lt by (simp add: sub_step_def Let_def)
    have "seen_ok cap c0 s' evs"
      by (rule seen_ok_deliver [OF inv(3) pend(2), where p = ?p and c = "length evs"])
        (use lt ev s' pend in \<open>auto simp: sub_position_def\<close>)
    then show ?thesis by (simp add: s' deliver_def wait_ok_def)
  qed
next
  case Parked
  then show ?thesis using inv(2,3) step by (auto simp: sub_step_def wait_ok_def seen_ok_def sub_position_def split: if_splits)
qed (use step in \<open>simp add: sub_step_def\<close>)

lemma log_reach_inv:
  "log_reach cap c0 (l, s, evs) \<Longrightarrow> log_ok cap l evs \<and> wait_ok l s evs \<and> seen_ok cap c0 s evs"
proof (induction "(l, s, evs)" arbitrary: l s evs rule: log_reach.induct)
  case (start l)
  then show ?case using log_reach_ok [OF log_reach.start [OF start]]
    by (auto simp: subscribe_def wait_ok_def seen_ok_def sub_position_def)
next
  case (append l s evs ev)
  then show ?case using log_reach_ok [OF log_reach.append [OF append(1)]] wait_ok_wake seen_ok_append
    by (auto simp: log_append_def split: prod.splits)
next
  case (mark l s evs)
  then show ?case using log_reach_ok [OF log_reach.mark [OF mark(1)]] wait_ok_wake
    by (auto simp: mark_terminal_def seen_ok_def)
next
  case (step l s evs s')
  then show ?case using sub_step_ok by blast
qed

section \<open>What subscribers can rely on\<close>

text \<open>
  No wake-up is lost: in every interleaving of writer and subscriber, a subscriber that cannot move is
  at its end, or there is nothing for it to read and the run has not ended.
\<close>

theorem no_lost_wakeup:
  assumes "log_reach cap c0 (l, s, evs)" "sub_step l s = None"
  shows "ss_phase s = Ended
    \<or> rs_events (read_from l (ss_cursor s)) = [] \<and> \<not> rs_terminal (read_from l (ss_cursor s))"
proof -
  note inv = log_reach_inv [OF assms(1)]
  have "ss_phase s = Ended \<or> ss_phase s = Parked \<and> \<not> ss_woken s"
    using assms(2) by (auto simp: sub_step_def split: phase.splits if_splits)
  moreover have "rs_events (read_from l (ss_cursor s)) = [] \<and> \<not> rs_terminal (read_from l (ss_cursor s))"
    if "ss_phase s = Parked" "\<not> ss_woken s"
  proof -
    have "length evs \<le> ss_cursor s" "\<not> el_terminal l" using that inv by (auto simp: wait_ok_def)
    then show ?thesis using read_from_ok [of cap l evs "ss_cursor s"] inv by (simp add: max_def)
  qed
  ultimately show ?thesis by blast
qed

text \<open>
  Subscribers deliver the log: the delivered events are events of the run in their order, none
  twice and none from before the requested position; no event follows a terminal one; and as long
  as nothing was evicted there are no gaps.
\<close>

theorem subscriber_delivers:
  assumes "log_reach cap c0 (l, s, evs)"
  shows "subseq (ss_delivered s) (drop c0 evs) \<and> \<not> list_ex is_terminal (butlast (ss_delivered s))
    \<and> (length evs > cap \<or> prefix (ss_delivered s) (drop c0 evs))"
proof -
  note inv = log_reach_inv [OF assms]
  have take: "prefix (drop c0 (take n evs)) (drop c0 evs)" for n
    by (metis take_drop take_is_prefix drop_take)
  then have "subseq (ss_delivered s) (drop c0 evs)"
    using inv by (meson prefix_imp_subseq seen_ok_def subseq_order.order_trans)
  moreover have "\<not> list_ex is_terminal (butlast (ss_delivered s))"
    using inv by (auto simp: seen_ok_def list_ex_iff dest: in_set_butlastD)
  ultimately show ?thesis using inv take by (auto simp: seen_ok_def)
qed

section \<open>Subscribers finish\<close>

fun sub_steps :: "nat \<Rightarrow> event_log \<Rightarrow> subscriber \<Rightarrow> subscriber" where
  "sub_steps 0 l s = s"
| "sub_steps (Suc n) l s = (case sub_step l s of Some s' \<Rightarrow> sub_steps n l s' | None \<Rightarrow> s)"

definition to_go :: "subscriber \<Rightarrow> agent_event list \<Rightarrow> nat" where
  "to_go s evs = 4 * (length evs - sub_position s)
     + (case ss_phase s of Idle \<Rightarrow> if ss_done s then 1 else 3 | Registered \<Rightarrow> 2 | Parked \<Rightarrow> 3 | Ended \<Rightarrow> 0)"

lemma sub_step_to_go:
  assumes inv: "log_ok cap l evs" "wait_ok l s evs" "seen_ok cap c0 s evs" and step: "sub_step l s = Some s'" and ended: "el_terminal l"
  shows "to_go s' evs < to_go s evs"
proof -
  have deliver: "to_go s' evs < to_go s evs"
    if "sub_position s < sub_position s'" "sub_position s' \<le> length evs" "ss_phase s' = Idle" "ss_phase s = Idle \<and> \<not> ss_done s \<or> ss_phase s = Registered"
    using that by (auto simp: to_go_def)
  show ?thesis
  proof (cases "ss_phase s")
    case Idle
    show ?thesis
    proof (cases "ss_done s \<or> ss_pending s = []")
      case True
      then show ?thesis using step Idle by (auto simp: sub_step_def to_go_def sub_position_def split: if_splits list.splits)
    next
      case False
      then obtain ev rest where pend: "ss_pending s = ev # rest" by (cases "ss_pending s") auto
      then have "ss_cursor s \<le> length evs" "Suc (length rest) \<le> ss_cursor s" using inv(3) by (auto simp: seen_ok_def)
      then show ?thesis using step Idle False pend
        by (intro deliver) (auto simp: sub_step_def deliver_def sub_position_def)
    qed
  next
    case Registered
    note r = read_from_ok [OF inv(1), of "ss_cursor s"]
    have pend: "ss_pending s = []" using inv(2) Registered by (auto simp: wait_ok_def)
    show ?thesis
    proof (cases "rs_events (read_from l (ss_cursor s))")
      case Nil
      then show ?thesis using step Registered r(3) ended by (auto simp: sub_step_def Let_def to_go_def sub_position_def)
    next
      case (Cons ev rest)
      let ?p = "max (ss_cursor s) (length evs - cap)"
      have len: "Suc (length rest) = length evs - ?p" using arg_cong [OF Cons, of length] r(1) by simp
      have s': "s' = deliver ev (s\<lparr>ss_cursor := max ?p (length evs), ss_pending := rest\<rparr>)"
        using step Registered Cons r(2) by (simp add: sub_step_def Let_def)
      show ?thesis using len s' pend Registered by (intro deliver) (auto simp: deliver_def sub_position_def)
    qed
  next
    case Parked
    then show ?thesis using step by (auto simp: sub_step_def to_go_def sub_position_def split: if_splits)
  qed (use step in \<open>simp add: sub_step_def\<close>)
qed

lemma sub_steps_ended: "ss_phase (sub_steps n l t) = Ended \<Longrightarrow> n \<le> m \<Longrightarrow> ss_phase (sub_steps m l t) = Ended"
proof (induction n arbitrary: m t)
  case 0
  then show ?case by (cases m) (simp_all add: sub_step_def)
next
  case (Suc n)
  then obtain k where "m = Suc k" "n \<le> k" by (cases m) auto
  then show ?case using Suc by (auto split: option.splits)
qed

lemma sub_steps_reach: "log_reach cap c0 (l, s, evs) \<Longrightarrow> log_reach cap c0 (l, sub_steps n l s, evs)"
  by (induction n arbitrary: s) (auto intro: log_reach.step split: option.splits)

text \<open>
  Subscribers finish: once the run has ended and nothing more is appended, a subscriber that is polled reaches the
  end of its stream after a bounded number of steps, wherever it was.
\<close>

theorem subscriber_finishes:
  assumes "log_reach cap c0 (l, s, evs)" "el_terminal l"
  shows "ss_phase (sub_steps (to_go s evs) l s) = Ended"
  using assms(1)
proof (induction "to_go s evs" arbitrary: s rule: less_induct)
  case less
  show ?case
  proof (cases "sub_step l s")
    case None
    then have "ss_phase s = Ended"
      using log_reach_inv [OF less.prems] assms(2)
      by (auto simp: sub_step_def wait_ok_def split: phase.splits if_splits)
    then show ?thesis using None by (cases "to_go s evs") auto
  next
    case (Some s')
    have r: "log_reach cap c0 (l, s', evs)" using less.prems Some by (rule log_reach.step)
    have lt: "to_go s' evs < to_go s evs" using log_reach_inv [OF less.prems] Some assms(2) by (intro sub_step_to_go) auto
    obtain k where k: "to_go s evs = Suc k" using lt by (cases "to_go s evs") auto
    then show ?thesis using less.hyps [OF lt r] sub_steps_ended [of "to_go s' evs" l s' k] lt Some by simp
  qed
qed

theorem no_lost_wakeup_witness:
  "ss_phase ((subscribe 0)\<lparr>ss_phase := Parked\<rparr>) = Ended
   \<or> rs_events (read_from \<lparr>el_events = [], el_first_seq = 0, el_terminal = False, el_max_events = 2\<rparr> 0) = []"
proof -
  let ?l = "\<lparr>el_events = [], el_first_seq = 0, el_terminal = False, el_max_events = 2\<rparr>"
  have "log_reach 2 0 (?l, subscribe 0, [])" by (rule log_reach.start) (simp add: event_log_new_def)
  then have "log_reach 2 0 (?l, sub_steps 2 ?l (subscribe 0), [])" by (rule sub_steps_reach)
  moreover have s: "sub_steps 2 ?l (subscribe 0) = (subscribe 0)\<lparr>ss_phase := Parked\<rparr>" by code_simp
  moreover have "sub_step ?l ((subscribe 0)\<lparr>ss_phase := Parked\<rparr>) = None" by code_simp
  ultimately show ?thesis
    using no_lost_wakeup [of 2 0 ?l "(subscribe 0)\<lparr>ss_phase := Parked\<rparr>" "[]"] by (simp add: subscribe_def)
qed

definition log_ex :: event_log where
  "log_ex = log_append (RunCompleted usage_default) (log_append (TokenDelta ''b'') (log_append (RunStarted ''a'')
     \<lparr>el_events = [], el_first_seq = 0, el_terminal = False, el_max_events = 2\<rparr>))"

lemma log_ex_reached: "log_reach 2 0 (log_ex, subscribe 0, [RunStarted ''a'', TokenDelta ''b'', RunCompleted usage_default])"
proof -
  let ?l = "\<lparr>el_events = [], el_first_seq = 0, el_terminal = False, el_max_events = 2\<rparr>"
  have s: "wake (subscribe 0) = subscribe 0" by (simp add: wake_def subscribe_def)
  have "log_reach 2 0 (?l, subscribe 0, [])" by (rule log_reach.start) (simp add: event_log_new_def)
  from log_reach.append [OF this] have "log_reach 2 0 (log_append (RunStarted ''a'') ?l, subscribe 0, [RunStarted ''a''])"
    by (simp add: s)
  from log_reach.append [OF this]
  have "log_reach 2 0 (log_append (TokenDelta ''b'') (log_append (RunStarted ''a'') ?l), subscribe 0, [RunStarted ''a'', TokenDelta ''b''])"
    by (simp add: s)
  from log_reach.append [OF this] show ?thesis by (simp add: s log_ex_def)
qed

lemma log_ex_ends: "ss_phase (sub_steps 15 log_ex (subscribe 0)) = Ended"
  by code_simp

theorem subscriber_delivers_witness:
  "subseq (ss_delivered (sub_steps 9 log_ex (subscribe 0))) [RunStarted ''a'', TokenDelta ''b'', RunCompleted usage_default]"
  using subscriber_delivers [OF sub_steps_reach [OF log_ex_reached]] by simp

theorem subscriber_finishes_witness: "ss_phase (sub_steps 15 log_ex (subscribe 0)) = Ended"
proof -
  have "el_terminal log_ex" "to_go (subscribe 0) [RunStarted ''a'', TokenDelta ''b'', RunCompleted usage_default] = 15"
    by (simp_all add: log_ex_def log_append_def to_go_def subscribe_def sub_position_def)
  then show ?thesis using subscriber_finishes [OF log_ex_reached] by simp
qed

end
