(* ===== verification/Run_Registry.thy ===== *)
theory Run_Registry
  imports Event_Log
begin

text \<open>
  The registry of runs of the HTTP servers (\<open>registry.rs\<close> of \<open>runtime-axum\<close>; \<open>runtime-actix\<close> differs only in how
  the sweeper task is started): admission under an in-flight cap, completion, and the sweep that
  reclaims runs that never end and evicts completed ones. Shown are the invariant that ties the
  live counter and the completion queue to the runs, that admission never exceeds the cap, what a sweep leaves, and that
  a server whose runs all hang admits again after a sweep.
\<close>

section \<open>The registry\<close>

text \<open>Instants are natural numbers up to \<open>rc_instant_max\<close>; adding a duration may overflow.\<close>

record registry_config =
  rc_ttl :: nat
  rc_max_runs :: nat
  rc_max_events_per_run :: nat
  rc_max_in_flight :: nat
  rc_max_run_duration :: nat
  rc_instant_max :: nat

record run_handle =
  rn_agent_name :: string
  rn_principal :: "string option"
  rn_log :: event_log
  rn_cancelled :: bool
  rn_start_error :: "string option"
  rn_terminal_at :: "nat option"
  rn_created_at :: nat

record 'id registry =
  rg_runs :: "('id \<times> run_handle) list"
  rg_completion_order :: "'id list"
  rg_live :: nat

definition registry_new :: "'id registry" where
  "registry_new = \<lparr>rg_runs = [], rg_completion_order = [], rg_live = 0\<rparr>"

definition checked_add :: "registry_config \<Rightarrow> nat \<Rightarrow> nat \<Rightarrow> nat option" where
  "checked_add C t d = (if t + d \<le> rc_instant_max C then Some (t + d) else None)"

definition past_deadline :: "registry_config \<Rightarrow> nat \<Rightarrow> nat \<Rightarrow> nat \<Rightarrow> bool" where
  "past_deadline C t d now = (case checked_add C t d of Some deadline \<Rightarrow> deadline \<le> now | None \<Rightarrow> False)"

definition is_live :: "run_handle \<Rightarrow> bool" where
  "is_live h \<longleftrightarrow> rn_terminal_at h = None"

text \<open>\<open>id\<close> is the fresh identifier; a log of capacity zero panics.\<close>

definition registry_create :: "registry_config \<Rightarrow> 'id \<Rightarrow> string \<Rightarrow> string option \<Rightarrow> nat \<Rightarrow> 'id registry
    \<Rightarrow> (string + 'id \<times> run_handle) option \<times> 'id registry" where
  "registry_create C i agent_name owner now r =
     (if rg_live r \<ge> rc_max_in_flight C then (Some (Err ''in-flight run limit reached''), r)
      else (case event_log_new (rc_max_events_per_run C) of
          None \<Rightarrow> (None, r)
        | Some log \<Rightarrow>
            (let h = \<lparr>rn_agent_name = agent_name, rn_principal = owner, rn_log = log, rn_cancelled = False,
                  rn_start_error = None, rn_terminal_at = None, rn_created_at = now\<rparr>
             in (Some (Ok (i, h)), r\<lparr>rg_runs := rg_runs r @ [(i, h)], rg_live := rg_live r + 1\<rparr>))))"

definition registry_get :: "'id registry \<Rightarrow> 'id \<Rightarrow> run_handle option" where
  "registry_get r i = map_of (rg_runs r) i"

definition stamp :: "'id \<Rightarrow> (run_handle \<Rightarrow> run_handle) \<Rightarrow> ('id \<times> run_handle) list \<Rightarrow> ('id \<times> run_handle) list" where
  "stamp i f runs = map (\<lambda>(j, h). (j, if j = i then f h else h)) runs"

definition note_terminal :: "'id \<Rightarrow> nat \<Rightarrow> 'id registry \<Rightarrow> 'id registry" where
  "note_terminal i now r =
     (case registry_get r i of
        None \<Rightarrow> r
      | Some h \<Rightarrow>
          (if rn_terminal_at h = None
           then r\<lparr>rg_runs := stamp i (\<lambda>h. h\<lparr>rn_terminal_at := Some now\<rparr>) (rg_runs r),
                  rg_completion_order := rg_completion_order r @ [i], rg_live := rg_live r - 1\<rparr>
           else r))"

text \<open>The three passes of the sweep. \<open>order\<close> is the order in which the hash map is iterated.\<close>

definition overdue_runs :: "registry_config \<Rightarrow> nat \<Rightarrow> ('id \<times> run_handle) list \<Rightarrow> 'id list" where
  "overdue_runs C now runs = map fst (filter (\<lambda>(_, h). rn_terminal_at h = None
     \<and> past_deadline C (rn_created_at h) (rc_max_run_duration C) now) runs)"

definition reclaim_one :: "nat \<Rightarrow> 'id \<Rightarrow> 'id registry \<Rightarrow> 'id registry" where
  "reclaim_one now i r =
     (case registry_get r i of
        None \<Rightarrow> r
      | Some h \<Rightarrow>
          (let r = r\<lparr>rg_runs := stamp i (\<lambda>h. h\<lparr>rn_cancelled := True\<rparr>) (rg_runs r)\<rparr>
           in if rn_terminal_at h = None
              then r\<lparr>rg_runs := stamp i (\<lambda>h. h\<lparr>rn_terminal_at := Some now\<rparr>) (rg_runs r),
                     rg_completion_order := rg_completion_order r @ [i], rg_live := rg_live r - 1\<rparr>
              else r))"

definition reclaim :: "registry_config \<Rightarrow> ('id list \<Rightarrow> 'id list) \<Rightarrow> nat \<Rightarrow> 'id registry \<Rightarrow> 'id registry" where
  "reclaim C order now r = fold (reclaim_one now) (order (overdue_runs C now (rg_runs r))) r"

definition expired :: "registry_config \<Rightarrow> nat \<Rightarrow> run_handle \<Rightarrow> bool" where
  "expired C now h = (case rn_terminal_at h of
     Some t \<Rightarrow> past_deadline C t (rc_ttl C) now | None \<Rightarrow> False)"

definition evict_expired :: "registry_config \<Rightarrow> nat \<Rightarrow> 'id registry \<Rightarrow> 'id registry" where
  "evict_expired C now r =
     (let evicted = map fst (filter (\<lambda>(_, h). expired C now h) (rg_runs r));
          r = r\<lparr>rg_runs := filter (\<lambda>(_, h). \<not> expired C now h) (rg_runs r)\<rparr>
      in if evicted \<noteq> [] then r\<lparr>rg_completion_order := filter (\<lambda>i. i \<notin> set evicted) (rg_completion_order r)\<rparr> else r)"

definition terminal_count :: "('id \<times> run_handle) list \<Rightarrow> nat" where
  "terminal_count runs = length (filter (\<lambda>(_, h). \<not> is_live h) runs)"

text \<open>The count cap: the completion queue is popped; identifiers that are already gone are skipped.\<close>

fun evict_excess :: "nat \<Rightarrow> nat \<Rightarrow> ('id \<times> run_handle) list \<Rightarrow> 'id list \<Rightarrow> ('id \<times> run_handle) list \<times> 'id list" where
  "evict_excess max_runs cnt runs [] = (runs, [])"
| "evict_excess max_runs cnt runs (i # queue) =
     (if cnt > max_runs
      then (if i \<in> fst ` set runs
            then evict_excess max_runs (cnt - 1) (filter (\<lambda>(j, _). j \<noteq> i) runs) queue
            else evict_excess max_runs cnt runs queue)
      else (runs, i # queue))"

definition sweep :: "registry_config \<Rightarrow> ('id list \<Rightarrow> 'id list) \<Rightarrow> nat \<Rightarrow> 'id registry \<Rightarrow> 'id registry" where
  "sweep C order now r =
     (let r = evict_expired C now (reclaim C order now r)
      in case evict_excess (rc_max_runs C) (terminal_count (rg_runs r)) (rg_runs r) (rg_completion_order r) of
           (runs, queue) \<Rightarrow> r\<lparr>rg_runs := runs, rg_completion_order := queue\<rparr>)"

text \<open>The frame a streaming response adds when the log ended without a terminal event.\<close>

definition synthetic_terminal_frame :: "run_handle \<Rightarrow> bool \<Rightarrow> agent_event option" where
  "synthetic_terminal_frame h saw_terminal =
     (if saw_terminal then None
      else Some (RunFailed (if rn_start_error h \<noteq> None then ''run failed to start''
             else ''run ended before producing a terminal event'')))"

section \<open>The invariant\<close>

text \<open>
  Identifiers are unique, the live counter counts the runs without a completion stamp and respects
  the cap, and the completion queue holds exactly the completed runs, once each.
\<close>

definition completed_ids :: "('id \<times> run_handle) list \<Rightarrow> 'id set" where
  "completed_ids runs = {i. \<exists>h. (i, h) \<in> set runs \<and> \<not> is_live h}"

definition registry_ok :: "registry_config \<Rightarrow> 'id registry \<Rightarrow> bool" where
  "registry_ok C r \<longleftrightarrow> distinct (map fst (rg_runs r))
     \<and> rg_live r = length (filter (\<lambda>(_, h). is_live h) (rg_runs r)) \<and> rg_live r \<le> rc_max_in_flight C
     \<and> distinct (rg_completion_order r)
     \<and> set (rg_completion_order r) = completed_ids (rg_runs r)"

lemma registry_new_ok: "registry_ok C registry_new"
  by (simp add: registry_ok_def registry_new_def completed_ids_def)

lemma registry_create_ok:
  assumes "registry_ok C r" "i \<notin> fst ` set (rg_runs r)" "registry_create C i a p now r = (res, r')"
  shows "registry_ok C r'"
proof -
  have "completed_ids (rg_runs r @ [(i, h)]) = completed_ids (rg_runs r)" if "is_live h" for h
    using that by (auto simp: completed_ids_def)
  then show ?thesis
    using assms unfolding registry_create_def registry_ok_def
    by (auto simp: Let_def is_live_def split: if_splits option.splits)
qed

lemma stamp_keys [simp]: "map fst (stamp i f runs) = map fst runs"
  by (induction runs) (auto simp: stamp_def)

lemma stamp_mem: "(j, h') \<in> set (stamp i f runs) \<longleftrightarrow> (\<exists>h. (j, h) \<in> set runs \<and> h' = (if j = i then f h else h))"
  by (induction runs) (auto simp: stamp_def)

text \<open>Stamping a live run moves it from the live runs to the completed ones.\<close>

lemma complete_run_ok:
  assumes ok: "registry_ok C r" and i: "map_of (rg_runs r) i = Some h" "is_live h"
    and g: "\<And>h. \<not> is_live (g h)"
  shows "registry_ok C (r\<lparr>rg_runs := stamp i g (rg_runs r), rg_completion_order := rg_completion_order r @ [i], rg_live := rg_live r - 1\<rparr>)"
proof -
  let ?runs = "rg_runs r"
  have d: "distinct (map fst ?runs)" and q: "set (rg_completion_order r) = completed_ids ?runs"
    using ok by (auto simp: registry_ok_def)
  have mem: "(i, h) \<in> set ?runs" using i(1) by (rule map_of_SomeD)
  have uniq: "(i, h') \<in> set ?runs \<Longrightarrow> h' = h" for h' using d mem by (metis eq_key_imp_eq_value)
  have live: "length (filter (\<lambda>(_, h). is_live h) xs) = Suc (length (filter (\<lambda>(_, h). is_live h) (stamp i g xs)))"
    if "distinct (map fst xs)" "(i, h) \<in> set xs" for xs
    using that
  proof (induction xs)
    case (Cons x xs)
    show ?case
    proof (cases "fst x = i")
      case True
      then have notin: "i \<notin> fst ` set xs" using Cons.prems(1) by auto
      then have x: "x = (i, h)" using Cons.prems(2) by (metis fst_conv image_eqI set_ConsD)
      have "stamp i g xs = xs" unfolding stamp_def using notin by (intro map_idI) force
      then show ?thesis using x i(2) g by (simp add: stamp_def)
    next
      case False
      then show ?thesis using Cons by (cases x) (auto simp: stamp_def)
    qed
  qed simp
  have notin: "i \<notin> set (rg_completion_order r)" using q uniq i(2) by (auto simp: completed_ids_def)
  have "x \<in> completed_ids (stamp i g ?runs) \<longleftrightarrow> x = i \<or> x \<in> completed_ids ?runs" for x
    using mem g by (cases "x = i") (auto simp: completed_ids_def stamp_mem)
  then have "set (rg_completion_order r @ [i]) = completed_ids (stamp i g ?runs)" using q by auto
  then show ?thesis
    using ok live [OF d mem] notin by (simp add: registry_ok_def)
qed

lemma note_terminal_ok: "registry_ok C r \<Longrightarrow> registry_ok C (note_terminal i now r)"
  using complete_run_ok [of C r i]
  by (auto simp: note_terminal_def registry_get_def is_live_def split: option.splits)

section \<open>What a sweep does\<close>

lemma stamp_stamp: "stamp i g (stamp i f runs) = stamp i (\<lambda>h. g (f h)) runs"
  by (induction runs) (auto simp: stamp_def)

lemma stamp_map_of: "j \<noteq> i \<Longrightarrow> map_of (stamp i f runs) j = map_of runs j"
  by (induction runs) (auto simp: stamp_def)

text \<open>Reclaiming runs that are live stamps them and leaves the others alone.\<close>

definition reclaimed :: "nat \<Rightarrow> run_handle \<Rightarrow> run_handle" where
  "reclaimed now h = h\<lparr>rn_cancelled := True, rn_terminal_at := Some now\<rparr>"

lemma reclaim_one_live:
  assumes "map_of (rg_runs r) i = Some h" "is_live h"
  shows "reclaim_one now i r = r\<lparr>rg_runs := stamp i (reclaimed now) (rg_runs r),
    rg_completion_order := rg_completion_order r @ [i], rg_live := rg_live r - 1\<rparr>"
  using assms by (simp add: reclaim_one_def registry_get_def is_live_def stamp_stamp reclaimed_def [abs_def] Let_def)

lemma reclaim_fold:
  assumes "registry_ok C r" "distinct ids" "\<forall>i\<in>set ids. \<exists>h. map_of (rg_runs r) i = Some h \<and> is_live h"
  shows "registry_ok C (fold (reclaim_one now) ids r)"
    and "rg_completion_order (fold (reclaim_one now) ids r) = rg_completion_order r @ ids"
    and "rg_runs (fold (reclaim_one now) ids r)
      = map (\<lambda>(j, h). (j, if j \<in> set ids then reclaimed now h else h)) (rg_runs r)"
proof -
  have "registry_ok C (fold (reclaim_one now) ids r)
      \<and> rg_completion_order (fold (reclaim_one now) ids r) = rg_completion_order r @ ids
      \<and> rg_runs (fold (reclaim_one now) ids r)
        = map (\<lambda>(j, h). (j, if j \<in> set ids then reclaimed now h else h)) (rg_runs r)"
    using assms
  proof (induction ids arbitrary: r)
  case Nil
  then show ?case by (simp add: map_idI split_beta)
next
  case (Cons i ids)
  obtain h where h: "map_of (rg_runs r) i = Some h" "is_live h" using Cons.prems(3) by auto
  let ?r = "reclaim_one now i r"
  note one = reclaim_one_live [OF h, of now]
  have ok: "registry_ok C ?r"
    unfolding one by (rule complete_run_ok [OF Cons.prems(1) h]) (simp add: reclaimed_def is_live_def)
  have "map_of (rg_runs ?r) j = map_of (rg_runs r) j" if "j \<noteq> i" for j
    using that unfolding one by (simp add: stamp_map_of)
  then have live: "\<forall>j\<in>set ids. \<exists>h. map_of (rg_runs ?r) j = Some h \<and> is_live h"
    using Cons.prems(2,3) by (metis distinct.simps(2) list.set_intros(2))
  have fields: "rg_completion_order ?r = rg_completion_order r @ [i]"
      "rg_runs ?r = map (\<lambda>(j, h). (j, if j = i then reclaimed now h else h)) (rg_runs r)"
    by (simp_all add: one stamp_def)
  have "distinct ids" "i \<notin> set ids" using Cons.prems(2) by auto
  with Cons.IH [OF ok this(1) live] show ?case by (auto simp: fields)
qed
  then show "registry_ok C (fold (reclaim_one now) ids r)"
    "rg_completion_order (fold (reclaim_one now) ids r) = rg_completion_order r @ ids"
    "rg_runs (fold (reclaim_one now) ids r)
      = map (\<lambda>(j, h). (j, if j \<in> set ids then reclaimed now h else h)) (rg_runs r)"
    by blast+
qed

lemma completed_filter:
  "completed_ids (filter (\<lambda>(i, h). P i h) runs) = {i. \<exists>h. (i, h) \<in> set runs \<and> P i h \<and> \<not> is_live h}"
  by (auto simp: completed_ids_def)

lemma distinct_keys_filter: "distinct (map fst xs) \<Longrightarrow> distinct (map fst (filter P xs))"
  by (metis distinct_map_filter)

lemma evict_expired_ok:
  assumes ok: "registry_ok C r"
  shows "registry_ok C (evict_expired C now r)"
    and "rg_runs (evict_expired C now r) = filter (\<lambda>(_, h). \<not> expired C now h) (rg_runs r)"
    and "rg_completion_order (evict_expired C now r)
      = filter (\<lambda>i. i \<notin> {j. \<exists>h. (j, h) \<in> set (rg_runs r) \<and> expired C now h}) (rg_completion_order r)"
proof -
  let ?r = "evict_expired C now r" and ?gone = "{j. \<exists>h. (j, h) \<in> set (rg_runs r) \<and> expired C now h}"
  have gone: "set (map fst (filter (\<lambda>(_, h). expired C now h) (rg_runs r))) = ?gone" by force
  have empty: "map fst (filter (\<lambda>(_, h). expired C now h) (rg_runs r)) = [] \<Longrightarrow> ?gone = {}" using gone by (metis empty_set)
  show runs: "rg_runs ?r = filter (\<lambda>(_, h). \<not> expired C now h) (rg_runs r)" by (simp add: evict_expired_def Let_def)
  show queue: "rg_completion_order ?r = filter (\<lambda>i. i \<notin> ?gone) (rg_completion_order r)"
    unfolding evict_expired_def Let_def gone using empty by (auto simp: filter_id_conv)
  have key: "(i, h) \<in> set (rg_runs r) \<Longrightarrow> (i, h') \<in> set (rg_runs r) \<Longrightarrow> h = h'" for i h h'
    using ok unfolding registry_ok_def by (metis eq_key_imp_eq_value)
  have "set (rg_completion_order ?r) = completed_ids (rg_runs ?r)"
    using ok key unfolding runs queue completed_filter registry_ok_def completed_ids_def by auto
  moreover have "filter (\<lambda>(_, h). is_live h) (rg_runs ?r) = filter (\<lambda>(_, h). is_live h) (rg_runs r)"
    unfolding runs by (auto simp: is_live_def expired_def split_beta intro!: filter_cong)
  moreover have "rg_live ?r = rg_live r" by (simp add: evict_expired_def Let_def)
  ultimately show "registry_ok C ?r"
    using ok by (simp add: registry_ok_def runs queue distinct_keys_filter)
qed

lemma evict_excess_result:
  assumes "set queue \<subseteq> fst ` set runs" "distinct queue" "cnt = length queue"
  shows "evict_excess m cnt runs queue
    = (filter (\<lambda>(j, _). j \<notin> set (take (cnt - m) queue)) runs, drop (cnt - m) queue)"
  using assms
proof (induction queue arbitrary: runs cnt)
  case (Cons i queue)
  show ?case
  proof (cases "cnt > m")
    case True
    then obtain k where k: "cnt - m = Suc k" "length queue - m = k" "cnt - 1 = length queue" using Cons.prems(3) by (cases "cnt - m") auto
    have "set queue \<subseteq> fst ` set (filter (\<lambda>(j, _). j \<noteq> i) runs)" using Cons.prems(1,2) by force
    then have "evict_excess m (cnt - 1) (filter (\<lambda>(j, _). j \<noteq> i) runs) queue
        = (filter (\<lambda>(j, _). j \<notin> set (take k queue)) (filter (\<lambda>(j, _). j \<noteq> i) runs), drop k queue)"
      using Cons.IH [of "filter (\<lambda>(j, _). j \<noteq> i) runs" "cnt - 1"] Cons.prems(2) k by simp
    then show ?thesis using True Cons.prems(1) k by (auto intro: filter_cong)
  qed simp
qed simp

lemma terminal_count_queue:
  assumes "registry_ok C r"
  shows "terminal_count (rg_runs r) = length (rg_completion_order r)"
proof -
  let ?done = "filter (\<lambda>(_, h). \<not> is_live h) (rg_runs r)"
  have d: "distinct (map fst ?done)" using assms by (simp add: registry_ok_def distinct_keys_filter)
  have "set (map fst ?done) = set (rg_completion_order r)"
    using assms by (force simp: registry_ok_def completed_ids_def)
  then show ?thesis using d assms distinct_card [of "rg_completion_order r"] distinct_card [OF d]
    by (simp add: terminal_count_def registry_ok_def)
qed

lemma overdue_live:
  assumes "registry_ok C r" "i \<in> set (overdue_runs C now (rg_runs r))"
  shows "\<exists>h. map_of (rg_runs r) i = Some h \<and> is_live h \<and> past_deadline C (rn_created_at h) (rc_max_run_duration C) now"
  using assms by (auto simp: overdue_runs_def registry_ok_def is_live_def)

lemma reclaim_result:
  assumes ok: "registry_ok C r" and order: "mset (order (overdue_runs C now (rg_runs r))) = mset (overdue_runs C now (rg_runs r))"
  shows "registry_ok C (reclaim C order now r)"
    and "rg_runs (reclaim C order now r) = map (\<lambda>(j, h). (j,
      if is_live h \<and> past_deadline C (rn_created_at h) (rc_max_run_duration C) now then reclaimed now h else h)) (rg_runs r)"
proof -
  let ?ids = "overdue_runs C now (rg_runs r)"
  have keys: "distinct (map fst (rg_runs r))" using ok by (simp add: registry_ok_def)
  have "distinct ?ids" using keys by (simp add: overdue_runs_def distinct_keys_filter)
  then have d: "distinct (order ?ids)" "set (order ?ids) = set ?ids"
    using mset_eq_imp_distinct_iff [OF order] mset_eq_setD [OF order] by auto
  have live: "\<forall>i\<in>set (order ?ids). \<exists>h. map_of (rg_runs r) i = Some h \<and> is_live h"
    using overdue_live [OF ok] unfolding d(2) by blast
  note f = reclaim_fold [OF ok d(1) live]
  show "registry_ok C (reclaim C order now r)" unfolding reclaim_def by (rule f(1))
  have "(j, h) \<in> set (rg_runs r) \<Longrightarrow> j \<in> set ?ids \<longleftrightarrow> is_live h \<and> past_deadline C (rn_created_at h) (rc_max_run_duration C) now" for j h
  proof
    show "is_live h \<and> past_deadline C (rn_created_at h) (rc_max_run_duration C) now" if "(j, h) \<in> set (rg_runs r)" "j \<in> set ?ids"
      using that keys by (auto simp: overdue_runs_def is_live_def dest: eq_key_imp_eq_value)
    show "j \<in> set ?ids" if "(j, h) \<in> set (rg_runs r)" "is_live h \<and> past_deadline C (rn_created_at h) (rc_max_run_duration C) now"
      using that by (force simp: overdue_runs_def is_live_def)
  qed
  then show "rg_runs (reclaim C order now r) = map (\<lambda>(j, h). (j,
      if is_live h \<and> past_deadline C (rn_created_at h) (rc_max_run_duration C) now then reclaimed now h else h)) (rg_runs r)"
    unfolding reclaim_def f(3) d(2) by (auto intro!: map_cong)
qed

lemma cap_result:
  assumes ok: "registry_ok C r"
  defines "q \<equiv> rg_completion_order r"
  defines "k \<equiv> length q - rc_max_runs C"
  defines "r' \<equiv> r\<lparr>rg_runs := filter (\<lambda>(j, _). j \<notin> set (take k q)) (rg_runs r), rg_completion_order := drop k q\<rparr>"
  shows "evict_excess (rc_max_runs C) (terminal_count (rg_runs r)) (rg_runs r) q = (rg_runs r', rg_completion_order r')"
    and "registry_ok C r'" "terminal_count (rg_runs r') \<le> rc_max_runs C"
    and "(i, h) \<in> set (rg_runs r) \<Longrightarrow> is_live h \<Longrightarrow> (i, h) \<in> set (rg_runs r')"
proof -
  have q: "distinct q" "set q = completed_ids (rg_runs r)" "distinct (map fst (rg_runs r))"
    using ok by (simp_all add: registry_ok_def q_def)
  have sub: "set q \<subseteq> fst ` set (rg_runs r)" unfolding q(2) by (force simp: completed_ids_def)
  show "evict_excess (rc_max_runs C) (terminal_count (rg_runs r)) (rg_runs r) q = (rg_runs r', rg_completion_order r')"
    using evict_excess_result [OF sub q(1) refl] by (simp add: terminal_count_queue [OF ok] r'_def k_def q_def)
  have key: "(j, h) \<in> set (rg_runs r) \<Longrightarrow> (j, h') \<in> set (rg_runs r) \<Longrightarrow> h = h'" for j h h'
    using q(3) by (metis eq_key_imp_eq_value)
  have live: "j \<notin> set (take k q)" if "(j, h) \<in> set (rg_runs r)" "is_live h" for j h
    using that key q(2) set_take_subset [of k q] unfolding completed_ids_def by blast
  then show "(i, h) \<in> set (rg_runs r) \<Longrightarrow> is_live h \<Longrightarrow> (i, h) \<in> set (rg_runs r')" by (auto simp: r'_def)
  have lives: "filter (\<lambda>(_, h). is_live h) (rg_runs r') = filter (\<lambda>(_, h). is_live h) (rg_runs r)"
    using live by (auto simp: r'_def intro!: filter_cong)
  have "set (take k q) \<inter> set (drop k q) = {}" "set (take k q) \<union> set (drop k q) = set q"
    using q(1) by (metis append_take_drop_id distinct_append, metis append_take_drop_id set_append)
  moreover have "completed_ids (rg_runs r') = completed_ids (rg_runs r) - set (take k q)"
    by (auto simp: r'_def completed_ids_def)
  ultimately have "set (drop k q) = completed_ids (rg_runs r')" using q(2) by blast
  then show ok': "registry_ok C r'"
    using ok lives q by (simp add: registry_ok_def r'_def distinct_keys_filter)
  show "terminal_count (rg_runs r') \<le> rc_max_runs C"
    using terminal_count_queue [OF ok'] by (simp add: r'_def k_def)
qed

lemma sweep_facts:
  assumes "registry_ok C r" "\<And>xs. mset (order xs) = mset xs"
  shows "registry_ok C (sweep C order now r)
    \<and> list_all (\<lambda>(i, h). \<not> expired C now h
        \<and> \<not> (is_live h \<and> past_deadline C (rn_created_at h) (rc_max_run_duration C) now)) (rg_runs (sweep C order now r))
    \<and> terminal_count (rg_runs (sweep C order now r)) \<le> rc_max_runs C
    \<and> {p \<in> set (rg_runs r). is_live (snd p) \<and> \<not> past_deadline C (rn_created_at (snd p)) (rc_max_run_duration C) now}
        \<subseteq> set (rg_runs (sweep C order now r))
    \<and> {p \<in> set (rg_runs (sweep C order now r)). is_live (snd p)} \<subseteq> set (rg_runs r)
    \<and> suffix (rg_completion_order (sweep C order now r))
        (rg_completion_order (evict_expired C now (reclaim C order now r)))"
proof -
  let ?late = "\<lambda>h. past_deadline C (rn_created_at h) (rc_max_run_duration C) now"
  define r1 where "r1 = reclaim C order now r"
  define r2 where "r2 = evict_expired C now r1"
  note one = reclaim_result [OF assms(1), of order now, OF assms(2), folded r1_def]
  note two = evict_expired_ok [OF one(1), of now, folded r2_def]
  note three = cap_result [OF two(1)]
  let ?q = "rg_completion_order r2"
  let ?r3 = "r2\<lparr>rg_runs := filter (\<lambda>(j, _). j \<notin> set (take (length ?q - rc_max_runs C) ?q)) (rg_runs r2),
    rg_completion_order := drop (length ?q - rc_max_runs C) ?q\<rparr>"
  have s: "sweep C order now r = ?r3"
    unfolding sweep_def Let_def r1_def [symmetric] r2_def [symmetric] three(1) by simp
  have late: "\<not> (is_live h \<and> ?late h)" if "(i, h) \<in> set (rg_runs r1)" for i h
    using that unfolding one(2) by (auto simp: reclaimed_def is_live_def split: if_splits)
  have kept: "(i, h) \<in> set (rg_runs ?r3)" if "(i, h) \<in> set (rg_runs r)" "is_live h" "\<not> ?late h" for i h
  proof (rule three(4))
    have "(i, h) \<in> set (rg_runs r1)" unfolding one(2) using that by force
    then show "(i, h) \<in> set (rg_runs r2)" unfolding two(2) using that(2) by (simp add: is_live_def expired_def)
  qed (rule that(2))
  have old: "(i, h) \<in> set (rg_runs r)" if "(i, h) \<in> set (rg_runs ?r3)" "is_live h" for i h
  proof -
    have "(i, h) \<in> set (rg_runs r1)" using that(1) by (simp add: two(2))
    then show ?thesis using that(2) unfolding one(2) by (auto simp: reclaimed_def is_live_def split: if_splits)
  qed
  have "suffix (rg_completion_order ?r3) ?q" by (simp add: suffix_drop)
  moreover have "list_all (\<lambda>(i, h). \<not> expired C now h \<and> \<not> (is_live h \<and> ?late h)) (rg_runs ?r3)"
    using late by (auto simp: list_all_iff two(2))
  moreover have "{p \<in> set (rg_runs r). is_live (snd p) \<and> \<not> ?late (snd p)} \<subseteq> set (rg_runs ?r3)"
    using kept by (metis (no_types, lifting) mem_Collect_eq prod.collapse subsetI)
  moreover have "{p \<in> set (rg_runs ?r3). is_live (snd p)} \<subseteq> set (rg_runs r)"
    using old by (metis (no_types, lifting) mem_Collect_eq prod.collapse subsetI)
  ultimately show ?thesis
    unfolding s r1_def [symmetric] r2_def [symmetric] using three(2,3) by blast
qed

text \<open>
  C30. What a sweep leaves, in every state of the registry: the invariant; no live run past its maximum duration, no
  completed run past its retention time and no more completed runs than the limit; and the live
  runs in time, untouched. The completed runs that the limit removes are the ones that completed first.
\<close>

theorem sweep_result:
  assumes "registry_ok C r" "\<And>xs. mset (order xs) = mset xs"
  shows "registry_ok C (sweep C order now r)
    \<and> list_all (\<lambda>(i, h). \<not> expired C now h
        \<and> \<not> (is_live h \<and> past_deadline C (rn_created_at h) (rc_max_run_duration C) now)) (rg_runs (sweep C order now r))
    \<and> terminal_count (rg_runs (sweep C order now r)) \<le> rc_max_runs C
    \<and> {p \<in> set (rg_runs r). is_live (snd p) \<and> \<not> past_deadline C (rn_created_at (snd p)) (rc_max_run_duration C) now}
        \<subseteq> set (rg_runs (sweep C order now r))
    \<and> suffix (rg_completion_order (sweep C order now r))
        (rg_completion_order (evict_expired C now (reclaim C order now r)))"
  using sweep_facts [OF assms, of now] by blast

text \<open>
  Admission and reclamation: a run is admitted exactly when fewer than the maximum are in
  flight, the cap is never exceeded, and after a sweep at a time when every live run is past its
  maximum duration a new run is admitted again.
\<close>

theorem admission_recovers:
  assumes "registry_ok C r" "\<And>xs. mset (order xs) = mset xs" "0 < rc_max_in_flight C" "0 < rc_max_events_per_run C"
    and "list_all (\<lambda>(_, h). past_deadline C (rn_created_at h) (rc_max_run_duration C) now) (rg_runs r)"
  shows "\<exists>h r'. registry_create C i a p now (sweep C order now r) = (Some (Ok (i, h)), r') \<and> rg_live r' = 1"
proof -
  let ?s = "sweep C order now r"
  note s = sweep_facts [OF assms(1,2), of now]
  have "\<not> is_live h" if "(j, h) \<in> set (rg_runs ?s)" for j h
    using that s assms(5) by (fastforce simp: list_all_iff)
  then have "filter (\<lambda>(_, h). is_live h) (rg_runs ?s) = []" by (auto simp: filter_empty_conv)
  then have "rg_live ?s = 0" using s by (simp add: registry_ok_def)
  then show ?thesis using assms(3,4) by (simp add: registry_create_def event_log_new_def Let_def)
qed

text \<open>The states a server can reach; identifiers are fresh.\<close>

inductive registry_reach :: "registry_config \<Rightarrow> 'id registry \<Rightarrow> bool" for C where
  new: "registry_reach C registry_new"
| create: "registry_reach C r \<Longrightarrow> i \<notin> fst ` set (rg_runs r) \<Longrightarrow> registry_create C i a p now r = (res, r')
    \<Longrightarrow> registry_reach C r'"
| terminal: "registry_reach C r \<Longrightarrow> registry_reach C (note_terminal i now r)"
| swept: "registry_reach C r \<Longrightarrow> (\<And>xs. mset (order xs) = mset xs) \<Longrightarrow> registry_reach C (sweep C order now r)"

lemma registry_reach_ok: "registry_reach C r \<Longrightarrow> registry_ok C r"
proof (induction rule: registry_reach.induct)
  case new
  show ?case by (rule registry_new_ok)
next
  case (create r i a p now res r')
  then show ?case by (metis registry_create_ok)
next
  case (terminal r i now)
  then show ?case by (simp add: note_terminal_ok)
next
  case (swept r order now)
  then show ?case using sweep_facts by blast
qed

text \<open>
  The registry is bounded over the whole life of a server: at most the configured number of runs is in
  flight at any time, and every sweep leaves at most that many plus the retention limit.
\<close>

theorem registry_bounded:
  assumes "registry_reach C r" "\<And>xs. mset (order xs) = mset xs"
  shows "length (filter (\<lambda>(_, h). is_live h) (rg_runs r)) \<le> rc_max_in_flight C
    \<and> length (rg_runs (sweep C order now r)) \<le> rc_max_runs C + rc_max_in_flight C"
proof -
  have ok: "registry_ok C r" by (rule registry_reach_ok [OF assms(1)])
  note s = sweep_facts [OF ok assms(2), of now]
  let ?runs = "rg_runs (sweep C order now r)"
  have "length ?runs = length (filter (\<lambda>(_, h). is_live h) ?runs) + terminal_count ?runs"
    unfolding terminal_count_def using sum_length_filter_compl [of "\<lambda>p. is_live (snd p)" ?runs] by (simp add: case_prod_unfold)
  moreover have "length (filter (\<lambda>(_, h). is_live h) ?runs) \<le> rc_max_in_flight C"
    using s by (simp add: registry_ok_def)
  ultimately show ?thesis using s ok by (simp add: registry_ok_def)
qed

section \<open>Examples\<close>

definition config_ex :: registry_config where
  "config_ex = \<lparr>rc_ttl = 10, rc_max_runs = 1, rc_max_events_per_run = 4, rc_max_in_flight = 1, rc_max_run_duration = 5,
     rc_instant_max = 100\<rparr>"

definition registry_ex :: "nat registry" where
  "registry_ex = snd (registry_create config_ex 7 ''a'' None 0 registry_new)"

lemma registry_ex_reached: "registry_reach config_ex registry_ex"
  unfolding registry_ex_def
  by (rule registry_reach.create [OF registry_reach.new _ surjective_pairing]) (simp add: registry_new_def)

theorem sweep_result_witness:
  "registry_ok config_ex (sweep config_ex (\<lambda>xs. xs) 6 registry_ex)
   \<and> terminal_count (rg_runs (sweep config_ex (\<lambda>xs. xs) 6 registry_ex)) \<le> 1"
  using sweep_result [OF registry_reach_ok [OF registry_ex_reached], of "\<lambda>xs. xs" 6] by (simp add: config_ex_def)

theorem admission_recovers_witness:
  "\<exists>h r'. registry_create config_ex 8 ''a'' None 6 (sweep config_ex (\<lambda>xs. xs) 6 registry_ex) = (Some (Ok (8, h)), r')"
proof -
  have "list_all (\<lambda>(_, h). past_deadline config_ex (rn_created_at h) (rc_max_run_duration config_ex) 6) (rg_runs registry_ex)"
    by code_simp
  then show ?thesis
    using admission_recovers [OF registry_reach_ok [OF registry_ex_reached], of "\<lambda>xs. xs" 6 8 "''a''" None]
    by (auto simp: config_ex_def)
qed

theorem registry_bounded_witness: "length (rg_runs (sweep config_ex (\<lambda>xs. xs) 6 registry_ex)) \<le> 2"
  using registry_bounded [OF registry_ex_reached, of "\<lambda>xs. xs" 6] by (simp add: config_ex_def)

end
