(* ===== verification/Server_Http.thy ===== *)
theory Server_Http
  imports Server_Runs
begin

text \<open>
  The request handlers of the HTTP server (\<open>server.rs\<close>, \<open>error.rs\<close>, \<open>dto.rs\<close>, \<open>handlers/runs.rs\<close> and
  \<open>handlers/events.rs\<close> of \<open>runtime-axum\<close>): the builder, authentication, admission of a run up to the session
  lock, the start of the run under the lock, the writer, and the responses. The composed server is
  a step relation over all requests in flight. Shown are that a named session without a principal is refused
  with nothing touched, that runs of one session never overlap, that the registry keeps its
  invariant under every schedule, that internal error texts stay inside, that the events endpoint does not
  tell foreign runs from missing ones, and that event streams end with exactly one terminal frame.
\<close>

section \<open>Errors and their responses\<close>

record auth_rejection =
  ar_status :: nat
  ar_message :: string

datatype server_error =
    UnknownAgent string
  | BadRequest string
  | Unauthorized auth_rejection
  | RunStart string
  | ServerUnavailable string
  | Internal string

text \<open>\<open>reason\<close> is the canonical text of a status code (the \<open>http\<close> crate).\<close>

definition auth_rejection_display :: "(nat \<Rightarrow> string) \<Rightarrow> auth_rejection \<Rightarrow> string" where
  "auth_rejection_display reason r = ar_message r @ '' ('' @ reason (ar_status r) @ '')''"

fun server_error_display :: "(nat \<Rightarrow> string) \<Rightarrow> server_error \<Rightarrow> string" where
  "server_error_display reason (UnknownAgent m) = ''unknown agent: '' @ m"
| "server_error_display reason (BadRequest m) = ''bad request: '' @ m"
| "server_error_display reason (Unauthorized r) = ''unauthorized: '' @ auth_rejection_display reason r"
| "server_error_display reason (RunStart m) = ''run start failed: '' @ m"
| "server_error_display reason (ServerUnavailable m) = ''service unavailable: '' @ m"
| "server_error_display reason (Internal m) = ''internal error: '' @ m"

fun error_status :: "server_error \<Rightarrow> nat" where
  "error_status (UnknownAgent _) = 404"
| "error_status (BadRequest _) = 400"
| "error_status (Unauthorized rej) = (if ar_status rej = 401 \<or> ar_status rej = 403 then ar_status rej else 401)"
| "error_status (RunStart _) = 500"
| "error_status (ServerUnavailable _) = 503"
| "error_status (Internal _) = 500"

fun error_public :: "server_error \<Rightarrow> string option" where
  "error_public (RunStart _) = Some ''internal error''"
| "error_public (Internal _) = Some ''internal error''"
| "error_public (ServerUnavailable _) = Some ''service unavailable''"
| "error_public _ = None"

record error_reply =
  er_status :: nat
  er_body :: string
  er_retry_after :: "string option"

definition error_into_response :: "(nat \<Rightarrow> string) \<Rightarrow> server_error \<Rightarrow> error_reply" where
  "error_into_response reason e =
     \<lparr>er_status = error_status e,
      er_body = (case error_public e of Some m \<Rightarrow> m | None \<Rightarrow> server_error_display reason e),
      er_retry_after = (if error_status e = 503 then Some ''1'' else None)\<rparr>"

section \<open>Requests and responses\<close>

record run_query =
  rq_stream :: "string option"
  rq_mode :: "string option"

definition is_async :: "run_query \<Rightarrow> bool" where
  "is_async q \<longleftrightarrow> rq_mode q = Some ''async''"

definition is_sse :: "run_query \<Rightarrow> bool" where
  "is_sse q \<longleftrightarrow> rq_stream q = Some ''sse''"

definition query_validate :: "run_query \<Rightarrow> server_error + unit" where
  "query_validate q =
     (if rq_mode q \<noteq> None \<and> the (rq_mode q) \<noteq> ''async''
      then Err (BadRequest (''invalid `mode` selector `'' @ the (rq_mode q) @ ''`; the only supported value is `async`''))
      else if rq_stream q \<noteq> None \<and> the (rq_stream q) \<noteq> ''sse''
      then Err (BadRequest (''invalid `stream` selector `'' @ the (rq_stream q) @ ''`; the only supported value is `sse`''))
      else if is_async q \<and> is_sse q
      then Err (BadRequest ''`mode=async` and `stream=sse` are mutually exclusive'')
      else Ok ())"

text \<open>The body: the derived parser of the raw struct is a parameter, the choice between its fields is the program's.\<close>

record run_request_raw =
  rr_input :: "string option"
  rr_messages :: "item list option"

datatype run_request = RequestInput string | RequestMessages "item list"

definition run_request_of_raw :: "run_request_raw \<Rightarrow> string + run_request" where
  "run_request_of_raw raw =
     (case (rr_input raw, rr_messages raw) of
        (Some input, None) \<Rightarrow> Ok (RequestInput input)
      | (None, Some messages) \<Rightarrow> Ok (RequestMessages messages)
      | (Some _, Some _) \<Rightarrow> Err ''provide exactly one of `input` or `messages`, not both''
      | (None, None) \<Rightarrow> Err ''provide exactly one of `input` or `messages`'')"

definition into_agent_input :: "run_request \<Rightarrow> item list" where
  "into_agent_input r = (case r of RequestInput s \<Rightarrow> [UserMessage [Text s]] | RequestMessages ms \<Rightarrow> ms)"

text \<open>
  What the handler sees of a request. Header values are bytes; \<open>hx_to_str\<close> is the \<open>http\<close> crate's check
  that they are text, \<open>hx_to_bytes\<close> reads the body up to a limit, \<open>hx_from_slice\<close> parses the raw struct.
\<close>

record request_parts =
  rp_content_type :: "string option"
  rp_session_id :: "string option"
  rp_principal :: "string option"
  rp_other :: string

record http_ext =
  hx_to_str :: "string \<Rightarrow> string option"
  hx_to_bytes :: "string \<Rightarrow> nat \<Rightarrow> string + string"
  hx_from_slice :: "string \<Rightarrow> string + run_request_raw"

definition max_body_bytes :: nat where "max_body_bytes = 2 * 1024 * 1024"

definition media_type :: "string \<Rightarrow> string" where
  "media_type ct = to_ascii_lowercase (trim (case split_on CHR '';'' ct of m # _ \<Rightarrow> m | [] \<Rightarrow> []))"

definition is_json_type :: "string \<Rightarrow> bool" where
  "is_json_type mime \<longleftrightarrow> mime = ''application/json'' \<or> starts_with ''application/'' mime \<and> ends_with ''+json'' mime"

definition read_body :: "http_ext \<Rightarrow> string \<Rightarrow> server_error + run_request" where
  "read_body X body =
     (case hx_to_bytes X body max_body_bytes of
        Err e \<Rightarrow> Err (BadRequest (''failed to read request body: '' @ e))
      | Ok bytes \<Rightarrow>
          (case (case hx_from_slice X bytes of Err e \<Rightarrow> Err e | Ok raw \<Rightarrow> run_request_of_raw raw) of
             Err e \<Rightarrow> Err (BadRequest (''invalid run request body: '' @ e))
           | Ok r \<Rightarrow> Ok r))"

definition read_run_request :: "http_ext \<Rightarrow> request_parts \<Rightarrow> string \<Rightarrow> server_error + run_request" where
  "read_run_request X parts body =
     (case Option.bind (rp_content_type parts) (hx_to_str X) of
        Some ct \<Rightarrow> if is_json_type (media_type ct) then read_body X body
          else Err (BadRequest (''unsupported content type `'' @ media_type ct @ ''`; expected application/json''))
      | None \<Rightarrow> read_body X body)"

datatype run_status = StatusCompleted | StatusFailed

record run_response =
  rs_run_id :: string
  rs_status :: run_status
  rs_output :: "string option"
  rs_error :: "string option"
  rs_usage :: "token_usage option"
  rs_run_events :: "agent_event list"

fun response_scan :: "run_response \<Rightarrow> agent_event list \<Rightarrow> run_response" where
  "response_scan r [] = r"
| "response_scan r (MessageOutput (AssistantMessage content _) # evs) =
     response_scan (if flatten_text content \<noteq> [] then r\<lparr>rs_output := Some (flatten_text content)\<rparr> else r) evs"
| "response_scan r (RunCompleted u # evs) = response_scan (r\<lparr>rs_status := StatusCompleted, rs_usage := Some u\<rparr>) evs"
| "response_scan r (RunFailed e # evs) = response_scan (r\<lparr>rs_status := StatusFailed, rs_error := Some e\<rparr>) evs"
| "response_scan r (_ # evs) = response_scan r evs"

definition run_response_from_events :: "string \<Rightarrow> agent_event list \<Rightarrow> run_response" where
  "run_response_from_events i events = response_scan
     \<lparr>rs_run_id = i, rs_status = StatusFailed, rs_output = None, rs_error = None, rs_usage = None, rs_run_events = events\<rparr> events"

definition oneshot_response :: "string \<Rightarrow> run_handle \<Rightarrow> agent_event list \<Rightarrow> server_error + run_response" where
  "oneshot_response i h events =
     (case rn_start_error h of Some msg \<Rightarrow> Err (RunStart msg) | None \<Rightarrow> Ok (run_response_from_events i events))"

text \<open>The streaming responses over what the subscriber delivers.\<close>

fun sse_stream :: "run_handle \<Rightarrow> bool \<Rightarrow> agent_event list \<Rightarrow> agent_event list" where
  "sse_stream h saw_terminal (ev # evs) = ev # sse_stream h (saw_terminal \<or> is_terminal ev) evs"
| "sse_stream h saw_terminal [] = (case synthetic_terminal_frame h saw_terminal of Some frame \<Rightarrow> [frame] | None \<Rightarrow> [])"

text \<open>
  The WebSocket loop under an arbitrary schedule of its two arms: the next event, sent or not, or an
  inbound frame that closes the connection or is ignored.
\<close>

datatype socket_poll = NextEvent bool | RecvClose | RecvOther

datatype ws_frame = WsText agent_event | WsClose

fun handle_socket :: "run_handle \<Rightarrow> bool \<Rightarrow> socket_poll list \<Rightarrow> agent_event list \<Rightarrow> ws_frame list" where
  "handle_socket h saw_terminal [] evs = []"
| "handle_socket h saw_terminal (NextEvent sent # ps) (ev # evs) =
     (if sent then WsText ev # handle_socket h (saw_terminal \<or> is_terminal ev) ps evs else [])"
| "handle_socket h saw_terminal (NextEvent sent # ps) [] =
     (case synthetic_terminal_frame h saw_terminal of Some frame \<Rightarrow> [WsText frame] | None \<Rightarrow> []) @ [WsClose]"
| "handle_socket h saw_terminal (RecvClose # ps) evs = []"
| "handle_socket h saw_terminal (RecvOther # ps) evs = handle_socket h saw_terminal ps evs"

section \<open>The server\<close>

text \<open>
  The session store is the in-memory one or a custom one with a state of its own; agents, contexts
  and the authentication layer are parameters.
\<close>

record ('a, 's, 'ctx) server_env =
  sv_agents :: "(string \<times> 'a) list"
  sv_custom :: "session_key \<Rightarrow> 's \<Rightarrow> (server_error + nat) \<times> 's"
  sv_context :: "request_parts \<Rightarrow> nat \<Rightarrow> server_error + 'ctx"
  sv_auth :: "(request_parts \<Rightarrow> auth_rejection + request_parts) option"
  sv_require_principal :: bool
  sv_config :: registry_config
  sv_ext :: http_ext

text \<open>A request waits for its session lock or has a running writer; tasks are newest first.\<close>

record 'a pending =
  pd_agent :: 'a
  pd_name :: string
  pd_query :: run_query
  pd_parts :: request_parts
  pd_input :: "item list"
  pd_principal :: "string option"
  pd_key :: session_key
  pd_session :: nat
  pd_lock :: nat

datatype 'id task_phase = Waiting | Running 'id

record ('a, 'id, 's) server_state =
  st_sessions :: "'s + session_provider"
  st_locks :: session_locks
  st_registry :: "'id registry"
  st_tasks :: "('a pending \<times> 'id task_phase) list"

definition resolve_session :: "('a, 's, 'ctx) server_env \<Rightarrow> session_key \<Rightarrow> ('a, 'id, 's) server_state
    \<Rightarrow> (server_error + nat) \<times> ('a, 'id, 's) server_state" where
  "resolve_session E k st =
     (case st_sessions st of
        Inl s \<Rightarrow> (case sv_custom E k s of (r, s') \<Rightarrow> (r, st\<lparr>st_sessions := Inl s'\<rparr>))
      | Inr p \<Rightarrow> (case provider_session k p of (a, p') \<Rightarrow> (Ok a, st\<lparr>st_sessions := Inr p'\<rparr>)))"

definition auth_middleware :: "('a, 's, 'ctx) server_env \<Rightarrow> request_parts \<Rightarrow> server_error + request_parts" where
  "auth_middleware E parts =
     (case sv_auth E of
        None \<Rightarrow> Ok parts
      | Some authenticate \<Rightarrow> (case authenticate parts of Err rej \<Rightarrow> Err (Unauthorized rej) | Ok parts' \<Rightarrow> Ok parts'))"

definition session_header :: "http_ext \<Rightarrow> request_parts \<Rightarrow> server_error + string option" where
  "session_header X parts =
     (case rp_session_id parts of
        None \<Rightarrow> Ok None
      | Some v \<Rightarrow> (case hx_to_str X v of
            None \<Rightarrow> Err (BadRequest ''invalid `X-Session-Id` header: not valid UTF-8'')
          | Some s \<Rightarrow> Ok (Some s)))"

text \<open>\<open>create_run\<close> up to the point where the request waits for the session lock.\<close>

definition create_run :: "('a, 's, 'ctx) server_env \<Rightarrow> string \<Rightarrow> run_query \<Rightarrow> request_parts \<Rightarrow> string
    \<Rightarrow> ('a, 'id, 's) server_state \<Rightarrow> (server_error + 'a pending) \<times> ('a, 'id, 's) server_state" where
  "create_run E name query parts body st =
     (case query_validate query of Err e \<Rightarrow> (Err e, st) | Ok _ \<Rightarrow>
     (case map_of (sv_agents E) name of None \<Rightarrow> (Err (UnknownAgent name), st) | Some agent \<Rightarrow>
     (case read_run_request (sv_ext E) parts body of Err e \<Rightarrow> (Err e, st) | Ok req \<Rightarrow>
     (case session_header (sv_ext E) parts of Err e \<Rightarrow> (Err e, st) | Ok session_id \<Rightarrow>
     (if sv_require_principal E \<and> rp_principal parts = None \<and> session_id \<noteq> None
      then (Err (Unauthorized \<lparr>ar_status = 403, ar_message = ''session id requires an authenticated principal''\<rparr>), st)
      else (let key = \<lparr>sk_principal = rp_principal parts, sk_id = session_id\<rparr> in
     (case resolve_session E key st of
        (Err e, st) \<Rightarrow> (Err e, st)
      | (Ok session, st) \<Rightarrow>
     (case lock_for key (st_locks st) of (lock, locks) \<Rightarrow>
        (let pd = \<lparr>pd_agent = agent, pd_name = name, pd_query = query, pd_parts = parts, pd_input = into_agent_input req,
              pd_principal = rp_principal parts, pd_key = key, pd_session = session, pd_lock = lock\<rparr>
         in (Ok pd, st\<lparr>st_locks := locks, st_tasks := (pd, Waiting) # st_tasks st\<rparr>))))))))))"

definition post_run :: "('a, 's, 'ctx) server_env \<Rightarrow> string \<Rightarrow> run_query \<Rightarrow> request_parts \<Rightarrow> string
    \<Rightarrow> ('a, 'id, 's) server_state \<Rightarrow> (server_error + 'a pending) \<times> ('a, 'id, 's) server_state" where
  "post_run E name query parts body st =
     (case auth_middleware E parts of Err e \<Rightarrow> (Err e, st) | Ok parts' \<Rightarrow> create_run E name query parts' body st)"

text \<open>
  The rest of \<open>create_run\<close> under the lock. A request that fails here drops its guard; \<open>None\<close> is the panic of a
  log without capacity. On success the guard moves into the writer task.
\<close>

definition drop_task :: "nat \<Rightarrow> ('a, 'id, 's) server_state \<Rightarrow> ('a, 'id, 's) server_state" where
  "drop_task n st = st\<lparr>st_locks := lock_drop n (st_locks st), st_tasks := take n (st_tasks st) @ drop (Suc n) (st_tasks st)\<rparr>"

definition start_run :: "('a, 's, 'ctx) server_env \<Rightarrow> 'id \<Rightarrow> nat \<Rightarrow> nat \<Rightarrow> ('a, 'id, 's) server_state
    \<Rightarrow> (server_error + 'id \<times> run_handle \<times> 'ctx) option \<times> ('a, 'id, 's) server_state" where
  "start_run E i now n st =
     (let pd = fst (st_tasks st ! n) in
      case sv_context E (pd_parts pd) (pd_session pd) of
        Err e \<Rightarrow> (Some (Err e), drop_task n st)
      | Ok ctx \<Rightarrow>
          (case registry_create (sv_config E) i (pd_name pd) (pd_principal pd) now (st_registry st) of
             (None, r) \<Rightarrow> (None, drop_task n (st\<lparr>st_registry := r\<rparr>))
           | (Some (Err m), r) \<Rightarrow> (Some (Err (ServerUnavailable m)), drop_task n (st\<lparr>st_registry := r\<rparr>))
           | (Some (Ok (i, h)), r) \<Rightarrow>
               (Some (Ok (i, h, ctx)), st\<lparr>st_registry := r, st_tasks := (st_tasks st)[n := (pd, Running i)]\<rparr>)))"

text \<open>What the writer, its terminal guard and a disconnecting client do to the handle of a run.\<close>

definition on_handle :: "'id \<Rightarrow> (run_handle \<Rightarrow> run_handle) \<Rightarrow> ('a, 'id, 's) server_state \<Rightarrow> ('a, 'id, 's) server_state" where
  "on_handle i f st = st\<lparr>st_registry := (st_registry st)\<lparr>rg_runs := stamp i f (rg_runs (st_registry st))\<rparr>\<rparr>"

definition writer_append :: "'id \<Rightarrow> agent_event \<Rightarrow> ('a, 'id, 's) server_state \<Rightarrow> ('a, 'id, 's) server_state" where
  "writer_append i ev = on_handle i (\<lambda>h. h\<lparr>rn_log := log_append ev (rn_log h)\<rparr>)"

definition writer_start_error :: "'id \<Rightarrow> string \<Rightarrow> ('a, 'id, 's) server_state \<Rightarrow> ('a, 'id, 's) server_state" where
  "writer_start_error i msg = on_handle i (\<lambda>h. h\<lparr>rn_start_error := Some msg\<rparr>)"

definition disconnect :: "'id \<Rightarrow> ('a, 'id, 's) server_state \<Rightarrow> ('a, 'id, 's) server_state" where
  "disconnect i = on_handle i (\<lambda>h. h\<lparr>rn_cancelled := True\<rparr>)"

definition terminal_guard :: "'id \<Rightarrow> nat \<Rightarrow> ('a, 'id, 's) server_state \<Rightarrow> ('a, 'id, 's) server_state" where
  "terminal_guard i now st =
     (let st = on_handle i (\<lambda>h. h\<lparr>rn_log := mark_terminal (rn_log h)\<rparr>) st
      in st\<lparr>st_registry := note_terminal i now (st_registry st)\<rparr>)"

text \<open>The writer's last actions: the terminal bookkeeping, then the session lock.\<close>

definition writer_end :: "nat \<Rightarrow> 'id \<Rightarrow> nat \<Rightarrow> ('a, 'id, 's) server_state \<Rightarrow> ('a, 'id, 's) server_state" where
  "writer_end n i now st = drop_task n (terminal_guard i now st)"

text \<open>\<open>GET /agents/{name}/runs/{id}/events\<close>; \<open>parse_uuid\<close> is the \<open>uuid\<close> crate's.\<close>

definition events_endpoint :: "(string \<Rightarrow> 'id option) \<Rightarrow> 'id registry \<Rightarrow> string \<Rightarrow> string \<Rightarrow> string option
    \<Rightarrow> server_error + run_handle" where
  "events_endpoint parse_uuid r name i owner =
     (case parse_uuid i of
        None \<Rightarrow> Err (BadRequest (''invalid run id: '' @ i))
      | Some run_id \<Rightarrow>
          (case registry_get r run_id of
             Some h \<Rightarrow> if rn_agent_name h = name \<and> rn_principal h = owner then Ok h
               else Err (UnknownAgent (name @ ''/'' @ i))
           | None \<Rightarrow> Err (UnknownAgent (name @ ''/'' @ i))))"

section \<open>The builder\<close>

record ('a, 's, 'ctx) server_builder =
  sb_agents :: "(string \<times> 'a) list"
  sb_dup_error :: "string option"
  sb_sessions :: "'s option"
  sb_context :: "(request_parts \<Rightarrow> nat \<Rightarrow> server_error + 'ctx) option"
  sb_auth :: "(request_parts \<Rightarrow> auth_rejection + request_parts) option"
  sb_max_sessions :: nat
  sb_retention :: nat
  sb_max_runs :: nat
  sb_max_events_per_run :: nat
  sb_max_in_flight :: nat
  sb_max_run_duration :: nat
  sb_require_principal :: "bool option"

text \<open>Durations are milliseconds.\<close>

definition server_builder_new :: "('a, 's, 'ctx) server_builder" where
  "server_builder_new = \<lparr>sb_agents = [], sb_dup_error = None, sb_sessions = None, sb_context = None, sb_auth = None,
     sb_max_sessions = 4096, sb_retention = 300000, sb_max_runs = 1024, sb_max_events_per_run = 10000,
     sb_max_in_flight = 1024, sb_max_run_duration = 3600000, sb_require_principal = None\<rparr>"

definition builder_agent :: "string \<Rightarrow> 'a \<Rightarrow> ('a, 's, 'ctx) server_builder \<Rightarrow> ('a, 's, 'ctx) server_builder" where
  "builder_agent name agent b =
     (if map_of (sb_agents b) name \<noteq> None then b\<lparr>sb_dup_error := Some name\<rparr>
      else b\<lparr>sb_agents := sb_agents b @ [(name, agent)]\<rparr>)"

definition require_principal :: "bool \<Rightarrow> ('a, 's, 'ctx) server_builder \<Rightarrow> ('a, 's, 'ctx) server_builder" where
  "require_principal required b = b\<lparr>sb_require_principal := Some required\<rparr>"

definition allow_unbound_sessions :: "('a, 's, 'ctx) server_builder \<Rightarrow> ('a, 's, 'ctx) server_builder" where
  "allow_unbound_sessions b = b\<lparr>sb_require_principal := Some False\<rparr>"

definition no_context_message :: string where
  "no_context_message = ''no context provider set; call `.context_provider('' @ [CHR 0xE2, CHR 0x80, CHR 0xA6]
     @ '')` or `.with_default_context()` (requires Ctx: Default)''"

text \<open>
  \<open>instant_max\<close> is the largest instant of the platform's clock; the runner is not recorded, since the steps of
  the writer are those of any runner.
\<close>

definition server_build :: "http_ext \<Rightarrow> nat \<Rightarrow> (session_key \<Rightarrow> 's \<Rightarrow> (server_error + nat) \<times> 's) \<Rightarrow> ('a, 's, 'ctx) server_builder
    \<Rightarrow> server_error + ('a, 's, 'ctx) server_env \<times> ('a, 'id, 's) server_state" where
  "server_build X instant_max custom b =
     (case sb_dup_error b of Some name \<Rightarrow> Err (BadRequest (''duplicate agent name: '' @ name)) | None \<Rightarrow>
     (if sb_sessions b = None \<and> sb_max_sessions b = 0 then Err (BadRequest ''max_sessions must be greater than 0'')
      else if sb_max_in_flight b = 0 then Err (BadRequest ''max_in_flight must be greater than 0'')
      else if sb_max_run_duration b = 0 then Err (BadRequest ''max_run_duration must be greater than 0'')
      else (case sb_context b of None \<Rightarrow> Err (Internal no_context_message) | Some context \<Rightarrow>
        (let sessions = (case sb_sessions b of Some s \<Rightarrow> Inl s
               | None \<Rightarrow> Inr \<lparr>pv_max_sessions = sb_max_sessions b, pv_map = [], pv_order = [], pv_next = 0\<rparr>);
             config = \<lparr>rc_ttl = sb_retention b, rc_max_runs = sb_max_runs b, rc_max_events_per_run = sb_max_events_per_run b,
               rc_max_in_flight = sb_max_in_flight b, rc_max_run_duration = sb_max_run_duration b, rc_instant_max = instant_max\<rparr>
         in Ok (\<lparr>sv_agents = sb_agents b, sv_custom = custom, sv_context = context, sv_auth = sb_auth b,
                sv_require_principal = (case sb_require_principal b of Some x \<Rightarrow> x | None \<Rightarrow> sb_auth b \<noteq> None),
                sv_config = config, sv_ext = X\<rparr>,
              \<lparr>st_sessions = sessions, st_locks = locks_new, st_registry = registry_new, st_tasks = []\<rparr>)))))"

section \<open>The server as a state machine\<close>

text \<open>
  The states the server reaches from the one it was built in, for every schedule of requests, writers, sweeps and
  disconnects. The lock of a session is free when no running task holds it. Identifiers are fresh.
\<close>

definition lock_free :: "nat \<Rightarrow> ('a, 'id, 's) server_state \<Rightarrow> bool" where
  "lock_free a st \<longleftrightarrow> list_all (\<lambda>(pd, ph). ph = Waiting \<or> pd_lock pd \<noteq> a) (st_tasks st)"

inductive server_reach :: "('a, 's, 'ctx) server_env \<Rightarrow> ('a, 'id, 's) server_state \<Rightarrow> bool" for E where
  built: "server_build X im custom b = Ok (E, st) \<Longrightarrow> server_reach E st"
| request: "server_reach E st \<Longrightarrow> post_run E name query parts body st = (r, st') \<Longrightarrow> server_reach E st'"
| abandon: "server_reach E st \<Longrightarrow> n < length (st_tasks st) \<Longrightarrow> snd (st_tasks st ! n) = Waiting
    \<Longrightarrow> server_reach E (drop_task n st)"
| launch: "server_reach E st \<Longrightarrow> n < length (st_tasks st) \<Longrightarrow> snd (st_tasks st ! n) = Waiting
    \<Longrightarrow> lock_free (pd_lock (fst (st_tasks st ! n))) st \<Longrightarrow> i \<notin> fst ` set (rg_runs (st_registry st))
    \<Longrightarrow> start_run E i now n st = (r, st') \<Longrightarrow> server_reach E st'"
| wrote: "server_reach E st \<Longrightarrow> (pd, Running i) \<in> set (st_tasks st) \<Longrightarrow> server_reach E (writer_append i ev st)"
| start_error: "server_reach E st \<Longrightarrow> (pd, Running i) \<in> set (st_tasks st) \<Longrightarrow> server_reach E (writer_start_error i msg st)"
| leave: "server_reach E st \<Longrightarrow> (pd, Running i) \<in> set (st_tasks st) \<Longrightarrow> \<not> is_async (pd_query pd)
    \<Longrightarrow> server_reach E (disconnect i st)"
| finish: "server_reach E st \<Longrightarrow> n < length (st_tasks st) \<Longrightarrow> snd (st_tasks st ! n) = Running i
    \<Longrightarrow> server_reach E (writer_end n i now st)"
| swept: "server_reach E st \<Longrightarrow> (\<And>xs. mset (order xs) = mset xs)
    \<Longrightarrow> server_reach E (st\<lparr>st_registry := sweep (sv_config E) order now (st_registry st)\<rparr>)"

text \<open>The invariant: the registry's, the locks', the tasks are the handles that are out, and running tasks hold different locks.\<close>

definition server_ok :: "('a, 's, 'ctx) server_env \<Rightarrow> ('a, 'id, 's) server_state \<Rightarrow> bool" where
  "server_ok E st \<longleftrightarrow> registry_ok (sv_config E) (st_registry st) \<and> locks_reach (st_locks st)
     \<and> map (\<lambda>(pd, _). (owned_key (pd_key pd), pd_lock pd)) (st_tasks st) = lk_out (st_locks st)
     \<and> distinct (map (\<lambda>(pd, _). pd_lock pd) (filter (\<lambda>(_, ph). ph \<noteq> Waiting) (st_tasks st)))"

lemma map_remove_nth: "take n (map f xs) @ drop (Suc n) (map f xs) = map f (take n xs @ drop (Suc n) xs)"
  by (simp add: take_map drop_map)

lemma distinct_remove_nth:
  assumes "distinct (map f (filter P xs))"
  shows "distinct (map f (filter P (take n xs @ drop (Suc n) xs)))"
proof -
  have "map f (filter P xs) = map f (filter P (take n xs)) @ map f (filter P (drop n xs))"
    by (metis append_take_drop_id filter_append map_append)
  moreover have "drop n xs = take 1 (drop n xs) @ drop (Suc n) xs" by (metis append_take_drop_id drop_drop plus_1_eq_Suc)
  then have "map f (filter P (drop n xs)) = map f (filter P (take 1 (drop n xs))) @ map f (filter P (drop (Suc n) xs))"
    by (metis filter_append map_append)
  ultimately show ?thesis using assms by auto
qed

lemma distinct_filter_nth:
  assumes "distinct (map f (filter P xs))" "i < length xs" "j < length xs" "i \<noteq> j" "P (xs ! i)" "P (xs ! j)"
  shows "f (xs ! i) \<noteq> f (xs ! j)"
  using assms
proof (induction xs arbitrary: i j)
  case (Cons x xs)
  have one: "f x \<noteq> f (xs ! n)" if "P x" "n < length xs" "P (xs ! n)" for n
    using Cons.prems(1) that by (auto simp: nth_mem)
  show ?case
  proof (cases i; cases j)
    fix i' j'
    assume "i = Suc i'" "j = Suc j'"
    then show ?thesis using Cons.IH [of i' j'] Cons.prems by (auto split: if_splits)
  qed (use one Cons.prems in \<open>auto dest: not_sym\<close>)
qed simp

lemma drop_task_ok:
  assumes "server_ok E st"
  shows "server_ok E (drop_task n st)"
proof -
  have "locks_reach (lock_drop n (st_locks st))" using assms by (auto simp: server_ok_def intro: locks_reach.release)
  moreover have "lk_out (lock_drop n (st_locks st)) = map (\<lambda>(pd, _). (owned_key (pd_key pd), pd_lock pd))
      (take n (st_tasks st) @ drop (Suc n) (st_tasks st))"
    unfolding map_remove_nth [symmetric] using assms by (simp add: server_ok_def lock_drop_def)
  ultimately show ?thesis
    using assms unfolding server_ok_def drop_task_def
    by (simp del: map_append filter_append distinct_append add: distinct_remove_nth)
qed

lemma same_sessions [simp]: "\<exists>s. x = x\<lparr>st_sessions := s\<rparr>"
  by (rule exI [of _ "st_sessions x"]) simp

lemma create_run_result:
  assumes "create_run E name query parts body st = (r, st')"
  shows "(\<exists>e. r = Err e) \<and> (\<exists>s. st' = st\<lparr>st_sessions := s\<rparr>)
    \<or> (\<exists>pd locks s. r = Ok pd \<and> lock_for (pd_key pd) (st_locks st) = (pd_lock pd, locks)
        \<and> st' = st\<lparr>st_sessions := s, st_locks := locks, st_tasks := (pd, Waiting) # st_tasks st\<rparr>)"
  using assms unfolding create_run_def resolve_session_def Let_def
  by (auto split: sum.splits option.splits if_splits prod.splits)

lemma post_run_ok:
  assumes "server_ok E st" "post_run E name query parts body st = (r, st')"
  shows "server_ok E st'"
proof (cases "auth_middleware E parts")
  case (Inl e)
  then show ?thesis using assms by (simp add: post_run_def)
next
  case (Inr parts')
  then have "create_run E name query parts' body st = (r, st')" using assms(2) by (simp add: post_run_def)
  from create_run_result [OF this] show ?thesis
  proof (elim disjE exE conjE)
    fix pd locks s
    assume l: "lock_for (pd_key pd) (st_locks st) = (pd_lock pd, locks)"
      and st': "st' = st\<lparr>st_sessions := s, st_locks := locks, st_tasks := (pd, Waiting) # st_tasks st\<rparr>"
    have "locks_reach locks" using assms(1) l by (auto simp: server_ok_def intro: locks_reach.take)
    moreover have "lk_out locks = (owned_key (pd_key pd), pd_lock pd) # lk_out (st_locks st)"
      using l by (auto simp: lock_for_def Let_def split: option.splits)
    ultimately show ?thesis using assms(1) by (simp add: server_ok_def st')
  qed (use assms(1) in \<open>simp add: server_ok_def\<close>)
qed

lemma start_run_ok:
  assumes ok: "server_ok E st" and n: "n < length (st_tasks st)" "snd (st_tasks st ! n) = Waiting"
    and free: "lock_free (pd_lock (fst (st_tasks st ! n))) st" and i: "i \<notin> fst ` set (rg_runs (st_registry st))"
    and run: "start_run E i now n st = (r, st')"
  shows "server_ok E st'"
proof -
  obtain pd where pd: "st_tasks st ! n = (pd, Waiting)" using n(2) by (metis prod.collapse)
  let ?c = "registry_create (sv_config E) i (pd_name pd) (pd_principal pd) now (st_registry st)"
  have reg: "server_ok E (st\<lparr>st_registry := snd ?c\<rparr>)"
    using ok registry_create_ok [OF _ i surjective_pairing] by (auto simp: server_ok_def)
  let ?ts = "st_tasks st" and ?run = "\<lambda>j. st\<lparr>st_registry := snd ?c, st_tasks := (st_tasks st)[n := (pd, Running j)]\<rparr>"
  have split: "?ts = take n ?ts @ (pd, Waiting) # drop (Suc n) ?ts" using n(1) pd by (metis id_take_nth_drop)
  have running: "server_ok E (?run j)" for j
  proof -
    have upd: "?ts[n := (pd, Running j)] = take n ?ts @ (pd, Running j) # drop (Suc n) ?ts" using n(1) by (rule upd_conv_take_nth_drop)
    let ?f = "\<lambda>xs. map (\<lambda>(pd, _). pd_lock pd) (filter (\<lambda>(_, ph). ph \<noteq> Waiting) xs)"
    have "?f ?ts = ?f (take n ?ts) @ ?f (drop (Suc n) ?ts)" by (subst split) simp
    moreover have "pd_lock pd \<notin> set (?f ?ts)" using free pd by (force simp: lock_free_def list_all_iff)
    ultimately have "distinct (?f (?ts[n := (pd, Running j)]))" using ok unfolding upd server_ok_def by auto
    moreover have "map (\<lambda>(pd, _). (owned_key (pd_key pd), pd_lock pd)) (?ts[n := (pd, Running j)])
        = map (\<lambda>(pd, _). (owned_key (pd_key pd), pd_lock pd)) ?ts"
      unfolding upd by (subst (3) split) simp
    ultimately show ?thesis using reg by (simp add: server_ok_def)
  qed
  have "st' = drop_task n st \<or> st' = drop_task n (st\<lparr>st_registry := snd ?c\<rparr>) \<or> (\<exists>j. st' = ?run j)"
    using run pd by (auto simp: start_run_def Let_def split: sum.splits option.splits prod.splits)
  then show ?thesis using drop_task_ok [OF ok] drop_task_ok [OF reg] running by metis
qed

text \<open>Updates of a handle that keep its completion stamp keep the registry's invariant.\<close>

lemma on_handle_ok:
  assumes ok: "server_ok E st" and f: "\<And>h. rn_terminal_at (f h) = rn_terminal_at h"
  shows "server_ok E (on_handle i f st)"
proof -
  let ?runs = "rg_runs (st_registry st)"
  have "length (filter (\<lambda>(_, h). is_live h) (stamp i f runs)) = length (filter (\<lambda>(_, h). is_live h) runs)" for runs
    using f by (induction runs) (auto simp: stamp_def is_live_def split: if_splits)
  moreover have "completed_ids (stamp i f ?runs) = completed_ids ?runs"
    using f unfolding completed_ids_def stamp_mem is_live_def by (metis (no_types, lifting))
  ultimately show ?thesis using ok by (simp add: server_ok_def on_handle_def registry_ok_def)
qed

lemma server_reach_ok: "server_reach E st \<Longrightarrow> server_ok E st"
proof (induction rule: server_reach.induct)
  case (built X im custom b st)
  then show ?case
    by (auto simp: server_build_def server_ok_def locks_new_def registry_new_ok Let_def locks_reach.start [unfolded locks_new_def]
        split: option.splits if_splits)
next
  case (finish st n i now)
  have "server_ok E (on_handle i (\<lambda>h. h\<lparr>rn_log := mark_terminal (rn_log h)\<rparr>) st)" using finish.IH by (rule on_handle_ok) simp
  then have "server_ok E (terminal_guard i now st)"
    by (auto simp: terminal_guard_def Let_def server_ok_def note_terminal_ok)
  then show ?case unfolding writer_end_def by (rule drop_task_ok)
next
  case (swept st order now)
  then show ?case using sweep_facts by (fastforce simp: server_ok_def)
next
  case (request st name query parts body r st')
  show ?case by (rule post_run_ok [OF request.IH request.hyps(2)])
next
  case (launch st n i now r st')
  show ?case by (rule start_run_ok [OF launch.IH launch.hyps(2-)])
qed (auto simp: writer_append_def writer_start_error_def disconnect_def intro: drop_task_ok on_handle_ok)

section \<open>What requests can rely on\<close>

text \<open>
  C24. Runs of one session never overlap and other sessions do not wait: in every state the server can reach, two
  running tasks never belong to the same named session, and the lock of a waiting task of a named
  session is held by a running task only if that one runs the same session.
\<close>

theorem runs_serialized:
  assumes "server_reach E st" "i < length (st_tasks st)" "j < length (st_tasks st)" "i \<noteq> j"
    and "st_tasks st ! i = (pd, Running a)" "st_tasks st ! j = (pd', ph)" "owned_key (pd_key pd') = Some k"
  shows "if ph = Waiting then pd_lock pd = pd_lock pd' \<longleftrightarrow> owned_key (pd_key pd) = Some k
    else owned_key (pd_key pd) \<noteq> Some k"
proof -
  note ok = server_reach_ok [OF assms(1), unfolded server_ok_def]
  have out: "(owned_key (pd_key pd), pd_lock pd) \<in> set (lk_out (st_locks st))" "(Some k, pd_lock pd') \<in> set (lk_out (st_locks st))"
    using ok nth_mem [OF assms(2)] nth_mem [OF assms(3)] assms(5-7) by (metis (mono_tags, lifting) case_prod_conv image_eqI set_map)+
  have inv: "locks_inv (set (lk_map (st_locks st))) (set (lk_out (st_locks st))) (lk_next (st_locks st))"
    using locks_reach_ok ok by (auto simp: locks_ok_def)
  have same: "pd_lock pd = pd_lock pd' \<longleftrightarrow> owned_key (pd_key pd) = Some k"
    using locks_inv_same [OF inv out(2,1)] by auto
  have "pd_lock pd \<noteq> pd_lock pd'" if "ph \<noteq> Waiting"
    using distinct_filter_nth [of "\<lambda>(pd, _). pd_lock pd" "\<lambda>(_, ph). ph \<noteq> Waiting" "st_tasks st" i j] ok assms(2-6) that by auto
  then show ?thesis using same by auto
qed

text \<open>A server with one agent, and its state when a second request for the same session waits behind a running one.\<close>

definition http_ex :: http_ext where
  "http_ex = \<lparr>hx_to_str = Some, hx_to_bytes = (\<lambda>b n. if n = 0 then Err ''length limit exceeded'' else Ok b),
     hx_from_slice = (\<lambda>b. Ok \<lparr>rr_input = Some b, rr_messages = None\<rparr>)\<rparr>"

definition http_builder_ex :: "(nat, unit, unit) server_builder" where
  "http_builder_ex = (builder_agent ''bot'' 0 server_builder_new)\<lparr>sb_context := Some (\<lambda>_ _. Ok ())\<rparr>"

definition query_ex :: run_query where "query_ex = \<lparr>rq_stream = None, rq_mode = Some ''async''\<rparr>"

definition parts_ex :: request_parts where
  "parts_ex = \<lparr>rp_content_type = None, rp_session_id = Some ''s'', rp_principal = Some ''u'', rp_other = []\<rparr>"

definition server_ex :: "(nat, unit, unit) server_env \<times> (nat, nat, unit) server_state" where
  "server_ex = (case server_build http_ex 1000 (\<lambda>_ s. (Ok 0, s)) http_builder_ex of Ok r \<Rightarrow> r | Err _ \<Rightarrow> undefined)"

definition busy_ex :: "(nat, nat, unit) server_state" where
  "busy_ex = (let E = fst server_ex; ask = (\<lambda>st. snd (post_run E ''bot'' query_ex parts_ex ''hi'' st))
     in ask (snd (start_run E 7 0 0 (ask (snd server_ex)))))"

lemma server_ex_built: "server_build http_ex 1000 (\<lambda>_ s. (Ok 0, s)) http_builder_ex = Ok server_ex"
  by (simp add: server_ex_def server_build_def http_builder_ex_def builder_agent_def server_builder_new_def Let_def)

lemmas ex_defs = server_ex_def http_builder_ex_def builder_agent_def server_builder_new_def server_build_def
  post_run_def auth_middleware_def create_run_def query_validate_def query_ex_def is_async_def is_sse_def read_run_request_def
  read_body_def http_ex_def parts_ex_def run_request_of_raw_def session_header_def resolve_session_def provider_session_def
  owned_key_def lock_for_def locks_new_def registry_new_def max_body_bytes_def

lemma busy_ex_reach: "server_reach (fst server_ex) busy_ex"
proof -
  let ?E = "fst server_ex"
  let ?ask = "\<lambda>st. snd (post_run ?E ''bot'' query_ex parts_ex ''hi'' st)"
  have 0: "server_reach ?E (snd server_ex)" by (rule server_reach.built [of http_ex 1000 "\<lambda>_ s. (Ok 0, s)" http_builder_ex]) (simp add: server_ex_built)
  have ask: "server_reach ?E (?ask st)" if "server_reach ?E st" for st :: "(nat, nat, unit) server_state"
    using that by (rule server_reach.request) (rule surjective_pairing)
  have "st_tasks (?ask (snd server_ex)) \<noteq> [] \<and> snd (st_tasks (?ask (snd server_ex)) ! 0) = Waiting
      \<and> lock_free (pd_lock (fst (st_tasks (?ask (snd server_ex)) ! 0))) (?ask (snd server_ex))
      \<and> rg_runs (st_registry (?ask (snd server_ex))) = []" by (simp add: ex_defs Let_def lock_free_def)
  then have "server_reach ?E (snd (start_run ?E 7 0 0 (?ask (snd server_ex))))"
    by (intro server_reach.launch [OF ask [OF 0] _ _ _ _ surjective_pairing]) auto
  from ask [OF this] show ?thesis by (simp add: busy_ex_def Let_def)
qed

theorem runs_serialized_witness:
  "snd (st_tasks busy_ex ! 0) = Waiting \<and> snd (st_tasks busy_ex ! 1) = Running 7
    \<and> pd_lock (fst (st_tasks busy_ex ! 1)) = pd_lock (fst (st_tasks busy_ex ! 0))"
proof -
  have "map (\<lambda>(pd, ph). (owned_key (pd_key pd), ph)) (st_tasks busy_ex)
      = [(Some (Some ''u'', ''s''), Waiting), (Some (Some ''u'', ''s''), Running 7)]"
    by (simp add: busy_ex_def ex_defs Let_def start_run_def registry_create_def event_log_new_def)
  then have t: "length (st_tasks busy_ex) = 2" "snd (st_tasks busy_ex ! 0) = Waiting" "snd (st_tasks busy_ex ! 1) = Running 7"
    "owned_key (pd_key (fst (st_tasks busy_ex ! 0))) = Some (Some ''u'', ''s'')"
    "owned_key (pd_key (fst (st_tasks busy_ex ! 1))) = Some (Some ''u'', ''s'')" by (auto simp: map_eq_Cons_conv)
  then have "st_tasks busy_ex ! 1 = (fst (st_tasks busy_ex ! 1), Running 7)" "st_tasks busy_ex ! 0 = (fst (st_tasks busy_ex ! 0), Waiting)"
    by (metis prod.collapse)+
  from runs_serialized [OF busy_ex_reach, of 1 0, OF _ _ _ this t(4)] show ?thesis using t by simp
qed

text \<open>
  The session gate fails closed: when principals are required, a request that names a session and has no
  principal is refused whatever else it contains, and the server's state is exactly what it was;
  and with an authentication layer and no explicit choice, principals are required.
\<close>

theorem session_gate:
  assumes "server_build X im custom b = Ok (E, st0)" "sb_require_principal b = None" "sb_auth b = Some authenticate"
    and "authenticate parts = Ok parts'" "rp_principal parts' = None" "rp_session_id parts' \<noteq> None"
  shows "\<exists>e. post_run E name query parts body st = (Err e, st) \<and> error_status e \<in> {400, 403, 404}"
proof -
  have E: "sv_require_principal E" "sv_auth E = Some authenticate"
    using assms(1-3) by (auto simp: server_build_def Let_def split: option.splits if_splits)
  have q: "error_status e = 400" if "query_validate query = Err e" for e
    using that by (auto simp: query_validate_def split: if_splits)
  have r: "error_status e = 400" if "read_run_request (sv_ext E) parts' body = Err e" for e
    using that by (auto simp: read_run_request_def read_body_def split: option.splits if_splits sum.splits)
  have h: "error_status e = 400" if "session_header (sv_ext E) parts' = Err e" for e
    using that by (auto simp: session_header_def split: option.splits)
  have s: "session_header (sv_ext E) parts' \<noteq> Ok None"
    using assms(6) by (auto simp: session_header_def split: option.splits)
  show ?thesis
    using E assms(4,5) q r h s unfolding post_run_def auth_middleware_def create_run_def
    by (auto split: sum.splits option.splits)
qed

text \<open>
  Internal details are not disclosed: the response to a server-side failure does not depend on
  the message of the failure, every error is answered with a status of an error, a rejected request is never answered
  with a status the authentication layer made up, and the retry header accompanies exactly the
  overload answer.
\<close>

theorem errors_redacted:
  "er_status (error_into_response reason e) \<in> {400, 401, 403, 404, 500, 503}
   \<and> (er_retry_after (error_into_response reason e) \<noteq> None \<longleftrightarrow> er_status (error_into_response reason e) = 503)
   \<and> (er_status (error_into_response reason e) \<in> {500, 503} \<longleftrightarrow>
        er_body (error_into_response reason e) = ''internal error'' \<or> er_body (error_into_response reason e) = ''service unavailable'')
   \<and> error_into_response reason (RunStart m) = error_into_response reason (Internal m')
   \<and> error_into_response reason (ServerUnavailable m) = error_into_response reason (ServerUnavailable m')"
  by (cases e) (simp_all add: error_into_response_def)

text \<open>
  The events endpoint is no oracle: a caller who does not own a run gets the answer that a registry without
  the run gives, and the owner gets the handle.
\<close>

theorem events_no_oracle:
  assumes "registry_ok C r" "(i, h) \<in> set (rg_runs r)" "parse_uuid s = Some i"
  shows "events_endpoint parse_uuid r name s p =
    (if rn_agent_name h = name \<and> rn_principal h = p then Ok h
     else events_endpoint parse_uuid (r\<lparr>rg_runs := filter (\<lambda>(j, _). j \<noteq> i) (rg_runs r)\<rparr>) name s p)"
proof -
  have "registry_get r i = Some h" using assms(1,2) by (auto simp: registry_get_def registry_ok_def)
  moreover have "registry_get (r\<lparr>rg_runs := filter (\<lambda>(j, _). j \<noteq> i) (rg_runs r)\<rparr>) i = None"
    by (auto simp: registry_get_def map_of_eq_None_iff)
  ultimately show ?thesis using assms(3) by (simp add: events_endpoint_def)
qed

lemma sse_stream_saw: "sse_stream h saw evs = evs @ (if saw \<or> list_ex is_terminal evs then [] else [the (synthetic_terminal_frame h False)])"
  by (induction evs arbitrary: saw) (auto simp: synthetic_terminal_frame_def)

lemma handle_socket_prefix: "prefix (handle_socket h saw ps evs) (map WsText (sse_stream h saw evs) @ [WsClose])"
  by (induction h saw ps evs rule: handle_socket.induct) (auto simp: synthetic_terminal_frame_def)

text \<open>
  C25. Event streams end with one terminal frame: in every interleaving of the writer with the subscriber, once the
  subscription has ended the frames sent to the client are the delivered events, closed by a terminal frame, and no
  terminal frame comes before it; and a WebSocket client sees a prefix of the same frames.
\<close>

theorem stream_one_terminal:
  assumes "log_reach cap 0 (l, s, evs)" "ss_phase s = Ended"
  shows "\<exists>pre t. sse_stream h False (ss_delivered s) = pre @ [t] \<and> is_terminal t \<and> \<not> list_ex is_terminal pre
    \<and> prefix (ss_delivered s) (pre @ [t]) \<and> prefix (handle_socket h False ps (ss_delivered s)) (map WsText (pre @ [t]) @ [WsClose])"
proof -
  note inv = log_reach_inv [OF assms(1)]
  let ?d = "ss_delivered s" and ?f = "the (synthetic_terminal_frame h False)"
  have f: "is_terminal ?f" by (simp add: synthetic_terminal_frame_def)
  obtain pre t where "sse_stream h False ?d = pre @ [t]" "is_terminal t" "\<not> list_ex is_terminal pre" "prefix ?d (pre @ [t])"
  proof (cases "ss_done s")
    case True
    then have d: "?d \<noteq> []" "is_terminal (last ?d)" "\<not> list_ex is_terminal (butlast ?d)" using inv by (auto simp: wait_ok_def seen_ok_def)
    then have "sse_stream h False ?d = butlast ?d @ [last ?d]" by (auto simp: sse_stream_saw list_ex_iff)
    then show ?thesis by (rule that) (use d in simp_all)
  next
    case False
    then have d: "\<not> list_ex is_terminal ?d" using inv by (auto simp: seen_ok_def)
    then have "sse_stream h False ?d = ?d @ [?f]" by (simp add: sse_stream_saw)
    then show ?thesis using that d f by simp
  qed
  then show ?thesis using handle_socket_prefix [of h False ps ?d] by metis
qed

text \<open>
  The response of a one-shot run reflects its events: the status, error and usage are those of
  the terminal event that closes them, the output is the text of the last assistant message that has any, and a run that failed to start is
  an error.
\<close>

definition event_text :: "agent_event \<Rightarrow> string" where
  "event_text ev = (case ev of MessageOutput (AssistantMessage content _) \<Rightarrow> flatten_text content | _ \<Rightarrow> [])"

lemma response_scan_append: "response_scan r (xs @ ys) = response_scan (response_scan r xs) ys"
  by (induction r xs rule: response_scan.induct) auto

lemma response_scan_output:
  "rs_output (response_scan r evs) =
     (case filter (\<lambda>t. t \<noteq> []) (map event_text evs) of [] \<Rightarrow> rs_output r | ts \<Rightarrow> Some (last ts))"
  by (induction r evs rule: response_scan.induct) (auto simp: event_text_def split: list.splits)

lemma response_scan_quiet:
  assumes "\<not> list_ex is_terminal evs"
  shows "rs_status (response_scan r evs) = rs_status r" "rs_error (response_scan r evs) = rs_error r"
    "rs_usage (response_scan r evs) = rs_usage r"
  using assms by (induction r evs rule: response_scan.induct) auto

lemma response_scan_events: "rs_run_events (response_scan r evs) = rs_run_events r" "rs_run_id (response_scan r evs) = rs_run_id r"
  by (induction r evs rule: response_scan.induct) auto

theorem response_reflects_run:
  assumes "\<not> list_ex is_terminal pre" "is_terminal t"
  shows "oneshot_response i h (pre @ [t]) =
    (case rn_start_error h of
       Some m \<Rightarrow> Err (RunStart m)
     | None \<Rightarrow> Ok \<lparr>rs_run_id = i,
         rs_status = (case t of RunCompleted _ \<Rightarrow> StatusCompleted | _ \<Rightarrow> StatusFailed),
         rs_output = (let ts = filter (\<lambda>t. t \<noteq> []) (map event_text pre) in if ts = [] then None else Some (last ts)),
         rs_error = (case t of RunFailed e \<Rightarrow> Some e | _ \<Rightarrow> None),
         rs_usage = (case t of RunCompleted u \<Rightarrow> Some u | _ \<Rightarrow> None),
         rs_run_events = pre @ [t]\<rparr>)"
  using assms(2) response_scan_quiet [OF assms(1)]
  by (cases t) (auto simp: oneshot_response_def run_response_from_events_def response_scan_append response_scan_output response_scan_events
      intro!: run_response.equality split: option.splits list.splits)

theorem session_gate_witness:
  "\<exists>e. post_run ((fst server_ex)\<lparr>sv_auth := Some Ok, sv_require_principal := True\<rparr>) ''bot'' query_ex (parts_ex\<lparr>rp_principal := None\<rparr>) ''hi'' (snd server_ex)
     = (Err e, snd server_ex) \<and> error_status e \<in> {400, 403, 404}"
proof -
  have "server_build http_ex 1000 (\<lambda>_ s. (Ok 0, s)) (http_builder_ex\<lparr>sb_auth := Some Ok\<rparr>)
      = Ok ((fst server_ex)\<lparr>sv_auth := Some Ok, sv_require_principal := True\<rparr>, snd server_ex)"
    by (simp add: ex_defs Let_def)
  from session_gate [OF this, of Ok "parts_ex\<lparr>rp_principal := None\<rparr>" "parts_ex\<lparr>rp_principal := None\<rparr>" "''bot''" query_ex "''hi''" "snd server_ex"]
  show ?thesis by (simp add: parts_ex_def http_builder_ex_def builder_agent_def server_builder_new_def)
qed

theorem events_no_oracle_witness:
  "events_endpoint (\<lambda>s. if s = ''7'' then Some 7 else None) (st_registry busy_ex) ''bot'' ''7'' (Some ''v'') = Err (UnknownAgent ''bot/7'')"
proof -
  obtain h where h: "(7, h) \<in> set (rg_runs (st_registry busy_ex))" "rn_principal h = Some ''u''" "map fst (rg_runs (st_registry busy_ex)) = [7]"
    by (simp add: busy_ex_def ex_defs Let_def start_run_def registry_create_def event_log_new_def)
  have "registry_ok (sv_config (fst server_ex)) (st_registry busy_ex)" using server_reach_ok [OF busy_ex_reach] by (simp add: server_ok_def)
  from events_no_oracle [OF this h(1), of "\<lambda>s. if s = ''7'' then Some 7 else None" "''7''" "''bot''" "Some ''v''"] show ?thesis
    using h(2,3) by (auto simp: events_endpoint_def registry_get_def map_of_eq_None_iff split: option.splits)
qed

definition handle_ex :: run_handle where
  "handle_ex = \<lparr>rn_agent_name = ''bot'', rn_principal = None, rn_log = log_ex, rn_cancelled = False, rn_start_error = None,
     rn_terminal_at = None, rn_created_at = 0\<rparr>"

theorem stream_one_terminal_witness:
  "\<exists>pre t. sse_stream handle_ex False (ss_delivered (sub_steps 15 log_ex (subscribe 0))) = pre @ [t] \<and> is_terminal t \<and> \<not> list_ex is_terminal pre"
proof -
  have "ss_phase (sub_steps 15 log_ex (subscribe 0)) = Ended" by (rule log_ex_ends)
  from stream_one_terminal [OF sub_steps_reach [OF log_ex_reached] this, of handle_ex "[]"] show ?thesis by blast
qed

theorem response_reflects_run_witness:
  "oneshot_response ''7'' handle_ex [MessageOutput (AssistantMessage [Text ''a''] None), RunCompleted usage_default]
     = Ok \<lparr>rs_run_id = ''7'', rs_status = StatusCompleted, rs_output = Some ''a'', rs_error = None, rs_usage = Some usage_default,
          rs_run_events = [MessageOutput (AssistantMessage [Text ''a''] None), RunCompleted usage_default]\<rparr>"
  using response_reflects_run [of "[MessageOutput (AssistantMessage [Text ''a''] None)]" "RunCompleted usage_default" "''7''" handle_ex]
  by (simp add: event_text_def flatten_text_def handle_ex_def)

end
