(* ===== verification/Agui_Map.thy ===== *)
theory Agui_Map
  imports Agent_Loop
begin

text \<open>
  The AG-UI protocol of \<open>runtime-agentcore\<close> (\<open>agui/types.rs\<close>, \<open>agui/map.rs\<close> and the frame generator of
  \<open>agui/sse.rs\<close>): a stateful mapper from agent events to frames that have to be bracketed. Shown are that
  the frames of every run are accepted by the bracket automaton of the protocol, whatever the events, that the
  arguments of a tool call reach the client in the order they were received, and that a run that keeps the
  stream contract ends with one terminal frame.
\<close>

section \<open>Frames\<close>

datatype agui_frame =
    RUN_STARTED string string
  | RUN_FINISHED string string
  | RUN_ERROR string string
  | STEP_STARTED string
  | STEP_FINISHED string
  | TEXT_MESSAGE_START string
  | TEXT_MESSAGE_CONTENT string string
  | TEXT_MESSAGE_END string
  | THINKING_TEXT_MESSAGE_START string
  | THINKING_TEXT_MESSAGE_CONTENT string string
  | THINKING_TEXT_MESSAGE_END string
  | TOOL_CALL_START string string string
  | TOOL_CALL_ARGS string string
  | TOOL_CALL_END string
  | TOOL_CALL_RESULT string string
  | CUSTOM string json

text \<open>The JSON value of a frame.\<close>

fun frame_value :: "agui_frame \<Rightarrow> json" where
  "frame_value (RUN_STARTED thread_id run_id) =
     JObject [(''type'', JString ''RUN_STARTED''), (''threadId'', JString thread_id), (''runId'', JString run_id)]"
| "frame_value (RUN_FINISHED thread_id run_id) =
     JObject [(''type'', JString ''RUN_FINISHED''), (''threadId'', JString thread_id), (''runId'', JString run_id)]"
| "frame_value (RUN_ERROR err_code message) =
     JObject [(''type'', JString ''RUN_ERROR''), (''code'', JString err_code), (''message'', JString message)]"
| "frame_value (STEP_STARTED name) = JObject [(''type'', JString ''STEP_STARTED''), (''stepName'', JString name)]"
| "frame_value (STEP_FINISHED name) = JObject [(''type'', JString ''STEP_FINISHED''), (''stepName'', JString name)]"
| "frame_value (TEXT_MESSAGE_START i) =
     JObject [(''type'', JString ''TEXT_MESSAGE_START''), (''messageId'', JString i), (''role'', JString ''assistant'')]"
| "frame_value (TEXT_MESSAGE_CONTENT i delta) =
     JObject [(''type'', JString ''TEXT_MESSAGE_CONTENT''), (''messageId'', JString i), (''delta'', JString delta)]"
| "frame_value (TEXT_MESSAGE_END i) = JObject [(''type'', JString ''TEXT_MESSAGE_END''), (''messageId'', JString i)]"
| "frame_value (THINKING_TEXT_MESSAGE_START i) =
     JObject [(''type'', JString ''THINKING_TEXT_MESSAGE_START''), (''messageId'', JString i)]"
| "frame_value (THINKING_TEXT_MESSAGE_CONTENT i delta) =
     JObject [(''type'', JString ''THINKING_TEXT_MESSAGE_CONTENT''), (''messageId'', JString i), (''delta'', JString delta)]"
| "frame_value (THINKING_TEXT_MESSAGE_END i) =
     JObject [(''type'', JString ''THINKING_TEXT_MESSAGE_END''), (''messageId'', JString i)]"
| "frame_value (TOOL_CALL_START call_id name parent) =
     JObject ([(''type'', JString ''TOOL_CALL_START''), (''toolCallId'', JString call_id), (''toolCallName'', JString name)]
       @ (if parent \<noteq> [] then [(''parentMessageId'', JString parent)] else []))"
| "frame_value (TOOL_CALL_ARGS call_id delta) =
     JObject [(''type'', JString ''TOOL_CALL_ARGS''), (''toolCallId'', JString call_id), (''delta'', JString delta)]"
| "frame_value (TOOL_CALL_END call_id) = JObject [(''type'', JString ''TOOL_CALL_END''), (''toolCallId'', JString call_id)]"
| "frame_value (TOOL_CALL_RESULT call_id content) =
     JObject [(''type'', JString ''TOOL_CALL_RESULT''), (''toolCallId'', JString call_id), (''content'', JString content)]"
| "frame_value (CUSTOM name v) = JObject [(''type'', JString ''CUSTOM''), (''name'', JString name), (''value'', v)]"

text \<open>The conversation a client sends.\<close>

record agui_message =
  am_role :: string
  am_content :: "string option"

definition agui_item :: "agui_message \<Rightarrow> item option" where
  "agui_item msg =
     (case am_content msg of
        None \<Rightarrow> None
      | Some s \<Rightarrow>
          (if am_role msg = ''user'' then Some (UserMessage [Text s])
           else if am_role msg = ''assistant'' then Some (AssistantMessage [Text s] None)
           else if am_role msg = ''system'' \<or> am_role msg = ''developer'' then Some (System [Text s])
           else None))"

definition agui_agent_input :: "agui_message list \<Rightarrow> item list" where
  "agui_agent_input ms = List.map_filter agui_item ms"

section \<open>The mapper\<close>

datatype open_text_kind = NoText | MessageText | ThinkingText

record event_mapper =
  em_thread_id :: string
  em_run_id :: string
  em_open_text :: open_text_kind
  em_current_message :: string
  em_next_message :: u32
  em_streamed_text :: bool
  em_open_call :: "string option"
  em_call_names :: "string \<rightharpoonup> string"
  em_buffered_calls :: "(string \<times> string) list"
  em_completed_calls :: "string set"
  em_step_open :: bool

definition mapper_new :: "string \<Rightarrow> string \<Rightarrow> event_mapper" where
  "mapper_new thread_id run_id = \<lparr>em_thread_id = thread_id, em_run_id = run_id, em_open_text = NoText, em_current_message = [],
     em_next_message = 0, em_streamed_text = False, em_open_call = None, em_call_names = Map.empty, em_buffered_calls = [],
     em_completed_calls = {}, em_step_open = False\<rparr>"

text \<open>Each helper returns the frames it pushes and the mapper afterwards.\<close>

definition close_text :: "event_mapper \<Rightarrow> agui_frame list \<times> event_mapper" where
  "close_text m =
     ((case em_open_text m of
         MessageText \<Rightarrow> [TEXT_MESSAGE_END (em_current_message m)]
       | ThinkingText \<Rightarrow> [THINKING_TEXT_MESSAGE_END (em_current_message m)]
       | NoText \<Rightarrow> []),
      m\<lparr>em_open_text := NoText\<rparr>)"

definition close_call :: "event_mapper \<Rightarrow> agui_frame list \<times> event_mapper" where
  "close_call m =
     (case em_open_call m of
        Some i \<Rightarrow> ([TOOL_CALL_END i], m\<lparr>em_open_call := None, em_completed_calls := insert i (em_completed_calls m)\<rparr>)
      | None \<Rightarrow> ([], m))"

definition close_step :: "event_mapper \<Rightarrow> agui_frame list \<times> event_mapper" where
  "close_step m = (if em_step_open m then ([STEP_FINISHED ''turn''], m\<lparr>em_step_open := False\<rparr>) else ([], m))"

definition name_of :: "event_mapper \<Rightarrow> string \<Rightarrow> string" where
  "name_of m call_id = (case em_call_names m call_id of Some n \<Rightarrow> n | None \<Rightarrow> ''unknown'')"

fun remove_first :: "string \<Rightarrow> (string \<times> string) list \<Rightarrow> (string \<times> string) list" where
  "remove_first k [] = []"
| "remove_first k ((j, v) # xs) = (if j = k then xs else (j, v) # remove_first k xs)"

definition take_buffered :: "string \<Rightarrow> event_mapper \<Rightarrow> string option \<times> event_mapper" where
  "take_buffered call_id m =
     (case map_of (em_buffered_calls m) call_id of
        None \<Rightarrow> (None, m)
      | Some a \<Rightarrow> (Some a, m\<lparr>em_buffered_calls := remove_first call_id (em_buffered_calls m)\<rparr>))"

fun push_buffered :: "string \<Rightarrow> string \<Rightarrow> (string \<times> string) list \<Rightarrow> (string \<times> string) list" where
  "push_buffered k d [] = [(k, d)]"
| "push_buffered k d ((j, v) # xs) = (if j = k then (j, v @ d) # xs else (j, v) # push_buffered k d xs)"

definition call_span :: "string \<Rightarrow> string \<Rightarrow> string \<Rightarrow> string \<Rightarrow> agui_frame list" where
  "call_span call_id name parent args = [TOOL_CALL_START call_id name parent, TOOL_CALL_ARGS call_id args, TOOL_CALL_END call_id]"

definition close_all :: "event_mapper \<Rightarrow> agui_frame list \<times> event_mapper" where
  "close_all m =
     (case close_text m of (f1, m) \<Rightarrow>
      case close_call m of (f2, m) \<Rightarrow>
      let flushed = em_buffered_calls m;
          m = m\<lparr>em_buffered_calls := [], em_completed_calls := em_completed_calls m \<union> set (map fst flushed)\<rparr>;
          f3 = concat (map (\<lambda>(i, args). call_span i (name_of m i) (em_current_message m) args) flushed)
      in case close_step m of (f4, m) \<Rightarrow> (f1 @ f2 @ f3 @ f4, m))"

definition new_message_id :: "event_mapper \<Rightarrow> string \<times> event_mapper" where
  "new_message_id m = (''msg-'' @ show_u32 (em_next_message m), m\<lparr>em_next_message := em_next_message m + 1\<rparr>)"

definition open_text :: "bool \<Rightarrow> event_mapper \<Rightarrow> agui_frame list \<times> event_mapper" where
  "open_text thinking m =
     (let target = (if thinking then ThinkingText else MessageText)
      in if em_open_text m = target then ([], m)
         else (case close_text m of (f1, m) \<Rightarrow>
               case new_message_id m of (i, m) \<Rightarrow>
                 (f1 @ [if thinking then THINKING_TEXT_MESSAGE_START i else TEXT_MESSAGE_START i],
                  m\<lparr>em_current_message := i, em_open_text := target\<rparr>)))"

text \<open>\<open>to_value\<close> serializes an event, \<open>null\<close> when that fails; \<open>json_text\<close> prints a JSON value (\<open>serde_json\<close>).\<close>

definition push_tool_delta :: "string \<Rightarrow> string option \<Rightarrow> string \<Rightarrow> event_mapper \<Rightarrow> agui_frame list \<times> event_mapper" where
  "push_tool_delta call_id name args_delta m =
     (case close_text m of (f1, m) \<Rightarrow>
      let m = (case name of
                 Some n \<Rightarrow> if em_call_names m call_id = None then m\<lparr>em_call_names := (em_call_names m)(call_id \<mapsto> n)\<rparr> else m
               | None \<Rightarrow> m)
      in if em_open_call m = Some call_id then (f1 @ [TOOL_CALL_ARGS call_id args_delta], m)
         else if em_open_call m = None
         then (case take_buffered call_id m of (buffered, m) \<Rightarrow>
                (f1 @ [TOOL_CALL_START call_id (name_of m call_id) (em_current_message m)]
                  @ (case buffered of Some b \<Rightarrow> [TOOL_CALL_ARGS call_id b] | None \<Rightarrow> [])
                  @ [TOOL_CALL_ARGS call_id args_delta],
                 m\<lparr>em_open_call := Some call_id\<rparr>))
         else (f1, m\<lparr>em_buffered_calls := push_buffered call_id args_delta (em_buffered_calls m)\<rparr>))"

definition push_tool_item :: "(json \<Rightarrow> string) \<Rightarrow> string \<Rightarrow> string \<Rightarrow> json \<Rightarrow> event_mapper \<Rightarrow> agui_frame list \<times> event_mapper" where
  "push_tool_item json_text call_id name args m =
     (let complete = (\<lambda>m a. case close_call m of (f, m) \<Rightarrow>
            (f @ call_span call_id name (em_current_message m) a, m\<lparr>em_completed_calls := insert call_id (em_completed_calls m)\<rparr>))
      in if em_open_call m = Some call_id then close_call m
         else (case take_buffered call_id m of
                 (Some buffered, m) \<Rightarrow> complete m buffered
               | (None, m) \<Rightarrow> if call_id \<in> em_completed_calls m then ([], m) else complete m (json_text args)))"

definition push_message :: "item \<Rightarrow> event_mapper \<Rightarrow> agui_frame list \<times> event_mapper" where
  "push_message it m =
     (case close_call m of (f1, m) \<Rightarrow>
      case close_text m of (f2, m) \<Rightarrow>
      if em_streamed_text m then (f1 @ f2, m\<lparr>em_streamed_text := False\<rparr>)
      else (let content = (case it of AssistantMessage content _ \<Rightarrow> flatten_text content | _ \<Rightarrow> [])
            in if content \<noteq> []
               then (case new_message_id m of (i, m) \<Rightarrow>
                 (f1 @ f2 @ [TEXT_MESSAGE_START i, TEXT_MESSAGE_CONTENT i content, TEXT_MESSAGE_END i], m\<lparr>em_streamed_text := False\<rparr>))
               else (f1 @ f2, m\<lparr>em_streamed_text := False\<rparr>)))"

definition custom :: "(agent_event \<Rightarrow> json) \<Rightarrow> string \<Rightarrow> agent_event \<Rightarrow> agui_frame" where
  "custom to_value name ev = CUSTOM name (to_value ev)"

fun agui_push :: "(json \<Rightarrow> string) \<Rightarrow> (agent_event \<Rightarrow> json) \<Rightarrow> agent_event \<Rightarrow> event_mapper \<Rightarrow> agui_frame list \<times> event_mapper" where
  "agui_push J V (RunStarted a) m = ([RUN_STARTED (em_thread_id m) (em_run_id m)], m)"
| "agui_push J V (TurnStarted t) m =
     (case close_text m of (f1, m) \<Rightarrow> case close_call m of (f2, m) \<Rightarrow> case close_step m of (f3, m) \<Rightarrow>
        (f1 @ f2 @ f3 @ [STEP_STARTED ''turn''], m\<lparr>em_streamed_text := False, em_step_open := True\<rparr>))"
| "agui_push J V (TokenDelta s) m =
     (case close_call m of (f1, m) \<Rightarrow> case open_text False m of (f2, m) \<Rightarrow>
        if s \<noteq> [] then (f1 @ f2 @ [TEXT_MESSAGE_CONTENT (em_current_message m) s], m\<lparr>em_streamed_text := True\<rparr>)
        else (f1 @ f2, m))"
| "agui_push J V (ReasoningDelta s) m =
     (case close_call m of (f1, m) \<Rightarrow> case open_text True m of (f2, m) \<Rightarrow>
        (f1 @ f2 @ (if s \<noteq> [] then [THINKING_TEXT_MESSAGE_CONTENT (em_current_message m) s] else []), m))"
| "agui_push J V (ToolCallDelta call_id name args_delta) m = push_tool_delta call_id name args_delta m"
| "agui_push J V (ToolCallItem it) m =
     (case close_text m of (f1, m) \<Rightarrow>
      case it of
        ToolCall call_id name args \<Rightarrow> (case push_tool_item J call_id name args m of (f2, m) \<Rightarrow> (f1 @ f2, m))
      | _ \<Rightarrow> (f1 @ [custom V ''helikon.unknown'' (ToolCallItem it)], m))"
| "agui_push J V (ToolOutputItem it) m =
     (case close_call m of (f1, m) \<Rightarrow> case close_text m of (f2, m) \<Rightarrow>
      (f1 @ f2 @ [case it of ToolResult call_id content \<Rightarrow> TOOL_CALL_RESULT call_id (flatten_text content)
                  | _ \<Rightarrow> custom V ''helikon.unknown'' (ToolOutputItem it)], m))"
| "agui_push J V (MessageOutput it) m = push_message it m"
| "agui_push J V (HandoffItem a b) m = ([custom V ''helikon.handoff'' (HandoffItem a b)], m)"
| "agui_push J V (AgentUpdated a) m = ([custom V ''helikon.agent_updated'' (AgentUpdated a)], m)"
| "agui_push J V (GuardrailTriggered k i) m = ([custom V ''helikon.guardrail'' (GuardrailTriggered k i)], m)"
| "agui_push J V (ApprovalRequested i t a) m = ([custom V ''helikon.approval'' (ApprovalRequested i t a)], m)"
| "agui_push J V (PermissionDenied t r) m = ([custom V ''helikon.permission_denied'' (PermissionDenied t r)], m)"
| "agui_push J V (RepairStarted t) m = ([custom V ''helikon.repair'' (RepairStarted t)], m)"
| "agui_push J V (StructuredOutputFailed es t) m = ([custom V ''helikon.structured_output_failed'' (StructuredOutputFailed es t)], m)"
| "agui_push J V (RunCompleted u) m =
     (case close_all m of (f, m) \<Rightarrow> (f @ [RUN_FINISHED (em_thread_id m) (em_run_id m)], m\<lparr>em_streamed_text := False\<rparr>))"
| "agui_push J V (RunFailed e) m =
     (case close_all m of (f, m) \<Rightarrow> (f @ [RUN_ERROR ''AGENT_ERROR'' e], m\<lparr>em_streamed_text := False\<rparr>))"

definition agui_finish :: "event_mapper \<Rightarrow> agui_frame list \<times> event_mapper" where
  "agui_finish m = close_all m"

text \<open>
  The frame generator: the transport's own start frame, the frames of the events other than the agent's start
  event, and the closing frames when the stream ends.
\<close>

fun agui_frames :: "(json \<Rightarrow> string) \<Rightarrow> (agent_event \<Rightarrow> json) \<Rightarrow> event_mapper \<Rightarrow> agent_event list \<Rightarrow> agui_frame list" where
  "agui_frames J V m [] = fst (agui_finish m)"
| "agui_frames J V m (ev # evs) =
     (case ev of
        RunStarted _ \<Rightarrow> agui_frames J V m evs
      | _ \<Rightarrow> (case agui_push J V ev m of (f, m') \<Rightarrow> f @ agui_frames J V m' evs))"

definition agui_stream :: "(json \<Rightarrow> string) \<Rightarrow> (agent_event \<Rightarrow> json) \<Rightarrow> string \<Rightarrow> string \<Rightarrow> agent_event list \<Rightarrow> agui_frame list" where
  "agui_stream J V thread_id run_id evs = RUN_STARTED thread_id run_id # agui_frames J V (mapper_new thread_id run_id) evs"

section \<open>The protocol\<close>

text \<open>
  What an AG-UI client accepts: at most one text, thinking or tool-call span is open at a time, content and end
  frames belong to the open span, steps do not nest and no span crosses a step boundary, results come outside spans, and a
  run ends with nothing open.
\<close>

datatype span = NoSpan | TextSpan string | ThinkingSpan string | CallSpan string

type_synonym client = "bool \<times> span"

fun accept :: "client \<Rightarrow> agui_frame \<Rightarrow> client option" where
  "accept (st, sp) (RUN_STARTED _ _) = Some (st, sp)"
| "accept (st, sp) (RUN_FINISHED _ _) = (if st \<or> sp \<noteq> NoSpan then None else Some (st, sp))"
| "accept (st, sp) (RUN_ERROR _ _) = (if st \<or> sp \<noteq> NoSpan then None else Some (st, sp))"
| "accept (st, sp) (STEP_STARTED _) = (if st \<or> sp \<noteq> NoSpan then None else Some (True, sp))"
| "accept (st, sp) (STEP_FINISHED _) = (if st \<and> sp = NoSpan then Some (False, sp) else None)"
| "accept (st, sp) (TEXT_MESSAGE_START i) = (if sp = NoSpan then Some (st, TextSpan i) else None)"
| "accept (st, sp) (TEXT_MESSAGE_CONTENT i _) = (if sp = TextSpan i then Some (st, sp) else None)"
| "accept (st, sp) (TEXT_MESSAGE_END i) = (if sp = TextSpan i then Some (st, NoSpan) else None)"
| "accept (st, sp) (THINKING_TEXT_MESSAGE_START i) = (if sp = NoSpan then Some (st, ThinkingSpan i) else None)"
| "accept (st, sp) (THINKING_TEXT_MESSAGE_CONTENT i _) = (if sp = ThinkingSpan i then Some (st, sp) else None)"
| "accept (st, sp) (THINKING_TEXT_MESSAGE_END i) = (if sp = ThinkingSpan i then Some (st, NoSpan) else None)"
| "accept (st, sp) (TOOL_CALL_START i _ _) = (if sp = NoSpan then Some (st, CallSpan i) else None)"
| "accept (st, sp) (TOOL_CALL_ARGS i _) = (if sp = CallSpan i then Some (st, sp) else None)"
| "accept (st, sp) (TOOL_CALL_END i) = (if sp = CallSpan i then Some (st, NoSpan) else None)"
| "accept (st, sp) (TOOL_CALL_RESULT _ _) = (if sp = NoSpan then Some (st, sp) else None)"
| "accept (st, sp) (CUSTOM _ _) = Some (st, sp)"

lemma accept_any [simp]: "accept c (CUSTOM n v) = Some c" "accept c (RUN_STARTED a b) = Some c"
  by (cases c; simp)+

fun accepts :: "client \<Rightarrow> agui_frame list \<Rightarrow> client option" where
  "accepts c [] = Some c"
| "accepts c (f # fs) = (case accept c f of Some c' \<Rightarrow> accepts c' fs | None \<Rightarrow> None)"

lemma accepts_append [simp]: "accepts c (xs @ ys) = (case accepts c xs of Some c' \<Rightarrow> accepts c' ys | None \<Rightarrow> None)"
  by (induction xs arbitrary: c) (auto split: option.splits)

text \<open>The client's view of the mapper: text and call are never open together.\<close>

definition view :: "event_mapper \<Rightarrow> client" where
  "view m = (em_step_open m,
     case em_open_text m of
       MessageText \<Rightarrow> TextSpan (em_current_message m)
     | ThinkingText \<Rightarrow> ThinkingSpan (em_current_message m)
     | NoText \<Rightarrow> (case em_open_call m of Some i \<Rightarrow> CallSpan i | None \<Rightarrow> NoSpan))"

definition mapper_ok :: "event_mapper \<Rightarrow> bool" where
  "mapper_ok m \<longleftrightarrow> em_open_text m = NoText \<or> em_open_call m = None"

definition refines :: "event_mapper \<Rightarrow> agui_frame list \<times> event_mapper \<Rightarrow> bool" where
  "refines m r \<longleftrightarrow> accepts (view m) (fst r) = Some (view (snd r)) \<and> mapper_ok (snd r)"

lemma refines_then:
  "refines m (f1, m1) \<Longrightarrow> refines m1 (f2, m2) \<Longrightarrow> refines m (f1 @ f2, m2)"
  by (simp add: refines_def)

lemma close_text_refines:
  "mapper_ok m \<Longrightarrow> refines m (close_text m)"
  by (auto simp: refines_def close_text_def view_def mapper_ok_def split: open_text_kind.splits option.splits)

lemma close_call_refines: "mapper_ok m \<Longrightarrow> refines m (close_call m)"
  by (auto simp: refines_def close_call_def view_def mapper_ok_def split: open_text_kind.splits option.splits)

lemma close_step_refines: "mapper_ok m \<Longrightarrow> em_open_text m = NoText \<Longrightarrow> em_open_call m = None \<Longrightarrow> refines m (close_step m)"
  by (auto simp: refines_def close_step_def view_def mapper_ok_def)

lemma close_fields [simp]:
  "em_open_text (snd (close_text m)) = NoText" "em_open_call (snd (close_text m)) = em_open_call m"
  "em_open_call (snd (close_call m)) = None" "em_open_text (snd (close_call m)) = em_open_text m"
  "em_buffered_calls (snd (close_text m)) = em_buffered_calls m" "em_buffered_calls (snd (close_call m)) = em_buffered_calls m"
  "em_completed_calls (snd (close_text m)) = em_completed_calls m"
  "em_open_text (snd (close_step m)) = em_open_text m" "em_open_call (snd (close_step m)) = em_open_call m"
  "em_step_open (snd (close_step m)) = False"
  "em_buffered_calls (snd (close_step m)) = em_buffered_calls m" "em_completed_calls (snd (close_step m)) = em_completed_calls m"
  by (auto simp: close_text_def close_call_def close_step_def split: option.splits)

lemma accepts_spans: "accepts (s, NoSpan) (concat (map (\<lambda>(i, a). call_span i (n i) p a) xs)) = Some (s, NoSpan)"
  by (induction xs) (auto simp: call_span_def)

lemma close_all_refines:
  assumes "mapper_ok m"
  shows "refines m (close_all m) \<and> view (snd (close_all m)) = (False, NoSpan) \<and> em_buffered_calls (snd (close_all m)) = []"
proof -
  obtain f1 m1 where 1: "close_text m = (f1, m1)" by force
  obtain f2 m2 where 2: "close_call m1 = (f2, m2)" by force
  let ?m3 = "m2\<lparr>em_buffered_calls := [], em_completed_calls := em_completed_calls m2 \<union> set (map fst (em_buffered_calls m2))\<rparr>"
  obtain f4 m4 where 4: "close_step ?m3 = (f4, m4)" by force
  have o: "em_open_text m2 = NoText" "em_open_call m2 = None" using close_fields(1,3,4) 1 2 by (metis snd_conv)+
  have r: "refines m (f1, m1)" "refines m1 (f2, m2)"
    using close_text_refines [OF assms] close_call_refines [of m1] 1 2 by (auto simp: refines_def)
  let ?f3 = "concat (map (\<lambda>(i, args). call_span i (name_of ?m3 i) (em_current_message ?m3) args) (em_buffered_calls m2))"
  have all: "close_all m = (f1 @ f2 @ ?f3 @ f4, m4)" using 1 2 4 by (simp add: close_all_def Let_def)
  have "refines m2 (?f3, ?m3)" using accepts_spans o by (simp add: refines_def view_def mapper_ok_def)
  moreover have "refines ?m3 (f4, m4)" using close_step_refines [of ?m3] o 4 by (simp add: mapper_ok_def)
  moreover have "view m4 = (False, NoSpan)" "em_buffered_calls m4 = []"
    using arg_cong [OF 4, of snd] o by (auto simp: view_def close_step_def split: if_splits)
  ultimately show ?thesis
    using r unfolding all by (auto intro!: refines_then)
qed


lemma open_text_refines:
  assumes "mapper_ok m" "em_open_call m = None"
  shows "refines m (open_text thinking m) \<and> em_open_text (snd (open_text thinking m)) = (if thinking then ThinkingText else MessageText)
    \<and> em_open_call (snd (open_text thinking m)) = None"
  using assms by (auto simp: refines_def open_text_def close_text_def new_message_id_def view_def mapper_ok_def Let_def split: open_text_kind.splits)

lemma take_buffered_fields [simp]:
  "em_open_text (snd (take_buffered i m)) = em_open_text m" "em_open_call (snd (take_buffered i m)) = em_open_call m"
  "em_step_open (snd (take_buffered i m)) = em_step_open m" "em_current_message (snd (take_buffered i m)) = em_current_message m"
  "em_completed_calls (snd (take_buffered i m)) = em_completed_calls m"
  by (auto simp: take_buffered_def split: option.splits)

lemma push_tool_delta_refines: "mapper_ok m \<Longrightarrow> refines m (push_tool_delta i n a m)"
  by (cases "em_open_text m"; cases "em_open_call m"; cases "map_of (em_buffered_calls m) i"; cases n)
    (auto simp: refines_def push_tool_delta_def close_text_def take_buffered_def view_def mapper_ok_def Let_def)

lemma push_tool_item_refines: "mapper_ok m \<Longrightarrow> em_open_text m = NoText \<Longrightarrow> refines m (push_tool_item J i n a m)"
  by (cases "em_open_call m"; cases "map_of (em_buffered_calls m) i")
    (auto simp: refines_def push_tool_item_def close_call_def take_buffered_def call_span_def view_def mapper_ok_def Let_def)

lemma push_message_refines: "mapper_ok m \<Longrightarrow> refines m (push_message it m)"
  by (cases "em_open_text m"; cases "em_open_call m")
    (auto simp: refines_def push_message_def close_call_def close_text_def new_message_id_def view_def mapper_ok_def Let_def split: item.splits)

lemma push_refines:
  assumes ok: "mapper_ok m"
  shows "refines m (agui_push J V ev m)"
proof (cases ev)
  case (TurnStarted x)
  then show ?thesis using ok by (cases "em_open_text m"; cases "em_open_call m")
    (auto simp: refines_def close_call_def close_text_def close_step_def view_def mapper_ok_def)
next
  case (TokenDelta x)
  obtain f1 m1 where 1: "close_call m = (f1, m1)" by force
  have "refines m (f1, m1)" "em_open_call m1 = None" using close_call_refines [OF ok] 1 close_fields(3) by (metis snd_conv)+
  moreover obtain f2 m2 where 2: "open_text False m1 = (f2, m2)" by force
  ultimately have "refines m (f1 @ f2, m2)" "em_open_text m2 = MessageText"
    using open_text_refines [of m1 False] by (auto simp: refines_def)
  then show ?thesis using TokenDelta 1 2 by (auto simp: refines_def view_def mapper_ok_def split: option.splits)
next
  case (ReasoningDelta x)
  obtain f1 m1 where 1: "close_call m = (f1, m1)" by force
  have "refines m (f1, m1)" "em_open_call m1 = None" using close_call_refines [OF ok] 1 close_fields(3) by (metis snd_conv)+
  moreover obtain f2 m2 where 2: "open_text True m1 = (f2, m2)" by force
  ultimately have "refines m (f1 @ f2, m2)" "em_open_text m2 = ThinkingText"
    using open_text_refines [of m1 True] by (auto simp: refines_def)
  then show ?thesis using ReasoningDelta 1 2 by (auto simp: refines_def view_def mapper_ok_def split: option.splits)
next
  case (ToolCallDelta x y z)
  then show ?thesis using push_tool_delta_refines [OF ok] by simp
next
  case (MessageOutput x)
  then show ?thesis using push_message_refines [OF ok] by simp
next
  case (ToolCallItem it)
  obtain f1 m1 where 1: "close_text m = (f1, m1)" by force
  have m1: "refines m (f1, m1)" "em_open_text m1 = NoText" using close_text_refines [OF ok] 1 close_fields(1) by (metis snd_conv)+
  then have "mapper_ok m1" by (simp add: refines_def)
  show ?thesis
  proof (cases it)
    case (ToolCall i n a)
    obtain f2 m2 where 2: "push_tool_item J i n a m1 = (f2, m2)" by force
    then have "refines m1 (f2, m2)" using push_tool_item_refines [OF \<open>mapper_ok m1\<close> m1(2)] by metis
    then show ?thesis using refines_then [OF m1(1)] ToolCallItem ToolCall 1 2 by simp
  qed (use m1 ToolCallItem 1 in \<open>auto simp: refines_def custom_def\<close>)
next
  case (ToolOutputItem it)
  then show ?thesis using ok by (cases "em_open_text m"; cases "em_open_call m")
    (auto simp: refines_def close_call_def close_text_def view_def mapper_ok_def custom_def split: item.splits)
next
  case (RunCompleted u)
  then show ?thesis using close_all_refines [OF ok] by (auto simp: refines_def view_def mapper_ok_def split: prod.splits open_text_kind.splits option.splits)
next
  case (RunFailed e)
  then show ?thesis using close_all_refines [OF ok] by (auto simp: refines_def view_def mapper_ok_def split: prod.splits open_text_kind.splits option.splits)
qed (use ok in \<open>auto simp: refines_def custom_def\<close>)

text \<open>
  C34. Frames are well bracketed: for every sequence of events, however deltas of different calls interleave and
  wherever the stream stops, the client accepts every frame and ends with nothing open.
\<close>

theorem agui_balanced: "accepts (False, NoSpan) (agui_stream J V thread_id run_id evs) = Some (False, NoSpan)"
proof -
  have "accepts (view m) (agui_frames J V m evs) = Some (False, NoSpan)" if "mapper_ok m" for m
    using that
  proof (induction evs arbitrary: m)
    case Nil
    then show ?case using close_all_refines by (simp add: agui_finish_def refines_def)
  next
    case (Cons ev evs)
    obtain f m' where p: "agui_push J V ev m = (f, m')" by force
    with push_refines [OF Cons.prems, of J V ev] have "accepts (view m) f = Some (view m')" "mapper_ok m'" by (auto simp: refines_def)
    then show ?case using Cons.IH Cons.prems p by (cases ev) auto
  qed
  from this [of "mapper_new thread_id run_id"] show ?thesis by (simp add: agui_stream_def view_def mapper_new_def mapper_ok_def)
qed

text \<open>
  The arguments a client collects for a call, and the ones that were streamed for it.
\<close>

definition args_sent :: "string \<Rightarrow> agui_frame list \<Rightarrow> string" where
  "args_sent c fs = concat (map (\<lambda>f. case f of TOOL_CALL_ARGS i a \<Rightarrow> if i = c then a else [] | _ \<Rightarrow> []) fs)"

definition args_streamed :: "string \<Rightarrow> agent_event list \<Rightarrow> string" where
  "args_streamed c evs = concat (map (\<lambda>e. case e of ToolCallDelta i _ a \<Rightarrow> if i = c then a else [] | _ \<Rightarrow> []) evs)"

fun is_delta_of :: "string \<Rightarrow> agent_event \<Rightarrow> bool" where
  "is_delta_of c (ToolCallDelta i _ _) \<longleftrightarrow> i = c"
| "is_delta_of c _ \<longleftrightarrow> False"

fun is_item_of :: "string \<Rightarrow> agent_event \<Rightarrow> bool" where
  "is_item_of c (ToolCallItem (ToolCall i _ _)) \<longleftrightarrow> i = c"
| "is_item_of c _ \<longleftrightarrow> False"

lemma args_sent_simps [simp]:
  "args_sent c [] = []" "args_sent c (xs @ ys) = args_sent c xs @ args_sent c ys"
  "args_sent c (f # fs) = (case f of TOOL_CALL_ARGS i a \<Rightarrow> if i = c then a else [] | _ \<Rightarrow> []) @ args_sent c fs"
  by (simp_all add: args_sent_def)

lemma args_streamed_simps [simp]:
  "args_streamed c [] = []"
  "args_streamed c (e # es) = (case e of ToolCallDelta i _ a \<Rightarrow> if i = c then a else [] | _ \<Rightarrow> []) @ args_streamed c es"
  by (simp_all add: args_streamed_def)

text \<open>What is held back for a call; it is empty while the call is open.\<close>

definition held :: "string \<Rightarrow> event_mapper \<Rightarrow> string" where
  "held c m = (case map_of (em_buffered_calls m) c of Some a \<Rightarrow> a | None \<Rightarrow> [])"

definition buffers_ok :: "event_mapper \<Rightarrow> bool" where
  "buffers_ok m \<longleftrightarrow> distinct (map fst (em_buffered_calls m)) \<and> (\<forall>c. em_open_call m = Some c \<longrightarrow> map_of (em_buffered_calls m) c = None)"

definition known :: "string \<Rightarrow> event_mapper \<Rightarrow> bool" where
  "known c m \<longleftrightarrow> em_open_call m = Some c \<or> map_of (em_buffered_calls m) c \<noteq> None \<or> c \<in> em_completed_calls m"

lemma remove_first_filter: "distinct (map fst xs) \<Longrightarrow> remove_first k xs = filter (\<lambda>(j, _). j \<noteq> k) xs"
proof (induction k xs rule: remove_first.induct)
  case (2 k j v xs)
  then have "j = k \<Longrightarrow> filter (\<lambda>(j, _). j \<noteq> k) xs = xs" by (force simp: filter_id_conv)
  then show ?case using 2 by auto
qed simp

lemma remove_first_None: "map_of xs k = None \<Longrightarrow> remove_first k xs = xs"
  by (induction k xs rule: remove_first.induct) (auto split: if_splits)

lemma remove_first_distinct: "distinct (map fst xs) \<Longrightarrow> distinct (map fst (remove_first k xs))"
  by (simp add: remove_first_filter distinct_map_filter)

lemma map_of_remove_first: "distinct (map fst xs) \<Longrightarrow> map_of (remove_first k xs) c = (if c = k then None else map_of xs c)"
  unfolding remove_first_filter by (induction xs) auto

lemma map_of_push_buffered:
  "map_of (push_buffered k d xs) c = (if c = k then Some ((case map_of xs k of Some a \<Rightarrow> a | None \<Rightarrow> []) @ d) else map_of xs c)"
  by (induction k d xs rule: push_buffered.induct) auto

lemma push_buffered_distinct: "distinct (map fst xs) \<Longrightarrow> distinct (map fst (push_buffered k d xs))"
proof -
  have "set (map fst (push_buffered k d xs)) = insert k (set (map fst xs))" for xs
    by (induction k d xs rule: push_buffered.induct) auto
  then show "distinct (map fst xs) \<Longrightarrow> distinct (map fst (push_buffered k d xs))"
    by (induction k d xs rule: push_buffered.induct) auto
qed

lemma close_sent [simp]:
  "args_sent c (fst (close_text m)) = []" "args_sent c (fst (close_call m)) = []" "args_sent c (fst (close_step m)) = []"
  by (auto simp: close_text_def close_call_def close_step_def split: open_text_kind.splits option.splits)

lemma spans_sent:
  "distinct (map fst xs) \<Longrightarrow> args_sent c (concat (map (\<lambda>(i, a). call_span i (n i) p a) xs))
     = (case map_of xs c of Some a \<Rightarrow> a | None \<Rightarrow> [])"
proof (induction xs)
  case (Cons x xs)
  obtain i a where x: "x = (i, a)" by force
  have "i = c \<Longrightarrow> map_of xs c = None" using Cons.prems x by (auto simp: map_of_eq_None_iff)
  then show ?case using Cons x by (auto simp: call_span_def)
qed simp

declare map_of_eq_Some_iff [simp del]

lemmas args_defs = buffers_ok_def held_def known_def

text \<open>One event: what it streams for a call is sent or held back behind what was held back before.\<close>

definition carried :: "string \<Rightarrow> string \<Rightarrow> event_mapper \<Rightarrow> agui_frame list \<times> event_mapper \<Rightarrow> bool" where
  "carried c d m r \<longleftrightarrow> buffers_ok (snd r) \<and> args_sent c (fst r) @ held c (snd r) = held c m @ d"

lemma carried_then: "carried c d m (f1, m1) \<Longrightarrow> carried c [] m1 (f2, m2) \<Longrightarrow> carried c d m (f1 @ f2, m2)"
  by (simp add: carried_def)

lemma carried_skip: "carried c [] m (f1, m1) \<Longrightarrow> carried c d m1 (f2, m2) \<Longrightarrow> carried c d m (f1 @ f2, m2)"
  by (simp add: carried_def)

lemma close_carried:
  assumes "buffers_ok m"
  shows "carried c [] m (close_text m)" "carried c [] m (close_call m)" "carried c [] m (close_step m)" "carried c [] m (open_text b m)"
  using assms by (auto simp: carried_def args_defs open_text_def new_message_id_def Let_def split_beta close_call_def close_step_def close_text_def
      split: option.splits open_text_kind.splits)

lemma close_all_carried:
  assumes ok: "buffers_ok m"
  shows "args_sent c (fst (close_all m)) = held c m \<and> carried c [] m (close_all m)"
proof -
  obtain f1 m1 where 1: "close_text m = (f1, m1)" by force
  obtain f2 m2 where 2: "close_call m1 = (f2, m2)" by force
  have b: "em_buffered_calls m2 = em_buffered_calls m" "em_buffered_calls m1 = em_buffered_calls m" "em_open_call m2 = None"
    using close_fields(3,5,6) 1 2 by (metis snd_conv)+
  have s: "args_sent c f1 = []" "args_sent c f2 = []" using close_sent 1 2 by (metis fst_conv)+
  have "distinct (map fst (em_buffered_calls m))" using ok by (simp add: buffers_ok_def)
  from spans_sent [OF this] show ?thesis
    using b s 2 by (simp add: close_all_def 1 2 Let_def split_beta carried_def held_def buffers_ok_def)
qed

lemma push_tool_delta_carried:
  assumes ok: "buffers_ok m"
  shows "carried c (if i = c then d else []) m (push_tool_delta i n d m) \<and> (known c (snd (push_tool_delta i n d m)) \<longleftrightarrow> known c m \<or> i = c)"
proof -
  obtain f1 m1 where 1: "close_text m = (f1, m1)" by force
  have m1: "args_sent c f1 = []" "em_buffered_calls m1 = em_buffered_calls m" "em_open_call m1 = em_open_call m" "em_completed_calls m1 = em_completed_calls m"
    using close_sent(1) close_fields 1 by (metis fst_conv snd_conv)+
  have d: "distinct (map fst (em_buffered_calls m))" using ok by (simp add: buffers_ok_def)
  define m2 where "m2 = (case n of
      Some n \<Rightarrow> if em_call_names m1 i = None then m1\<lparr>em_call_names := (em_call_names m1)(i \<mapsto> n)\<rparr> else m1 | None \<Rightarrow> m1)"
  have m2: "em_buffered_calls m2 = em_buffered_calls m" "em_open_call m2 = em_open_call m" "em_completed_calls m2 = em_completed_calls m"
    using m1 by (auto simp: m2_def split: option.splits)
  consider (more) "em_open_call m = Some i" | (start) "em_open_call m = None" | (hold) j where "em_open_call m = Some j" "j \<noteq> i" by (cases "em_open_call m") auto
  then show ?thesis
  proof cases
    case more
    then have "push_tool_delta i n d m = (f1 @ [TOOL_CALL_ARGS i d], m2)" using m2 by (simp add: push_tool_delta_def 1 flip: m2_def)
    moreover have "map_of (em_buffered_calls m) i = None" using ok more by (simp add: buffers_ok_def)
    ultimately show ?thesis using ok m1 m2 more by (auto simp: carried_def args_defs)
  next
    case start
    then have "push_tool_delta i n d m = (f1 @ [TOOL_CALL_START i (name_of m2 i) (em_current_message m2)]
        @ (case map_of (em_buffered_calls m) i of Some b \<Rightarrow> [TOOL_CALL_ARGS i b] | None \<Rightarrow> []) @ [TOOL_CALL_ARGS i d],
        m2\<lparr>em_buffered_calls := remove_first i (em_buffered_calls m), em_open_call := Some i\<rparr>)"
      using m2 remove_first_None [of "em_buffered_calls m" i]
      by (auto simp: push_tool_delta_def 1 take_buffered_def name_of_def split: option.splits simp flip: m2_def)
    then show ?thesis using ok m1 m2 start map_of_remove_first [OF d] remove_first_distinct [OF d]
      by (auto simp: carried_def args_defs split: option.splits)
  next
    case hold
    then have "push_tool_delta i n d m = (f1, m2\<lparr>em_buffered_calls := push_buffered i d (em_buffered_calls m)\<rparr>)"
      using m2 by (simp add: push_tool_delta_def 1 flip: m2_def)
    then show ?thesis using ok m1 m2 hold push_buffered_distinct [OF d] map_of_push_buffered [of i d "em_buffered_calls m"]
      by (auto simp: carried_def args_defs split: option.splits)
  qed
qed

lemma push_tool_item_carried:
  assumes ok: "buffers_ok m" and "i = c \<Longrightarrow> known c m"
  shows "carried c [] m (push_tool_item J i n a m) \<and> (known c (snd (push_tool_item J i n a m)) \<longleftrightarrow> known c m)"
proof -
  have d: "distinct (map fst (em_buffered_calls m))" using ok by (simp add: buffers_ok_def)
  show ?thesis
    using ok assms(2) map_of_remove_first [OF d] remove_first_distinct [OF d]
    unfolding push_tool_item_def
    by (auto simp: Let_def take_buffered_def close_call_def carried_def call_span_def args_defs split: option.splits)
qed

lemma close_known: "known c (snd (close_text m)) \<longleftrightarrow> known c m" "known c (snd (close_call m)) \<longleftrightarrow> known c m"
    "known c (snd (close_step m)) \<longleftrightarrow> known c m" "known c (snd (open_text b m)) \<longleftrightarrow> known c m" "known c (snd (close_all m)) \<longleftrightarrow> known c m"
  by (auto simp: known_def close_text_def close_call_def close_step_def open_text_def close_all_def new_message_id_def Let_def map_of_eq_None_iff
      split: option.splits open_text_kind.splits)

lemma push_carried:
  assumes ok: "buffers_ok m" and item: "is_item_of c ev \<Longrightarrow> known c m"
  shows "carried c (args_streamed c [ev]) m (agui_push J V ev m) \<and> (known c (snd (agui_push J V ev m)) \<longleftrightarrow> known c m \<or> is_delta_of c ev)"
proof (cases ev)
  case (TurnStarted x)
  then show ?thesis using ok by (auto simp: carried_def args_defs close_text_def close_call_def close_step_def split: option.splits open_text_kind.splits)
next
  case (TokenDelta x)
  then show ?thesis using ok by (auto simp: carried_def args_defs close_text_def close_call_def open_text_def new_message_id_def Let_def split: option.splits open_text_kind.splits)
next
  case (ReasoningDelta x)
  then show ?thesis using ok by (auto simp: carried_def args_defs close_text_def close_call_def open_text_def new_message_id_def Let_def split: option.splits open_text_kind.splits)
next
  case (ToolCallDelta i n d)
  then show ?thesis using push_tool_delta_carried [OF ok, of c i d n] by auto
next
  case (ToolCallItem it)
  obtain f1 m1 where 1: "close_text m = (f1, m1)" by force
  have c1: "carried c [] m (f1, m1)" "known c m1 \<longleftrightarrow> known c m" "buffers_ok m1"
    using close_carried(1) [OF ok, of c] close_known(1) [of c m] 1 by (auto simp: carried_def)
  show ?thesis
  proof (cases it)
    case (ToolCall i n a)
    then have "i = c \<Longrightarrow> known c m1" using item ToolCallItem c1 by simp
    from push_tool_item_carried [OF c1(3), of i c J n a, OF this] show ?thesis
      using c1 carried_skip [OF c1(1), of "[]"] ToolCallItem ToolCall 1 by (cases "push_tool_item J i n a m1") auto
  qed (use c1 1 ToolCallItem in \<open>auto simp: carried_def custom_def\<close>)
next
  case (ToolOutputItem it)
  then show ?thesis using ok by (auto simp: carried_def args_defs close_text_def close_call_def custom_def split: option.splits open_text_kind.splits item.splits)
next
  case (MessageOutput it)
  then show ?thesis using ok
    by (auto simp: carried_def args_defs push_message_def close_text_def close_call_def new_message_id_def Let_def split: option.splits open_text_kind.splits)
next
  case (RunCompleted u)
  then show ?thesis using close_all_carried [OF ok, of c] close_known(5) [of c m]
    by (auto simp: carried_def held_def buffers_ok_def known_def split: prod.splits)
next
  case (RunFailed e)
  then show ?thesis using close_all_carried [OF ok, of c] close_known(5) [of c m]
    by (auto simp: carried_def held_def buffers_ok_def known_def split: prod.splits)
qed (use ok in \<open>auto simp: carried_def custom_def\<close>)

text \<open>
  Arguments arrive intact: for every call whose first streamed delta precedes its item, the argument frames
  of the whole run, whatever other calls and texts they interleave with, concatenate to exactly the
  streamed argument text of that call.
\<close>

theorem agui_args_intact:
  assumes "\<And>pre ev post. evs = pre @ ev # post \<Longrightarrow> is_item_of c ev \<Longrightarrow> list_ex (is_delta_of c) pre"
  shows "args_sent c (agui_stream J V thread_id run_id evs) = args_streamed c evs"
proof -
  have "args_sent c (agui_frames J V m evs) = held c m @ args_streamed c evs"
    if "buffers_ok m" "\<And>pre ev post. evs = pre @ ev # post \<Longrightarrow> is_item_of c ev \<Longrightarrow> known c m \<or> list_ex (is_delta_of c) pre" for m
    using that
  proof (induction evs arbitrary: m)
    case Nil
    then show ?case using close_all_carried by (simp add: agui_finish_def)
  next
    case (Cons ev evs)
    obtain f m' where p: "agui_push J V ev m = (f, m')" by force
    have "is_item_of c ev \<Longrightarrow> known c m" using Cons.prems(2) [of "[]" ev evs] by simp
    from push_carried [OF Cons.prems(1), of c ev J V, OF this]
    have c: "buffers_ok m'" "args_sent c f @ held c m' = held c m @ args_streamed c [ev]" "known c m' \<longleftrightarrow> known c m \<or> is_delta_of c ev"
      by (auto simp: p carried_def)
    have pre: "known c n \<or> list_ex (is_delta_of c) pre"
      if "evs = pre @ e # post" "is_item_of c e" "known c n \<longleftrightarrow> known c m \<or> is_delta_of c ev" for pre e post n
      using Cons.prems(2) [of "ev # pre" e post] that by auto
    show ?case
    proof (cases "\<exists>a. ev = RunStarted a")
      case True
      then show ?thesis using Cons.IH [of m] Cons.prems(1) pre [of _ _ _ m] by auto
    next
      case False
      then have "agui_frames J V m (ev # evs) = f @ agui_frames J V m' evs" using p by (cases ev) auto
      moreover have "args_sent c (agui_frames J V m' evs) = held c m' @ args_streamed c evs"
        using Cons.IH [of m'] c(1,3) pre [of _ _ _ m'] by blast
      ultimately show ?thesis using c(2) by simp
    qed
  qed
  from this [of "mapper_new thread_id run_id"] assms show ?thesis
    by (auto simp: agui_stream_def mapper_new_def buffers_ok_def held_def)
qed

text \<open>A call that is streamed again after a text has closed its span gets a second span.\<close>

lemma call_span_reopened:
  "agui_stream J V ''t'' ''r'' [ToolCallDelta ''c'' (Some ''f'') ''1'', TokenDelta ''x'', ToolCallDelta ''c'' None ''2'']
   = [RUN_STARTED ''t'' ''r'', TOOL_CALL_START ''c'' ''f'' [], TOOL_CALL_ARGS ''c'' ''1'', TOOL_CALL_END ''c'',
      TEXT_MESSAGE_START ''msg-0'', TEXT_MESSAGE_CONTENT ''msg-0'' ''x'', TEXT_MESSAGE_END ''msg-0'',
      TOOL_CALL_START ''c'' ''f'' ''msg-0'', TOOL_CALL_ARGS ''c'' ''2'', TOOL_CALL_END ''c'']"
  by (simp add: agui_stream_def mapper_new_def push_tool_delta_def close_text_def take_buffered_def name_of_def close_call_def open_text_def
      new_message_id_def agui_finish_def close_all_def close_step_def show_u32_def show_nat.simps digit_char_def Let_def) code_simp

section \<open>The end of a run\<close>

fun ends_run :: "agui_frame \<Rightarrow> bool" where
  "ends_run (RUN_FINISHED _ _) = True"
| "ends_run (RUN_ERROR _ _) = True"
| "ends_run _ = False"

lemma close_ends [simp]:
  "\<not> list_ex ends_run (fst (close_text m))" "\<not> list_ex ends_run (fst (close_call m))" "\<not> list_ex ends_run (fst (close_step m))"
  "\<not> list_ex ends_run (fst (open_text b m))" "\<not> list_ex ends_run (call_span i n p a)"
  by (auto simp: close_text_def close_call_def close_step_def open_text_def new_message_id_def call_span_def Let_def
      split: open_text_kind.splits option.splits)

lemma close_all_ends: "\<not> list_ex ends_run (fst (close_all m))"
proof -
  have "\<not> list_ex ends_run (concat (map (\<lambda>(i, a). call_span i (n i) p a) xs))" for n p xs
    by (induction xs) auto
  then show ?thesis using close_ends(1-3) by (simp add: close_all_def Let_def split_beta)
qed

lemma push_ends:
  assumes "\<not> is_terminal ev"
  shows "\<not> list_ex ends_run (fst (agui_push J V ev m))"
proof (cases ev)
  case (ToolCallDelta i n d)
  then show ?thesis using close_ends(1) [of m] by (auto simp: push_tool_delta_def Let_def split_beta split: option.splits)
next
  case (ToolCallItem it)
  then show ?thesis using close_ends
    by (auto simp: push_tool_item_def custom_def Let_def split_beta split: item.splits option.splits)
next
  case (MessageOutput it)
  then show ?thesis using close_ends by (auto simp: push_message_def Let_def split_beta)
qed (use assms close_ends in \<open>auto simp: custom_def split_beta split: item.splits\<close>)

lemma close_ids [simp]:
  "em_thread_id (snd (close_text m)) = em_thread_id m" "em_run_id (snd (close_text m)) = em_run_id m"
  "em_thread_id (snd (close_call m)) = em_thread_id m" "em_run_id (snd (close_call m)) = em_run_id m"
  "em_thread_id (snd (close_step m)) = em_thread_id m" "em_run_id (snd (close_step m)) = em_run_id m"
  "em_thread_id (snd (open_text b m)) = em_thread_id m" "em_run_id (snd (open_text b m)) = em_run_id m"
  "em_thread_id (snd (take_buffered i m)) = em_thread_id m" "em_run_id (snd (take_buffered i m)) = em_run_id m"
  "em_thread_id (snd (close_all m)) = em_thread_id m" "em_run_id (snd (close_all m)) = em_run_id m"
  by (auto simp: close_text_def close_call_def close_step_def open_text_def take_buffered_def close_all_def new_message_id_def Let_def
      split: option.splits)

lemma push_ids: "em_thread_id (snd (agui_push J V ev m)) = em_thread_id m \<and> em_run_id (snd (agui_push J V ev m)) = em_run_id m"
  by (cases ev) (auto simp: push_tool_delta_def push_tool_item_def push_message_def new_message_id_def Let_def split_beta split: option.splits item.splits)

lemma close_all_again:
  assumes "view m = (False, NoSpan)" "em_buffered_calls m = []"
  shows "fst (close_all m) = []"
  using assms by (auto simp: view_def close_all_def close_text_def close_call_def close_step_def split: open_text_kind.splits option.splits)

text \<open>
  A run that keeps the stream contract ends with one terminal frame: the finish frame exactly for a completed run
  and the error with the reported text for a failed one; no frame follows and none of the frames before ends the run.
\<close>

theorem agui_one_terminal:
  assumes "\<not> list_ex is_terminal pre" "is_terminal t"
  shows "\<exists>fs. agui_stream J V thread_id run_id (pre @ [t])
      = fs @ [case t of RunFailed e \<Rightarrow> RUN_ERROR ''AGENT_ERROR'' e | _ \<Rightarrow> RUN_FINISHED thread_id run_id]
    \<and> \<not> list_ex ends_run fs"
proof -
  let ?last = "case t of RunFailed e \<Rightarrow> RUN_ERROR ''AGENT_ERROR'' e | _ \<Rightarrow> RUN_FINISHED thread_id run_id"
  have "\<exists>fs. agui_frames J V m (pre @ [t]) = fs @ [?last] \<and> \<not> list_ex ends_run fs"
    if "mapper_ok m" "em_thread_id m = thread_id" "em_run_id m = run_id" for m
    using assms(1) that
  proof (induction pre arbitrary: m)
    case Nil
    obtain f m' where c: "close_all m = (f, m')" by force
    have "view m' = (False, NoSpan)" "em_buffered_calls m' = []" using close_all_refines [OF Nil(2)] c by auto
    then have none: "fst (close_all (m'\<lparr>em_streamed_text := False\<rparr>)) = []" by (intro close_all_again) (auto simp: view_def split: open_text_kind.splits)
    have ids: "em_thread_id m' = thread_id" "em_run_id m' = run_id"
      using arg_cong [OF c, of snd] Nil(3,4)
      by (auto simp: close_all_def close_text_def close_call_def close_step_def Let_def split: option.splits)
    show ?case using assms(2) close_all_ends [of m] c none ids by (cases t) (auto simp: agui_finish_def)
  next
    case (Cons ev pre)
    obtain f m' where p: "agui_push J V ev m = (f, m')" by force
    have "mapper_ok m'" using push_refines [OF Cons.prems(2), of J V ev] p by (simp add: refines_def)
    moreover have "em_thread_id m' = thread_id" "em_run_id m' = run_id"
      using push_ids [of J V ev m] p Cons.prems(3,4) by simp_all
    moreover have "\<not> list_ex ends_run f" using push_ends [of ev J V m] Cons.prems(1) p by simp
    ultimately have f: "\<not> list_ex ends_run f" and "\<exists>fs. agui_frames J V m' (pre @ [t]) = fs @ [?last] \<and> \<not> list_ex ends_run fs"
      using Cons.IH [of m'] Cons.prems(1) by auto
    then obtain fs where fs: "agui_frames J V m' (pre @ [t]) = fs @ [?last]" "\<not> list_ex ends_run fs" by blast
    show ?case
    proof (cases "\<exists>a. ev = RunStarted a")
      case True
      then show ?thesis using Cons.IH [of m] Cons.prems by auto
    next
      case False
      then have "agui_frames J V m (ev # pre @ [t]) = (f @ fs) @ [?last]" using p fs(1) by (cases ev) auto
      then show ?thesis using f fs(2) by (metis append_Cons list_ex_append)
    qed
  qed
  from this [of "mapper_new thread_id run_id"] obtain fs where
    "agui_frames J V (mapper_new thread_id run_id) (pre @ [t]) = fs @ [?last]" "\<not> list_ex ends_run fs"
    by (auto simp: mapper_ok_def mapper_new_def)
  then show ?thesis by (intro exI [of _ "RUN_STARTED thread_id run_id # fs"]) (simp add: agui_stream_def)
qed

theorem agui_args_intact_witness:
  "args_sent ''b'' (agui_stream (\<lambda>_. []) (\<lambda>_. JNull) ''t'' ''r''
     [ToolCallDelta ''a'' (Some ''f'') ''1'', ToolCallDelta ''b'' (Some ''g'') ''2'', ToolCallDelta ''b'' None ''3'', ToolCallItem (ToolCall ''b'' ''g'' JNull)]) = ''23''"
proof -
  let ?evs = "[ToolCallDelta ''a'' (Some ''f'') ''1'', ToolCallDelta ''b'' (Some ''g'') ''2'', ToolCallDelta ''b'' None ''3'', ToolCallItem (ToolCall ''b'' ''g'' JNull)]"
  have "list_ex (is_delta_of ''b'') pre" if "?evs = pre @ ev # post" "is_item_of ''b'' ev" for pre ev post
    using that by (auto simp: Cons_eq_append_conv)
  from agui_args_intact [OF this] show ?thesis by simp
qed

theorem agui_one_terminal_witness:
  "\<exists>fs. agui_stream (\<lambda>_. []) (\<lambda>_. JNull) ''t'' ''r'' [TurnStarted 1, TokenDelta ''x'', RunCompleted usage_default]
     = fs @ [RUN_FINISHED ''t'' ''r''] \<and> \<not> list_ex ends_run fs"
  using agui_one_terminal [of "[TurnStarted 1, TokenDelta ''x'']" "RunCompleted usage_default" "\<lambda>_. []" "\<lambda>_. JNull" "''t''" "''r''"] by simp

end
