(* ===== verification/Litellm_Stream.thy ===== *)
theory Litellm_Stream
  imports Messages
begin

text \<open>
  The stream translator of the LiteLLM provider (\<open>stream.rs\<close> and the chunk types of \<open>sse.rs\<close> of
  \<open>providers-litellm\<close>): chunks of a chat completion become model events. Tool-call fragments are correlated by
  index, by identifier or by position, buffered until the identifier is known and then moved to one slot
  per identifier. Shown are that at most one delta per identifier carries a name, that the arguments of a call
  arrive complete and in order, and that the finish event is last and reports the last reason seen. The sets that only limit how often a warning is logged are left out.
\<close>

section \<open>Chunks\<close>

record function_chunk =
  fc_name :: "string option"
  fc_arguments :: "string option"

record tool_call_chunk =
  tk_index :: "u32 option"
  tk_id :: "string option"
  tk_function :: "function_chunk option"

record chunk_delta =
  de_content :: "string option"
  de_reasoning_content :: "string option"
  de_reasoning :: "string option"
  de_tool_calls :: "tool_call_chunk list option"

record chunk_choice =
  ch_index :: "u32 option"
  ch_delta :: "chunk_delta option"
  ch_finish_reason :: "string option"

record chunk_usage =
  cu_prompt_tokens :: u32
  cu_completion_tokens :: u32
  cu_prompt_details :: "u32 option option"
  cu_completion_details :: "u32 option option"

record stream_chunk =
  sc_choices :: "chunk_choice list"
  sc_usage :: "chunk_usage option"
  sc_error :: "json option"

section \<open>The translator\<close>

datatype key = Index u32 | Id string

record pending_call =
  pc_seq :: nat
  pc_name :: string
  pc_args :: string

definition pending_new :: "nat \<Rightarrow> pending_call" where
  "pending_new n = \<lparr>pc_seq = n, pc_name = [], pc_args = []\<rparr>"

record translator =
  tr_tool_calls :: "key \<rightharpoonup> string"
  tr_name_emitted :: "(key \<times> string) list"
  tr_pending :: "(key \<times> pending_call) list"
  tr_next_seq :: nat
  tr_blank_emitted :: "key set"
  tr_finish_reason :: "string option"

definition translator_new :: translator where
  "translator_new = \<lparr>tr_tool_calls = Map.empty, tr_name_emitted = [], tr_pending = [], tr_next_seq = 0,
     tr_blank_emitted = {}, tr_finish_reason = None\<rparr>"

text \<open>The buffers and the emitted names are hash maps; their entries are listed in the order of insertion.\<close>

definition name_emitted :: "translator \<Rightarrow> key \<Rightarrow> string option" where
  "name_emitted t k = map_of (tr_name_emitted t) k"

definition slot_of :: "key \<Rightarrow> translator \<Rightarrow> pending_call option" where
  "slot_of k t = map_of (tr_pending t) k"

definition remove_slot :: "key \<Rightarrow> translator \<Rightarrow> translator" where
  "remove_slot k t = t\<lparr>tr_pending := filter (\<lambda>(j, _). j \<noteq> k) (tr_pending t)\<rparr>"

definition set_slot :: "key \<Rightarrow> pending_call \<Rightarrow> translator \<Rightarrow> translator" where
  "set_slot k p t = t\<lparr>tr_pending := map (\<lambda>(j, q). (j, if j = k then p else q)) (tr_pending t)\<rparr>"

definition ensure_pending :: "key \<Rightarrow> translator \<Rightarrow> translator" where
  "ensure_pending k t =
     (if slot_of k t = None
      then t\<lparr>tr_pending := tr_pending t @ [(k, pending_new (tr_next_seq t))], tr_next_seq := tr_next_seq t + 1\<rparr>
      else t)"

text \<open>Merging the buffer \<open>old\<close> that moves into the slot of the canonical key; \<open>None\<close> when its name comes too late.\<close>

definition merge_slot :: "pending_call \<Rightarrow> pending_call \<Rightarrow> pending_call" where
  "merge_slot old slot =
     (let slot = (if pc_name old \<noteq> [] \<and> pc_name old \<noteq> pc_name slot
                  then (if pc_seq old < pc_seq slot then slot\<lparr>pc_name := pc_name old @ pc_name slot\<rparr>
                        else slot\<lparr>pc_name := pc_name slot @ pc_name old\<rparr>)
                  else slot)
      in if pc_seq old < pc_seq slot then slot\<lparr>pc_seq := pc_seq old\<rparr> else slot)"

definition canonicalize :: "key \<Rightarrow> string \<Rightarrow> translator \<Rightarrow> key \<times> translator" where
  "canonicalize k call_id t =
     (if call_id = [] then (k, t)
      else if k = Id call_id then (k, t)
      else (let canonical = Id call_id;
                register = (\<lambda>t. if tr_tool_calls t canonical = None
                  then t\<lparr>tr_tool_calls := (tr_tool_calls t)(canonical \<mapsto> call_id)\<rparr> else t)
            in (case slot_of k t of
                  None \<Rightarrow> (canonical, register t)
                | Some old \<Rightarrow>
                    (let t = ensure_pending canonical (remove_slot k t);
                         slot = (case slot_of canonical t of Some s \<Rightarrow> s | None \<Rightarrow> pending_new 0);
                         slot = slot\<lparr>pc_args := pc_args old @ pc_args slot\<rparr>
                     in if pc_name old \<noteq> [] \<and> name_emitted t canonical \<noteq> None then (canonical, set_slot canonical slot t)
                        else (canonical, register (set_slot canonical (merge_slot old slot) t))))))"

definition wire_key :: "tool_call_chunk \<Rightarrow> nat \<Rightarrow> bool \<Rightarrow> key option" where
  "wire_key tc pos any_explicit_index =
     (case tk_index tc of
        Some i \<Rightarrow> Some (Index i)
      | None \<Rightarrow> (case tk_id tc of
            Some i \<Rightarrow> if i \<noteq> [] then Some (Id i) else if any_explicit_index then None else Some (Index (of_nat pos))
          | None \<Rightarrow> if any_explicit_index then None else Some (Index (of_nat pos))))"

definition name_frag :: "tool_call_chunk \<Rightarrow> string" where
  "name_frag tc = (case tk_function tc of Some f \<Rightarrow> (case fc_name f of Some n \<Rightarrow> n | None \<Rightarrow> []) | None \<Rightarrow> [])"

definition args_frag :: "tool_call_chunk \<Rightarrow> string" where
  "args_frag tc = (case tk_function tc of Some f \<Rightarrow> (case fc_arguments f of Some a \<Rightarrow> a | None \<Rightarrow> []) | None \<Rightarrow> [])"

text \<open>The first identifier wins, except that a real one replaces a blank one under which nothing was emitted.\<close>

definition register_id :: "key \<Rightarrow> string option \<Rightarrow> translator \<Rightarrow> translator" where
  "register_id k call_id t =
     (case call_id of
        None \<Rightarrow> t
      | Some i \<Rightarrow>
          (case tr_tool_calls t k of
             Some existing \<Rightarrow> if existing = [] \<and> i \<noteq> [] \<and> k \<notin> tr_blank_emitted t
               then t\<lparr>tr_tool_calls := (tr_tool_calls t)(k \<mapsto> i)\<rparr> else t
           | None \<Rightarrow> t\<lparr>tr_tool_calls := (tr_tool_calls t)(k \<mapsto> i)\<rparr>))"

definition buffer_fragments :: "key \<Rightarrow> string \<Rightarrow> string \<Rightarrow> translator \<Rightarrow> translator" where
  "buffer_fragments k nf af t =
     (let t = ensure_pending k t
      in case slot_of k t of
           Some s \<Rightarrow> set_slot k (s\<lparr>pc_name := pc_name s @ nf, pc_args := pc_args s @ af\<rparr>) t
         | None \<Rightarrow> t)"

text \<open>
  A delta whose identifier is known: the buffer with the new name fragment, which is skipped when it repeats the whole name or
  the name is already out; the name is complete when the delta has arguments or no name; arguments leave at once.
\<close>

definition grown_slot :: "key \<Rightarrow> string \<Rightarrow> translator \<Rightarrow> pending_call" where
  "grown_slot k nf t =
     (let slot = (case slot_of k t of Some s \<Rightarrow> s | None \<Rightarrow> pending_new (tr_next_seq t))
      in if name_emitted t k = None \<and> pc_name slot \<noteq> nf then slot\<lparr>pc_name := pc_name slot @ nf\<rparr> else slot)"

definition flushes :: "key \<Rightarrow> string \<Rightarrow> string \<Rightarrow> translator \<Rightarrow> bool" where
  "flushes k nf af t \<longleftrightarrow> name_emitted t k = None \<and> pc_name (grown_slot k nf t) \<noteq> [] \<and> (af \<noteq> [] \<or> nf = [])"

definition drained :: "key \<Rightarrow> string \<Rightarrow> string \<Rightarrow> translator \<Rightarrow> translator" where
  "drained k nf af t =
     (let slot = grown_slot k nf t; t1 = ensure_pending k t
      in if flushes k nf af t then (remove_slot k t1)\<lparr>tr_name_emitted := tr_name_emitted t @ [(k, pc_name slot)]\<rparr>
         else if pc_name slot = [] then remove_slot k t1
         else set_slot k (slot\<lparr>pc_args := []\<rparr>) t1)"

definition resolved_delta :: "key \<Rightarrow> string \<Rightarrow> string \<Rightarrow> string \<Rightarrow> translator \<Rightarrow> model_event list \<times> translator" where
  "resolved_delta k call_id nf af t =
     (let slot = grown_slot k nf t;
          emit_name = (if flushes k nf af t then Some (pc_name slot) else None);
          args = pc_args slot @ af;
          t = drained k nf af t
      in if emit_name = None \<and> args = [] then ([], t)
         else ([MToolCallDelta call_id emit_name args],
               if call_id = [] then t\<lparr>tr_blank_emitted := insert k (tr_blank_emitted t)\<rparr> else t))"

definition handle_tool_call :: "tool_call_chunk \<Rightarrow> nat \<Rightarrow> bool \<Rightarrow> translator \<Rightarrow> model_event list \<times> translator" where
  "handle_tool_call tc pos any_explicit_index t =
     (case wire_key tc pos any_explicit_index of
        None \<Rightarrow> ([], t)
      | Some k \<Rightarrow>
          (let t = register_id k (tk_id tc) t
           in case tr_tool_calls t k of
                None \<Rightarrow> ([], buffer_fragments k (name_frag tc) (args_frag tc) t)
              | Some call_id \<Rightarrow>
                  (case canonicalize k call_id t of
                     (k, t) \<Rightarrow> resolved_delta k call_id (name_frag tc) (args_frag tc) t)))"

fun handle_tool_calls :: "tool_call_chunk list \<Rightarrow> nat \<Rightarrow> bool \<Rightarrow> translator \<Rightarrow> model_event list \<times> translator" where
  "handle_tool_calls [] pos x t = ([], t)"
| "handle_tool_calls (tc # tcs) pos x t =
     (case handle_tool_call tc pos x t of (o1, t) \<Rightarrow> case handle_tool_calls tcs (pos + 1) x t of (o2, t) \<Rightarrow> (o1 @ o2, t))"

definition nonempty :: "string option \<Rightarrow> string option" where
  "nonempty s = (case s of Some x \<Rightarrow> if x \<noteq> [] then Some x else None | None \<Rightarrow> None)"

definition consume_delta :: "chunk_delta \<Rightarrow> translator \<Rightarrow> model_event list \<times> translator" where
  "consume_delta d t =
     (let text_events = (case nonempty (de_content d) of Some s \<Rightarrow> [MTokenDelta s] | None \<Rightarrow> []);
          reasoning = nonempty (case de_reasoning_content d of Some s \<Rightarrow> Some s | None \<Rightarrow> de_reasoning d);
          reasoning_events = (case reasoning of Some s \<Rightarrow> [MReasoningDelta s] | None \<Rightarrow> [])
      in case de_tool_calls d of
           None \<Rightarrow> (text_events @ reasoning_events, t)
         | Some tcs \<Rightarrow> (case handle_tool_calls tcs 0 (list_ex (\<lambda>tc. tk_index tc \<noteq> None) tcs) t of
               (evs, t) \<Rightarrow> (text_events @ reasoning_events @ evs, t)))"

definition consume :: "stream_chunk \<Rightarrow> translator \<Rightarrow> model_event list \<times> translator" where
  "consume chunk t =
     (case (case sc_choices chunk of
              [] \<Rightarrow> ([], t)
            | choice # _ \<Rightarrow>
                (case (case ch_delta choice of Some d \<Rightarrow> consume_delta d t | None \<Rightarrow> ([], t)) of
                   (evs, t) \<Rightarrow> (evs, case ch_finish_reason choice of
                       Some r \<Rightarrow> t\<lparr>tr_finish_reason := Some r\<rparr> | None \<Rightarrow> t))) of
        (evs, t) \<Rightarrow>
          (evs @ (case sc_usage chunk of
             None \<Rightarrow> []
           | Some u \<Rightarrow> [MUsage (cu_prompt_tokens u) (cu_completion_tokens u)
               (case cu_prompt_details u of Some d \<Rightarrow> d | None \<Rightarrow> None) (case cu_completion_details u of Some d \<Rightarrow> d | None \<Rightarrow> None)]), t))"

text \<open>The end of the stream: names still buffered are flushed in the order their buffers were created.\<close>

definition flush_step :: "key \<Rightarrow> model_event list \<times> string set \<times> translator \<Rightarrow> model_event list \<times> string set \<times> translator" where
  "flush_step k r =
     (case r of (out, already, t) \<Rightarrow>
      if name_emitted t k \<noteq> None then r
      else (case tr_tool_calls t k of
              None \<Rightarrow> r
            | Some call_id \<Rightarrow>
                (case slot_of k t of
                   None \<Rightarrow> r
                 | Some slot \<Rightarrow>
                     (if pc_name slot = [] then r
                      else if call_id \<noteq> [] \<and> call_id \<in> already then r
                      else (out @ [MToolCallDelta call_id (Some (pc_name slot)) []],
                            if call_id \<noteq> [] then insert call_id already else already,
                            (set_slot k (slot\<lparr>pc_name := []\<rparr>) t)\<lparr>tr_name_emitted := tr_name_emitted t @ [(k, pc_name slot)]\<rparr>)))))"

definition pending_keys :: "translator \<Rightarrow> key list" where
  "pending_keys t = map fst (sort_key (\<lambda>(_, p). pc_seq p) (tr_pending t))"

definition already_emitted :: "translator \<Rightarrow> string set" where
  "already_emitted t = set (filter (\<lambda>c. c \<noteq> []) (List.map_filter (\<lambda>(k, _). tr_tool_calls t k) (tr_name_emitted t)))"

definition flush_buffered_names :: "translator \<Rightarrow> model_event list \<times> translator" where
  "flush_buffered_names t = (case fold flush_step (pending_keys t) ([], already_emitted t, t) of (out, _, t) \<Rightarrow> (out, t))"

definition finish_reason_of :: "string \<Rightarrow> finish_reason" where
  "finish_reason_of raw =
     (if raw = ''stop'' then Stop else if raw = ''length'' then Length
      else if raw = ''tool_calls'' \<or> raw = ''function_call'' then ToolCalls
      else if raw = ''content_filter'' then ContentFilter else OtherReason raw)"

definition translator_finish :: "translator \<Rightarrow> model_event list \<times> translator" where
  "translator_finish t =
     (case flush_buffered_names t of (out, t) \<Rightarrow>
      case tr_finish_reason t of
        None \<Rightarrow> (out, t)
      | Some raw \<Rightarrow> (out @ [MFinish (finish_reason_of raw)], t\<lparr>tr_finish_reason := None\<rparr>))"

fun consume_all :: "stream_chunk list \<Rightarrow> translator \<Rightarrow> model_event list \<times> translator" where
  "consume_all [] t = ([], t)"
| "consume_all (c # cs) t = (case consume c t of (o1, t) \<Rightarrow> case consume_all cs t of (o2, t) \<Rightarrow> (o1 @ o2, t))"

definition translate :: "stream_chunk list \<Rightarrow> model_event list" where
  "translate cs = (case consume_all cs translator_new of (o1, t) \<Rightarrow> o1 @ fst (translator_finish t))"

section \<open>One name per call\<close>

lemma map_of_other: "map_of (filter (\<lambda>(j, _). j \<noteq> k) xs) i = (if i = k then None else map_of xs i)"
  by (induction xs) auto

lemma map_of_changed: "map_of (map (\<lambda>(j, q). (j, if j = k then p else q)) xs) i = (if i = k \<and> map_of xs k \<noteq> None then Some p else map_of xs i)"
  by (induction xs) auto

lemma slot_simps [simp]:
  "slot_of j (remove_slot k t) = (if j = k then None else slot_of j t)"
  "slot_of j (set_slot k p t) = (if j = k \<and> slot_of k t \<noteq> None then Some p else slot_of j t)"
  "slot_of j (ensure_pending k t) = (if j = k \<and> slot_of k t = None then Some (pending_new (tr_next_seq t)) else slot_of j t)"
  "slot_of j (t\<lparr>tr_name_emitted := n\<rparr>) = slot_of j t" "slot_of j (t\<lparr>tr_blank_emitted := b\<rparr>) = slot_of j t"
  "slot_of j (t\<lparr>tr_tool_calls := c\<rparr>) = slot_of j t" "slot_of j (t\<lparr>tr_finish_reason := r\<rparr>) = slot_of j t"
  by (simp_all add: slot_of_def remove_slot_def set_slot_def ensure_pending_def map_of_other map_of_changed map_add_def option.case_eq_if)

lemma other_fields [simp]:
  "tr_tool_calls (remove_slot k t) = tr_tool_calls t" "tr_tool_calls (set_slot k p t) = tr_tool_calls t" "tr_tool_calls (ensure_pending k t) = tr_tool_calls t"
  "tr_name_emitted (remove_slot k t) = tr_name_emitted t" "tr_name_emitted (set_slot k p t) = tr_name_emitted t" "tr_name_emitted (ensure_pending k t) = tr_name_emitted t"
  "tr_blank_emitted (remove_slot k t) = tr_blank_emitted t" "tr_blank_emitted (set_slot k p t) = tr_blank_emitted t" "tr_blank_emitted (ensure_pending k t) = tr_blank_emitted t"
  "tr_finish_reason (remove_slot k t) = tr_finish_reason t" "tr_finish_reason (set_slot k p t) = tr_finish_reason t" "tr_finish_reason (ensure_pending k t) = tr_finish_reason t"
  by (simp_all add: remove_slot_def set_slot_def ensure_pending_def)

lemma emitted_simps [simp]:
  "name_emitted (remove_slot k t) = name_emitted t" "name_emitted (set_slot k p t) = name_emitted t" "name_emitted (ensure_pending k t) = name_emitted t"
  "name_emitted (t\<lparr>tr_tool_calls := c\<rparr>) = name_emitted t" "name_emitted (t\<lparr>tr_blank_emitted := b\<rparr>) = name_emitted t"
  "name_emitted (t\<lparr>tr_finish_reason := r\<rparr>) = name_emitted t"
  "name_emitted (t\<lparr>tr_name_emitted := tr_name_emitted t @ [(k, n)]\<rparr>) j = (case name_emitted t j of Some m \<Rightarrow> Some m | None \<Rightarrow> if j = k then Some n else None)"
  by (auto simp: name_emitted_def fun_eq_iff map_add_def split: option.splits)

text \<open>
  The correlation invariant: an identifier slot belongs to that identifier; names are emitted under index keys only for
  blank identifiers, and then no real identifier is accepted for that key; and fragments of a call with a real identifier are never
  left under its index.
\<close>

definition translator_ok :: "translator \<Rightarrow> bool" where
  "translator_ok t \<longleftrightarrow>
     (\<forall>c d. tr_tool_calls t (Id c) = Some d \<longrightarrow> d = c \<and> c \<noteq> [])
     \<and> (\<forall>i. name_emitted t (Index i) \<noteq> None \<longrightarrow> Index i \<in> tr_blank_emitted t)
     \<and> (\<forall>k\<in>tr_blank_emitted t. tr_tool_calls t k = Some [])
     \<and> (\<forall>i c. slot_of (Index i) t \<noteq> None \<longrightarrow> tr_tool_calls t (Index i) = Some c \<longrightarrow> c = [])
     \<and> (\<forall>c. name_emitted t (Id c) \<noteq> None \<longrightarrow> tr_tool_calls t (Id c) = Some c)"

definition names :: "string \<Rightarrow> model_event list \<Rightarrow> nat" where
  "names c evs = length (filter (\<lambda>e. case e of MToolCallDelta i (Some _) _ \<Rightarrow> i = c | _ \<Rightarrow> False) evs)"

lemma names_simps [simp]:
  "names c [] = 0" "names c (xs @ ys) = names c xs + names c ys"
  "names c (e # es) = (case e of MToolCallDelta i (Some _) _ \<Rightarrow> if i = c then 1 else 0 | _ \<Rightarrow> 0) + names c es"
  by (auto simp: names_def split: model_event.splits option.splits)

text \<open>How often a name was emitted for an identifier, according to the translator.\<close>

definition told :: "string \<Rightarrow> translator \<Rightarrow> nat" where
  "told c t = (if name_emitted t (Id c) = None then 0 else 1)"

definition steps_ok :: "translator \<Rightarrow> model_event list \<times> translator \<Rightarrow> bool" where
  "steps_ok t r \<longleftrightarrow> translator_ok (snd r) \<and> (\<forall>c. c \<noteq> [] \<longrightarrow> told c t + names c (fst r) = told c (snd r))"

lemma steps_ok_refl: "translator_ok t \<Longrightarrow> steps_ok t ([], t)"
  by (simp add: steps_ok_def)

lemma steps_ok_then: "steps_ok t (o1, t1) \<Longrightarrow> steps_ok t1 (o2, t2) \<Longrightarrow> steps_ok t (o1 @ o2, t2)"
  by (simp add: steps_ok_def) (metis add.assoc)

text \<open>Between learning an identifier and moving the fragments only the clause on index slots is open, for that key.\<close>

lemma translator_ok_remove: "translator_ok t \<Longrightarrow> translator_ok (remove_slot k t)"
  by (simp add: translator_ok_def)

lemma register_id_ok:
  assumes ok: "translator_ok t" and k: "\<And>x. k = Id x \<Longrightarrow> x \<noteq> [] \<and> i = Some x"
  shows "translator_ok (remove_slot k (register_id k i t))"
    and "slot_of j (register_id k i t) = slot_of j t" "name_emitted (register_id k i t) = name_emitted t"
    and "tr_tool_calls (register_id k i t) k = None \<Longrightarrow> register_id k i t = t"
    and "j \<noteq> k \<Longrightarrow> tr_tool_calls (register_id k i t) j = tr_tool_calls t j"
  using ok k by (auto simp: register_id_def translator_ok_def split: option.splits if_splits)

lemma translator_okD:
  assumes "translator_ok t"
  shows "tr_tool_calls t (Id c) = Some d \<Longrightarrow> d = c \<and> c \<noteq> []" "name_emitted t (Index i) \<noteq> None \<Longrightarrow> Index i \<in> tr_blank_emitted t"
    "k \<in> tr_blank_emitted t \<Longrightarrow> tr_tool_calls t k = Some []" "slot_of (Index i) t \<noteq> None \<Longrightarrow> tr_tool_calls t (Index i) = Some d \<Longrightarrow> d = []"
    "name_emitted t (Id c) \<noteq> None \<Longrightarrow> tr_tool_calls t (Id c) = Some c"
  using assms unfolding translator_ok_def by blast+

lemma canonicalize_move:
  assumes "call_id \<noteq> []" "tr_tool_calls t (Id call_id) = None \<or> tr_tool_calls t (Id call_id) = Some call_id"
    "name_emitted t (Id call_id) \<noteq> None \<Longrightarrow> tr_tool_calls t (Id call_id) = Some call_id"
  shows "canonicalize (Index i) call_id t = (Id call_id, snd (canonicalize (Index i) call_id t))"
    "tr_tool_calls (snd (canonicalize (Index i) call_id t)) = (tr_tool_calls t)(Id call_id \<mapsto> call_id)"
    "name_emitted (snd (canonicalize (Index i) call_id t)) = name_emitted t"
    "tr_blank_emitted (snd (canonicalize (Index i) call_id t)) = tr_blank_emitted t"
    "tr_finish_reason (snd (canonicalize (Index i) call_id t)) = tr_finish_reason t"
    "j \<noteq> Id call_id \<Longrightarrow> slot_of j (snd (canonicalize (Index i) call_id t)) = (if j = Index i then None else slot_of j t)"
    "slot_of (Id call_id) (snd (canonicalize (Index i) call_id t)) = (case slot_of (Index i) t of None \<Rightarrow> slot_of (Id call_id) t
       | Some old \<Rightarrow> (let slot = (case slot_of (Id call_id) t of Some s \<Rightarrow> s | None \<Rightarrow> pending_new (tr_next_seq t));
                        slot = slot\<lparr>pc_args := pc_args old @ pc_args slot\<rparr>
                    in Some (if pc_name old \<noteq> [] \<and> name_emitted t (Id call_id) \<noteq> None then slot else merge_slot old slot)))"
proof -
  have n: "tr_next_seq (remove_slot (Index i) t) = tr_next_seq t" by (simp add: remove_slot_def)
  show "canonicalize (Index i) call_id t = (Id call_id, snd (canonicalize (Index i) call_id t))"
    "tr_tool_calls (snd (canonicalize (Index i) call_id t)) = (tr_tool_calls t)(Id call_id \<mapsto> call_id)"
    "name_emitted (snd (canonicalize (Index i) call_id t)) = name_emitted t"
    "tr_blank_emitted (snd (canonicalize (Index i) call_id t)) = tr_blank_emitted t"
    "tr_finish_reason (snd (canonicalize (Index i) call_id t)) = tr_finish_reason t"
    "j \<noteq> Id call_id \<Longrightarrow> slot_of j (snd (canonicalize (Index i) call_id t)) = (if j = Index i then None else slot_of j t)"
    using assms by (auto simp: canonicalize_def Let_def fun_upd_idem split: option.splits)
  show "slot_of (Id call_id) (snd (canonicalize (Index i) call_id t)) = (case slot_of (Index i) t of None \<Rightarrow> slot_of (Id call_id) t
       | Some old \<Rightarrow> (let slot = (case slot_of (Id call_id) t of Some s \<Rightarrow> s | None \<Rightarrow> pending_new (tr_next_seq t));
                        slot = slot\<lparr>pc_args := pc_args old @ pc_args slot\<rparr>
                    in Some (if pc_name old \<noteq> [] \<and> name_emitted t (Id call_id) \<noteq> None then slot else merge_slot old slot)))"
    using assms n by (auto simp: canonicalize_def Let_def split: option.splits)
qed

lemma translator_ok_restore:
  assumes "translator_ok (remove_slot k t)" "\<And>i. k = Index i \<Longrightarrow> slot_of k t \<noteq> None \<Longrightarrow> tr_tool_calls t k = None \<or> tr_tool_calls t k = Some []"
  shows "translator_ok t"
proof -
  have "c = []" if "slot_of (Index i) t \<noteq> None" "tr_tool_calls t (Index i) = Some c" for i c
  proof (cases "k = Index i")
    case True
    then show ?thesis using assms(2) that by auto
  next
    case False
    then have "slot_of (Index i) (remove_slot k t) \<noteq> None" using that by auto
    then show ?thesis using assms(1) that(2) unfolding translator_ok_def by (metis other_fields(1))
  qed
  then show ?thesis using assms(1) by (simp add: translator_ok_def)
qed

lemma canonicalize_ok:
  assumes ok: "translator_ok (remove_slot k t)" and k: "tr_tool_calls t k = Some call_id" and run: "canonicalize k call_id t = (k', t')"
  shows "translator_ok t' \<and> tr_tool_calls t' k' = Some call_id \<and> name_emitted t' = name_emitted t
    \<and> (call_id \<noteq> [] \<longrightarrow> k' = Id call_id) \<and> (call_id = [] \<longrightarrow> (\<exists>i. k' = Index i))"
proof -
  have ids: "tr_tool_calls t (Id c) = Some d \<Longrightarrow> d = c \<and> c \<noteq> []" for c d using ok by (auto simp: translator_ok_def)
  consider (blank) "call_id = []" | (same) "k = Id call_id" "call_id \<noteq> []" | (move) i where "k = Index i" "call_id \<noteq> []"
    using ids k by (cases k; cases "call_id = []") force+
  then show ?thesis
  proof cases
    case blank
    then obtain i where i: "k = Index i" using k ids by (cases k) force+
    then have "translator_ok t" using translator_ok_restore [OF ok] k blank by simp
    then show ?thesis using blank k run i by (auto simp: canonicalize_def)
  next
    case same
    then have "translator_ok t" using translator_ok_restore [OF ok] by simp
    then show ?thesis using k run same by (simp add: canonicalize_def)
  next
    case move
    have ok': "slot_of (Index j) t \<noteq> None \<Longrightarrow> j \<noteq> i \<Longrightarrow> tr_tool_calls t (Index j) = Some d \<Longrightarrow> d = []" for j d
      using translator_okD(4) [OF ok, of j d] move(1) by auto
    note K = translator_okD [OF ok, simplified]
    have call: "tr_tool_calls t (Id call_id) = None \<or> tr_tool_calls t (Id call_id) = Some call_id" using ids by (metis not_None_eq)
    have named: "name_emitted t (Id call_id) \<noteq> None \<Longrightarrow> tr_tool_calls t (Id call_id) = Some call_id" using K(5) by blast
    note M = canonicalize_move [OF move(2) call named]
    define t2 where "t2 = snd (canonicalize (Index i) call_id t)"
    have T: "tr_tool_calls t2 = (tr_tool_calls t)(Id call_id \<mapsto> call_id)" "name_emitted t2 = name_emitted t" "tr_blank_emitted t2 = tr_blank_emitted t"
        "slot_of (Index j) t2 = (if j = i then None else slot_of (Index j) t)" for j
      unfolding t2_def using M(2-4) M(6) [of "Index j"] by simp_all
    have "k' = Id call_id" "t' = t2" using run move(1) M(1) [of i] by (simp_all add: t2_def)
    moreover have blank: "Id call_id \<notin> tr_blank_emitted t" using K(3) [of "Id call_id"] call move(2) by auto
    moreover have "translator_ok t2"
      unfolding translator_ok_def T(1-3)
    proof (intro conjI allI ballI impI)
      fix j d
      assume "slot_of (Index j) t2 \<noteq> None" "((tr_tool_calls t)(Id call_id \<mapsto> call_id)) (Index j) = Some d"
      then show "d = []" using ok' [of j d] T(4) [of j] by (auto split: if_splits)
    qed (use K move(2) blank in \<open>auto split: if_splits\<close>)
    ultimately show ?thesis using T move(2) by simp
  qed
qed

lemma drained_simps [simp]:
  "tr_tool_calls (drained k nf af t) = tr_tool_calls t" "tr_blank_emitted (drained k nf af t) = tr_blank_emitted t"
  "tr_finish_reason (drained k nf af t) = tr_finish_reason t" "j \<noteq> k \<Longrightarrow> slot_of j (drained k nf af t) = slot_of j t"
  "name_emitted (drained k nf af t) = (if flushes k nf af t then (name_emitted t)(k \<mapsto> pc_name (grown_slot k nf t)) else name_emitted t)"
  by (auto simp: drained_def Let_def flushes_def fun_eq_iff name_emitted_def map_add_def split: option.splits)

lemma resolved_delta_result:
  fixes k call_id nf af t
  defines "r \<equiv> resolved_delta k call_id nf af t"
  shows "tr_tool_calls (snd r) = tr_tool_calls t" "j \<noteq> k \<Longrightarrow> slot_of j (snd r) = slot_of j t" "tr_finish_reason (snd r) = tr_finish_reason t"
    and "j \<noteq> k \<or> name_emitted t k \<noteq> None \<Longrightarrow> name_emitted (snd r) j = name_emitted t j"
    and "fst r = [] \<and> name_emitted (snd r) k = name_emitted t k
      \<or> (\<exists>args. fst r = [MToolCallDelta call_id (if name_emitted t k = None then name_emitted (snd r) k else None) args])"
    and "tr_blank_emitted (snd r) = (if fst r \<noteq> [] \<and> call_id = [] then insert k (tr_blank_emitted t) else tr_blank_emitted t)"
proof -
  show "tr_tool_calls (snd r) = tr_tool_calls t" "tr_finish_reason (snd r) = tr_finish_reason t" "j \<noteq> k \<Longrightarrow> slot_of j (snd r) = slot_of j t"
    "j \<noteq> k \<or> name_emitted t k \<noteq> None \<Longrightarrow> name_emitted (snd r) j = name_emitted t j"
    "tr_blank_emitted (snd r) = (if fst r \<noteq> [] \<and> call_id = [] then insert k (tr_blank_emitted t) else tr_blank_emitted t)"
    by (auto simp: r_def resolved_delta_def Let_def flushes_def)
  show "fst r = [] \<and> name_emitted (snd r) k = name_emitted t k
      \<or> (\<exists>args. fst r = [MToolCallDelta call_id (if name_emitted t k = None then name_emitted (snd r) k else None) args])"
    by (auto simp: r_def resolved_delta_def Let_def flushes_def)
qed

lemma resolved_delta_ok:
  assumes ok: "translator_ok t" and k: "tr_tool_calls t k = Some call_id" "call_id \<noteq> [] \<Longrightarrow> k = Id call_id" "call_id = [] \<Longrightarrow> \<exists>i. k = Index i"
  shows "steps_ok t (resolved_delta k call_id nf af t)"
proof -
  let ?r = "resolved_delta k call_id nf af t"
  note R = resolved_delta_result [where k = k and call_id = call_id and nf = nf and af = af and t = t]
  have told: "told c t + names c (fst ?r) = told c (snd ?r)" if "c \<noteq> []" for c
  proof (cases "k = Id c")
    case True
    then have "call_id = c" using translator_okD(1) [OF ok] k(1) by blast
    then show ?thesis using R(4) [of k] R(5) True by (cases "name_emitted t k") (auto simp: told_def split: option.splits)
  next
    case False
    then have "call_id \<noteq> c" using k(2) that by auto
    then show ?thesis using R(4) [of "Id c"] R(5) False by (auto simp: told_def split: option.splits)
  qed
  have emitted: "name_emitted (snd ?r) j \<noteq> None \<Longrightarrow> name_emitted t j \<noteq> None \<or> j = k \<and> fst ?r \<noteq> []" for j
    using R(4) [of j] R(5) by (cases "j = k") auto
  have "translator_ok (snd ?r)"
    unfolding translator_ok_def
  proof (intro conjI allI ballI impI)
    fix c d
    assume "tr_tool_calls (snd ?r) (Id c) = Some d"
    then show "d = c" "c \<noteq> []" using ok R(1) by (auto simp: translator_ok_def)
  next
    fix i
    assume "name_emitted (snd ?r) (Index i) \<noteq> None"
    then show "Index i \<in> tr_blank_emitted (snd ?r)" using emitted [of "Index i"] ok R(6) k(2) by (auto simp: translator_ok_def)
  next
    fix j
    assume "j \<in> tr_blank_emitted (snd ?r)"
    then show "tr_tool_calls (snd ?r) j = Some []" using ok R(1,6) k(1) by (auto simp: translator_ok_def split: if_splits)
  next
    fix i c
    assume "slot_of (Index i) (snd ?r) \<noteq> None" "tr_tool_calls (snd ?r) (Index i) = Some c"
    then show "c = []" using ok R(1) R(2) [of "Index i"] k by (cases "k = Index i") (auto simp: translator_ok_def)
  next
    fix c
    assume "name_emitted (snd ?r) (Id c) \<noteq> None"
    then show "tr_tool_calls (snd ?r) (Id c) = Some c" using emitted [of "Id c"] ok R(1) k by (cases "call_id = []") (auto simp: translator_ok_def)
  qed
  then show ?thesis using told by (simp add: steps_ok_def)
qed

lemma handle_tool_call_ok:
  assumes ok: "translator_ok t"
  shows "steps_ok t (handle_tool_call tc pos x t)"
proof (cases "wire_key tc pos x")
  case None
  then show ?thesis using ok by (simp add: handle_tool_call_def steps_ok_refl)
next
  case (Some k)
  have k: "y \<noteq> [] \<and> tk_id tc = Some y" if "k = Id y" for y using Some that by (auto simp: wire_key_def split: option.splits if_splits)
  define t1 where "t1 = register_id k (tk_id tc) t"
  note R = register_id_ok [where k = k and i = "tk_id tc", OF ok k, folded t1_def]
  show ?thesis
  proof (cases "tr_tool_calls t1 k")
    case None
    then have "t1 = t" using R(4) by simp
    have "steps_ok t ([], buffer_fragments k (name_frag tc) (args_frag tc) t)"
      using ok None \<open>t1 = t\<close> by (auto simp: steps_ok_def buffer_fragments_def translator_ok_def told_def Let_def split: option.splits)
    then show ?thesis using Some None \<open>t1 = t\<close> by (simp add: handle_tool_call_def flip: t1_def)
  next
    case (Some call_id)
    obtain k' t2 where c: "canonicalize k call_id t1 = (k', t2)" by force
    note C = canonicalize_ok [OF R(1) Some c]
    have "steps_ok t2 (resolved_delta k' call_id (name_frag tc) (args_frag tc) t2)" using C by (intro resolved_delta_ok) auto
    moreover have "told c t2 = told c t" for c using C R(3) by (simp add: told_def)
    ultimately have "steps_ok t (resolved_delta k' call_id (name_frag tc) (args_frag tc) t2)" by (simp add: steps_ok_def)
    then show ?thesis using \<open>wire_key tc pos x = Some k\<close> Some c by (simp add: handle_tool_call_def flip: t1_def)
  qed
qed

lemma handle_tool_calls_ok: "translator_ok t \<Longrightarrow> steps_ok t (handle_tool_calls tcs pos x t)"
proof (induction tcs arbitrary: pos t)
  case (Cons tc tcs)
  obtain o1 t1 where h: "handle_tool_call tc pos x t = (o1, t1)" by force
  obtain o2 t2 where r: "handle_tool_calls tcs (pos + 1) x t1 = (o2, t2)" by force
  have 1: "steps_ok t (o1, t1)" using handle_tool_call_ok [OF Cons.prems, of tc pos x] h by simp
  then have "steps_ok t1 (o2, t2)" using Cons.IH [of t1 "pos + 1"] r by (simp add: steps_ok_def)
  from steps_ok_then [OF 1 this] show ?case using h r by simp
qed (simp add: steps_ok_refl)

text \<open>A chunk: events that are neither tool calls nor the finish, around the events of its tool calls.\<close>

definition chunk_calls :: "stream_chunk \<Rightarrow> tool_call_chunk list" where
  "chunk_calls chunk =
     (case sc_choices chunk of [] \<Rightarrow> [] | choice # _ \<Rightarrow>
        (case ch_delta choice of None \<Rightarrow> [] | Some d \<Rightarrow> (case de_tool_calls d of None \<Rightarrow> [] | Some tcs \<Rightarrow> tcs)))"

definition chunk_reason :: "stream_chunk \<Rightarrow> string option" where
  "chunk_reason chunk = (case sc_choices chunk of [] \<Rightarrow> None | choice # _ \<Rightarrow> ch_finish_reason choice)"

definition plain_event :: "model_event \<Rightarrow> bool" where
  "plain_event e = (case e of MToolCallDelta _ _ _ \<Rightarrow> False | MFinish _ \<Rightarrow> False | _ \<Rightarrow> True)"

abbreviation calls_of :: "stream_chunk \<Rightarrow> translator \<Rightarrow> model_event list \<times> translator" where
  "calls_of chunk t \<equiv> handle_tool_calls (chunk_calls chunk) 0 (list_ex (\<lambda>tc. tk_index tc \<noteq> None) (chunk_calls chunk)) t"

lemma consume_delta_parts:
  "\<exists>pre. consume_delta d t = (let tcs = (case de_tool_calls d of None \<Rightarrow> [] | Some tcs \<Rightarrow> tcs);
      r = handle_tool_calls tcs 0 (list_ex (\<lambda>tc. tk_index tc \<noteq> None) tcs) t in (pre @ fst r, snd r)) \<and> list_all plain_event pre"
proof -
  define a where "a = (case nonempty (de_content d) of Some s \<Rightarrow> [MTokenDelta s] | None \<Rightarrow> [])"
  define b where "b = (case nonempty (case de_reasoning_content d of Some s \<Rightarrow> Some s | None \<Rightarrow> de_reasoning d) of
    Some s \<Rightarrow> [MReasoningDelta s] | None \<Rightarrow> [])"
  have "list_all plain_event (a @ b)" by (simp add: a_def b_def plain_event_def split: option.split)
  then show ?thesis
    by (intro exI [of _ "a @ b"]) (simp add: consume_delta_def Let_def flip: a_def b_def split: option.split prod.split)
qed

lemma consume_parts:
  "\<exists>pre post. fst (consume chunk t) = pre @ fst (calls_of chunk t) @ post \<and> list_all plain_event pre \<and> list_all plain_event post"
  "snd (consume chunk t) = (case chunk_reason chunk of None \<Rightarrow> snd (calls_of chunk t) | Some r \<Rightarrow> (snd (calls_of chunk t))\<lparr>tr_finish_reason := Some r\<rparr>)"
proof -
  define u where "u = (case sc_usage chunk of None \<Rightarrow> [] | Some u \<Rightarrow> [MUsage (cu_prompt_tokens u) (cu_completion_tokens u)
               (case cu_prompt_details u of Some d \<Rightarrow> d | None \<Rightarrow> None) (case cu_completion_details u of Some d \<Rightarrow> d | None \<Rightarrow> None)])"
  have u: "list_all plain_event u" by (simp add: u_def plain_event_def split: option.split)
  have "\<exists>pre. consume chunk t = (pre @ fst (calls_of chunk t) @ u,
      case chunk_reason chunk of None \<Rightarrow> snd (calls_of chunk t) | Some r \<Rightarrow> (snd (calls_of chunk t))\<lparr>tr_finish_reason := Some r\<rparr>) \<and> list_all plain_event pre"
  proof (cases "\<exists>choice rest d. sc_choices chunk = choice # rest \<and> ch_delta choice = Some d")
    case True
    then obtain choice rest d where c: "sc_choices chunk = choice # rest" "ch_delta choice = Some d" by blast
    with consume_delta_parts [of d t] obtain pre where "consume_delta d t = (pre @ fst (calls_of chunk t), snd (calls_of chunk t))" "list_all plain_event pre"
      by (auto simp: chunk_calls_def Let_def)
    then show ?thesis using c by (intro exI [of _ pre]) (simp add: consume_def chunk_reason_def flip: u_def split: option.split)
  next
    case False
    then have "chunk_calls chunk = []" by (auto simp: chunk_calls_def split: list.split option.split)
    then show ?thesis using False
      by (intro exI [of _ "[]"]) (auto simp: consume_def chunk_reason_def simp flip: u_def split: list.split option.split)
  qed
  then obtain pre where c: "consume chunk t = (pre @ fst (calls_of chunk t) @ u,
      case chunk_reason chunk of None \<Rightarrow> snd (calls_of chunk t) | Some r \<Rightarrow> (snd (calls_of chunk t))\<lparr>tr_finish_reason := Some r\<rparr>)" "list_all plain_event pre"
    by blast
  then show "\<exists>pre post. fst (consume chunk t) = pre @ fst (calls_of chunk t) @ post \<and> list_all plain_event pre \<and> list_all plain_event post"
    using u by (intro exI [of _ pre] exI [of _ u]) simp
  show "snd (consume chunk t) = (case chunk_reason chunk of None \<Rightarrow> snd (calls_of chunk t) | Some r \<Rightarrow> (snd (calls_of chunk t))\<lparr>tr_finish_reason := Some r\<rparr>)"
    by (simp only: c snd_conv)
qed

lemma no_names: "list_all plain_event evs \<Longrightarrow> names c evs = 0"
  by (induction evs) (auto simp: plain_event_def split: model_event.splits)

lemma with_finish_reason [simp]:
  "translator_ok (t\<lparr>tr_finish_reason := r\<rparr>) = translator_ok t" "told c (t\<lparr>tr_finish_reason := r\<rparr>) = told c t"
  by (simp_all add: translator_ok_def told_def)

lemma consume_ok: "translator_ok t \<Longrightarrow> steps_ok t (consume chunk t)"
  using handle_tool_calls_ok [of t "chunk_calls chunk" 0 "list_ex (\<lambda>tc. tk_index tc \<noteq> None) (chunk_calls chunk)"]
    consume_parts [of chunk t]
  by (auto simp: steps_ok_def no_names split: option.splits)

lemma consume_all_ok: "translator_ok t \<Longrightarrow> steps_ok t (consume_all cs t)"
proof (induction cs arbitrary: t)
  case (Cons c cs)
  obtain o1 t1 where h: "consume c t = (o1, t1)" by force
  obtain o2 t2 where r: "consume_all cs t1 = (o2, t2)" by force
  have 1: "steps_ok t (o1, t1)" using consume_ok [OF Cons.prems, of c] h by simp
  then have "steps_ok t1 (o2, t2)" using Cons.IH [of t1] r by (simp add: steps_ok_def)
  from steps_ok_then [OF 1 this] show ?case using h r by simp
qed (simp add: steps_ok_refl)

lemma translator_new_ok: "translator_ok translator_new"
  by (simp add: translator_ok_def translator_new_def name_emitted_def slot_of_def)

section \<open>The flush at the end\<close>

text \<open>
  During the flush: identifier slots still belong to their identifier, no buffered fragment of a call with a real identifier is left under
  an index, and every identifier in the duplicate set has its name emitted.
\<close>

definition flush_ok :: "translator \<Rightarrow> string set \<Rightarrow> bool" where
  "flush_ok t already \<longleftrightarrow>
     (\<forall>c d. tr_tool_calls t (Id c) = Some d \<longrightarrow> d = c \<and> c \<noteq> [])
     \<and> (\<forall>i c. slot_of (Index i) t \<noteq> None \<longrightarrow> tr_tool_calls t (Index i) = Some c \<longrightarrow> c = [])
     \<and> (\<forall>c\<in>already. name_emitted t (Id c) \<noteq> None)"

lemma flush_key:
  assumes "flush_ok t already" "tr_tool_calls t k = Some c" "slot_of k t \<noteq> None" "c \<noteq> []"
  shows "k = Id c"
  using assms by (cases k) (auto simp: flush_ok_def)

text \<open>One step: a slot with a name whose name is not out sends it; every other step changes nothing.\<close>

definition sends :: "key \<Rightarrow> translator \<Rightarrow> string \<Rightarrow> pending_call \<Rightarrow> bool" where
  "sends k t c slot \<longleftrightarrow> name_emitted t k = None \<and> tr_tool_calls t k = Some c \<and> slot_of k t = Some slot \<and> pc_name slot \<noteq> []"

lemma flush_step_sends:
  assumes ok: "flush_ok t already" and s: "sends k t c slot"
  shows "flush_step k (out, already, t) = (out @ [MToolCallDelta c (Some (pc_name slot)) []], if c \<noteq> [] then insert c already else already,
      (set_slot k (slot\<lparr>pc_name := []\<rparr>) t)\<lparr>tr_name_emitted := tr_name_emitted t @ [(k, pc_name slot)]\<rparr>)"
proof -
  have "\<not> (c \<noteq> [] \<and> c \<in> already)" using flush_key [OF ok, of k c] s ok by (auto simp: sends_def flush_ok_def)
  then show ?thesis using s by (auto simp: flush_step_def sends_def)
qed

lemma flush_step_silent: "(\<And>c slot. \<not> sends k t c slot) \<Longrightarrow> flush_step k (out, already, t) = (out, already, t)"
  by (auto simp: flush_step_def sends_def split: option.splits)

definition flushed :: "translator \<Rightarrow> model_event list \<times> string set \<times> translator \<Rightarrow> bool" where
  "flushed t r \<longleftrightarrow> (case r of (out, already, t') \<Rightarrow> flush_ok t' already \<and> tr_tool_calls t' = tr_tool_calls t
     \<and> tr_finish_reason t' = tr_finish_reason t \<and> (\<forall>c. c \<noteq> [] \<longrightarrow> told c t + names c out = told c t')
     \<and> (\<forall>k. name_emitted t k \<noteq> None \<longrightarrow> name_emitted t' k \<noteq> None)
     \<and> (\<forall>k. name_emitted t' k = None \<longrightarrow> slot_of k t' = slot_of k t)
     \<and> (\<forall>k. name_emitted t' k \<noteq> None \<longrightarrow> name_emitted t k \<noteq> None \<or> (\<exists>s. slot_of k t = Some s \<and> pc_name s \<noteq> []))
     \<and> list_all (\<lambda>e. \<exists>c n. e = MToolCallDelta c (Some n) []) out)"

lemma emitted_append: "name_emitted (s\<lparr>tr_name_emitted := tr_name_emitted t @ [(k, n)]\<rparr>) j
   = (case name_emitted t j of Some m \<Rightarrow> Some m | None \<Rightarrow> if j = k then Some n else None)"
  by (simp add: name_emitted_def map_add_def split: option.splits)

lemma flush_step_flushed:
  assumes f: "flushed t r"
  shows "flushed t (flush_step k r)"
    and "tr_tool_calls t k = Some c \<Longrightarrow> slot_of k t = Some slot \<Longrightarrow> pc_name slot \<noteq> [] \<Longrightarrow> name_emitted (snd (snd (flush_step k r))) k \<noteq> None"
    and "name_emitted (snd (snd r)) j \<noteq> None \<Longrightarrow> name_emitted (snd (snd (flush_step k r))) j \<noteq> None"
proof -
  obtain out al t' where r: "r = (out, al, t')" by (cases r)
  have ok: "flush_ok t' al" and tc: "tr_tool_calls t' = tr_tool_calls t" and fr: "tr_finish_reason t' = tr_finish_reason t"
    and told: "\<And>c. c \<noteq> [] \<Longrightarrow> told c t + names c out = told c t'" and slots: "\<And>k. name_emitted t' k = None \<Longrightarrow> slot_of k t' = slot_of k t"
    and keep: "\<And>k. name_emitted t k \<noteq> None \<Longrightarrow> name_emitted t' k \<noteq> None"
    and why: "\<And>k. name_emitted t' k \<noteq> None \<Longrightarrow> name_emitted t k \<noteq> None \<or> (\<exists>s. slot_of k t = Some s \<and> pc_name s \<noteq> [])" and evs: "list_all (\<lambda>e. \<exists>c n. e = MToolCallDelta c (Some n) []) out"
    using f by (simp_all add: r flushed_def)
  have "flushed t (flush_step k r) \<and> (tr_tool_calls t k = Some c \<longrightarrow> slot_of k t = Some slot \<longrightarrow> pc_name slot \<noteq> [] \<longrightarrow> name_emitted (snd (snd (flush_step k r))) k \<noteq> None)
    \<and> (name_emitted (snd (snd r)) j \<noteq> None \<longrightarrow> name_emitted (snd (snd (flush_step k r))) j \<noteq> None)"
  proof (cases "\<exists>d s. sends k t' d s")
    case True
    then obtain d s where s: "sends k t' d s" by blast
    define t2 where "t2 = (set_slot k (s\<lparr>pc_name := []\<rparr>) t')\<lparr>tr_name_emitted := tr_name_emitted t' @ [(k, pc_name s)]\<rparr>"
    have st: "flush_step k r = (out @ [MToolCallDelta d (Some (pc_name s)) []], if d \<noteq> [] then insert d al else al, t2)"
      using flush_step_sends [OF ok s] by (simp add: r t2_def)
    have ne: "name_emitted t2 j = (if j = k then Some (pc_name s) else name_emitted t' j)" for j
      using s by (auto simp: t2_def emitted_append sends_def split: option.splits)
    have t2: "tr_tool_calls t2 = tr_tool_calls t" "tr_finish_reason t2 = tr_finish_reason t" "j \<noteq> k \<Longrightarrow> slot_of j t2 = slot_of j t'"
      "slot_of j t2 \<noteq> None \<Longrightarrow> slot_of j t' \<noteq> None" for j
      using tc fr by (auto simp: t2_def split: if_splits)
    have dk: "d \<noteq> [] \<Longrightarrow> k = Id d" using flush_key [OF ok, of k d] s by (auto simp: sends_def)
    have kd: "k = Id e \<Longrightarrow> d = e" for e using ok s by (auto simp: sends_def flush_ok_def)
    have "flush_ok t2 (if d \<noteq> [] then insert d al else al)"
      unfolding flush_ok_def
    proof (intro conjI allI impI ballI)
      fix i e
      assume "slot_of (Index i) t2 \<noteq> None" "tr_tool_calls t2 (Index i) = Some e"
      then show "e = []" using ok t2(4) [of "Index i"] t2(1) tc unfolding flush_ok_def by metis
    qed (use ok dk ne tc t2 in \<open>auto simp: flush_ok_def split: if_splits\<close>)
    moreover have "told e t + names e (out @ [MToolCallDelta d (Some (pc_name s)) []]) = told e t2" if "e \<noteq> []" for e
    proof (cases "k = Id e")
      case True
      then have "told e t' = 0" "told e t2 = 1" "d = e" using s ne [of "Id e"] kd by (simp_all add: told_def sends_def)
      then show ?thesis using told [OF that] by simp
    next
      case False
      then have "told e t2 = told e t'" "d \<noteq> e" using ne [of "Id e"] dk that by (auto simp: told_def)
      then show ?thesis using told [OF that] by simp
    qed
    moreover have "name_emitted t j \<noteq> None \<longrightarrow> name_emitted t2 j \<noteq> None" "name_emitted t2 j = None \<longrightarrow> slot_of j t2 = slot_of j t" for j
      using keep [of j] slots [of j] ne [of j] t2(3) [of j] by (auto split: if_splits)
    moreover have "name_emitted t2 j \<noteq> None \<longrightarrow> name_emitted t j \<noteq> None \<or> (\<exists>s. slot_of j t = Some s \<and> pc_name s \<noteq> [])" for j
      using why [of j] ne [of j] slots [of k] s by (cases "j = k") (auto simp: sends_def)
    ultimately have "flushed t (flush_step k r)"
      unfolding flushed_def st using evs t2(1,2) by simp
    moreover have "name_emitted (snd (snd (flush_step k r))) k \<noteq> None" using ne [of k] by (simp add: st)
    moreover have "name_emitted (snd (snd r)) j \<noteq> None \<longrightarrow> name_emitted (snd (snd (flush_step k r))) j \<noteq> None"
      using ne [of j] by (simp add: st) (simp add: r)
    ultimately show ?thesis by blast
  next
    case False
    then have st: "flush_step k r = r" using flush_step_silent by (simp add: r)
    have "name_emitted t' k \<noteq> None" if "tr_tool_calls t k = Some c" "slot_of k t = Some slot" "pc_name slot \<noteq> []"
      using False that slots [of k] tc by (auto simp: sends_def)
    then have "tr_tool_calls t k = Some c \<longrightarrow> slot_of k t = Some slot \<longrightarrow> pc_name slot \<noteq> [] \<longrightarrow> name_emitted (snd (snd r)) k \<noteq> None"
      by (simp add: r)
    then show ?thesis using f unfolding st by blast
  qed
  then show "flushed t (flush_step k r)"
    "tr_tool_calls t k = Some c \<Longrightarrow> slot_of k t = Some slot \<Longrightarrow> pc_name slot \<noteq> [] \<Longrightarrow> name_emitted (snd (snd (flush_step k r))) k \<noteq> None"
    "name_emitted (snd (snd r)) j \<noteq> None \<Longrightarrow> name_emitted (snd (snd (flush_step k r))) j \<noteq> None"
    by blast+
qed

lemma flush_fold_keeps:
  "flushed t r \<Longrightarrow> name_emitted (snd (snd r)) k \<noteq> None \<Longrightarrow> name_emitted (snd (snd (fold flush_step ks r))) k \<noteq> None"
proof (induction ks arbitrary: r)
  case (Cons x ks)
  show ?case using Cons.IH [OF flush_step_flushed(1) [OF Cons.prems(1), of x] flush_step_flushed(3) [OF Cons.prems, of x]] by simp
qed simp

lemma flush_fold_flushed: "flushed t r \<Longrightarrow> flushed t (fold flush_step ks r)"
  by (induction ks arbitrary: r) (simp_all add: flush_step_flushed(1))

lemma flush_fold_sends:
  assumes "flushed t r" "k \<in> set ks" "tr_tool_calls t k = Some c" "slot_of k t = Some slot" "pc_name slot \<noteq> []"
  shows "name_emitted (snd (snd (fold flush_step ks r))) k \<noteq> None"
  using assms(1,2)
proof (induction ks arbitrary: r)
  case (Cons x ks)
  note f = flush_step_flushed [OF Cons.prems(1), of x]
  show ?case
  proof (cases "x = k")
    case True
    then have "name_emitted (snd (snd (flush_step x r))) k \<noteq> None" using f(2) [OF assms(3-5) [folded True]] by simp
    then show ?thesis using flush_fold_keeps [OF f(1)] by simp
  next
    case False
    then show ?thesis using Cons.IH [OF f(1)] Cons.prems(2) by simp
  qed
qed simp

lemma already_ok: "translator_ok t \<Longrightarrow> c \<in> already_emitted t \<Longrightarrow> name_emitted t (Id c) \<noteq> None"
proof -
  assume ok: "translator_ok t" and "c \<in> already_emitted t"
  then obtain k n where k: "(k, n) \<in> set (tr_name_emitted t)" "tr_tool_calls t k = Some c" "c \<noteq> []"
    by (auto simp: already_emitted_def map_filter_def split: option.splits)
  then have ne: "name_emitted t k \<noteq> None" by (auto simp: name_emitted_def map_of_eq_None_iff image_iff intro!: bexI [of _ "(k, n)"])
  show ?thesis
  proof (cases k)
    case (Index i)
    then show ?thesis using translator_okD(2,3) [OF ok] ne k by fastforce
  next
    case (Id d)
    then show ?thesis using translator_okD(1) [OF ok] ne k by auto
  qed
qed

lemma flush_buffered_names_ok:
  assumes ok: "translator_ok t" and r: "flush_buffered_names t = (out, t')"
  shows "c \<noteq> [] \<Longrightarrow> told c t + names c out = told c t'" and "tr_finish_reason t' = tr_finish_reason t"
    and "list_all (\<lambda>e. \<exists>c n. e = MToolCallDelta c (Some n) []) out"
    and "tr_tool_calls t (Id c) = Some c \<Longrightarrow> slot_of (Id c) t = Some slot \<Longrightarrow> pc_name slot \<noteq> [] \<Longrightarrow> told c t' = 1"
    and "name_emitted t (Id c) \<noteq> None \<Longrightarrow> told c t' = 1"
    and "tr_tool_calls t' = tr_tool_calls t"
    and "name_emitted t (Id c) = None \<Longrightarrow> (\<And>s. slot_of (Id c) t = Some s \<Longrightarrow> pc_name s = []) \<Longrightarrow> told c t' = 0"
proof -
  have start: "flushed t ([], already_emitted t, t)"
    using ok already_ok [OF ok] translator_okD [OF ok] by (auto simp: flushed_def flush_ok_def)
  obtain al where al: "fold flush_step (pending_keys t) ([], already_emitted t, t) = (out, al, t')"
    using r by (auto simp: flush_buffered_names_def split: prod.splits)
  note F = flush_fold_flushed [OF start, of "pending_keys t", unfolded al]
  show "c \<noteq> [] \<Longrightarrow> told c t + names c out = told c t'" "tr_finish_reason t' = tr_finish_reason t"
    "list_all (\<lambda>e. \<exists>c n. e = MToolCallDelta c (Some n) []) out" "tr_tool_calls t' = tr_tool_calls t"
    "name_emitted t (Id c) \<noteq> None \<Longrightarrow> told c t' = 1"
    "name_emitted t (Id c) = None \<Longrightarrow> (\<And>s. slot_of (Id c) t = Some s \<Longrightarrow> pc_name s = []) \<Longrightarrow> told c t' = 0"
    using F by (auto simp: flushed_def told_def)
  have "k \<in> set (pending_keys t)" if "slot_of k t = Some s" for k s
    using map_of_SomeD [OF that [unfolded slot_of_def]] by (force simp: pending_keys_def)
  then show "told c t' = 1" if "tr_tool_calls t (Id c) = Some c" "slot_of (Id c) t = Some slot" "pc_name slot \<noteq> []"
    using flush_fold_sends [OF start, of "Id c" "pending_keys t" c slot] that al by (auto simp: told_def)
qed

lemma translate_parts:
  obtains evs t out t' where "consume_all cs translator_new = (evs, t)" "flush_buffered_names t = (out, t')"
    "translate cs = evs @ out @ (case tr_finish_reason t of None \<Rightarrow> [] | Some r \<Rightarrow> [MFinish (finish_reason_of r)])" "translator_ok t"
proof -
  obtain evs t where c: "consume_all cs translator_new = (evs, t)" by force
  obtain out t' where f: "flush_buffered_names t = (out, t')" by force
  have ok: "translator_ok t" using consume_all_ok [OF translator_new_ok, of cs] c by (simp add: steps_ok_def)
  have "translate cs = evs @ out @ (case tr_finish_reason t of None \<Rightarrow> [] | Some r \<Rightarrow> [MFinish (finish_reason_of r)])"
    using c f flush_buffered_names_ok(2) [OF ok f] by (simp add: translate_def translator_finish_def split: option.split)
  then show thesis using c f ok that by blast
qed

text \<open>
  Whatever the chunks are, however they mix indexes, identifiers and positions, at most one delta for a non-blank call identifier
  carries a name.
\<close>

theorem names_at_most_once: "c \<noteq> [] \<Longrightarrow> names c (translate cs) \<le> 1"
proof -
  assume c: "c \<noteq> []"
  obtain evs t out t' where p: "consume_all cs translator_new = (evs, t)" "flush_buffered_names t = (out, t')"
    "translate cs = evs @ out @ (case tr_finish_reason t of None \<Rightarrow> [] | Some r \<Rightarrow> [MFinish (finish_reason_of r)])" "translator_ok t"
    by (rule translate_parts)
  have "told c translator_new + names c evs = told c t" using consume_all_ok [OF translator_new_ok, of cs] p(1) c by (simp add: steps_ok_def)
  moreover have "told c t + names c out = told c t'" using flush_buffered_names_ok(1) [OF p(4,2)] c .
  moreover have "told c t' \<le> 1" "told c translator_new = 0" by (simp_all add: told_def translator_new_def name_emitted_def)
  moreover have "names c (case tr_finish_reason t of None \<Rightarrow> [] | Some r \<Rightarrow> [MFinish (finish_reason_of r)]) = 0" by (simp split: option.split)
  ultimately show ?thesis by (simp add: p(3))
qed

theorem names_at_most_once_witness:
  "names ''call_1'' (translate [\<lparr>sc_choices = [\<lparr>ch_index = Some 0, ch_delta = Some \<lparr>de_content = None, de_reasoning_content = None, de_reasoning = None,
     de_tool_calls = Some [\<lparr>tk_index = Some 0, tk_id = Some ''call_1'', tk_function = Some \<lparr>fc_name = Some ''ls'', fc_arguments = Some ''{}''\<rparr>\<rparr>]\<rparr>,
     ch_finish_reason = Some ''tool_calls''\<rparr>], sc_usage = None, sc_error = None\<rparr>]) \<le> 1"
  by (rule names_at_most_once) simp

section \<open>Complete arguments\<close>

definition args_of :: "string \<Rightarrow> model_event list \<Rightarrow> string" where
  "args_of c evs = concat (map (\<lambda>e. case e of MToolCallDelta i _ a \<Rightarrow> if i = c then a else [] | _ \<Rightarrow> []) evs)"

lemma args_of_simps [simp]:
  "args_of c [] = []" "args_of c (xs @ ys) = args_of c xs @ args_of c ys"
  "args_of c (e # es) = (case e of MToolCallDelta i _ a \<Rightarrow> if i = c then a else [] | _ \<Rightarrow> []) @ args_of c es"
  by (simp_all add: args_of_def)

lemma no_args: "list_all plain_event evs \<Longrightarrow> args_of c evs = []"
  by (induction evs) (auto simp: plain_event_def split: model_event.splits)

text \<open>
  What the translator knows of the call with index \<open>i\<close> and identifier \<open>c\<close> after the argument fragments \<open>fr\<close>, having emitted the arguments \<open>ev\<close>;
  \<open>nm\<close> says whether a name fragment came. Before the identifier everything is buffered; after it every argument is out.
\<close>

definition unknown_call :: "u32 \<Rightarrow> string \<Rightarrow> string \<Rightarrow> bool \<Rightarrow> string \<Rightarrow> translator \<Rightarrow> bool" where
  "unknown_call i c fr nm ev t \<longleftrightarrow> tr_tool_calls t (Index i) = None \<and> tr_tool_calls t (Id c) = None \<and> slot_of (Id c) t = None
     \<and> name_emitted t (Id c) = None \<and> ev = []
     \<and> (case slot_of (Index i) t of None \<Rightarrow> fr = [] \<and> \<not> nm | Some s \<Rightarrow> pc_args s = fr \<and> nm = (pc_name s \<noteq> []))"

definition slot_args :: "key \<Rightarrow> translator \<Rightarrow> string" where
  "slot_args k t = (case slot_of k t of None \<Rightarrow> [] | Some s \<Rightarrow> pc_args s)"

definition known_call :: "u32 \<Rightarrow> string \<Rightarrow> bool \<Rightarrow> translator \<Rightarrow> bool" where
  "known_call i c nm t \<longleftrightarrow> tr_tool_calls t (Index i) = Some c \<and> tr_tool_calls t (Id c) = Some c \<and> slot_of (Index i) t = None
     \<and> nm = (name_emitted t (Id c) \<noteq> None \<or> (\<exists>s. slot_of (Id c) t = Some s \<and> pc_name s \<noteq> []))"

definition call_ok :: "u32 \<Rightarrow> string \<Rightarrow> string \<Rightarrow> bool \<Rightarrow> string \<Rightarrow> translator \<Rightarrow> bool" where
  "call_ok i c fr nm ev t \<longleftrightarrow> unknown_call i c fr nm ev t \<or> known_call i c nm t \<and> ev = fr \<and> slot_args (Id c) t = []"

lemma resolved_known:
  assumes "known_call i c nm t" "c \<noteq> []"
  shows "known_call i c (nm \<or> nf \<noteq> []) (snd (resolved_delta (Id c) c nf af t))"
    and "slot_args (Id c) (snd (resolved_delta (Id c) c nf af t)) = []"
    and "args_of c (fst (resolved_delta (Id c) c nf af t)) = slot_args (Id c) t @ af"
proof -
  show "slot_args (Id c) (snd (resolved_delta (Id c) c nf af t)) = []"
    using assms(2) by (simp add: resolved_delta_def drained_def slot_args_def Let_def)
  show "args_of c (fst (resolved_delta (Id c) c nf af t)) = slot_args (Id c) t @ af"
    using assms(2) by (auto simp: resolved_delta_def grown_slot_def slot_args_def Let_def pending_new_def split: option.splits)
  let ?t = "snd (resolved_delta (Id c) c nf af t)"
  have ne: "name_emitted ?t (Id c) = (if flushes (Id c) nf af t then Some (pc_name (grown_slot (Id c) nf t)) else name_emitted t (Id c))"
    using assms(2) by (simp add: resolved_delta_def Let_def)
  have sl: "slot_of (Id c) ?t = (if flushes (Id c) nf af t \<or> pc_name (grown_slot (Id c) nf t) = [] then None else Some ((grown_slot (Id c) nf t)\<lparr>pc_args := []\<rparr>))"
    using assms(2) by (auto simp: resolved_delta_def drained_def Let_def)
  have "(nm \<or> nf \<noteq> []) = (name_emitted t (Id c) \<noteq> None \<or> pc_name (grown_slot (Id c) nf t) \<noteq> [])"
    using assms(1) by (auto simp: known_call_def grown_slot_def Let_def pending_new_def split: option.splits)
  then show "known_call i c (nm \<or> nf \<noteq> []) ?t"
    using assms ne sl resolved_delta_result(1,2) [where k = "Id c" and call_id = c and nf = nf and af = af and t = t] by (auto simp: known_call_def flushes_def)
qed

text \<open>A delta for one call leaves every other call as it is.\<close>

definition same_call :: "u32 \<Rightarrow> string \<Rightarrow> translator \<Rightarrow> translator \<Rightarrow> bool" where
  "same_call j d t t' \<longleftrightarrow> tr_tool_calls t' (Index j) = tr_tool_calls t (Index j) \<and> tr_tool_calls t' (Id d) = tr_tool_calls t (Id d)
     \<and> slot_of (Index j) t' = slot_of (Index j) t \<and> slot_of (Id d) t' = slot_of (Id d) t \<and> name_emitted t' (Id d) = name_emitted t (Id d)"

lemma same_call_refl [simp]: "same_call j d t t" and same_call_trans: "same_call j d t t1 \<Longrightarrow> same_call j d t1 t2 \<Longrightarrow> same_call j d t t2"
  by (simp_all add: same_call_def)

lemma call_ok_same: "same_call j d t t' \<Longrightarrow> call_ok j d fr nm ev t \<Longrightarrow> call_ok j d fr nm ev t'"
  by (simp add: same_call_def call_ok_def unknown_call_def known_call_def slot_args_def)

lemma resolved_other:
  assumes "d \<noteq> c"
  shows "same_call j d t (snd (resolved_delta (Id c) c nf af t))" "args_of d (fst (resolved_delta (Id c) c nf af t)) = []"
  using assms by (auto simp: same_call_def resolved_delta_result) (simp add: resolved_delta_def Let_def)

lemma handle_wired:
  assumes "tk_index tc = Some i" "tk_id tc = None \<or> tk_id tc = Some c" "c \<noteq> []" "call_ok i c fr nm ev t"
  shows "tk_id tc = None \<Longrightarrow> unknown_call i c fr nm ev t \<Longrightarrow>
      handle_tool_call tc pos x t = ([], buffer_fragments (Index i) (name_frag tc) (args_frag tc) t)"
    and "tk_id tc \<noteq> None \<or> \<not> unknown_call i c fr nm ev t \<Longrightarrow> \<exists>t2. handle_tool_call tc pos x t = resolved_delta (Id c) c (name_frag tc) (args_frag tc) t2
      \<and> known_call i c nm t2 \<and> fr = ev @ slot_args (Id c) t2 \<and> (\<forall>j d. j \<noteq> i \<longrightarrow> d \<noteq> c \<longrightarrow> same_call j d t t2)"
proof -
  show "handle_tool_call tc pos x t = ([], buffer_fragments (Index i) (name_frag tc) (args_frag tc) t)"
    if "tk_id tc = None" "unknown_call i c fr nm ev t"
    using assms(1) that by (simp add: handle_tool_call_def wire_key_def register_id_def unknown_call_def)
  have wk: "wire_key tc pos x = Some (Index i)" using assms(1) by (simp add: wire_key_def)
  show "\<exists>t2. handle_tool_call tc pos x t = resolved_delta (Id c) c (name_frag tc) (args_frag tc) t2
      \<and> known_call i c nm t2 \<and> fr = ev @ slot_args (Id c) t2 \<and> (\<forall>j d. j \<noteq> i \<longrightarrow> d \<noteq> c \<longrightarrow> same_call j d t t2)"
    if new: "tk_id tc \<noteq> None \<or> \<not> unknown_call i c fr nm ev t"
  proof (cases "unknown_call i c fr nm ev t")
    case True
    then have id: "tk_id tc = Some c" using new assms(2) by auto
    define t1 where "t1 = t\<lparr>tr_tool_calls := (tr_tool_calls t)(Index i \<mapsto> c)\<rparr>"
    have t1: "register_id (Index i) (tk_id tc) t = t1" "tr_tool_calls t1 (Index i) = Some c" "tr_tool_calls t1 (Id c) = None" "name_emitted t1 = name_emitted t"
      "slot_of j t1 = slot_of j t" "j \<noteq> Index i \<Longrightarrow> tr_tool_calls t1 j = tr_tool_calls t j" for j
      using True id by (simp_all add: t1_def register_id_def unknown_call_def)
    define t2 where "t2 = snd (canonicalize (Index i) c t1)"
    have pre: "tr_tool_calls t1 (Id c) = None \<or> tr_tool_calls t1 (Id c) = Some c" "name_emitted t1 (Id c) \<noteq> None \<Longrightarrow> tr_tool_calls t1 (Id c) = Some c"
      using t1(3,4) True by (simp_all add: unknown_call_def)
    note M = canonicalize_move [OF assms(3) pre]
    have "canonicalize (Index i) c t1 = (Id c, t2)" unfolding t2_def by (rule M(1))
    then have h: "handle_tool_call tc pos x t = resolved_delta (Id c) c (name_frag tc) (args_frag tc) t2"
      by (simp add: handle_tool_call_def wk t1)
    have "slot_of (Id c) t2 = None \<and> slot_of (Index i) t = None
        \<or> (\<exists>old s. slot_of (Index i) t = Some old \<and> slot_of (Id c) t2 = Some s \<and> pc_args s = pc_args old \<and> pc_name s = pc_name old)"
      using M(7) [of i] t1(4,5) True
      by (cases "slot_of (Index i) t") (auto simp: t2_def unknown_call_def merge_slot_def pending_new_def Let_def)
    moreover have "slot_of (Index i) t2 = None" "name_emitted t2 (Id c) = None" "tr_tool_calls t2 (Index i) = Some c" "tr_tool_calls t2 (Id c) = Some c"
      using M(2,3) [of i] M(6) [of "Index i" i] t1(2,4) True by (simp_all add: t2_def unknown_call_def)
    ultimately have "known_call i c nm t2 \<and> fr = ev @ slot_args (Id c) t2"
      using True by (auto simp: known_call_def unknown_call_def slot_args_def)
    moreover have "same_call j d t t2" if "j \<noteq> i" "d \<noteq> c" for j d
      using M(2,3) [of i] M(6) [of "Index j" i] M(6) [of "Id d" i] t1(4-6) that by (simp add: same_call_def t2_def)
    ultimately show ?thesis using h by blast
  next
    case False
    then have k: "known_call i c nm t" "ev = fr" "slot_args (Id c) t = []" using assms(4) by (simp_all add: call_ok_def)
    then have "register_id (Index i) (tk_id tc) t = t" "canonicalize (Index i) c t = (Id c, t)"
      using assms(3) by (auto simp: known_call_def register_id_def canonicalize_def split: option.split)
    then show ?thesis using k by (intro exI [of _ t]) (simp add: handle_tool_call_def wk known_call_def)
  qed
qed

lemma handle_tool_call_call:
  assumes tc: "tk_index tc = Some i" "tk_id tc = None \<or> tk_id tc = Some c" "c \<noteq> []" and ok: "call_ok i c fr nm ev t"
    and run: "handle_tool_call tc pos x t = (evs, t')"
  shows "call_ok i c (fr @ args_frag tc) (nm \<or> name_frag tc \<noteq> []) (ev @ args_of c evs) t'"
    and "tk_id tc \<noteq> None \<or> tr_tool_calls t (Index i) \<noteq> None \<Longrightarrow> tr_tool_calls t' (Index i) = Some c"
    and "j \<noteq> i \<Longrightarrow> d \<noteq> c \<Longrightarrow> same_call j d t t' \<and> args_of d evs = []"
proof -
  consider (wait) "tk_id tc = None" "unknown_call i c fr nm ev t" | (id) "tk_id tc \<noteq> None \<or> \<not> unknown_call i c fr nm ev t" by blast
  then have "call_ok i c (fr @ args_frag tc) (nm \<or> name_frag tc \<noteq> []) (ev @ args_of c evs) t'
    \<and> (tk_id tc \<noteq> None \<or> tr_tool_calls t (Index i) \<noteq> None \<longrightarrow> tr_tool_calls t' (Index i) = Some c)
    \<and> (j \<noteq> i \<longrightarrow> d \<noteq> c \<longrightarrow> same_call j d t t' \<and> args_of d evs = [])"
  proof cases
    case wait
    then have r: "evs = []" "t' = buffer_fragments (Index i) (name_frag tc) (args_frag tc) t" using handle_wired(1) [OF tc ok wait, of pos x] run by simp_all
    have "unknown_call i c (fr @ args_frag tc) (nm \<or> name_frag tc \<noteq> []) ev t'"
      using wait(2) by (auto simp: r unknown_call_def buffer_fragments_def pending_new_def Let_def split: option.splits)
    moreover have "same_call j d t t'" if "j \<noteq> i" for j d
      using that by (simp add: r same_call_def buffer_fragments_def Let_def split: option.split)
    ultimately show ?thesis using wait by (simp add: r call_ok_def unknown_call_def)
  next
    case id
    from handle_wired(2) [OF tc ok id, of pos x] obtain t2 where t2: "handle_tool_call tc pos x t = resolved_delta (Id c) c (name_frag tc) (args_frag tc) t2"
      "known_call i c nm t2" "fr = ev @ slot_args (Id c) t2" "\<And>j d. j \<noteq> i \<Longrightarrow> d \<noteq> c \<Longrightarrow> same_call j d t t2"
      by blast
    have r: "evs = fst (resolved_delta (Id c) c (name_frag tc) (args_frag tc) t2)" "t' = snd (resolved_delta (Id c) c (name_frag tc) (args_frag tc) t2)"
      using run by (simp_all flip: t2(1))
    note K = resolved_known [OF t2(2) tc(3), of "name_frag tc" "args_frag tc", folded r]
    have "same_call j d t t' \<and> args_of d evs = []" if "j \<noteq> i" "d \<noteq> c"
      using same_call_trans [OF t2(4) [OF that]] resolved_other [OF that(2)] by (simp add: r)
    then show ?thesis using K t2(3) by (simp add: call_ok_def) (simp add: known_call_def)
  qed
  then show "call_ok i c (fr @ args_frag tc) (nm \<or> name_frag tc \<noteq> []) (ev @ args_of c evs) t'"
    "tk_id tc \<noteq> None \<or> tr_tool_calls t (Index i) \<noteq> None \<Longrightarrow> tr_tool_calls t' (Index i) = Some c"
    "j \<noteq> i \<Longrightarrow> d \<noteq> c \<Longrightarrow> same_call j d t t' \<and> args_of d evs = []"
    by blast+
qed

text \<open>A conformant stream: every tool-call delta has its index, and an identifier, when present, is the one of that index.\<close>

definition conformant :: "(u32 \<Rightarrow> string) \<Rightarrow> tool_call_chunk list \<Rightarrow> bool" where
  "conformant ident tcs \<longleftrightarrow> list_all (\<lambda>tc. case tk_index tc of None \<Rightarrow> False
     | Some i \<Rightarrow> ident i \<noteq> [] \<and> (tk_id tc = None \<or> tk_id tc = Some (ident i))) tcs"

definition fragments :: "u32 \<Rightarrow> tool_call_chunk list \<Rightarrow> string" where
  "fragments i tcs = concat (map args_frag (filter (\<lambda>tc. tk_index tc = Some i) tcs))"

definition named :: "u32 \<Rightarrow> tool_call_chunk list \<Rightarrow> bool" where
  "named i tcs \<longleftrightarrow> list_ex (\<lambda>tc. tk_index tc = Some i \<and> name_frag tc \<noteq> []) tcs"

definition identified :: "u32 \<Rightarrow> tool_call_chunk list \<Rightarrow> bool" where
  "identified i tcs \<longleftrightarrow> list_ex (\<lambda>tc. tk_index tc = Some i \<and> tk_id tc \<noteq> None) tcs"

lemma call_okD: "call_ok i c fr nm ev t \<Longrightarrow> tr_tool_calls t (Index i) \<noteq> None \<Longrightarrow> known_call i c nm t \<and> ev = fr"
  by (auto simp: call_ok_def unknown_call_def)

lemma handle_tool_calls_call:
  assumes "inj ident" "conformant ident tcs" "\<And>i. call_ok i (ident i) (fr i) (nm i) (ev i) t" "handle_tool_calls tcs pos x t = (evs, t')"
  shows "call_ok i (ident i) (fr i @ fragments i tcs) (nm i \<or> named i tcs) (ev i @ args_of (ident i) evs) t'
    \<and> (identified i tcs \<or> tr_tool_calls t (Index i) \<noteq> None \<longrightarrow> tr_tool_calls t' (Index i) \<noteq> None)"
  using assms(2-4)
proof (induction tcs arbitrary: pos t fr nm ev evs)
  case Nil
  then show ?case by (simp add: fragments_def named_def identified_def)
next
  case (Cons tc tcs)
  obtain k where k: "tk_index tc = Some k" "tk_id tc = None \<or> tk_id tc = Some (ident k)" "ident k \<noteq> []" and rest: "conformant ident tcs"
    using Cons.prems(1) by (auto simp: conformant_def split: option.splits)
  obtain o1 t1 where h: "handle_tool_call tc pos x t = (o1, t1)" by force
  obtain o2 t2 where r: "handle_tool_calls tcs (pos + 1) x t1 = (o2, t2)" by force
  have out: "evs = o1 @ o2" "t' = t2" using Cons.prems(3) h r by simp_all
  note H = handle_tool_call_call [OF k Cons.prems(2) h]
  have other: "same_call j (ident j) t t1 \<and> args_of (ident j) o1 = []" if "j \<noteq> k" for j
    using H(3) that assms(1) by (simp add: inj_eq)
  define one where "one j = (if j = k then args_frag tc else [])" for j
  have ok1: "call_ok j (ident j) (fr j @ one j) (nm j \<or> j = k \<and> name_frag tc \<noteq> []) (ev j @ args_of (ident j) o1) t1" for j
    using H(1) other [of j] call_ok_same [OF _ Cons.prems(2) [of j]] by (cases "j = k") (simp_all add: one_def)
  have "tk_id tc \<noteq> None \<and> i = k \<or> tr_tool_calls t (Index i) \<noteq> None \<Longrightarrow> tr_tool_calls t1 (Index i) \<noteq> None"
    using H(2) other [of i] by (cases "i = k") (auto simp: same_call_def)
  with Cons.IH [OF rest ok1 r [folded out(2)], of ] show ?case
    using k(1) by (auto simp: out one_def fragments_def named_def identified_def)
qed

definition all_calls :: "stream_chunk list \<Rightarrow> tool_call_chunk list" where
  "all_calls cs = concat (map chunk_calls cs)"

lemma call_ok_reason [simp]: "call_ok i c fr nm ev (t\<lparr>tr_finish_reason := r\<rparr>) = call_ok i c fr nm ev t"
  by (simp add: call_ok_def unknown_call_def known_call_def slot_args_def)

lemma consume_all_call:
  assumes "inj ident" "conformant ident (all_calls cs)" "\<And>i. call_ok i (ident i) (fr i) (nm i) (ev i) t" "consume_all cs t = (evs, t')"
  shows "call_ok i (ident i) (fr i @ fragments i (all_calls cs)) (nm i \<or> named i (all_calls cs)) (ev i @ args_of (ident i) evs) t'
    \<and> (identified i (all_calls cs) \<or> tr_tool_calls t (Index i) \<noteq> None \<longrightarrow> tr_tool_calls t' (Index i) \<noteq> None)"
  using assms(2-4)
proof (induction cs arbitrary: t fr nm ev evs)
  case Nil
  then show ?case by (simp add: all_calls_def fragments_def named_def identified_def)
next
  case (Cons c cs)
  let ?tcs = "chunk_calls c"
  have conf: "conformant ident ?tcs" "conformant ident (all_calls cs)"
    using Cons.prems(1) by (simp_all add: all_calls_def conformant_def)
  obtain o1 t1 where h: "consume c t = (o1, t1)" by force
  obtain o2 t2 where r: "consume_all cs t1 = (o2, t2)" by force
  have out: "evs = o1 @ o2" "t' = t2" using Cons.prems(3) h r by simp_all
  obtain oc tc where hc: "calls_of c t = (oc, tc)" by force
  note H = handle_tool_calls_call [OF assms(1) conf(1) Cons.prems(2) hc]
  have o1: "args_of d o1 = args_of d oc" for d using consume_parts(1) [of c t] unfolding h hc fst_conv by (auto simp: no_args)
  have t1: "tr_tool_calls t1 = tr_tool_calls tc" "call_ok j d f n e tc = call_ok j d f n e t1" for j d f n e
    using consume_parts(2) [of c t] unfolding h hc snd_conv by (simp_all split: option.splits)
  have ok1: "call_ok j (ident j) (fr j @ fragments j ?tcs) (nm j \<or> named j ?tcs) (ev j @ args_of (ident j) o1) t1" for j
    using H [of j] by (simp add: t1 o1)
  show ?case
    using Cons.IH [OF conf(2) ok1 r [folded out(2)]] H [of i]
    by (auto simp: out o1 t1 all_calls_def fragments_def named_def identified_def)
qed

text \<open>
  C36. For a conformant stream, whatever way the deltas of parallel calls are interleaved and however late an identifier comes: the arguments
  emitted for a call whose identifier came are exactly its fragments, in order, and its name is emitted exactly once when a name fragment came.
\<close>

theorem tool_calls_complete:
  assumes "inj ident" "conformant ident (all_calls cs)" "identified i (all_calls cs)" "ident i \<noteq> []"
  shows "args_of (ident i) (translate cs) = fragments i (all_calls cs)
    \<and> names (ident i) (translate cs) = (if named i (all_calls cs) then 1 else 0)"
proof -
  let ?c = "ident i"
  obtain evs t out t' where p: "consume_all cs translator_new = (evs, t)" "flush_buffered_names t = (out, t')"
    "translate cs = evs @ out @ (case tr_finish_reason t of None \<Rightarrow> [] | Some r \<Rightarrow> [MFinish (finish_reason_of r)])" "translator_ok t"
    by (rule translate_parts)
  have "call_ok j (ident j) [] False [] translator_new" for j
    by (simp add: call_ok_def unknown_call_def translator_new_def slot_of_def name_emitted_def)
  from consume_all_call [OF assms(1,2) this p(1), of i] assms(3)
  have k: "known_call i ?c (named i (all_calls cs)) t" "args_of ?c evs = fragments i (all_calls cs)"
    using call_okD by fastforce+
  note F = flush_buffered_names_ok [OF p(4,2)]
  have out: "args_of d out = []" for d
    using F(3) by (induction out) auto
  then have args: "args_of ?c (translate cs) = fragments i (all_calls cs)" by (simp add: p(3) k(2) split: option.split)
  have "told ?c translator_new + names ?c evs = told ?c t" using consume_all_ok [OF translator_new_ok, of cs] p(1) assms(4) by (simp add: steps_ok_def)
  moreover have "told ?c translator_new = 0" by (simp add: told_def translator_new_def name_emitted_def)
  ultimately have n: "names ?c (evs @ out) = told ?c t'" using F(1) [OF assms(4)] by simp
  have "told ?c t' = (if named i (all_calls cs) then 1 else 0)"
  proof (cases "named i (all_calls cs)")
    case True
    then show ?thesis using k(1) F(4) [of ?c] F(5) [of ?c] by (auto simp: known_call_def)
  next
    case False
    then show ?thesis using k(1) F(7) [of ?c] by (auto simp: known_call_def)
  qed
  then have "names ?c (translate cs) = (if named i (all_calls cs) then 1 else 0)" using n by (auto simp: p(3) split: option.split if_splits)
  then show ?thesis using args by simp
qed

definition demo_chunk :: "tool_call_chunk list \<Rightarrow> string option \<Rightarrow> stream_chunk" where
  "demo_chunk tcs r = \<lparr>sc_choices = [\<lparr>ch_index = Some 0, ch_delta = Some \<lparr>de_content = None, de_reasoning_content = None, de_reasoning = None,
     de_tool_calls = Some tcs\<rparr>, ch_finish_reason = r\<rparr>], sc_usage = None, sc_error = None\<rparr>"

definition demo_delta :: "u32 \<Rightarrow> string option \<Rightarrow> string option \<Rightarrow> string \<Rightarrow> tool_call_chunk" where
  "demo_delta i c n a = \<lparr>tk_index = Some i, tk_id = c, tk_function = Some \<lparr>fc_name = n, fc_arguments = Some a\<rparr>\<rparr>"

definition demo_ident :: "u32 \<Rightarrow> string" where
  "demo_ident i = ''c'' @ replicate (unat i) CHR ''x''"

definition demo_stream :: "stream_chunk list" where
  "demo_stream = [demo_chunk [demo_delta 1 None (Some ''ls'') ''{''] None, demo_chunk [demo_delta 0 (Some ''c'') (Some ''cat'') ''{}''] None,
     demo_chunk [demo_delta 1 (Some ''cx'') None ''}''] (Some ''tool_calls'')]"

theorem tool_calls_complete_witness:
  "args_of ''cx'' (translate demo_stream) = ''{}'' \<and> names ''cx'' (translate demo_stream) = 1"
proof -
  have "inj demo_ident" by (rule injI) (auto simp: demo_ident_def unsigned_word_eqI)
  moreover have "demo_ident 1 = ''cx''" "demo_ident 0 = ''c''" by (simp_all add: demo_ident_def)
  ultimately show ?thesis
    using tool_calls_complete [of demo_ident demo_stream 1]
    by (simp add: demo_stream_def all_calls_def chunk_calls_def demo_chunk_def demo_delta_def conformant_def identified_def
        fragments_def named_def args_frag_def name_frag_def)
qed

section \<open>The finish event\<close>

definition unfinished :: "model_event \<Rightarrow> bool" where
  "unfinished e = (case e of MFinish _ \<Rightarrow> False | _ \<Rightarrow> True)"

lemma handle_tool_calls_fields:
  "tr_finish_reason (snd (handle_tool_calls tcs pos x t)) = tr_finish_reason t \<and> list_all unfinished (fst (handle_tool_calls tcs pos x t))"
proof (induction tcs arbitrary: pos t)
  case (Cons tc tcs)
  have reg: "tr_finish_reason (register_id k i t) = tr_finish_reason t" for k i by (simp add: register_id_def split: option.split)
  have can: "tr_finish_reason (snd (canonicalize k c s)) = tr_finish_reason s" for k c s
    by (simp add: canonicalize_def Let_def split: option.split)
  have buf: "tr_finish_reason (buffer_fragments k n a t) = tr_finish_reason t" for k n a
    by (simp add: buffer_fragments_def Let_def split: option.split)
  have res: "tr_finish_reason (snd (resolved_delta k c n a s)) = tr_finish_reason s" "list_all unfinished (fst (resolved_delta k c n a s))" for k c n a s
    by (simp_all add: resolved_delta_def Let_def unfinished_def)
  have "tr_finish_reason (snd (handle_tool_call tc pos x t)) = tr_finish_reason t \<and> list_all unfinished (fst (handle_tool_call tc pos x t))"
  proof (cases "wire_key tc pos x")
    case (Some k)
    define s where "s = register_id k (tk_id tc) t"
    show ?thesis
    proof (cases "tr_tool_calls s k")
      case None
      then show ?thesis using Some reg [of k "tk_id tc"] by (simp add: handle_tool_call_def s_def [symmetric]) (simp add: buffer_fragments_def Let_def split: option.split)
    next
      case (Some c)
      then show ?thesis using \<open>wire_key tc pos x = Some k\<close> res can [of k c s] reg [of k "tk_id tc"]
        by (auto simp: handle_tool_call_def s_def [symmetric] split: prod.split)
    qed
  qed (simp add: handle_tool_call_def)
  then show ?case
    using Cons.IH [where pos = "pos + 1" and t = "snd (handle_tool_call tc pos x t)"] by (auto split: prod.split)
qed simp

fun last_reason :: "stream_chunk list \<Rightarrow> string option" where
  "last_reason [] = None"
| "last_reason (c # cs) = (case last_reason cs of Some r \<Rightarrow> Some r | None \<Rightarrow> chunk_reason c)"

lemma consume_all_reason:
  "consume_all cs t = (evs, t') \<Longrightarrow> list_all unfinished evs
    \<and> tr_finish_reason t' = (case last_reason cs of Some r \<Rightarrow> Some r | None \<Rightarrow> tr_finish_reason t)"
proof (induction cs arbitrary: t evs t')
  case (Cons c cs)
  obtain o1 t1 where h: "consume c t = (o1, t1)" by force
  obtain o2 t2 where r: "consume_all cs t1 = (o2, t2)" by force
  have pl: "list_all plain_event xs \<Longrightarrow> list_all unfinished xs" for xs
    by (induction xs) (auto simp: plain_event_def unfinished_def split: model_event.splits)
  have "list_all unfinished o1"
    using consume_parts(1) [of c t] handle_tool_calls_fields pl unfolding h fst_conv by auto
  moreover have "tr_finish_reason t1 = (case chunk_reason c of Some r \<Rightarrow> Some r | None \<Rightarrow> tr_finish_reason t)"
    using consume_parts(2) [of c t] handle_tool_calls_fields unfolding h snd_conv by (simp split: option.split)
  ultimately show ?case using Cons.prems h r Cons.IH [OF r] by (auto split: option.splits)
qed simp

text \<open>
  The translation ends with a finish event exactly when some chunk carried a finish reason, and then with the last reason seen; no other
  event is a finish event, so the consumer sees usage and flushed names before it.
\<close>

theorem finish_last:
  "\<exists>evs. translate cs = evs @ (case last_reason cs of None \<Rightarrow> [] | Some r \<Rightarrow> [MFinish (finish_reason_of r)]) \<and> list_all unfinished evs"
proof -
  obtain evs t out t' where p: "consume_all cs translator_new = (evs, t)" "flush_buffered_names t = (out, t')"
    "translate cs = evs @ out @ (case tr_finish_reason t of None \<Rightarrow> [] | Some r \<Rightarrow> [MFinish (finish_reason_of r)])" "translator_ok t"
    by (rule translate_parts)
  have "list_all unfinished evs" "tr_finish_reason t = last_reason cs"
    using consume_all_reason [OF p(1)] by (simp_all add: translator_new_def split: option.splits)
  moreover have "list_all unfinished out" using flush_buffered_names_ok(3) [OF p(4,2)] by (induction out) (auto simp: unfinished_def)
  ultimately show ?thesis using p(3) by (intro exI [of _ "evs @ out"]) simp
qed

end
