(* ===== verification/Litellm_Model.thy ===== *)
theory Litellm_Model
  imports Litellm_Stream
begin

text \<open>
  The LiteLLM model (\<open>model.rs\<close> and \<open>error.rs\<close> of \<open>providers-litellm\<close>): the request headers, the decision between an
  error reply and an event stream, the loop over server-sent events, and the classification of errors. The HTTP client, the event-stream
  decoder and \<open>serde_json\<close> are parameters. Shown are that a stream of chunks is delivered as its translation, that an error is
  the last item and never follows a finish event, that a caller's header replaces the provider's, and which replies are transient.
\<close>

type_synonym u16 = "16 word"

section \<open>Errors\<close>

definition normalise_type :: "string option \<Rightarrow> string option" where
  "normalise_type raw = (case raw of None \<Rightarrow> None
     | Some t \<Rightarrow> if t \<noteq> [] \<and> t \<noteq> ''None'' \<and> t \<noteq> ''null'' then Some t else None)"

definition is_context_overflow :: "string \<Rightarrow> bool \<Rightarrow> bool" where
  "is_context_overflow message is_parsed_error_message =
     (if contains_str ''ContextWindowExceededError'' message then True
      else if \<not> is_parsed_error_message then False
      else (let lc = to_ascii_lowercase message
            in contains_str ''context_window_exceeded'' lc \<or> contains_str ''context_length_exceeded'' lc
               \<or> (contains_str ''maximum context length'' lc \<or> contains_str ''context window'' lc)))"

definition is_budget_exhaustion :: "string option \<Rightarrow> string \<Rightarrow> bool" where
  "is_budget_exhaustion err_type message =
     (let t = to_ascii_lowercase (case err_type of Some x \<Rightarrow> x | None \<Rightarrow> [])
      in if contains_str ''budget'' t then True
         else (let lc = to_ascii_lowercase message
               in contains_str ''budgetexceeded'' lc \<or> contains_str ''budget has been exceeded'' lc))"

definition classify :: "u16 \<Rightarrow> string option \<Rightarrow> string option \<Rightarrow> string \<Rightarrow> bool \<Rightarrow> u64 option \<Rightarrow> model_error" where
  "classify status code err_type message is_parsed_error_message retry_after_ms =
     (let err_type = normalise_type err_type
      in if is_context_overflow message is_parsed_error_message then ContextLengthExceeded
         else if status = 429 \<and> is_budget_exhaustion err_type message then Refused message
         else if status = 429 then RateLimited retry_after_ms
         else if status = 500 \<or> status = 502 \<or> status = 503 \<or> status = 504 then Unavailable
         else if status = 401 \<or> status = 403 then Refused message
         else if err_type = Some ''content_policy_violation'' \<or> err_type = Some ''no_db_connection'' then Refused message
         else ModelOther (''litellm http '' @ show_nat (unat status)
           @ (case code of Some c \<Rightarrow> '' (code '' @ c @ '')'' | None \<Rightarrow> []) @ '': '' @ message))"

text \<open>\<open>str::parse::<u64>\<close>: an optional plus sign and at least one digit, within the range.\<close>

definition parse_u64 :: "string \<Rightarrow> u64 option" where
  "parse_u64 s =
     (let d = (case s of [] \<Rightarrow> [] | c # r \<Rightarrow> if c = CHR ''+'' then r else s)
      in if d \<noteq> [] \<and> list_all is_ascii_digit d \<and> digits_value d < 2 ^ 64 then Some (of_nat (digits_value d)) else None)"

definition u64_saturating_mul :: "u64 \<Rightarrow> u64 \<Rightarrow> u64" where
  "u64_saturating_mul a b = (if unat a * unat b < 2 ^ 64 then a * b else - 1)"

text \<open>The argument is the header's value when it is present and visible ASCII (\<open>to_str\<close>).\<close>

definition parse_retry_after_ms :: "string option \<Rightarrow> u64 option" where
  "parse_retry_after_ms h = (case h of None \<Rightarrow> None | Some v \<Rightarrow> map_option (\<lambda>s. u64_saturating_mul s 1000) (parse_u64 (trim v)))"

definition MAX_FALLBACK_BODY_BYTES :: nat where "MAX_FALLBACK_BODY_BYTES = 512"

definition truncated_body :: "(string \<Rightarrow> string) \<Rightarrow> string \<Rightarrow> string" where
  "truncated_body from_utf8_lossy bytes =
     (if length bytes \<le> MAX_FALLBACK_BODY_BYTES then from_utf8_lossy bytes
      else from_utf8_lossy (take MAX_FALLBACK_BODY_BYTES bytes) @ ''... [truncated, '' @ show_nat (length bytes) @ '' bytes total]'')"

text \<open>The parameters: \<open>serde_json::from_slice\<close>, lossy decoding of bytes, and \<open>serde_json::from_str\<close> into a chunk.\<close>

record litellm_ext =
  lx_from_slice :: "string \<Rightarrow> json option"
  lx_lossy :: "string \<Rightarrow> string"
  lx_chunk :: "string \<Rightarrow> stream_chunk option"

definition error_from_body :: "litellm_ext \<Rightarrow> u16 \<Rightarrow> string \<Rightarrow> u64 option \<Rightarrow> string \<Rightarrow> string \<Rightarrow> model_error" where
  "error_from_body X status bytes retry_after_ms call_id content_type =
     (let error_obj = Option.bind (lx_from_slice X bytes) (json_get ''error'');
          is_parsed_error_message = (error_obj \<noteq> None);
          fields = (case error_obj of
              Some e \<Rightarrow> (json_str_field ''code'' e, json_str_field ''type'' e,
                case json_str_field ''message'' e of Some m \<Rightarrow> m | None \<Rightarrow> [])
            | None \<Rightarrow> (let ct = (if content_type = [] then ''none'' else content_type)
                in (None, None, truncated_body (lx_lossy X) bytes @ '' (content-type: '' @ ct @ '')'')))
      in case fields of (code, err_type, message) \<Rightarrow>
           (let message = (if call_id = [] then message else message @ '' (x-litellm-call-id: '' @ call_id @ '')'')
            in classify status code err_type message is_parsed_error_message retry_after_ms))"

section \<open>Headers\<close>

text \<open>
  A header map with the replacing \<open>insert\<close>. Turning a name into a header name (lower case) and checking a value, which
  is refused with a message or accepted, are the \<open>http\<close> crate's.
\<close>

record header_ext =
  hx_name :: "string \<Rightarrow> string option"
  hx_invalid :: "string \<Rightarrow> string option"

record litellm_config =
  lc_auth :: "string option"
  lc_num_retries :: "8 word option"
  lc_headers :: "(string \<times> string) list"

type_synonym header_map = "(string \<times> string) list"

definition header_insert :: "string \<Rightarrow> string \<Rightarrow> header_map \<Rightarrow> header_map" where
  "header_insert n v h = filter (\<lambda>(m, _). m \<noteq> n) h @ [(n, v)]"

definition insert_caller :: "header_ext \<Rightarrow> string \<times> string \<Rightarrow> header_map \<Rightarrow> header_map" where
  "insert_caller H nv h = (case nv of (name, v) \<Rightarrow>
     (case hx_name H name of Some n \<Rightarrow> if hx_invalid H v = None then header_insert n v h else h | None \<Rightarrow> h))"

definition build_headers :: "header_ext \<Rightarrow> litellm_config \<Rightarrow> string + header_map" where
  "build_headers H cfg =
     (let h = header_insert ''accept'' ''text/event-stream'' (header_insert ''content-type'' ''application/json'' [])
      in case (case lc_auth cfg of
                 None \<Rightarrow> Ok h
               | Some key \<Rightarrow> (case hx_invalid H (''Bearer '' @ key) of
                     None \<Rightarrow> Ok (header_insert ''authorization'' (''Bearer '' @ key) h)
                   | Some e \<Rightarrow> Err (''the configured api key could not be converted into a valid Authorization header value ('' @ e
                       @ ''); refusing to send the request unauthenticated''))) of
           Inl e \<Rightarrow> Err e
         | Inr h \<Rightarrow>
             (let h = (case lc_num_retries cfg of None \<Rightarrow> h | Some n \<Rightarrow> header_insert ''x-litellm-num-retries'' (show_nat (unat n)) h)
              in Ok (fold (insert_caller H) (lc_headers cfg) h)))"

section \<open>The invocation\<close>

text \<open>A reply: the events are the decoded stream, a transport failure or the data of one event.\<close>

record http_response =
  hr_status :: u16
  hr_retry_after :: "string option"
  hr_call_id :: string
  hr_content_type :: string
  hr_body :: string
  hr_events :: "(string + string) list"

text \<open>\<open>cancel n\<close> says whether cancellation wins the \<open>n\<close>-th wait; the first wait is the one for the reply.\<close>

fun sse_loop :: "litellm_ext \<Rightarrow> http_response \<Rightarrow> (nat \<Rightarrow> bool) \<Rightarrow> nat \<Rightarrow> (string + string) list \<Rightarrow> translator \<Rightarrow> (model_error + model_event) list" where
  "sse_loop X r cancel n [] t = (if cancel n then [] else map Inr (fst (translator_finish t)))"
| "sse_loop X r cancel n (Inl e # evs) t = (if cancel n then [] else [Inl (Transport e)])"
| "sse_loop X r cancel n (Inr data # evs) t =
     (if cancel n then []
      else if data = ''[DONE]'' then map Inr (fst (translator_finish t))
      else (case lx_chunk X data of
              None \<Rightarrow> sse_loop X r cancel (n + 1) evs t
            | Some chunk \<Rightarrow>
                (if (case sc_error chunk of Some e \<Rightarrow> e \<noteq> JNull | None \<Rightarrow> False)
                 then [Inl (error_from_body X 500 data None (hr_call_id r) (hr_content_type r))]
                 else (case consume chunk t of (out, t) \<Rightarrow> map Inr out @ sse_loop X r cancel (n + 1) evs t))))"

definition is_event_stream :: "http_response \<Rightarrow> bool" where
  "is_event_stream r = starts_with ''text/event-stream'' (hr_content_type r)"

definition is_success :: "u16 \<Rightarrow> bool" where
  "is_success s = (200 \<le> unat s \<and> unat s < 300)"

definition litellm_stream :: "litellm_ext \<Rightarrow> (nat \<Rightarrow> bool) \<Rightarrow> string + http_response \<Rightarrow> (model_error + model_event) list" where
  "litellm_stream X cancel reply =
     (if cancel 0 then []
      else (case reply of
              Inl e \<Rightarrow> [Inl (Transport e)]
            | Inr r \<Rightarrow>
                (if \<not> is_success (hr_status r) \<or> \<not> is_event_stream r
                 then [Inl (error_from_body X (hr_status r) (hr_body r) (parse_retry_after_ms (hr_retry_after r)) (hr_call_id r) (hr_content_type r))]
                 else sse_loop X r cancel 1 (hr_events r) translator_new)))"

text \<open>\<open>Model::invoke\<close>: a header that cannot be built fails before anything is sent.\<close>

definition litellm_invoke :: "litellm_ext \<Rightarrow> header_ext \<Rightarrow> litellm_config \<Rightarrow> (nat \<Rightarrow> bool) \<Rightarrow> (header_map \<Rightarrow> string + http_response)
    \<Rightarrow> model_error + (model_error + model_event) list" where
  "litellm_invoke X H cfg cancel send =
     (case build_headers H cfg of
        Inl e \<Rightarrow> Err (ModelOther e)
      | Inr h \<Rightarrow> Ok (litellm_stream X cancel (send h)))"

section \<open>Delivery\<close>

lemma sse_loop_delivers:
  assumes "''[DONE]'' \<notin> set datas" "\<forall>d\<in>set datas. \<forall>c. lx_chunk X d = Some c \<longrightarrow> sc_error c = None" "tail = [] \<or> (\<exists>rest. tail = Inr ''[DONE]'' # rest)"
  shows "sse_loop X r (\<lambda>_. False) n (map Inr datas @ tail) t
    = map Inr (case consume_all (List.map_filter (lx_chunk X) datas) t of (evs, t) \<Rightarrow> evs @ fst (translator_finish t))"
  using assms(1,2)
proof (induction datas arbitrary: n t)
  case Nil
  then show ?case using assms(3) by (auto simp: map_filter_def)
next
  case (Cons d ds)
  then show ?case by (cases "lx_chunk X d") (auto simp: map_filter_simps split: prod.split)
qed

text \<open>
  A successful event stream that is not cancelled and carries no error frame is delivered as the translation of its chunks, payloads
  that do not parse being skipped, whether it ends with \<open>[DONE]\<close> or just ends; nothing after \<open>[DONE]\<close> is read.
\<close>

theorem litellm_delivers:
  assumes "is_success (hr_status r)" "is_event_stream r" "hr_events r = map Inr datas @ tail" "''[DONE]'' \<notin> set datas"
    "\<forall>d\<in>set datas. \<forall>c. lx_chunk X d = Some c \<longrightarrow> sc_error c = None" "tail = [] \<or> (\<exists>rest. tail = Inr ''[DONE]'' # rest)"
  shows "litellm_stream X (\<lambda>_. False) (Inr r) = map Inr (translate (List.map_filter (lx_chunk X) datas))"
  using assms sse_loop_delivers [OF assms(4-6)] by (simp add: litellm_stream_def translate_def)

definition demo_reply :: http_response where
  "demo_reply = \<lparr>hr_status = 200, hr_retry_after = None, hr_call_id = [], hr_content_type = ''text/event-stream; charset=utf-8'', hr_body = [],
     hr_events = [Inr ''a'', Inr ''?'', Inr ''[DONE]'', Inr ''a'']\<rparr>"

definition demo_litellm :: litellm_ext where
  "demo_litellm = \<lparr>lx_from_slice = (\<lambda>_. None), lx_lossy = (\<lambda>s. s),
     lx_chunk = (\<lambda>s. if s = ''a'' then Some (demo_chunk [demo_delta 0 (Some ''c'') (Some ''ls'') ''{}''] (Some ''tool_calls'')) else None)\<rparr>"

theorem litellm_delivers_witness:
  "litellm_stream demo_litellm (\<lambda>_. False) (Inr demo_reply)
    = map Inr (translate [demo_chunk [demo_delta 0 (Some ''c'') (Some ''ls'') ''{}''] (Some ''tool_calls'')])"
  using litellm_delivers [of demo_reply "[''a'', ''?'']" "[Inr ''[DONE]'', Inr ''a'']" demo_litellm]
  by (simp add: demo_reply_def demo_litellm_def is_success_def is_event_stream_def starts_with_def demo_chunk_def map_filter_simps)

definition clean_end :: "(model_error + model_event) list \<Rightarrow> bool" where
  "clean_end items \<longleftrightarrow> (\<exists>evs. items = map Inr evs \<or> (\<exists>e. items = map Inr evs @ [Inl e] \<and> list_all unfinished evs))"

lemma clean_end_prepend: "list_all unfinished evs \<Longrightarrow> clean_end items \<Longrightarrow> clean_end (map Inr evs @ items)"
proof -
  assume a: "list_all unfinished evs" and "clean_end items"
  then obtain es where "items = map Inr es \<or> (\<exists>e. items = map Inr es @ [Inl e] \<and> list_all unfinished es)" by (auto simp: clean_end_def)
  then show ?thesis using a unfolding clean_end_def by (intro exI [of _ "evs @ es"]) auto
qed

lemma clean_end_simps: "clean_end []" "clean_end (map Inr evs)" "clean_end [Inl e]"
proof -
  show "clean_end (map Inr evs)" unfolding clean_end_def by blast
  show "clean_end []" "clean_end [Inl e]" unfolding clean_end_def by (intro exI [of _ "[]"], simp)+
qed

lemma consume_unfinished: "list_all unfinished (fst (consume c t))"
  using consume_all_reason [of "[c]" t "fst (consume c t)" "snd (consume c t)"] by (simp split: prod.splits)

lemma sse_loop_clean: "clean_end (sse_loop X r cancel n evs t)"
proof (induction X r cancel n evs t rule: sse_loop.induct)
  case (3 X r cancel n data evs t)
  then show ?case using consume_unfinished [of _ t]
    by (auto simp: clean_end_simps split: option.split prod.split intro!: clean_end_prepend) (metis fst_conv)+
qed (simp_all add: clean_end_simps)

text \<open>
  Whatever is sent and whenever cancellation comes, the stream holds at most one error, the error is the last item, and no finish event
  precedes it: a failed reply is never also reported as finished.
\<close>

theorem litellm_error_last:
  "clean_end (litellm_stream X cancel reply)"
  by (auto simp: litellm_stream_def clean_end_simps sse_loop_clean simp del: map_map split: sum.split)

section \<open>Headers replace\<close>

definition caller_value :: "header_ext \<Rightarrow> (string \<times> string) list \<Rightarrow> string \<Rightarrow> string option" where
  "caller_value H hs n = map_of (rev (List.map_filter (\<lambda>(name, v). case hx_name H name of
     Some m \<Rightarrow> if hx_invalid H v = None then Some (m, v) else None | None \<Rightarrow> None) hs)) n"

lemma header_insert_simps:
  "map_of (header_insert n v h) m = (if m = n then Some v else map_of h m)"
  "distinct (map fst h) \<Longrightarrow> distinct (map fst (header_insert n v h))"
proof -
  show "map_of (header_insert n v h) m = (if m = n then Some v else map_of h m)"
    by (simp add: header_insert_def map_of_other map_add_def split: option.split)
  show "distinct (map fst h) \<Longrightarrow> distinct (map fst (header_insert n v h))"
    by (auto simp: header_insert_def distinct_map inj_on_def)
qed

lemma fold_callers:
  "distinct (map fst h) \<Longrightarrow> distinct (map fst (fold (insert_caller H) hs h))
    \<and> map_of (fold (insert_caller H) hs h) n = (case caller_value H hs n of Some v \<Rightarrow> Some v | None \<Rightarrow> map_of h n)"
proof (induction hs arbitrary: h)
  case Nil
  then show ?case by (simp add: caller_value_def map_filter_simps)
next
  case (Cons nv hs)
  obtain name v where nv: "nv = (name, v)" by force
  show ?case
  proof (cases "\<exists>m. hx_name H name = Some m \<and> hx_invalid H v = None")
    case True
    then obtain m where m: "hx_name H name = Some m" "hx_invalid H v = None" by blast
    then show ?thesis using Cons.IH [OF header_insert_simps(2) [OF Cons.prems, of m v]]
      by (simp add: nv insert_caller_def caller_value_def map_filter_simps header_insert_simps(1) map_add_def split: option.split)
  next
    case False
    then have "insert_caller H nv h = h" "caller_value H (nv # hs) = caller_value H hs"
      by (auto simp: nv insert_caller_def caller_value_def map_filter_simps fun_eq_iff split: option.splits)
    then show ?thesis using Cons by simp
  qed
qed

text \<open>
  The request carries each header name once; the last valid header the caller gave for a name wins, and otherwise the configured key
  is sent, so a request is never sent unauthenticated when a key is configured.
\<close>

theorem headers_replace:
  assumes "build_headers H cfg = Inr h"
  shows "distinct (map fst h) \<and> (caller_value H (lc_headers cfg) n = Some v \<longrightarrow> map_of h n = Some v)
    \<and> (lc_auth cfg = Some key \<longrightarrow> caller_value H (lc_headers cfg) ''authorization'' = None \<longrightarrow> map_of h ''authorization'' = Some (''Bearer '' @ key))"
proof -
  define h0 where "h0 = header_insert ''accept'' ''text/event-stream'' (header_insert ''content-type'' ''application/json'' [])"
  define h1 where "h1 = (case lc_auth cfg of None \<Rightarrow> h0 | Some key \<Rightarrow> header_insert ''authorization'' (''Bearer '' @ key) h0)"
  define h2 where "h2 = (case lc_num_retries cfg of None \<Rightarrow> h1 | Some n \<Rightarrow> header_insert ''x-litellm-num-retries'' (show_nat (unat n)) h1)"
  have h: "h = fold (insert_caller H) (lc_headers cfg) h2"
    using assms by (auto simp: build_headers_def h0_def h1_def h2_def Let_def split: option.splits)
  have d0: "distinct (map fst h0)" by (simp add: h0_def header_insert_def)
  have d1: "distinct (map fst h1)" by (simp add: h1_def d0 header_insert_simps(2) split: option.split)
  have d: "distinct (map fst h2)" by (simp add: h2_def d1 header_insert_simps(2) split: option.split)
  have "lc_auth cfg = Some key \<Longrightarrow> map_of h2 ''authorization'' = Some (''Bearer '' @ key)"
    by (simp add: h2_def h1_def header_insert_simps(1) split: option.split)
  then show ?thesis using fold_callers [OF d, of H "lc_headers cfg"] by (simp add: h)
qed

theorem headers_replace_witness:
  "map_of (case build_headers \<lparr>hx_name = (\<lambda>s. Some (to_ascii_lowercase s)), hx_invalid = (\<lambda>_. None)\<rparr>
     \<lparr>lc_auth = Some ''sk'', lc_num_retries = Some 2, lc_headers = [(''Authorization'', ''Basic x'')]\<rparr> of Inr h \<Rightarrow> h | Inl _ \<Rightarrow> [])
     ''authorization'' = Some ''Basic x''"
proof -
  let ?H = "\<lparr>hx_name = (\<lambda>s. Some (to_ascii_lowercase s)), hx_invalid = (\<lambda>_. None)\<rparr>"
  let ?c = "\<lparr>lc_auth = Some ''sk'', lc_num_retries = Some 2, lc_headers = [(''Authorization'', ''Basic x'')]\<rparr>"
  obtain h where h: "build_headers ?H ?c = Inr h" by (simp add: build_headers_def)
  have "caller_value ?H (lc_headers ?c) ''authorization'' = Some ''Basic x''" by code_simp
  then show ?thesis using headers_replace [OF h, of "''authorization''" "''Basic x''"] h by simp
qed

end
