(* ===== verification/Model_Retry.thy ===== *)
theory Model_Retry
  imports Litellm_Model
begin

text \<open>
  Retrying model calls (\<open>retry.rs\<close> of \<open>runtime-tokio\<close>): the policy and the decorator that invokes the wrapped model again after a transient
  error. Shown are the bound on the number of invocations, that output comes from one invocation only and nothing is repeated, that
  a requested pause is honoured, and, for the LiteLLM model, which replies are retried and that the retried call delivers the
  translation of the reply that succeeds. A duration is its number of nanoseconds and a floating-point number its bit pattern.
\<close>

section \<open>The policy\<close>

type_synonym f64 = "64 word"

record retry_policy =
  rp_max_attempts :: u32
  rp_base_delay :: nat
  rp_multiplier :: f64
  rp_max_delay :: nat
  rp_jitter :: bool

definition retry_policy_default :: retry_policy where
  "retry_policy_default = \<lparr>rp_max_attempts = 3, rp_base_delay = 500000000, rp_multiplier = 0x4000000000000000,
     rp_max_delay = 30000000000, rp_jitter = True\<rparr>"

definition with_max_attempts :: "u32 \<Rightarrow> retry_policy \<Rightarrow> retry_policy" where
  "with_max_attempts n p = p\<lparr>rp_max_attempts := max n 1\<rparr>"

fun is_retryable :: "model_error \<Rightarrow> bool" where
  "is_retryable (RateLimited _) = True"
| "is_retryable Unavailable = True"
| "is_retryable (Transport _) = True"
| "is_retryable ContextLengthExceeded = False"
| "is_retryable (Refused _) = False"
| "is_retryable (ModelOther _) = False"

text \<open>
  \<open>float_delay p attempt jitter\<close> stands for the floating-point computation of the delay from the policy, before the
  pause a rate limit asks for is taken into account.
\<close>

definition next_delay :: "(retry_policy \<Rightarrow> u32 \<Rightarrow> f64 \<Rightarrow> nat) \<Rightarrow> retry_policy \<Rightarrow> u32 \<Rightarrow> model_error \<Rightarrow> f64 \<Rightarrow> nat option" where
  "next_delay float_delay p attempt err jitter_fraction =
     (if \<not> is_retryable err \<or> unat attempt \<ge> unat (rp_max_attempts p) - 1 then None
      else (let delay = float_delay p attempt jitter_fraction
            in Some (case err of RateLimited (Some ms) \<Rightarrow> max delay (unat ms * 1000000) | _ \<Rightarrow> delay)))"

section \<open>The decorator\<close>

text \<open>The places where a call waits and cancellation can win: the first item, a later item, the pause.\<close>

datatype wait = AtPeek | AtItem nat | AtBackoff

type_synonym model_reply = "model_error + (model_error + model_event) list"

text \<open>The wrapped model answers each invocation, the jitter source gives a fraction for each, and cancellation is asked at each wait.\<close>

record retry_env =
  re_inner :: "nat \<Rightarrow> model_reply"
  re_jitter :: "nat \<Rightarrow> f64"
  re_cancel :: "nat \<Rightarrow> wait \<Rightarrow> bool"
  re_float_delay :: "retry_policy \<Rightarrow> u32 \<Rightarrow> f64 \<Rightarrow> nat"

fun forward :: "(wait \<Rightarrow> bool) \<Rightarrow> nat \<Rightarrow> (model_error + model_event) list \<Rightarrow> (model_error + model_event) list" where
  "forward cancel n [] = []"
| "forward cancel n (x # xs) = (if cancel (AtItem n) then [] else x # forward cancel (n + 1) xs)"

datatype attempt_end = Finished "(model_error + model_event) list" | Again nat

definition after_error :: "retry_env \<Rightarrow> retry_policy \<Rightarrow> u32 \<Rightarrow> model_error \<Rightarrow> attempt_end" where
  "after_error V p attempt e =
     (case next_delay (re_float_delay V) p attempt e (re_jitter V (unat attempt)) of
        Some d \<Rightarrow> if re_cancel V (unat attempt) AtBackoff then Finished [] else Again d
      | None \<Rightarrow> Finished [Inl e])"

definition attempt_once :: "retry_env \<Rightarrow> retry_policy \<Rightarrow> u32 \<Rightarrow> attempt_end" where
  "attempt_once V p attempt =
     (case re_inner V (unat attempt) of
        Inl e \<Rightarrow> after_error V p attempt e
      | Inr model_stream \<Rightarrow>
          (if re_cancel V (unat attempt) AtPeek then Finished []
           else (case model_stream of
                   [] \<Rightarrow> Finished []
                 | Inr ev # rest \<Rightarrow> Finished (Inr ev # forward (re_cancel V (unat attempt)) 0 rest)
                 | Inl e # _ \<Rightarrow> after_error V p attempt e)))"

lemma next_delay_below: "next_delay F p attempt e j = Some d \<Longrightarrow> unat attempt + 1 < unat (rp_max_attempts p) \<and> is_retryable e"
  by (auto simp: next_delay_def split: if_splits)

lemma again_below: "attempt_once V p attempt = Again d \<Longrightarrow> unat attempt + 1 < unat (rp_max_attempts p)"
  by (auto simp: attempt_once_def after_error_def dest: next_delay_below split: sum.splits list.splits option.splits if_splits)

lemma unat_next: "unat (a :: u32) + 1 < unat (m :: u32) \<Longrightarrow> unat (a + 1) = unat a + 1"
  using unsigned_less [of m, where ?'a = nat] by (simp add: unat_word_ariths)

text \<open>The loop: the items that are yielded and the pauses that were slept.\<close>

function retry_loop :: "retry_env \<Rightarrow> retry_policy \<Rightarrow> u32 \<Rightarrow> (model_error + model_event) list \<times> nat list" where
  "retry_loop V p attempt =
     (case attempt_once V p attempt of
        Finished items \<Rightarrow> (items, [])
      | Again d \<Rightarrow> (case retry_loop V p (attempt + 1) of (items, ds) \<Rightarrow> (items, d # ds)))"
  by pat_completeness auto
termination
proof (relation "measure (\<lambda>(V, p, attempt). unat (rp_max_attempts p) - unat attempt)")
  show "((V, p, attempt + 1), V, p, attempt) \<in> measure (\<lambda>(V, p, attempt). unat (rp_max_attempts p) - unat attempt)"
    if "attempt_once V p attempt = Again d" for V p attempt d
    using again_below [OF that] unat_next [of attempt "rp_max_attempts p"] by simp
qed simp

declare retry_loop.simps [simp del]

definition retrying_invoke :: "retry_env \<Rightarrow> retry_policy \<Rightarrow> (model_error + model_event) list \<times> nat list" where
  "retrying_invoke V p = retry_loop V p 0"

section \<open>What a retried call yields\<close>

definition failed :: "model_reply \<Rightarrow> model_error option" where
  "failed r = (case r of Inl e \<Rightarrow> Some e | Inr (Inl e # _) \<Rightarrow> Some e | _ \<Rightarrow> None)"

definition transient :: "model_reply \<Rightarrow> bool" where
  "transient r \<longleftrightarrow> (case failed r of Some e \<Rightarrow> is_retryable e | None \<Rightarrow> False)"

definition delivered :: "model_reply \<Rightarrow> (model_error + model_event) list" where
  "delivered r = (case failed r of Some e \<Rightarrow> [Inl e] | None \<Rightarrow> (case r of Inr items \<Rightarrow> items | Inl e \<Rightarrow> []))"

definition asked_pause :: "model_reply \<Rightarrow> nat" where
  "asked_pause r = (case failed r of Some (RateLimited (Some ms)) \<Rightarrow> unat ms * 1000000 | _ \<Rightarrow> 0)"

lemma forward_prefix: "prefix (forward c n xs) xs" and forward_all: "(\<And>w. \<not> c w) \<Longrightarrow> forward c n xs = xs"
  by (induction xs arbitrary: n) auto

lemma attempt_again:
  assumes "attempt_once V p a = Again d"
  shows "transient (re_inner V (unat a)) \<and> asked_pause (re_inner V (unat a)) \<le> d"
  using assms
  by (auto simp: attempt_once_def after_error_def failed_def transient_def asked_pause_def next_delay_def
      split: sum.splits list.splits option.splits if_splits model_error.splits)

lemma attempt_finished:
  assumes "attempt_once V p a = Finished items"
  shows "prefix items (delivered (re_inner V (unat a)))"
  using assms forward_prefix
  by (auto simp: attempt_once_def after_error_def failed_def delivered_def split: sum.splits list.splits option.splits if_splits)

lemma attempt_finished_uncancelled:
  assumes "attempt_once V p a = Finished items" "\<And>n w. \<not> re_cancel V n w"
  shows "items = delivered (re_inner V (unat a)) \<and> (transient (re_inner V (unat a)) \<longrightarrow> unat (rp_max_attempts p) \<le> unat a + 1)"
  using assms
  by (auto simp: attempt_once_def after_error_def failed_def delivered_def transient_def next_delay_def forward_all Let_def
      split: sum.splits list.splits option.splits if_splits)

lemma retry_loop_trace:
  assumes "retry_loop V p a = (items, ds)"
  shows "unat a + length ds + 1 \<le> max (unat a + 1) (unat (rp_max_attempts p))
    \<and> (\<forall>j<length ds. transient (re_inner V (unat a + j)) \<and> asked_pause (re_inner V (unat a + j)) \<le> ds ! j)
    \<and> prefix items (delivered (re_inner V (unat a + length ds)))
    \<and> ((\<forall>n w. \<not> re_cancel V n w) \<longrightarrow> items = delivered (re_inner V (unat a + length ds))
        \<and> (transient (re_inner V (unat a + length ds)) \<longrightarrow> unat (rp_max_attempts p) \<le> unat a + length ds + 1))"
  using assms
proof (induction V p a arbitrary: items ds rule: retry_loop.induct)
  case (1 V p a)
  show ?case
  proof (cases "attempt_once V p a")
    case (Finished xs)
    then have "items = xs" "ds = []" using "1.prems" by (simp_all add: retry_loop.simps [of V p a])
    then show ?thesis using attempt_finished [OF Finished] attempt_finished_uncancelled [OF Finished] by auto
  next
    case (Again d)
    obtain items' ds' where r: "retry_loop V p (a + 1) = (items', ds')" by force
    have out: "items = items'" "ds = d # ds'" using "1.prems" Again r by (simp_all add: retry_loop.simps [of V p a])
    have next_attempt: "unat (a + 1) = unat a + 1" "unat a + 1 < unat (rp_max_attempts p)"
      using again_below [OF Again] unat_next by blast+
    note IH = "1.IH" [OF Again r, unfolded next_attempt(1)]
    have "transient (re_inner V (unat a + j)) \<and> asked_pause (re_inner V (unat a + j)) \<le> ds ! j" if "j < length ds" for j
      using that IH attempt_again [OF Again] by (cases j) (auto simp: out)
    then show ?thesis using IH next_attempt(2) by (simp add: out)
  qed
qed

text \<open>
  C37. A retried call: at most as many invocations as the policy allows and at least one; every invocation but the last failed
  transiently before yielding anything; each pause is at least what the rate limit asked for; and what is yielded is a prefix of what the
  last invocation delivers, so output is never repeated or mixed.
\<close>

theorem retry_one_output:
  "case retrying_invoke V p of (items, ds) \<Rightarrow> length ds + 1 \<le> max 1 (unat (rp_max_attempts p))
    \<and> list_all2 (\<lambda>r d. transient r \<and> asked_pause r \<le> d) (map (re_inner V) [0..<length ds]) ds
    \<and> prefix items (delivered (re_inner V (length ds)))"
proof -
  obtain items ds where r: "retry_loop V p 0 = (items, ds)" by force
  show ?thesis using retry_loop_trace [OF r] by (simp add: retrying_invoke_def r list_all2_conv_all_nth)
qed

lemma retry_reaches:
  assumes "\<And>n w. \<not> re_cancel V n w" "\<And>j. j < k \<Longrightarrow> transient (re_inner V j)" "\<not> transient (re_inner V k)" "k < unat (rp_max_attempts p) \<or> k = 0"
  shows "fst (retrying_invoke V p) = delivered (re_inner V k) \<and> length (snd (retrying_invoke V p)) = k"
proof -
  obtain items ds where r: "retry_loop V p 0 = (items, ds)" by force
  note T = retry_loop_trace [OF r, simplified]
  have "length ds = k"
  proof (rule antisym)
    show "length ds \<le> k" using T assms(3) by (meson not_le)
    show "k \<le> length ds"
    proof (rule ccontr)
      assume "\<not> k \<le> length ds"
      then have "transient (re_inner V (length ds))" "length ds < k" using assms(2) by auto
      then show False using T assms(1,4) by auto
    qed
  qed
  then show ?thesis using T assms(1) by (simp add: retrying_invoke_def r)
qed

text \<open>
  Without cancellation the call delivers everything the last invocation delivers, and it gives up on a transient failure only when the
  attempts are used up; so when invocation \<open>k\<close> is the first that does not fail transiently and the policy allows it, its output is delivered.
\<close>

theorem retry_delivers:
  assumes "\<And>n w. \<not> re_cancel V n w" "\<And>j. j < k \<Longrightarrow> transient (re_inner V j)" "\<not> transient (re_inner V k)" "k < unat (rp_max_attempts p) \<or> k = 0"
  shows "fst (retrying_invoke V p) = delivered (re_inner V k) \<and> length (snd (retrying_invoke V p)) = k"
  using assms by (rule retry_reaches)

definition demo_retry :: retry_env where
  "demo_retry = \<lparr>re_inner = (\<lambda>n. if n = 0 then Inr [Inl (RateLimited (Some 5))] else Inr [Inr (MTokenDelta ''hi''), Inr (MFinish Stop)]),
     re_jitter = (\<lambda>_. 0), re_cancel = (\<lambda>_ _. False), re_float_delay = (\<lambda>_ _ _. 7)\<rparr>"

theorem retry_delivers_witness:
  "fst (retrying_invoke demo_retry retry_policy_default) = [Inr (MTokenDelta ''hi''), Inr (MFinish Stop)]"
  using retry_delivers [of demo_retry 1 retry_policy_default]
  by (simp add: demo_retry_def transient_def failed_def delivered_def retry_policy_default_def)

section \<open>Retrying LiteLLM\<close>

text \<open>
  Which error replies are transient: the rate limit and the gateway failures, unless the message says that the context is
  too long, and not an exhausted budget, which LiteLLM reports with the status of a rate limit.
\<close>

theorem litellm_transient:
  "is_retryable (classify status code err_type message parsed retry_after) \<longleftrightarrow>
     \<not> is_context_overflow message parsed
     \<and> (status = 429 \<and> \<not> is_budget_exhaustion (normalise_type err_type) message \<or> status \<in> {500, 502, 503, 504})"
  by (auto simp: classify_def Let_def)

text \<open>
  The composition: when the replies before the \<open>k\<close>-th are transient failures and the \<open>k\<close>-th is a successful event
  stream without error frames, the retried LiteLLM model yields the translation of exactly that stream.
\<close>

theorem retry_litellm:
  assumes "\<And>n. re_inner V n = Inr (litellm_stream X (\<lambda>_. False) (replies n))" "\<And>n w. \<not> re_cancel V n w"
    "\<And>j. j < k \<Longrightarrow> transient (re_inner V j)" "k < unat (rp_max_attempts p)"
    "replies k = Inr r" "is_success (hr_status r)" "is_event_stream r" "hr_events r = map Inr datas" "''[DONE]'' \<notin> set datas"
    "\<forall>d\<in>set datas. \<forall>c. lx_chunk X d = Some c \<longrightarrow> sc_error c = None"
  shows "fst (retrying_invoke V p) = map Inr (translate (List.map_filter (lx_chunk X) datas))"
proof -
  let ?out = "map Inr (translate (List.map_filter (lx_chunk X) datas))"
  have out: "re_inner V k = Inr ?out"
    using sse_loop_delivers [OF assms(9,10), where tail = "[]"] assms(1,5-8) by (simp add: litellm_stream_def translate_def)
  have "failed (re_inner V k) = None" by (auto simp: out failed_def split: list.split)
  then have "\<not> transient (re_inner V k)" "delivered (re_inner V k) = ?out" by (simp_all add: transient_def delivered_def out)
  then show ?thesis using retry_reaches [OF assms(2,3), where p = p] assms(4) by simp
qed

theorem retry_litellm_witness:
  "fst (retrying_invoke \<lparr>re_inner = (\<lambda>n. Inr (litellm_stream demo_litellm (\<lambda>_. False)
        (if n = 0 then Inl ''connection reset'' else Inr (demo_reply\<lparr>hr_events := [Inr ''a'']\<rparr>)))),
      re_jitter = (\<lambda>_. 0), re_cancel = (\<lambda>_ _. False), re_float_delay = (\<lambda>_ _ _. 7)\<rparr> retry_policy_default)
    = map Inr (translate [demo_chunk [demo_delta 0 (Some ''c'') (Some ''ls'') ''{}''] (Some ''tool_calls'')])"
  by (subst retry_litellm [where k = 1 and X = demo_litellm and r = "demo_reply\<lparr>hr_events := [Inr ''a'']\<rparr>" and datas = "[''a'']"
      and replies = "\<lambda>n. if n = 0 then Inl ''connection reset'' else Inr (demo_reply\<lparr>hr_events := [Inr ''a'']\<rparr>)"])
    (simp_all add: demo_reply_def demo_litellm_def is_success_def is_event_stream_def starts_with_def demo_chunk_def map_filter_simps
      retry_policy_default_def litellm_stream_def transient_def failed_def)

end
