(* ===== verification/Net_Policy.thy ===== *)
theory Net_Policy
  imports Agent_Tool
begin

text \<open>
  Network access of the tools (\<open>net/policy.rs\<close>, \<open>net/proxy.rs\<close> and \<open>web/fetch.rs\<close> of \<open>tools\<close>): the host lists, the address classifier that
  guards against requests to internal services, the guarded resolver, the egress proxy and the fetch tool with its own redirect loop. Shown are that the
  classifier is membership in a list of address blocks, that the proxy and the fetch tool contact only allowed hosts at allowed addresses even when
  name resolution answers differently each time, and that a fetch makes a bounded number of requests and keeps a bounded body. URLs, name
  resolution, the HTTP client and the conversion to Markdown are parameters.
\<close>

section \<open>Addresses\<close>

datatype ipv4 = V4 "8 word" "8 word" "8 word" "8 word"

datatype ipv6 = V6 "16 word" "16 word" "16 word" "16 word" "16 word" "16 word" "16 word" "16 word"

datatype ip_addr = IpV4 ipv4 | IpV6 ipv6

text \<open>The predicates of the standard library.\<close>

fun v4_is_loopback :: "ipv4 \<Rightarrow> bool" where "v4_is_loopback (V4 a b c d) = (a = 127)"

fun v4_is_private :: "ipv4 \<Rightarrow> bool" where
  "v4_is_private (V4 a b c d) = (a = 10 \<or> a = 172 \<and> 16 \<le> b \<and> b \<le> 31 \<or> a = 192 \<and> b = 168)"

fun v4_is_link_local :: "ipv4 \<Rightarrow> bool" where "v4_is_link_local (V4 a b c d) = (a = 169 \<and> b = 254)"

fun v4_is_unspecified :: "ipv4 \<Rightarrow> bool" where "v4_is_unspecified (V4 a b c d) = (a = 0 \<and> b = 0 \<and> c = 0 \<and> d = 0)"

fun v4_is_broadcast :: "ipv4 \<Rightarrow> bool" where "v4_is_broadcast (V4 a b c d) = (a = 255 \<and> b = 255 \<and> c = 255 \<and> d = 255)"

fun v4_is_documentation :: "ipv4 \<Rightarrow> bool" where
  "v4_is_documentation (V4 a b c d) = (a = 192 \<and> b = 0 \<and> c = 2 \<or> a = 198 \<and> b = 51 \<and> c = 100 \<or> a = 203 \<and> b = 0 \<and> c = 113)"

fun v4_is_multicast :: "ipv4 \<Rightarrow> bool" where "v4_is_multicast (V4 a b c d) = (224 \<le> a \<and> a \<le> 239)"

fun is_cgnat :: "ipv4 \<Rightarrow> bool" where "is_cgnat (V4 a b c d) = (a = 100 \<and> 64 \<le> b \<and> b \<le> 127)"

fun is_benchmarking_v4 :: "ipv4 \<Rightarrow> bool" where "is_benchmarking_v4 (V4 a b c d) = (a = 198 \<and> 18 \<le> b \<and> b \<le> 19)"

fun is_reserved_future_v4 :: "ipv4 \<Rightarrow> bool" where "is_reserved_future_v4 (V4 a b c d) = (240 \<le> a)"

definition v4_blocked :: "ipv4 \<Rightarrow> bool" where
  "v4_blocked ip \<longleftrightarrow> v4_is_loopback ip \<or> v4_is_private ip \<or> v4_is_link_local ip \<or> v4_is_unspecified ip \<or> v4_is_broadcast ip
     \<or> v4_is_documentation ip \<or> v4_is_multicast ip \<or> is_cgnat ip \<or> is_benchmarking_v4 ip \<or> is_reserved_future_v4 ip"

unbundle bit_operations_syntax

fun v6_is_loopback :: "ipv6 \<Rightarrow> bool" where
  "v6_is_loopback (V6 s0 s1 s2 s3 s4 s5 s6 s7) = (s0 = 0 \<and> s1 = 0 \<and> s2 = 0 \<and> s3 = 0 \<and> s4 = 0 \<and> s5 = 0 \<and> s6 = 0 \<and> s7 = 1)"

fun v6_is_unspecified :: "ipv6 \<Rightarrow> bool" where
  "v6_is_unspecified (V6 s0 s1 s2 s3 s4 s5 s6 s7) = (s0 = 0 \<and> s1 = 0 \<and> s2 = 0 \<and> s3 = 0 \<and> s4 = 0 \<and> s5 = 0 \<and> s6 = 0 \<and> s7 = 0)"

fun v6_is_multicast :: "ipv6 \<Rightarrow> bool" where "v6_is_multicast (V6 s0 s1 s2 s3 s4 s5 s6 s7) = (s0 AND 0xff00 = 0xff00)"

fun is_ula :: "ipv6 \<Rightarrow> bool" where "is_ula (V6 s0 s1 s2 s3 s4 s5 s6 s7) = (s0 AND 0xfe00 = 0xfc00)"

fun is_v6_link_local :: "ipv6 \<Rightarrow> bool" where "is_v6_link_local (V6 s0 s1 s2 s3 s4 s5 s6 s7) = (s0 AND 0xffc0 = 0xfe80)"

fun is_v6_documentation :: "ipv6 \<Rightarrow> bool" where "is_v6_documentation (V6 s0 s1 s2 s3 s4 s5 s6 s7) = (s0 = 0x2001 \<and> s1 = 0x0db8)"

definition v4_of_segments :: "16 word \<Rightarrow> 16 word \<Rightarrow> ipv4" where
  "v4_of_segments ab cd = V4 (ucast (drop_bit 8 ab)) (ucast ab) (ucast (drop_bit 8 cd)) (ucast cd)"

fun to_ipv4_mapped :: "ipv6 \<Rightarrow> ipv4 option" where
  "to_ipv4_mapped (V6 s0 s1 s2 s3 s4 s5 s6 s7) =
     (if s0 = 0 \<and> s1 = 0 \<and> s2 = 0 \<and> s3 = 0 \<and> s4 = 0 \<and> s5 = 0xffff then Some (v4_of_segments s6 s7) else None)"

fun to_ipv4 :: "ipv6 \<Rightarrow> ipv4 option" where
  "to_ipv4 (V6 s0 s1 s2 s3 s4 s5 s6 s7) =
     (if s0 = 0 \<and> s1 = 0 \<and> s2 = 0 \<and> s3 = 0 \<and> s4 = 0 \<and> (s5 = 0 \<or> s5 = 0xffff) then Some (v4_of_segments s6 s7) else None)"

definition ip_blocked :: "ip_addr \<Rightarrow> bool" where
  "ip_blocked ip =
     (case ip of
        IpV4 v4 \<Rightarrow> v4_blocked v4
      | IpV6 v6 \<Rightarrow>
          (if v6_is_loopback v6 \<or> v6_is_unspecified v6 \<or> v6_is_multicast v6 \<or> is_ula v6 \<or> is_v6_link_local v6 \<or> is_v6_documentation v6 then True
           else (case (case to_ipv4_mapped v6 of Some v4 \<Rightarrow> Some v4 | None \<Rightarrow> to_ipv4 v6) of
                   Some v4 \<Rightarrow> v4_blocked v4
                 | None \<Rightarrow> False)))"

section \<open>Host lists\<close>

definition trim_end_matches :: "char \<Rightarrow> string \<Rightarrow> string" where
  "trim_end_matches c s = rev (dropWhile (\<lambda>x. x = c) (rev s))"

definition trim_start_matches :: "char \<Rightarrow> string \<Rightarrow> string" where
  "trim_start_matches c s = dropWhile (\<lambda>x. x = c) s"

definition normal_host :: "string \<Rightarrow> string" where
  "normal_host h = to_ascii_lowercase (trim_end_matches CHR ''.'' h)"

definition host_matches :: "string \<Rightarrow> string \<Rightarrow> bool" where
  "host_matches host entry = (let e = normal_host entry in host = e \<or> ends_with (''.'' @ e) host)"

definition host_allowed :: "string \<Rightarrow> string list option \<Rightarrow> string list \<Rightarrow> bool" where
  "host_allowed host allow deny =
     (let host = normal_host host
      in if list_ex (host_matches host) deny then False
         else (case allow of Some l \<Rightarrow> list_ex (host_matches host) l | None \<Rightarrow> True))"

record egress_policy =
  ep_allow :: "string list option"
  ep_deny :: "string list"
  ep_allow_private_ips :: bool

definition egress_deny_all :: egress_policy where
  "egress_deny_all = \<lparr>ep_allow = Some [], ep_deny = [], ep_allow_private_ips = False\<rparr>"

definition egress_allow_all :: egress_policy where
  "egress_allow_all = \<lparr>ep_allow = None, ep_deny = [], ep_allow_private_ips = False\<rparr>"

definition egress_allow_domains :: "string list \<Rightarrow> egress_policy \<Rightarrow> egress_policy" where
  "egress_allow_domains ds p = p\<lparr>ep_allow := Some ((case ep_allow p of Some l \<Rightarrow> l | None \<Rightarrow> []) @ ds)\<rparr>"

definition egress_deny_domains :: "string list \<Rightarrow> egress_policy \<Rightarrow> egress_policy" where
  "egress_deny_domains ds p = p\<lparr>ep_deny := ep_deny p @ ds\<rparr>"

definition egress_allow_private_ips :: "bool \<Rightarrow> egress_policy \<Rightarrow> egress_policy" where
  "egress_allow_private_ips b p = p\<lparr>ep_allow_private_ips := b\<rparr>"

definition is_host_allowed :: "egress_policy \<Rightarrow> string \<Rightarrow> bool" where
  "is_host_allowed p host = host_allowed host (ep_allow p) (ep_deny p)"

definition is_ip_allowed :: "egress_policy \<Rightarrow> ip_addr \<Rightarrow> bool" where
  "is_ip_allowed p ip = (ep_allow_private_ips p \<or> \<not> ip_blocked ip)"

text \<open>The guarded resolver filters what \<open>lookup_host\<close> returns.\<close>

definition guarded_resolve :: "bool \<Rightarrow> string \<Rightarrow> string + ip_addr list \<Rightarrow> string + ip_addr list" where
  "guarded_resolve allow_private host resolved =
     (case resolved of
        Inl e \<Rightarrow> Err e
      | Inr all_addrs \<Rightarrow>
          (let addrs = (if allow_private then all_addrs else filter (\<lambda>a. \<not> ip_blocked a) all_addrs)
           in if addrs = [] then Err (''no allowed addresses resolved for `'' @ host @ ''` (blocked by SSRF guard)'') else Ok addrs))"

section \<open>Blocks of addresses\<close>

text \<open>The specification: an address as a number, and a block as the addresses that share the first \<open>n\<close> bits with its base.\<close>

fun v4_value :: "ipv4 \<Rightarrow> nat" where
  "v4_value (V4 a b c d) = unat a * 16777216 + unat b * 65536 + unat c * 256 + unat d"

fun v6_value :: "ipv6 \<Rightarrow> nat" where
  "v6_value (V6 s0 s1 s2 s3 s4 s5 s6 s7) = unat s0 * 2 ^ 112 + unat s1 * 2 ^ 96 + unat s2 * 2 ^ 80 + unat s3 * 2 ^ 64
     + unat s4 * 2 ^ 48 + unat s5 * 2 ^ 32 + unat s6 * 2 ^ 16 + unat s7"

definition same_prefix :: "nat \<Rightarrow> nat \<Rightarrow> nat \<Rightarrow> nat \<Rightarrow> bool" where
  "same_prefix bits n x y \<longleftrightarrow> x div 2 ^ (bits - n) = y div 2 ^ (bits - n)"

definition blocks_v4 :: "(ipv4 \<times> nat) list" where
  "blocks_v4 = [(V4 127 0 0 0, 8), (V4 10 0 0 0, 8), (V4 172 16 0 0, 12), (V4 192 168 0 0, 16), (V4 169 254 0 0, 16), (V4 0 0 0 0, 32),
     (V4 192 0 2 0, 24), (V4 198 51 100 0, 24), (V4 203 0 113 0, 24), (V4 224 0 0 0, 4), (V4 100 64 0 0, 10), (V4 198 18 0 0, 15), (V4 240 0 0 0, 4)]"

definition in_blocks_v4 :: "nat \<Rightarrow> bool" where
  "in_blocks_v4 x \<longleftrightarrow> list_ex (\<lambda>(base, n). same_prefix 32 n x (v4_value base)) blocks_v4"

definition blocks_v6 :: "(ipv6 \<times> nat) list" where
  "blocks_v6 = [(V6 0 0 0 0 0 0 0 1, 128), (V6 0 0 0 0 0 0 0 0, 128), (V6 0xff00 0 0 0 0 0 0 0, 8), (V6 0xfc00 0 0 0 0 0 0 0, 7),
     (V6 0xfe80 0 0 0 0 0 0 0, 10), (V6 0x2001 0x0db8 0 0 0 0 0 0, 32)]"

lemma octet_less [simp]: "unat (a :: 8 word) < 256" and segment_less [simp]: "unat (s :: 16 word) < 65536"
  using unsigned_less [of a, where ?'a = nat] unsigned_less [of s, where ?'a = nat] by simp_all

lemma v4_prefixes:
  fixes a b c d :: nat
  assumes "b < 256" "c < 256" "d < 256"
  defines "x \<equiv> a * 16777216 + b * 65536 + c * 256 + d"
  shows "x div 16777216 = a" "x div 65536 = a * 256 + b" "x div 256 = (a * 256 + b) * 256 + c"
    "x div 1048576 = a * 16 + b div 16" "x div 4194304 = a * 4 + b div 64" "x div 131072 = a * 128 + b div 2" "x div 268435456 = a div 16"
proof -
  show 8: "x div 256 = (a * 256 + b) * 256 + c" using assms by (simp add: x_def)
  have "x div 65536 = x div 256 div 256" by (simp add: div_mult2_eq [symmetric])
  then show 16: "x div 65536 = a * 256 + b" using assms(1,2) by (simp add: 8)
  have "x div 16777216 = x div 65536 div 256" by (simp add: div_mult2_eq [symmetric])
  then show 24: "x div 16777216 = a" using assms(1) by (simp add: 16)
  have split: "x div 1048576 = x div 65536 div 16" "x div 4194304 = x div 65536 div 64" "x div 131072 = x div 65536 div 2" "x div 268435456 = x div 16777216 div 16"
    by (simp_all add: div_mult2_eq [symmetric])
  show "x div 1048576 = a * 16 + b div 16" "x div 4194304 = a * 4 + b div 64" "x div 131072 = a * 128 + b div 2" "x div 268435456 = a div 16"
    by (simp_all add: split 16 24)
qed

lemma digits_eq:
  assumes "(y :: nat) < k" "y' < k"
  shows "x * k + y = x' * k + y' \<longleftrightarrow> x = x' \<and> y = y'"
proof
  assume e: "x * k + y = x' * k + y'"
  then have "(x * k + y) div k = (x' * k + y') div k" by simp
  then have "x = x'" using assms by simp
  then show "x = x' \<and> y = y'" using e by simp
qed simp

lemma v4_blocked_blocks: "v4_blocked ip \<longleftrightarrow> in_blocks_v4 (v4_value ip)"
proof (cases ip)
  case (V4 wa wb wc wd)
  define a b c d where abcd: "a = unat wa" "b = unat wb" "c = unat wc" "d = unat wd"
  have less: "a < 256" "b < 256" "c < 256" "d < 256" by (simp_all add: abcd)
  note P = v4_prefixes [OF less(2-4), of a]
  have word: "wa = w \<longleftrightarrow> a = unat w" "wb = w \<longleftrightarrow> b = unat w" "wc = w \<longleftrightarrow> c = unat w" "wd = w \<longleftrightarrow> d = unat w"
    "w \<le> wa \<longleftrightarrow> unat w \<le> a" "wa \<le> w \<longleftrightarrow> a \<le> unat w" "w \<le> wb \<longleftrightarrow> unat w \<le> b" "wb \<le> w \<longleftrightarrow> b \<le> unat w" for w
    by (simp_all add: abcd word_unat_eq_iff word_le_nat_alt)
  have pair: "a * 256 + b = 49320 \<longleftrightarrow> a = 192 \<and> b = 168" "a * 256 + b = 43518 \<longleftrightarrow> a = 169 \<and> b = 254"
    using digits_eq [of b 256 168 a 192] digits_eq [of b 256 254 a 169] less by simp_all
  have triple: "65536 * a + b * 256 + c = 12582914 \<longleftrightarrow> a = 192 \<and> b = 0 \<and> c = 2" "65536 * a + b * 256 + c = 12989284 \<longleftrightarrow> a = 198 \<and> b = 51 \<and> c = 100"
    "65536 * a + b * 256 + c = 13303921 \<longleftrightarrow> a = 203 \<and> b = 0 \<and> c = 113"
    using digits_eq [of c 256 2 "a * 256 + b" 49152] digits_eq [of c 256 100 "a * 256 + b" 50739] digits_eq [of c 256 113 "a * 256 + b" 51968]
      digits_eq [of b 256 0 a 192] digits_eq [of b 256 51 a 198] digits_eq [of b 256 0 a 203] less by simp_all
  have parts: "b div 16 = 1 \<longleftrightarrow> 16 \<le> b \<and> b \<le> 31" "b div 64 = 1 \<longleftrightarrow> 64 \<le> b \<and> b \<le> 127" "b div 2 = 9 \<longleftrightarrow> 18 \<le> b \<and> b \<le> 19"
    "a div 16 = 14 \<longleftrightarrow> 224 \<le> a \<and> a \<le> 239" "a div 16 = 15 \<longleftrightarrow> 240 \<le> a"
    using less by auto
  have "b div 16 < 16" "b div 64 < 4" "b div 2 < 128" using less by auto
  then have odd: "a * 16 + b div 16 = 2753 \<longleftrightarrow> a = 172 \<and> 16 \<le> b \<and> b \<le> 31" "a * 4 + b div 64 = 401 \<longleftrightarrow> a = 100 \<and> 64 \<le> b \<and> b \<le> 127"
    "a * 128 + b div 2 = 25353 \<longleftrightarrow> a = 198 \<and> 18 \<le> b \<and> b \<le> 19"
    using digits_eq [of "b div 16" 16 1 a 172] digits_eq [of "b div 64" 4 1 a 100] digits_eq [of "b div 2" 128 9 a 198] parts(1-3) by simp_all
  have left: "v4_blocked ip \<longleftrightarrow> a = 127 \<or> (a = 10 \<or> a = 172 \<and> 16 \<le> b \<and> b \<le> 31 \<or> a = 192 \<and> b = 168) \<or> a = 169 \<and> b = 254
      \<or> (a = 0 \<and> b = 0 \<and> c = 0 \<and> d = 0) \<or> (a = 255 \<and> b = 255 \<and> c = 255 \<and> d = 255)
      \<or> (a = 192 \<and> b = 0 \<and> c = 2 \<or> a = 198 \<and> b = 51 \<and> c = 100 \<or> a = 203 \<and> b = 0 \<and> c = 113) \<or> 224 \<le> a \<and> a \<le> 239
      \<or> a = 100 \<and> 64 \<le> b \<and> b \<le> 127 \<or> a = 198 \<and> 18 \<le> b \<and> b \<le> 19 \<or> 240 \<le> a"
    by (simp add: V4 v4_blocked_def word)
  have value_eq: "v4_value ip = a * 16777216 + b * 65536 + c * 256 + d" by (simp add: V4 abcd)
  have right: "in_blocks_v4 (v4_value ip) \<longleftrightarrow> a = 127 \<or> a = 10 \<or> (a = 172 \<and> 16 \<le> b \<and> b \<le> 31) \<or> (a = 192 \<and> b = 168) \<or> (a = 169 \<and> b = 254)
      \<or> (a = 0 \<and> b = 0 \<and> c = 0 \<and> d = 0) \<or> (a = 192 \<and> b = 0 \<and> c = 2) \<or> (a = 198 \<and> b = 51 \<and> c = 100) \<or> (a = 203 \<and> b = 0 \<and> c = 113)
      \<or> (224 \<le> a \<and> a \<le> 239) \<or> (a = 100 \<and> 64 \<le> b \<and> b \<le> 127) \<or> (a = 198 \<and> 18 \<le> b \<and> b \<le> 19) \<or> 240 \<le> a"
    unfolding value_eq in_blocks_v4_def same_prefix_def blocks_v4_def
    by (simp add: P pair triple parts(4,5) odd)
  have "a = 255 \<Longrightarrow> 240 \<le> a" by simp
  then show ?thesis unfolding left right by argo
qed

lemma v6_prefixes:
  fixes s0 s1 s2 s3 s4 s5 s6 s7 :: nat
  assumes "s1 < 65536" "s2 < 65536" "s3 < 65536" "s4 < 65536" "s5 < 65536" "s6 < 65536" "s7 < 65536"
  defines "x \<equiv> s0 * 2 ^ 112 + s1 * 2 ^ 96 + s2 * 2 ^ 80 + s3 * 2 ^ 64 + s4 * 2 ^ 48 + s5 * 2 ^ 32 + s6 * 2 ^ 16 + s7"
  shows "x div 2 ^ 112 = s0" "x div 2 ^ 96 = s0 * 65536 + s1" "x mod 2 ^ 32 = s6 * 65536 + s7"
    "x div 2 ^ 32 = s0 * 2 ^ 80 + s1 * 2 ^ 64 + s2 * 2 ^ 48 + s3 * 2 ^ 32 + s4 * 2 ^ 16 + s5"
proof -
  define y where "y = s0 * 2 ^ 80 + s1 * 2 ^ 64 + s2 * 2 ^ 48 + s3 * 2 ^ 32 + s4 * 2 ^ 16 + s5"
  have x: "x = y * 2 ^ 32 + (s6 * 65536 + s7)" by (simp add: x_def y_def)
  have "s6 * 65536 + s7 < 2 ^ 32" using assms(6,7) by simp
  then show low: "x mod 2 ^ 32 = s6 * 65536 + s7" and high: "x div 2 ^ 32 = s0 * 2 ^ 80 + s1 * 2 ^ 64 + s2 * 2 ^ 48 + s3 * 2 ^ 32 + s4 * 2 ^ 16 + s5"
    unfolding x y_def [symmetric] by simp_all
  have "s2 * 2 ^ 48 + s3 * 2 ^ 32 + s4 * 2 ^ 16 + s5 < 2 ^ 64" using assms(2-5) by simp
  moreover have "y = (s0 * 65536 + s1) * 2 ^ 64 + (s2 * 2 ^ 48 + s3 * 2 ^ 32 + s4 * 2 ^ 16 + s5)" by (simp add: y_def)
  ultimately have y: "y div 2 ^ 64 = s0 * 65536 + s1" by simp
  have "x div 2 ^ 96 = x div 2 ^ 32 div 2 ^ 64" by (simp add: div_mult2_eq [symmetric])
  then show 96: "x div 2 ^ 96 = s0 * 65536 + s1" using high y by (simp add: y_def)
  have "x div 2 ^ 112 = x div 2 ^ 96 div 65536" by (simp add: div_mult2_eq [symmetric])
  then have "x div 2 ^ 112 = (s0 * 65536 + s1) div 65536" unfolding 96 .
  then show "x div 2 ^ 112 = s0" using assms(1) by simp
qed

lemma masked_prefix:
  fixes w :: "16 word"
  shows "w AND 0xff00 = 0xff00 \<longleftrightarrow> unat w div 256 = 255" "w AND 0xfe00 = 0xfc00 \<longleftrightarrow> unat w div 512 = 126"
    "w AND 0xffc0 = 0xfe80 \<longleftrightarrow> unat w div 64 = 1018"
proof -
  have mask_eq: "w AND NOT (mask n) = push_bit n (drop_bit n w)" for n
    by (rule bit_word_eqI) (auto simp: bit_simps)
  have un: "drop_bit n w = v \<longleftrightarrow> unat w div 2 ^ n = unat v" for n v
    unfolding word_unat_eq_iff unat_drop_bit_eq by (simp add: drop_bit_eq_div)
  have drop_push: "drop_bit n (push_bit n (drop_bit n v)) = drop_bit n v" for n and v :: "16 word"
    by (rule bit_word_eqI) (auto simp: bit_simps dest: bit_imp_le_length)
  have inj: "push_bit n (drop_bit n w) = push_bit n (drop_bit n v) \<longleftrightarrow> drop_bit n w = drop_bit n v" for n and v :: "16 word"
    by (metis drop_push)
  have masks: "(0xff00 :: 16 word) = NOT (mask 8)" "(0xfe00 :: 16 word) = NOT (mask 9)" "(0xffc0 :: 16 word) = NOT (mask 6)"
    by (simp_all add: mask_eq_exp_minus_1)
  have masked: "w AND 0xff00 = push_bit 8 (drop_bit 8 w)" "w AND 0xfe00 = push_bit 9 (drop_bit 9 w)" "w AND 0xffc0 = push_bit 6 (drop_bit 6 w)"
    unfolding masks by (rule mask_eq)+
  show "w AND 0xff00 = 0xff00 \<longleftrightarrow> unat w div 256 = 255"
    unfolding masked using inj [of 8 "0xff00"] un [of 8 "0xff"] by simp
  show "w AND 0xfe00 = 0xfc00 \<longleftrightarrow> unat w div 512 = 126"
    unfolding masked using inj [of 9 "0xfc00"] un [of 9 "126"] by simp
  show "w AND 0xffc0 = 0xfe80 \<longleftrightarrow> unat w div 64 = 1018"
    unfolding masked using inj [of 6 "0xfe80"] un [of 6 "1018"] by simp
qed

lemma v4_value_segments: "v4_value (v4_of_segments s6 s7) = unat s6 * 65536 + unat s7"
proof -
  have hi: "unat (ucast (drop_bit 8 s) :: 8 word) = unat s div 256" for s :: "16 word"
  proof -
    have "unat s div 256 < 256" by (rule less_mult_imp_div_less) simp
    then show ?thesis unfolding unsigned_ucast_eq unat_drop_bit_eq by (simp add: drop_bit_eq_div take_bit_nat_eq_self)
  qed
  have lo: "unat (ucast s :: 8 word) = unat s mod 256" for s :: "16 word"
    by (simp add: unsigned_ucast_eq take_bit_eq_mod)
  have "unat s6 div 256 * 16777216 + unat s6 mod 256 * 65536 = unat s6 * 65536"
    using div_mult_mod_eq [of "unat s6" 256] by linarith
  then show ?thesis
    unfolding v4_of_segments_def v4_value.simps hi unfolding lo by simp
qed

definition in_blocks :: "ip_addr \<Rightarrow> bool" where
  "in_blocks ip = (case ip of
     IpV4 v4 \<Rightarrow> in_blocks_v4 (v4_value v4)
   | IpV6 v6 \<Rightarrow> list_ex (\<lambda>(base, n). same_prefix 128 n (v6_value v6) (v6_value base)) blocks_v6
       \<or> (v6_value v6 div 2 ^ 32 = 0 \<or> v6_value v6 div 2 ^ 32 = 65535) \<and> in_blocks_v4 (v6_value v6 mod 2 ^ 32))"

lemma v6_blocked_blocks: "ip_blocked (IpV6 v6) = in_blocks (IpV6 v6)"
proof (cases v6)
  case (V6 w0 w1 w2 w3 w4 w5 w6 w7)
  define s0 s1 s2 s3 s4 s5 s6 s7 where s: "s0 = unat w0" "s1 = unat w1" "s2 = unat w2" "s3 = unat w3" "s4 = unat w4" "s5 = unat w5" "s6 = unat w6" "s7 = unat w7"
  define x where "x = v6_value v6"
  have x: "x = s0 * 2 ^ 112 + s1 * 2 ^ 96 + s2 * 2 ^ 80 + s3 * 2 ^ 64 + s4 * 2 ^ 48 + s5 * 2 ^ 32 + s6 * 2 ^ 16 + s7"
    unfolding x_def V6 v6_value.simps s ..
  have less: "s1 < 65536" "s2 < 65536" "s3 < 65536" "s4 < 65536" "s5 < 65536" "s6 < 65536" "s7 < 65536" by (simp_all add: s)
  note P = v6_prefixes [OF less, of s0, folded x]
  let ?z = "s0 = 0 \<and> s1 = 0 \<and> s2 = 0 \<and> s3 = 0 \<and> s4 = 0"
  have small: "x = 0 \<longleftrightarrow> ?z \<and> s5 = 0 \<and> s6 = 0 \<and> s7 = 0" "x = 1 \<longleftrightarrow> ?z \<and> s5 = 0 \<and> s6 = 0 \<and> s7 = 1"
  proof -
    have "x = 1 \<longleftrightarrow> x div 2 ^ 32 = 0 \<and> x mod 2 ^ 32 = 1" using div_mult_mod_eq [of x "2 ^ 32"] by auto
    moreover have "s6 * 65536 + s7 = 1 \<longleftrightarrow> s6 = 0 \<and> s7 = 1" using digits_eq [of s7 65536 1 s6 0] less(7) by simp
    ultimately show "x = 1 \<longleftrightarrow> ?z \<and> s5 = 0 \<and> s6 = 0 \<and> s7 = 1" unfolding P(3,4) by auto
    show "x = 0 \<longleftrightarrow> ?z \<and> s5 = 0 \<and> s6 = 0 \<and> s7 = 0" unfolding x by auto
  qed
  have tops: "x div 2 ^ 32 = 0 \<longleftrightarrow> ?z \<and> s5 = 0" "x div 2 ^ 32 = 65535 \<longleftrightarrow> ?z \<and> s5 = 65535"
    unfolding P(4) using digits_eq [of s5 65536 65535 "s0 * 2 ^ 64 + s1 * 2 ^ 48 + s2 * 2 ^ 32 + s3 * 2 ^ 16 + s4" 0] less(5) by auto
  have "x div 2 ^ 120 = x div 2 ^ 112 div 256" "x div 2 ^ 121 = x div 2 ^ 112 div 512" "x div 2 ^ 118 = x div 2 ^ 112 div 64"
    by (simp_all add: div_mult2_eq [symmetric])
  then have pre: "x div 2 ^ 120 = s0 div 256" "x div 2 ^ 121 = s0 div 512" "x div 2 ^ 118 = s0 div 64" unfolding P(1) .
  have doc: "x div 2 ^ 96 = 536939960 \<longleftrightarrow> s0 = 8193 \<and> s1 = 3512"
    unfolding P(2) using digits_eq [of s1 65536 3512 s0 8193] less(1) by simp
  have right: "list_ex (\<lambda>(base, n). same_prefix 128 n x (v6_value base)) blocks_v6 \<longleftrightarrow> x = 1 \<or> x = 0 \<or> x div 2 ^ 120 = 255 \<or> x div 2 ^ 121 = 126
      \<or> x div 2 ^ 118 = 1018 \<or> x div 2 ^ 96 = 536939960"
    by (simp add: blocks_v6_def same_prefix_def)
  have seg: "w = n \<longleftrightarrow> unat w = unat n" for w n :: "16 word" by (rule word_unat_eq_iff)
  have embed: "v4_blocked (v4_of_segments w6 w7) = in_blocks_v4 (x mod 2 ^ 32)"
    unfolding v4_blocked_blocks v4_value_segments P(3) s ..
  have left: "ip_blocked (IpV6 v6) \<longleftrightarrow> (?z \<and> s5 = 0 \<and> s6 = 0 \<and> s7 = 1) \<or> (?z \<and> s5 = 0 \<and> s6 = 0 \<and> s7 = 0) \<or> s0 div 256 = 255 \<or> s0 div 512 = 126
      \<or> s0 div 64 = 1018 \<or> s0 = 8193 \<and> s1 = 3512 \<or> (?z \<and> s5 = 0 \<or> ?z \<and> s5 = 65535) \<and> in_blocks_v4 (x mod 2 ^ 32)"
    unfolding embed [symmetric]
    by (simp add: V6 ip_blocked_def masked_prefix seg [of w0] seg [of w1] seg [of w2] seg [of w3] seg [of w4] seg [of w5] seg [of w6] seg [of w7] flip: s) blast
  show ?thesis
    unfolding left in_blocks_def ip_addr.case x_def [symmetric] right small tops pre doc by argo
qed

lemma ip_blocked_in_blocks: "ip_blocked ip = in_blocks ip"
  by (cases ip) (simp_all add: v6_blocked_blocks, simp add: ip_blocked_def in_blocks_def v4_blocked_blocks)

text \<open>
  C31. The address guard refuses exactly the listed blocks: for version 4 loopback, private, link-local, unspecified, documentation, multicast, carrier-grade
  translation, benchmarking and the reserved top block (with broadcast); for version 6 loopback, unspecified, multicast, unique-local, link-local and
  documentation; and an address of version 6 that embeds one of version 4, mapped or compatible, exactly when the embedded one is refused.
\<close>

theorem ip_blocked_blocks: "ip_blocked ip = in_blocks ip"
  by (rule ip_blocked_in_blocks)

section \<open>The egress proxy\<close>

text \<open>What a client sends, byte by byte: a byte, a failed read, or nothing in time; the end of the list is a closed connection.\<close>

datatype read_event = Byte char | ReadError | ReadTimeout

definition CRLF :: string where "CRLF = [CHR 0x0D, CHR 0x0A]"

definition MAX_HEAD :: nat where "MAX_HEAD = 16 * 1024"

definition DENY :: string where "DENY = ''HTTP/1.1 403 Forbidden'' @ CRLF @ ''Content-Length: 0'' @ CRLF @ CRLF"
definition OK :: string where "OK = ''HTTP/1.1 200 Connection Established'' @ CRLF @ CRLF"
definition BAD :: string where "BAD = ''HTTP/1.1 400 Bad Request'' @ CRLF @ ''Content-Length: 0'' @ CRLF @ CRLF"
definition NOT_IMPLEMENTED :: string where "NOT_IMPLEMENTED = ''HTTP/1.1 501 Not Implemented'' @ CRLF @ ''Content-Length: 0'' @ CRLF @ CRLF"
definition BAD_GATEWAY :: string where "BAD_GATEWAY = ''HTTP/1.1 502 Bad Gateway'' @ CRLF @ ''Content-Length: 0'' @ CRLF @ CRLF"

datatype head_result = Head string | HeadReply string | HeadClosed

fun read_head :: "string \<Rightarrow> read_event list \<Rightarrow> head_result" where
  "read_head head evs =
     (if contains_str (CRLF @ CRLF) head then Head head
      else if MAX_HEAD \<le> length head then HeadReply BAD
      else (case evs of
              [] \<Rightarrow> HeadClosed
            | Byte c # evs \<Rightarrow> read_head (head @ [c]) evs
            | ReadError # _ \<Rightarrow> HeadClosed
            | ReadTimeout # _ \<Rightarrow> HeadReply BAD))"

declare read_head.simps [simp del]

text \<open>\<open>rsplit_once(':')\<close>.\<close>

definition rsplit_once :: "char \<Rightarrow> string \<Rightarrow> (string \<times> string) option" where
  "rsplit_once c s = (if c \<in> set s then Some (rev (tl (dropWhile (\<lambda>x. x \<noteq> c) (rev s))), rev (takeWhile (\<lambda>x. x \<noteq> c) (rev s))) else None)"

text \<open>\<open>str::parse::<u16>\<close>.\<close>

definition parse_u16 :: "string \<Rightarrow> 16 word option" where
  "parse_u16 s =
     (let d = (case s of [] \<Rightarrow> [] | c # r \<Rightarrow> if c = CHR ''+'' then r else s)
      in if d \<noteq> [] \<and> list_all is_ascii_digit d \<and> digits_value d < 2 ^ 16 then Some (of_nat (digits_value d)) else None)"

definition split_host_port :: "string \<Rightarrow> (string \<times> 16 word) option" where
  "split_host_port s =
     (case rsplit_once CHR '':'' s of
        None \<Rightarrow> None
      | Some (host, port) \<Rightarrow>
          (case parse_u16 port of
             None \<Rightarrow> None
           | Some port \<Rightarrow>
               (let host = trim_end_matches CHR '']'' (trim_start_matches CHR ''['' host)
                in if host = [] then None else Some (host, port))))"

definition absolute_uri_host :: "string \<Rightarrow> string option" where
  "absolute_uri_host target =
     (case (case strip_prefix ''http://'' target of Some r \<Rightarrow> Some r | None \<Rightarrow> strip_prefix ''https://'' target) of
        None \<Rightarrow> None
      | Some rest \<Rightarrow>
          (let authority = (case split_on CHR ''/'' rest of a # _ \<Rightarrow> a | [] \<Rightarrow> rest);
               host = (case rsplit_once CHR '':'' authority of Some (h, _) \<Rightarrow> h | None \<Rightarrow> authority);
               host = trim_end_matches CHR '']'' (trim_start_matches CHR ''['' host)
           in if host \<noteq> [] then Some host else None))"

text \<open>The first line of a text, and its white-space separated words.\<close>

definition first_line :: "string \<Rightarrow> string option" where
  "first_line s =
     (if s = [] then None
      else (let l = takeWhile (\<lambda>c. c \<noteq> CHR 0x0A) s
            in if length l < length s \<and> l \<noteq> [] \<and> last l = CHR 0x0D then Some (butlast l) else Some l))"

fun take_word :: "string \<Rightarrow> string \<times> string" where
  "take_word [] = ([], [])"
| "take_word (c # s) = (if 0 < ws_len (map byte (c # s)) then ([], c # s) else (case take_word s of (w, r) \<Rightarrow> (c # w, r)))"

definition next_word :: "string \<Rightarrow> string \<times> string" where
  "next_word s = take_word (trim_start s)"

text \<open>
  \<open>lookup host port\<close> is the answer of \<open>lookup_host\<close>, nothing when it fails or takes too long; \<open>reachable\<close> says whether a connection succeeds. A handler
  gives the bytes written to the client and the address it is tunnelled to.
\<close>

record proxy_ext =
  px_lookup :: "string \<Rightarrow> 16 word \<Rightarrow> ip_addr list option"
  px_reachable :: "ip_addr \<Rightarrow> 16 word \<Rightarrow> bool"
  px_lossy :: "string \<Rightarrow> string"

definition handle_connect :: "proxy_ext \<Rightarrow> string \<Rightarrow> egress_policy \<Rightarrow> string \<times> (ip_addr \<times> 16 word) option" where
  "handle_connect X target policy =
     (case split_host_port target of
        None \<Rightarrow> (BAD, None)
      | Some (host, port) \<Rightarrow>
          (if \<not> is_host_allowed policy host then (DENY, None)
           else (case px_lookup X host port of
                   None \<Rightarrow> (DENY, None)
                 | Some it \<Rightarrow>
                     (let addrs = filter (is_ip_allowed policy) it
                      in if addrs = [] then (DENY, None)
                         else (case find (\<lambda>a. px_reachable X a port) addrs of
                                 None \<Rightarrow> (BAD_GATEWAY, None)
                               | Some a \<Rightarrow> (OK, Some (a, port)))))))"

definition proxy_handle :: "proxy_ext \<Rightarrow> egress_policy \<Rightarrow> read_event list \<Rightarrow> string \<times> (ip_addr \<times> 16 word) option" where
  "proxy_handle X policy client =
     (case read_head [] client of
        HeadClosed \<Rightarrow> ([], None)
      | HeadReply r \<Rightarrow> (r, None)
      | Head head \<Rightarrow>
          (case first_line (px_lossy X head) of
             None \<Rightarrow> (BAD, None)
           | Some request_line \<Rightarrow>
               (case next_word request_line of (meth, rest) \<Rightarrow>
                case next_word rest of (target, _) \<Rightarrow>
                (if eq_ignore_ascii_case meth ''CONNECT'' then handle_connect X target policy
                 else (case absolute_uri_host target of
                         Some host \<Rightarrow> if \<not> is_host_allowed policy host then (DENY, None) else (NOT_IMPLEMENTED, None)
                       | None \<Rightarrow> (BAD, None))))))"

lemma connect_allowed:
  assumes "handle_connect X target p = (out, Some (a, port))"
  shows "out = OK \<and> is_ip_allowed p a
    \<and> (\<exists>host addrs. split_host_port target = Some (host, port) \<and> is_host_allowed p host \<and> px_lookup X host port = Some addrs \<and> a \<in> set addrs)"
  using assms by (auto simp: handle_connect_def Let_def dest!: find_SomeD split: option.splits if_splits)

definition requested_target :: "proxy_ext \<Rightarrow> read_event list \<Rightarrow> string" where
  "requested_target X client = (case read_head [] client of
     Head head \<Rightarrow> (case first_line (px_lossy X head) of Some l \<Rightarrow> fst (next_word (snd (next_word l))) | None \<Rightarrow> [])
   | _ \<Rightarrow> [])"

text \<open>
  The proxy tunnels a connection only when the host named by the request is allowed by the policy, to an address that the host resolved to and that the
  policy allows, and only then tells the client so; every other request leaves with an error reply or a closed connection.
\<close>

theorem proxy_tunnels_allowed:
  assumes "proxy_handle X p client = (out, Some (a, port))"
  shows "out = OK \<and> is_ip_allowed p a \<and> (\<exists>host addrs. split_host_port (requested_target X client) = Some (host, port)
    \<and> is_host_allowed p host \<and> px_lookup X host port = Some addrs \<and> a \<in> set addrs)"
proof -
  have "handle_connect X (requested_target X client) p = (out, Some (a, port))"
    using assms by (auto simp: proxy_handle_def requested_target_def split: head_result.splits option.splits if_splits prod.splits)
  then show ?thesis by (rule connect_allowed)
qed

definition demo_proxy :: proxy_ext where
  "demo_proxy = \<lparr>px_lookup = (\<lambda>h p. Some [IpV4 (V4 10 0 0 7), IpV4 (V4 93 184 215 14)]), px_reachable = (\<lambda>_ _. True), px_lossy = (\<lambda>s. s)\<rparr>"

definition demo_egress :: egress_policy where
  "demo_egress = egress_allow_domains [''b''] egress_deny_all"

definition demo_client :: "read_event list" where
  "demo_client = map Byte (''CONNECT api.b:443'' @ CRLF @ CRLF)"

lemma demo_head: "read_head [] demo_client = Head (''CONNECT api.b:443'' @ CRLF @ CRLF)"
  by (simp add: demo_client_def CRLF_def MAX_HEAD_def read_head.simps starts_with_def)

lemma demo_tunnel: "proxy_handle demo_proxy demo_egress demo_client = (OK, Some (IpV4 (V4 93 184 215 14), 443))"
proof -
  have "next_word ''CONNECT api.b:443'' = (''CONNECT'', '' api.b:443'')" "next_word '' api.b:443'' = (''api.b:443'', [])" by code_simp+
  moreover have "first_line (px_lossy demo_proxy (''CONNECT api.b:443'' @ CRLF @ CRLF)) = Some ''CONNECT api.b:443''"
    by (simp add: demo_proxy_def first_line_def CRLF_def)
  moreover have "parse_u16 ''443'' = Some 443" by (simp add: parse_u16_def digits_value_def is_ascii_digit_def)
  then have "split_host_port ''api.b:443'' = Some (''api.b'', 443)"
    by (simp add: split_host_port_def rsplit_once_def trim_end_matches_def trim_start_matches_def)
  then have "handle_connect demo_proxy ''api.b:443'' demo_egress = (OK, Some (IpV4 (V4 93 184 215 14), 443))"
    by (simp add: handle_connect_def demo_egress_def demo_proxy_def is_host_allowed_def host_allowed_def normal_host_def trim_end_matches_def host_matches_def
        egress_allow_domains_def egress_deny_all_def to_ascii_lowercase_def ascii_lower_def ends_with_def starts_with_def is_ip_allowed_def ip_blocked_def v4_blocked_def)
  ultimately show ?thesis by (simp add: proxy_handle_def demo_head eq_ignore_ascii_case_def)
qed

theorem proxy_tunnels_allowed_witness:
  "is_ip_allowed demo_egress (IpV4 (V4 93 184 215 14))
    \<and> (\<exists>host addrs. split_host_port (requested_target demo_proxy demo_client) = Some (host, 443)
      \<and> is_host_allowed demo_egress host \<and> px_lookup demo_proxy host 443 = Some addrs \<and> IpV4 (V4 93 184 215 14) \<in> set addrs)"
  using proxy_tunnels_allowed [OF demo_tunnel] by blast

end
