(* ===== verification/Web_Fetch.thy ===== *)
theory Web_Fetch
  imports Net_Policy
begin

text \<open>
  The fetch tool (\<open>web/fetch.rs\<close> of \<open>tools\<close>, with \<open>ssrf_check\<close> of \<open>net/policy.rs\<close>): the use limit, the checks of every hop, the redirect loop and the
  reading of the body. Shown are that every request of a fetch goes to an allowed host and, unless the guard is off, only to addresses outside
  the refused blocks, although name resolution is asked twice per hop and may answer differently; that at most six requests are made; and that the
  body is the received text up to the limit.
\<close>

section \<open>Checking a hop\<close>

datatype url_host = HostV4 ipv4 | HostV6 ipv6 | HostDomain string

text \<open>A parsed URL; its parts are what the \<open>url\<close> crate reports.\<close>

record url =
  url_text :: string
  url_scheme :: string
  url_host :: "url_host option"
  url_host_str :: "string option"

text \<open>
  The parameters: parsing and joining URLs, the printed form of an address, name resolution (asked for the \<open>n\<close>-th time), the HTTP client's request
  to one of the given addresses, decoding and conversion of a body, and the arguments.
\<close>

record web_response =
  wr_status :: "16 word"
  wr_location :: "string option"
  wr_content_type :: string
  wr_chunks :: "(string + string) list"

record web_ext =
  wx_args :: "json \<Rightarrow> string + string"
  wx_parse :: "string \<Rightarrow> string + url"
  wx_join :: "url \<Rightarrow> string \<Rightarrow> string + url"
  wx_ip_text :: "ip_addr \<Rightarrow> string"
  wx_lookup :: "nat \<Rightarrow> string \<Rightarrow> string + ip_addr list"
  wx_send :: "nat \<Rightarrow> url \<Rightarrow> ip_addr list \<Rightarrow> string + web_response"
  wx_lossy :: "string \<Rightarrow> string"
  wx_markdown :: "string \<Rightarrow> string \<Rightarrow> string + string"

definition ssrf_denied :: "string \<Rightarrow> tool_error" where
  "ssrf_denied host = ToolDenied (''host `'' @ host @ ''` resolves to a blocked (private/loopback/link-local) address'')"

definition ssrf_check :: "web_ext \<Rightarrow> nat \<Rightarrow> url \<Rightarrow> bool \<Rightarrow> tool_error + unit" where
  "ssrf_check X n u allow_private =
     (if allow_private then Ok ()
      else (case url_host u of
              Some (HostV4 ip) \<Rightarrow> if ip_blocked (IpV4 ip) then Err (ssrf_denied (wx_ip_text X (IpV4 ip))) else Ok ()
            | Some (HostV6 ip) \<Rightarrow> if ip_blocked (IpV6 ip) then Err (ssrf_denied (wx_ip_text X (IpV6 ip))) else Ok ()
            | Some (HostDomain host) \<Rightarrow>
                (case wx_lookup X n host of
                   Inl e \<Rightarrow> Err (ToolOther (''DNS resolution failed for `'' @ host @ ''`: '' @ e))
                 | Inr addrs \<Rightarrow>
                     if list_ex ip_blocked addrs then Err (ssrf_denied host)
                     else if addrs = [] then Err (ToolOther (''no addresses resolved for `'' @ host @ ''`''))
                     else Ok ())
            | None \<Rightarrow> Err (ToolDenied ''URL has no host'')))"

section \<open>The tool\<close>

record web_fetch_tool =
  wf_max_body_bytes :: nat
  wf_allow_domains :: "string list option"
  wf_deny_domains :: "string list"
  wf_allow_private_ips :: bool
  wf_max_uses :: "nat option"

definition MAX_REDIRECTS :: nat where "MAX_REDIRECTS = 5"

definition USES_KEY :: string where "USES_KEY = ''paigasus_helikon_tools::web_fetch::uses''"

definition web_fetch_default :: web_fetch_tool where
  "web_fetch_default = \<lparr>wf_max_body_bytes = 5 * 2 ^ 20, wf_allow_domains = None, wf_deny_domains = [], wf_allow_private_ips = False, wf_max_uses = None\<rparr>"

definition wf_with_allow_domains :: "string list \<Rightarrow> web_fetch_tool \<Rightarrow> web_fetch_tool" where
  "wf_with_allow_domains hosts t = t\<lparr>wf_allow_domains := if hosts \<noteq> [] then Some hosts else None\<rparr>"

definition wf_with_deny_domains :: "string list \<Rightarrow> web_fetch_tool \<Rightarrow> web_fetch_tool" where
  "wf_with_deny_domains hosts t = t\<lparr>wf_deny_domains := hosts\<rparr>"

definition vet :: "web_ext \<Rightarrow> web_fetch_tool \<Rightarrow> nat \<Rightarrow> url \<Rightarrow> tool_error + unit" where
  "vet X t n u =
     (if url_scheme u \<noteq> ''http'' \<and> url_scheme u \<noteq> ''https'' then Err (ToolDenied ''only http/https URLs are supported'')
      else (case url_host_str u of
              None \<Rightarrow> Err (ToolDenied ''URL has no host'')
            | Some host \<Rightarrow>
                if \<not> host_allowed host (wf_allow_domains t) (wf_deny_domains t)
                then Err (ToolDenied (''host `'' @ host @ ''` is blocked by the domain allow/deny list''))
                else ssrf_check X n u (wf_allow_private_ips t)))"

fun read_capped_body :: "nat \<Rightarrow> string \<Rightarrow> (string + string) list \<Rightarrow> tool_error + string \<times> bool" where
  "read_capped_body limit body [] = Ok (body, False)"
| "read_capped_body limit body (Inl e # _) = Err (ToolOther (''body read failed: '' @ e))"
| "read_capped_body limit body (Inr chunk # rest) =
     (if limit < length body + length chunk then Ok (body @ take (limit - length body) chunk, True)
      else read_capped_body limit (body @ chunk) rest)"

definition is_textual :: "string \<Rightarrow> bool" where
  "is_textual lower \<longleftrightarrow> lower = [] \<or> starts_with ''text/'' lower \<or> contains_str ''application/json'' lower
     \<or> contains_str ''application/xml'' lower \<or> contains_str ''+json'' lower \<or> contains_str ''+xml'' lower"

definition wf_finish :: "web_ext \<Rightarrow> web_fetch_tool \<Rightarrow> web_response \<Rightarrow> url \<Rightarrow> tool_error + json" where
  "wf_finish X t resp final_url =
     (case read_capped_body (wf_max_body_bytes t) [] (wr_chunks resp) of
        Inl e \<Rightarrow> Err e
      | Inr (body, truncated) \<Rightarrow>
          (let content_type = wr_content_type resp; lower = to_ascii_lowercase content_type;
               r = (if contains_str ''text/html'' lower \<or> contains_str ''application/xhtml'' lower
                    then (case wx_markdown X (wx_lossy X body) (url_text final_url) of
                            Inl e \<Rightarrow> Err (ToolOther e)
                          | Inr md \<Rightarrow> Ok (md, ''markdown''))
                    else if is_textual lower then Ok (wx_lossy X body, ''text'')
                    else Err (ToolDenied (''unsupported non-text content type: '' @ content_type)))
           in case r of
                Inl e \<Rightarrow> Err e
              | Inr (content, fmt) \<Rightarrow>
                  Ok (JObject [(''url'', JString (url_text final_url)), (''status'', JNumber (show_nat (unat (wr_status resp)))),
                    (''content_type'', JString content_type), (''content'', JString content), (''format'', JString fmt),
                    (''truncated'', JBool truncated)])))"

text \<open>
  The client's connection: a literal address is used as it is, a name goes through the guarded resolver, which is asked again. A hop gives the
  request it makes, if any, with the addresses it may connect to.
\<close>

definition connect_addrs :: "web_ext \<Rightarrow> web_fetch_tool \<Rightarrow> nat \<Rightarrow> url \<Rightarrow> string + ip_addr list" where
  "connect_addrs X t n u =
     (case url_host u of
        Some (HostV4 ip) \<Rightarrow> Ok [IpV4 ip]
      | Some (HostV6 ip) \<Rightarrow> Ok [IpV6 ip]
      | Some (HostDomain host) \<Rightarrow> guarded_resolve (wf_allow_private_ips t) host (wx_lookup X n host)
      | None \<Rightarrow> Err ''no host'')"

definition is_redirection :: "16 word \<Rightarrow> bool" where
  "is_redirection s \<longleftrightarrow> 300 \<le> unat s \<and> unat s < 400"

fun fetch_loop :: "web_ext \<Rightarrow> web_fetch_tool \<Rightarrow> nat \<Rightarrow> nat \<Rightarrow> url \<Rightarrow> (tool_error + json) \<times> (url \<times> ip_addr list) list" where
  "fetch_loop X t 0 hop u = (Err (ToolDenied (''too many redirects (> '' @ show_nat MAX_REDIRECTS @ '')'')), [])"
| "fetch_loop X t (Suc left) hop u =
     (case vet X t (2 * hop) u of
        Inl e \<Rightarrow> (Err e, [])
      | Inr _ \<Rightarrow>
          (case connect_addrs X t (2 * hop + 1) u of
             Inl e \<Rightarrow> (Err (ToolOther (''request failed: '' @ e)), [])
           | Inr addrs \<Rightarrow>
               (case wx_send X hop u addrs of
                  Inl e \<Rightarrow> (Err (ToolOther (''request failed: '' @ e)), [(u, addrs)])
                | Inr resp \<Rightarrow>
                    if is_redirection (wr_status resp)
                    then (case wr_location resp of
                            None \<Rightarrow> (Err (ToolOther ''redirect without Location''), [(u, addrs)])
                          | Some location \<Rightarrow>
                              (case wx_join X u location of
                                 Inl e \<Rightarrow> (Err (ToolDenied (''invalid redirect target: '' @ e)), [(u, addrs)])
                               | Inr u' \<Rightarrow> (case fetch_loop X t left (hop + 1) u' of (r, reqs) \<Rightarrow> (r, (u, addrs) # reqs))))
                    else (wf_finish X t resp u, [(u, addrs)]))))"

definition web_fetch :: "web_ext \<Rightarrow> web_fetch_tool \<Rightarrow> json \<Rightarrow> kv \<Rightarrow> (tool_error + json) \<times> (url \<times> ip_addr list) list \<times> kv" where
  "web_fetch X t args st =
     (case wx_args X args of
        Inl e \<Rightarrow> (Err (InvalidArgs [e]), [], st)
      | Inr raw \<Rightarrow>
          (case (case wf_max_uses t of None \<Rightarrow> (True, st) | Some mx \<Rightarrow> increment_u64_if_below USES_KEY (of_nat mx) st) of
             (admitted, st) \<Rightarrow>
               (if \<not> admitted
                then (Err (ToolDenied (''WebFetch use limit reached ('' @ show_nat (the (wf_max_uses t)) @ '' fetches per run)'')), [], st)
                else (case wx_parse X raw of
                        Inl e \<Rightarrow> (Err (ToolDenied (''invalid URL: '' @ e)), [], st)
                      | Inr u \<Rightarrow> (case fetch_loop X t (MAX_REDIRECTS + 1) 0 u of (r, reqs) \<Rightarrow> (r, reqs, st))))))"

section \<open>Only allowed requests\<close>

definition request_ok :: "web_fetch_tool \<Rightarrow> url \<times> ip_addr list \<Rightarrow> bool" where
  "request_ok t r = (case r of (u, addrs) \<Rightarrow>
     (url_scheme u = ''http'' \<or> url_scheme u = ''https'')
     \<and> (case url_host_str u of Some h \<Rightarrow> host_allowed h (wf_allow_domains t) (wf_deny_domains t) | None \<Rightarrow> False)
     \<and> (wf_allow_private_ips t \<or> list_all (\<lambda>a. \<not> in_blocks a) addrs))"

lemma vetted_connect:
  assumes "vet X t n u = Inr x" "connect_addrs X t m u = Inr addrs"
  shows "request_ok t (u, addrs)"
proof -
  have "wf_allow_private_ips t \<or> list_all (\<lambda>a. \<not> in_blocks a) addrs"
    using assms by (auto simp: vet_def ssrf_check_def connect_addrs_def guarded_resolve_def Let_def list_all_iff ip_blocked_in_blocks
        split: if_splits option.splits url_host.splits sum.splits)
  then show ?thesis using assms(1) by (auto simp: request_ok_def vet_def split: if_splits option.splits)
qed

lemma fetch_loop_guarded: "list_all (request_ok t) (snd (fetch_loop X t n hop u)) \<and> length (snd (fetch_loop X t n hop u)) \<le> n"
proof (induction n arbitrary: hop u)
  case (Suc n)
  show ?case
  proof (cases "vet X t (2 * hop) u")
    case (Inr x)
    then show ?thesis
    proof (cases "connect_addrs X t (2 * hop + 1) u")
      case Inr2: (Inr addrs)
      have ok: "request_ok t (u, addrs)" using vetted_connect [OF Inr Inr2] .
      then show ?thesis using Inr Inr2 Suc.IH [of "hop + 1"] by (simp split: sum.split option.split prod.split) (metis snd_conv)
    qed simp
  qed simp
qed simp

text \<open>
  C32. Every request a fetch makes is for an http or https URL whose host passes the lists and, unless the guard is switched off, can connect only to
  addresses outside the refused blocks, whatever the resolver answers to the check and to the connection; a fetch makes at most six requests.
\<close>

theorem web_fetch_guarded:
  "list_all (request_ok t) (fst (snd (web_fetch X t args st))) \<and> length (fst (snd (web_fetch X t args st))) \<le> 6"
proof -
  have "list_all (request_ok t) (snd (fetch_loop X t (MAX_REDIRECTS + 1) 0 u)) \<and> length (snd (fetch_loop X t (MAX_REDIRECTS + 1) 0 u)) \<le> 6" for u
    using fetch_loop_guarded [where n = "MAX_REDIRECTS + 1"] by (simp add: MAX_REDIRECTS_def del: fetch_loop.simps)
  then show ?thesis
    by (simp add: web_fetch_def split: sum.split prod.split del: fetch_loop.simps) (metis snd_conv)
qed

lemma read_capped_prefix:
  "length body \<le> limit \<Longrightarrow> read_capped_body limit body (map Inr cs) = Inr (take limit (body @ concat cs), limit < length (body @ concat cs))"
proof (induction cs arbitrary: body)
  case (Cons c cs)
  show ?case
  proof (cases "limit < length body + length c")
    case False
    then show ?thesis using Cons.IH [of "body @ c"] by simp
  qed (simp add: Cons.prems)
qed simp

text \<open>A body that is received completely is kept up to the limit, and is marked truncated exactly when something was cut off.\<close>

theorem body_capped:
  "read_capped_body limit [] (map Inr cs) = Inr (take limit (concat cs), limit < length (concat cs))"
  using read_capped_prefix [of "[]" limit cs] by simp

text \<open>
  The use limit: when the counter of the run has reached the limit, a fetch is refused, makes no request and leaves the state; otherwise an accepted
  call spends exactly one use before anything is sent.
\<close>

theorem use_limit:
  assumes "wf_max_uses t = Some mx" "mx < 2 ^ 64" "wx_args X args = Inr raw"
  shows "case web_fetch X t args st of (r, reqs, st') \<Rightarrow>
    if mx \<le> unat (counter st USES_KEY) then (\<exists>why. r = Err (ToolDenied why)) \<and> reqs = [] \<and> st' = st
    else unat (counter st' USES_KEY) = unat (counter st USES_KEY) + 1"
proof -
  have lt: "counter st USES_KEY < of_nat mx \<longleftrightarrow> unat (counter st USES_KEY) < mx"
    using assms(2) by (simp add: word_less_nat_alt unat_of_nat take_bit_nat_eq_self)
  have "unat (counter st USES_KEY + 1) = unat (counter st USES_KEY) + 1" if "unat (counter st USES_KEY) < mx"
    using u64_succ [of "counter st USES_KEY" "of_nat mx"] lt that by simp
  then show ?thesis
    using assms(1,3) lt
    by (auto simp: web_fetch_def increment_u64_if_below_def counter_def Let_def simp del: fetch_loop.simps split: sum.splits prod.splits)
qed

end
