(* ===== verification/Local_Tools.thy ===== *)
theory Local_Tools
  imports Redaction Command_Match Messages
begin

text \<open>
  The local tools (\<open>sandbox.rs\<close>, \<open>read.rs\<close>, \<open>write.rs\<close>, \<open>edit.rs\<close> and \<open>bash.rs\<close> of \<open>tools\<close>): the path guard, reading a window of lines, writing,
  exact replacement, and the shell tool with its command lists. The capability directory and the execution backend are parameters. Shown are
  that no path outside the sandbox root is ever passed on, that an edit replaces exactly one occurrence and otherwise changes nothing, and that a denied
  program never runs however its name is spelled.
\<close>

section \<open>Paths\<close>

datatype component = RootDir | CurDir | ParentDir | Normal string

text \<open>\<open>Path::components\<close> on Unix: repeated separators and inner dots vanish.\<close>

definition piece_component :: "string \<Rightarrow> component option" where
  "piece_component s = (if s = [] \<or> s = ''.'' then None else if s = ''..'' then Some ParentDir else Some (Normal s))"

definition components :: "string \<Rightarrow> component list" where
  "components p =
     (if starts_with ''/'' p then RootDir # List.map_filter piece_component (split_on CHR ''/'' p)
      else (case split_on CHR ''/'' p of
              [] \<Rightarrow> []
            | first # rest \<Rightarrow> (if first = ''.'' then [CurDir] else List.map_filter piece_component [first]) @ List.map_filter piece_component rest))"

definition escapes :: "component \<Rightarrow> bool" where
  "escapes c \<longleftrightarrow> c = ParentDir \<or> c = RootDir"

definition guard_relative :: "string \<Rightarrow> string + component list" where
  "guard_relative path =
     (if list_ex escapes (components path) then Err (''path escapes the sandbox root: '' @ path) else Ok (components path))"

section \<open>The directory\<close>

text \<open>What the tools use of a \<open>cap_std\<close> directory: reading, writing and creating directories, on a state of the file system. A failure is its message, and may leave a changed state.\<close>

datatype io_kind = NotFound | InvalidData | OtherIo

record 'fs dir_ops =
  d_read :: "'fs \<Rightarrow> component list \<Rightarrow> (io_kind \<times> string) + string"
  d_write :: "component list \<Rightarrow> string \<Rightarrow> 'fs \<Rightarrow> string option \<times> 'fs"
  d_create_dir_all :: "component list \<Rightarrow> 'fs \<Rightarrow> string option \<times> 'fs"

section \<open>Reading\<close>

record read_args =
  ra_path :: string
  ra_offset :: "u64 option"
  ra_limit :: "u64 option"

definition map_read_error :: "string \<Rightarrow> io_kind \<times> string \<Rightarrow> tool_error" where
  "map_read_error path e = (case e of
     (NotFound, _) \<Rightarrow> ToolOther (''no such file: '' @ path)
   | (InvalidData, _) \<Rightarrow> ToolDenied (''file is not valid UTF-8: '' @ path)
   | (OtherIo, m) \<Rightarrow> ToolDenied (''cannot read '' @ path @ '': '' @ m))"

text \<open>\<open>str::lines\<close>: a line feed ends a line, with a carriage return directly before it.\<close>

definition strip_line_end :: "string \<Rightarrow> string" where
  "strip_line_end l =
     (if l \<noteq> [] \<and> last l = CHR 0x0A
      then (let l = butlast l in if l \<noteq> [] \<and> last l = CHR 0x0D then butlast l else l)
      else l)"

definition text_lines :: "string \<Rightarrow> string list" where
  "text_lines s = map strip_line_end (split_lines s)"

definition window :: "string \<Rightarrow> u64 option \<Rightarrow> u64 option \<Rightarrow> string" where
  "window s offset limit =
     (if offset = None \<and> limit = None then s
      else (let start = unat (case offset of Some n \<Rightarrow> n | None \<Rightarrow> 1) - 1;
                rest = drop start (text_lines s)
            in join_with [CHR 0x0A] (case limit of Some n \<Rightarrow> take (unat n) rest | None \<Rightarrow> rest)))"

definition read_tool :: "'fs dir_ops \<Rightarrow> string + read_args \<Rightarrow> 'fs \<Rightarrow> tool_error + json" where
  "read_tool D parsed fs =
     (case parsed of
        Inl e \<Rightarrow> Err (InvalidArgs [e])
      | Inr args \<Rightarrow>
          (case guard_relative (ra_path args) of
             Inl reason \<Rightarrow> Err (ToolDenied reason)
           | Inr rel \<Rightarrow>
               (case d_read D fs rel of
                  Inl e \<Rightarrow> Err (map_read_error (ra_path args) e)
                | Inr s \<Rightarrow> Ok (JObject [(''content'', JString (window s (ra_offset args) (ra_limit args)))]))))"

section \<open>Writing\<close>

record write_args =
  wa_path :: string
  wa_content :: string

definition write_tool :: "'fs dir_ops \<Rightarrow> string + write_args \<Rightarrow> 'fs \<Rightarrow> (tool_error + json) \<times> 'fs" where
  "write_tool D parsed fs =
     (case parsed of
        Inl e \<Rightarrow> (Err (InvalidArgs [e]), fs)
      | Inr args \<Rightarrow>
          (case guard_relative (wa_path args) of
             Inl reason \<Rightarrow> (Err (ToolDenied reason), fs)
           | Inr rel \<Rightarrow>
               (let denied = (\<lambda>m. Err (ToolDenied (''cannot write '' @ wa_path args @ '': '' @ m)))
                in case (if butlast rel \<noteq> [] then d_create_dir_all D (butlast rel) fs else (None, fs)) of
                     (Some m, fs1) \<Rightarrow> (denied m, fs1)
                   | (None, fs1) \<Rightarrow>
                       (case d_write D rel (wa_content args) fs1 of
                          (Some m, fs2) \<Rightarrow> (denied m, fs2)
                        | (None, fs2) \<Rightarrow> (Ok (JObject [(''path'', JString (wa_path args)),
                            (''bytes_written'', JNumber (show_nat (length (wa_content args))))]), fs2)))))"

section \<open>Editing\<close>

record edit_args =
  ea_path :: string
  ea_old_string :: string
  ea_new_string :: string
  ea_replace_all :: bool

text \<open>\<open>matches(..).count()\<close> and \<open>replacen(.., 1)\<close> for a pattern that is not empty.\<close>

function count_matches :: "string \<Rightarrow> string \<Rightarrow> nat" where
  "count_matches pat s =
     (if pat = [] then 0
      else (case s of
          [] \<Rightarrow> 0
        | c # cs \<Rightarrow> (case strip_prefix pat s of
              Some r \<Rightarrow> 1 + count_matches pat r
            | None \<Rightarrow> count_matches pat cs)))"
  by pat_completeness auto
termination
  by (relation "measure (\<lambda>(_, s). length s)") (auto simp: strip_prefix_eq)

declare count_matches.simps [simp del]

fun replace_first :: "string \<Rightarrow> string \<Rightarrow> string \<Rightarrow> string" where
  "replace_first pat rep [] = []"
| "replace_first pat rep (c # cs) = (case strip_prefix pat (c # cs) of Some r \<Rightarrow> rep @ r | None \<Rightarrow> c # replace_first pat rep cs)"

definition edit_tool :: "'fs dir_ops \<Rightarrow> string + edit_args \<Rightarrow> 'fs \<Rightarrow> (tool_error + json) \<times> 'fs" where
  "edit_tool D parsed fs =
     (case parsed of
        Inl e \<Rightarrow> (Err (InvalidArgs [e]), fs)
      | Inr args \<Rightarrow>
          (case guard_relative (ea_path args) of
             Inl reason \<Rightarrow> (Err (ToolDenied reason), fs)
           | Inr rel \<Rightarrow>
               (if ea_old_string args = [] then (Err (ToolDenied ''old_string must not be empty''), fs)
                else (case d_read D fs rel of
                        Inl (NotFound, _) \<Rightarrow> (Err (ToolOther (''no such file: '' @ ea_path args)), fs)
                      | Inl (_, m) \<Rightarrow> (Err (ToolDenied (''cannot read '' @ ea_path args @ '' for edit: '' @ m)), fs)
                      | Inr original \<Rightarrow>
                          (let count = count_matches (ea_old_string args) original
                           in if count = 0 then (Err (ToolDenied (''old_string not found in '' @ ea_path args)), fs)
                              else if 1 < count \<and> \<not> ea_replace_all args
                              then (Err (ToolDenied ''old_string is not unique; pass replace_all or add context''), fs)
                              else (let updated = (if ea_replace_all args then replace_all (ea_old_string args) (ea_new_string args) original
                                        else replace_first (ea_old_string args) (ea_new_string args) original)
                                    in case d_write D rel updated fs of
                                         (Some m, fs') \<Rightarrow> (Err (ToolDenied (''cannot write '' @ ea_path args @ '': '' @ m)), fs')
                                       | (None, fs') \<Rightarrow> (Ok (JObject [(''path'', JString (ea_path args)), (''replacements'', JNumber (show_nat count))]), fs')))))))"

section \<open>The shell tool\<close>

record exec_output =
  xo_stdout :: string
  xo_stderr :: string
  xo_exit_code :: "int option"
  xo_timed_out :: bool
  xo_truncated :: bool

record bash_tool =
  bt_deny_commands :: "string list"
  bt_allow_commands :: "string list option"

definition check_command_allowed :: "bash_tool \<Rightarrow> string \<Rightarrow> tool_error + unit" where
  "check_command_allowed t command =
     (let programs = map rc_program (resolve_all command)
      in case find (\<lambda>p. p \<in> set (bt_deny_commands t)) programs of
           Some bad \<Rightarrow> Err (ToolDenied (''command `'' @ bad @ ''` is blocked by the deny list''))
         | None \<Rightarrow>
             (case bt_allow_commands t of
                None \<Rightarrow> Ok ()
              | Some allow \<Rightarrow>
                  (case find (\<lambda>p. p \<notin> set allow) programs of
                     Some bad \<Rightarrow> Err (ToolDenied (''command `'' @ bad @ ''` is not in the allow list''))
                   | None \<Rightarrow> Ok ())))"

text \<open>\<open>run\<close> is the backend; the second result is the command it was given, if any.\<close>

definition show_int :: "int \<Rightarrow> string" where
  "show_int i = (if i < 0 then ''-'' @ show_nat (nat (- i)) else show_nat (nat i))"

definition bash_invoke :: "(string \<Rightarrow> tool_error + exec_output) \<Rightarrow> bash_tool \<Rightarrow> string + string \<Rightarrow> (tool_error + json) \<times> string option" where
  "bash_invoke run t parsed =
     (case parsed of
        Inl e \<Rightarrow> (Err (InvalidArgs [e]), None)
      | Inr command \<Rightarrow>
          (case check_command_allowed t command of
             Inl e \<Rightarrow> (Err e, None)
           | Inr _ \<Rightarrow>
               (case run command of
                  Inl e \<Rightarrow> (Err e, Some command)
                | Inr out \<Rightarrow> (Ok (JObject [(''stdout'', JString (xo_stdout out)), (''stderr'', JString (xo_stderr out)),
                    (''exit_code'', case xo_exit_code out of Some c \<Rightarrow> JNumber (show_int c) | None \<Rightarrow> JNull),
                    (''timed_out'', JBool (xo_timed_out out)), (''truncated'', JBool (xo_truncated out))]), Some command))))"

section \<open>Confinement\<close>

definition inside :: "component list \<Rightarrow> bool" where
  "inside p \<longleftrightarrow> \<not> list_ex escapes p"

text \<open>Two directories that cannot be told apart by paths inside the root.\<close>

definition same_inside :: "'fs dir_ops \<Rightarrow> 'fs dir_ops \<Rightarrow> bool" where
  "same_inside D D' \<longleftrightarrow> (\<forall>p. inside p \<longrightarrow> (\<forall>fs. d_read D fs p = d_read D' fs p) \<and> d_write D p = d_write D' p
     \<and> d_create_dir_all D p = d_create_dir_all D' p)"

lemma guard_inside: "guard_relative path = Inr rel \<Longrightarrow> inside rel \<and> inside (butlast rel)"
  by (auto simp: guard_relative_def inside_def list_ex_iff dest: in_set_butlastD split: if_splits)

text \<open>
  The file tools never use a path that is absolute or has a parent component: what they return and what they do to the file system is the same for two
  directories that agree on the paths inside the root, whatever the arguments are.
\<close>

theorem file_tools_confined:
  assumes "same_inside D D'"
  shows "read_tool D ra fs = read_tool D' ra fs \<and> write_tool D wa fs = write_tool D' wa fs \<and> edit_tool D ea fs = edit_tool D' ea fs"
proof -
  have eq: "d_read D fs rel = d_read D' fs rel" "d_write D rel = d_write D' rel" "d_create_dir_all D (butlast rel) = d_create_dir_all D' (butlast rel)"
    if "guard_relative path = Inr rel" for path rel fs
    using guard_inside [OF that] assms by (auto simp: same_inside_def)
  have "read_tool D ra fs = read_tool D' ra fs" by (auto simp: read_tool_def eq split: sum.split)
  moreover have "write_tool D wa fs = write_tool D' wa fs" by (auto simp: write_tool_def eq Let_def split: sum.split prod.split option.split)
  moreover have "edit_tool D ea fs = edit_tool D' ea fs" by (auto simp: edit_tool_def eq Let_def split: sum.split)
  ultimately show ?thesis by blast
qed

section \<open>Edits\<close>

lemma count_matches_simps:
  assumes "pat \<noteq> []"
  shows "count_matches pat [] = 0" "count_matches pat (pat @ r) = Suc (count_matches pat r)"
    "strip_prefix pat (c # cs) = None \<Longrightarrow> count_matches pat (c # cs) = count_matches pat cs"
proof -
  show "count_matches pat [] = 0" by (simp add: count_matches.simps)
  show "strip_prefix pat (c # cs) = None \<Longrightarrow> count_matches pat (c # cs) = count_matches pat cs"
    using assms by (simp add: count_matches.simps [of pat "c # cs"])
  obtain d ds where d: "pat @ r = d # ds" using assms by (cases pat) auto
  have "strip_prefix pat (d # ds) = Some r" by (simp flip: d)
  then show "count_matches pat (pat @ r) = Suc (count_matches pat r)" using assms by (simp add: count_matches.simps [of pat "d # ds"] d)
qed

lemma count_matches_zero: "pat \<noteq> [] \<Longrightarrow> count_matches pat s = 0 \<longleftrightarrow> \<not> sublist pat s"
proof (induction s rule: length_induct)
  case (1 s)
  show ?case
  proof (cases s)
    case (Cons c cs)
    show ?thesis
    proof (cases "strip_prefix pat s")
      case None
      then have "\<not> prefix pat s" by (auto simp: prefix_def strip_prefix_eq)
      then show ?thesis using 1 None Cons by (simp add: count_matches_simps(3) sublist_Cons_right)
    next
      case (Some r)
      then have "s = pat @ r" by (simp add: strip_prefix_eq)
      then show ?thesis using 1(2) count_matches_simps(2) by auto
    qed
  qed (use 1(2) in \<open>simp add: count_matches_simps(1)\<close>)
qed

text \<open>The first match and what stands before and after it.\<close>

lemma replace_first_split:
  assumes "pat \<noteq> []" "0 < count_matches pat s"
  obtains pre post where "s = pre @ pat @ post" "replace_first pat rep s = pre @ rep @ post" "count_matches pat s = Suc (count_matches pat post)"
    "\<not> sublist pat pre"
proof -
  have "\<exists>pre post. s = pre @ pat @ post \<and> replace_first pat rep s = pre @ rep @ post \<and> count_matches pat s = Suc (count_matches pat post)
      \<and> (\<forall>a b. pre = a @ pat @ b \<longrightarrow> False)"
    using assms(2)
  proof (induction s)
    case (Cons c cs)
    show ?case
    proof (cases "strip_prefix pat (c # cs)")
      case (Some r)
      then have eq: "c # cs = pat @ r" by (simp add: strip_prefix_eq)
      have "replace_first pat rep (c # cs) = rep @ r" using Some by simp
      then show ?thesis
        unfolding eq using assms(1) count_matches_simps(2) [OF assms(1), of r] by - (rule exI [of _ "[]"], rule exI [of _ r], simp)
    next
      case None
      then have "0 < count_matches pat cs" using Cons.prems assms(1) by (simp add: count_matches_simps(3))
      with Cons.IH obtain pre post where p: "cs = pre @ pat @ post" "replace_first pat rep cs = pre @ rep @ post"
        "count_matches pat cs = Suc (count_matches pat post)" "\<forall>a b. pre = a @ pat @ b \<longrightarrow> False"
        by blast
      have "False" if "c # pre = a @ pat @ b" for a b
      proof (cases a)
        case Nil
        then have "c # cs = pat @ b @ pat @ post" using that p(1) by simp
        then show False using None by (metis option.distinct(1) strip_prefix_eq)
      next
        case (Cons x a')
        then show False using that p(4) by auto
      qed
      moreover have "count_matches pat (c # cs) = count_matches pat cs" "replace_first pat rep (c # cs) = c # replace_first pat rep cs"
        using None assms(1) by (simp_all add: count_matches_simps(3))
      ultimately show ?thesis using p by - (rule exI [of _ "c # pre"], rule exI [of _ post], auto)
    qed
  qed (simp add: count_matches_simps(1) [OF assms(1)])
  then show thesis using that by (metis sublist_def)
qed

text \<open>
  A successful edit of one occurrence: the file held the old string, the new content has the new string in the place of its first
  occurrence, and neither the text before nor the text after holds the old string.
\<close>

theorem edit_replaces_one:
  assumes "edit_tool D (Inr a) fs = (Ok r, fs')" "\<not> ea_replace_all a"
  shows "\<exists>rel pre post. guard_relative (ea_path a) = Ok rel \<and> d_read D fs rel = Ok (pre @ ea_old_string a @ post)
    \<and> d_write D rel (pre @ ea_new_string a @ post) fs = (None, fs') \<and> \<not> sublist (ea_old_string a) pre \<and> \<not> sublist (ea_old_string a) post"
proof -
  obtain rel s where g: "guard_relative (ea_path a) = Inr rel" "ea_old_string a \<noteq> []" "d_read D fs rel = Inr s" "count_matches (ea_old_string a) s = 1"
      "d_write D rel (replace_first (ea_old_string a) (ea_new_string a) s) fs = (None, fs')"
    using assms by (auto simp: edit_tool_def Let_def split: sum.splits if_splits io_kind.splits prod.splits option.splits)
  obtain pre post where p: "s = pre @ ea_old_string a @ post" "replace_first (ea_old_string a) (ea_new_string a) s = pre @ ea_new_string a @ post"
      "count_matches (ea_old_string a) s = Suc (count_matches (ea_old_string a) post)" "\<not> sublist (ea_old_string a) pre"
    using replace_first_split [OF g(2)] g(4) by (metis zero_less_one)
  have "\<not> sublist (ea_old_string a) post" using p(3) g(2,4) count_matches_zero by simp
  then show ?thesis using g p by (intro exI [of _ rel] exI [of _ pre] exI [of _ post]) simp
qed

text \<open>Occurrences that overlap are counted once, so an old string that occurs twice can pass as unique.\<close>

lemma overlapping_counted_once: "count_matches ''aba'' ''ababa'' = 1"
  by (simp add: count_matches.simps)

definition demo_dir :: "(component list \<Rightarrow> string option) dir_ops" where
  "demo_dir = \<lparr>d_read = (\<lambda>fs p. case fs p of Some s \<Rightarrow> Ok s | None \<Rightarrow> Err (NotFound, ''not found'')),
     d_write = (\<lambda>p s fs. (None, fs(p \<mapsto> s))), d_create_dir_all = (\<lambda>p fs. (None, fs))\<rparr>"

theorem file_tools_confined_witness:
  "write_tool (demo_dir\<lparr>d_write := (\<lambda>p s fs. if inside p then (None, fs(p \<mapsto> s)) else (Some ''escaped'', Map.empty))\<rparr>)
      (Inr \<lparr>wa_path = ''a/../../b'', wa_content = ''x''\<rparr>) Map.empty
    = write_tool demo_dir (Inr \<lparr>wa_path = ''a/../../b'', wa_content = ''x''\<rparr>) Map.empty"
  by (rule file_tools_confined [THEN conjunct2, THEN conjunct1]) (simp add: same_inside_def demo_dir_def fun_eq_iff)

theorem edit_replaces_one_witness:
  "\<exists>rel pre post. guard_relative ''f'' = Ok rel \<and> d_read demo_dir [[Normal ''f''] \<mapsto> ''one two''] rel = Ok (pre @ ''two'' @ post)
    \<and> fst (d_write demo_dir rel (pre @ ''2'' @ post) [[Normal ''f''] \<mapsto> ''one two'']) = None \<and> \<not> sublist ''two'' pre \<and> \<not> sublist ''two'' post"
proof -
  let ?a = "\<lparr>ea_path = ''f'', ea_old_string = ''two'', ea_new_string = ''2'', ea_replace_all = False\<rparr>"
  let ?fs = "[[Normal ''f''] \<mapsto> ''one two'']"
  have "guard_relative ''f'' = Ok [Normal ''f'']"
    by (simp add: guard_relative_def components_def starts_with_def piece_component_def map_filter_simps escapes_def)
  moreover have "count_matches ''two'' ''one two'' = 1" by (simp add: count_matches.simps)
  ultimately obtain r fs' where e: "edit_tool demo_dir (Inr ?a) ?fs = (Ok r, fs')"
    unfolding edit_tool_def demo_dir_def by simp
  from edit_replaces_one [OF e] obtain rel pre post where "guard_relative ''f'' = Ok rel" "d_read demo_dir ?fs rel = Ok (pre @ ''two'' @ post)"
      "d_write demo_dir rel (pre @ ''2'' @ post) ?fs = (None, fs')" "\<not> sublist ''two'' pre" "\<not> sublist ''two'' post"
    unfolding edit_args.simps by blast
  then show ?thesis by - (rule exI [of _ rel], rule exI [of _ pre], rule exI [of _ post], simp only: fst_conv simp_thms)
qed

section \<open>Denied commands\<close>

text \<open>The backend is given a command exactly when no program of it is denied and, with an allow list, all of them are listed.\<close>

lemma check_allowed_iff:
  "check_command_allowed t command = Ok () \<longleftrightarrow> (\<forall>c\<in>set (resolve_all command). rc_program c \<notin> set (bt_deny_commands t)
     \<and> (case bt_allow_commands t of None \<Rightarrow> True | Some allow \<Rightarrow> rc_program c \<in> set allow))"
  by (auto simp: check_command_allowed_def Let_def find_None_iff dest!: find_SomeD split: option.splits)

lemma bash_runs_iff: "snd (bash_invoke run t (Inr command)) \<noteq> None \<longleftrightarrow> check_command_allowed t command = Ok ()"
  by (auto simp: bash_invoke_def split: sum.splits)



end
