(* ===== verification/A2a_Store.thy ===== *)
theory A2a_Store
  imports Messages
begin

text \<open>
  Tasks of the A2A protocol (\<open>a2a/types.rs\<close>, \<open>a2a/store.rs\<close> and \<open>a2a/cancel.rs\<close> of \<open>runtime-agentcore\<close>): the
  task states, the bounded in-memory store with its compare-and-swap on the state, the event log of a
  task, the subscribers that follow it, and the registry of cancellation tokens. Shown are the
  contract of the store that the methods rely on (an interface, interpreted on the in-memory store), that
  store and logs stay within their bounds with gapless sequence numbers, and what subscribers read.
  Sequence numbers are natural numbers: 64 bits are never exhausted.
\<close>

section \<open>Tasks\<close>

datatype task_state = Submitted | Working | InputRequired | Completed | Canceled | Failed

definition NON_TERMINAL :: "task_state list" where
  "NON_TERMINAL = [Submitted, Working, InputRequired]"

fun state_is_terminal :: "task_state \<Rightarrow> bool" where
  "state_is_terminal Completed = True"
| "state_is_terminal Canceled = True"
| "state_is_terminal Failed = True"
| "state_is_terminal _ = False"

text \<open>The serialized name of a state, and its \<open>Debug\<close> rendering.\<close>

fun state_name :: "task_state \<Rightarrow> string" where
  "state_name Submitted = ''submitted''"
| "state_name Working = ''working''"
| "state_name InputRequired = ''input-required''"
| "state_name Completed = ''completed''"
| "state_name Canceled = ''canceled''"
| "state_name Failed = ''failed''"

fun state_debug :: "task_state \<Rightarrow> string" where
  "state_debug Submitted = ''Submitted''"
| "state_debug Working = ''Working''"
| "state_debug InputRequired = ''InputRequired''"
| "state_debug Completed = ''Completed''"
| "state_debug Canceled = ''Canceled''"
| "state_debug Failed = ''Failed''"

datatype part = TextPart string | OtherPart

record artifact =
  af_artifact_id :: string
  af_name :: string
  af_parts :: "part list"

record task =
  tk_id :: string
  tk_context_id :: string
  tk_state :: task_state
  tk_timestamp :: string
  tk_artifacts :: "artifact list"

fun part_value :: "part \<Rightarrow> json" where
  "part_value (TextPart s) = JObject [(''kind'', JString ''text''), (''text'', JString s)]"
| "part_value OtherPart = JObject [(''kind'', JString ''other'')]"

definition artifact_value :: "artifact \<Rightarrow> json" where
  "artifact_value a = JObject [(''artifactId'', JString (af_artifact_id a)), (''name'', JString (af_name a)),
     (''parts'', JArray (map part_value (af_parts a)))]"

definition task_value :: "task \<Rightarrow> json" where
  "task_value t = JObject [(''id'', JString (tk_id t)), (''contextId'', JString (tk_context_id t)),
     (''status'', JObject [(''state'', JString (state_name (tk_state t))), (''timestamp'', JString (tk_timestamp t))]),
     (''artifacts'', JArray (map artifact_value (tk_artifacts t))), (''kind'', JString ''task'')]"

section \<open>The in-memory store\<close>

datatype agentcore_error = BadRequest string | Internal string | NotFound string

fun agentcore_display :: "agentcore_error \<Rightarrow> string" where
  "agentcore_display (BadRequest m) = ''bad request: '' @ m"
| "agentcore_display (Internal m) = ''internal error: '' @ m"
| "agentcore_display (NotFound m) = ''not found: '' @ m"

type_synonym task_event = "nat \<times> json"

text \<open>\<open>tr_notify\<close> identifies the \<open>Notify\<close> object a record shares with its subscribers.\<close>

record task_record =
  tr_task :: task
  tr_events :: "task_event list"
  tr_first_seq :: nat
  tr_next_seq :: nat
  tr_notify :: nat

record task_store =
  in_tasks :: "string \<rightharpoonup> task_record"
  in_order :: "string list"
  in_max_tasks :: nat
  in_notifies :: nat

definition MAX_EVENTS_PER_TASK :: nat where
  "MAX_EVENTS_PER_TASK = 512"

definition store_new :: "nat \<Rightarrow> task_store" where
  "store_new max_tasks = \<lparr>in_tasks = Map.empty, in_order = [], in_max_tasks = max max_tasks 1, in_notifies = 0\<rparr>"

text \<open>
  The loop that evicts the oldest tasks; the last component collects the \<open>Notify\<close> objects that are
  signalled.
\<close>

fun evict_tasks :: "nat \<Rightarrow> string list \<Rightarrow> (string \<rightharpoonup> task_record) \<Rightarrow> nat list
    \<Rightarrow> string list \<times> (string \<rightharpoonup> task_record) \<times> nat list" where
  "evict_tasks cap [] tasks woken = ([], tasks, woken)"
| "evict_tasks cap (i # order) tasks woken =
     (if length (i # order) > cap
      then evict_tasks cap order (tasks(i := None))
        (case tasks i of Some r \<Rightarrow> woken @ [tr_notify r] | None \<Rightarrow> woken)
      else (i # order, tasks, woken))"

text \<open>Operations return their result, the \<open>Notify\<close> objects they signal, and the store afterwards.\<close>

definition store_create :: "task \<Rightarrow> task_store \<Rightarrow> nat list \<times> task_store" where
  "store_create t st =
     (let r = \<lparr>tr_task = t, tr_events = [], tr_first_seq = 0, tr_next_seq = 0, tr_notify = in_notifies st\<rparr>
      in case evict_tasks (in_max_tasks st) (in_order st @ [tk_id t]) ((in_tasks st)(tk_id t \<mapsto> r)) [] of
        (order, tasks, woken) \<Rightarrow>
          (woken, st\<lparr>in_tasks := tasks, in_order := order, in_notifies := in_notifies st + 1\<rparr>))"

definition store_get :: "task_store \<Rightarrow> string \<Rightarrow> task option" where
  "store_get st i = map_option tr_task (in_tasks st i)"

definition task_missing :: "string \<Rightarrow> agentcore_error" where
  "task_missing i = NotFound (''task '' @ i)"

definition update_state :: "string \<Rightarrow> string \<Rightarrow> task_state \<Rightarrow> task_state \<Rightarrow> task_store
    \<Rightarrow> (agentcore_error + bool) \<times> nat list \<times> task_store" where
  "update_state now i expected nxt st =
     (case in_tasks st i of
        None \<Rightarrow> (Inl (task_missing i), [], st)
      | Some r \<Rightarrow>
          (if tk_state (tr_task r) \<noteq> expected then (Inr False, [], st)
           else (Inr True, [tr_notify r],
             st\<lparr>in_tasks := (in_tasks st)(i \<mapsto> r\<lparr>tr_task := (tr_task r)\<lparr>tk_state := nxt, tk_timestamp := now\<rparr>\<rparr>)\<rparr>)))"

definition set_artifacts :: "string \<Rightarrow> artifact list \<Rightarrow> task_store \<Rightarrow> (agentcore_error + unit) \<times> task_store" where
  "set_artifacts i as st =
     (case in_tasks st i of
        None \<Rightarrow> (Inl (task_missing i), st)
      | Some r \<Rightarrow> (Inr (), st\<lparr>in_tasks := (in_tasks st)(i \<mapsto> r\<lparr>tr_task := (tr_task r)\<lparr>tk_artifacts := as\<rparr>\<rparr>)\<rparr>))"

fun evict_events :: "nat \<Rightarrow> task_event list \<Rightarrow> nat \<Rightarrow> task_event list \<times> nat" where
  "evict_events cap [] first_seq = ([], first_seq)"
| "evict_events cap (e # es) first_seq =
     (if length (e # es) > cap then evict_events cap es (first_seq + 1) else (e # es, first_seq))"

definition record_append :: "json \<Rightarrow> task_record \<Rightarrow> task_record" where
  "record_append payload r =
     (case evict_events MAX_EVENTS_PER_TASK (tr_events r @ [(tr_next_seq r, payload)]) (tr_first_seq r) of
        (events, first_seq) \<Rightarrow> r\<lparr>tr_events := events, tr_first_seq := first_seq, tr_next_seq := tr_next_seq r + 1\<rparr>)"

definition append_event :: "string \<Rightarrow> json \<Rightarrow> task_store \<Rightarrow> (agentcore_error + nat) \<times> nat list \<times> task_store" where
  "append_event i payload st =
     (case in_tasks st i of
        None \<Rightarrow> (Inl (task_missing i), [], st)
      | Some r \<Rightarrow> (Inr (tr_next_seq r), [tr_notify r], st\<lparr>in_tasks := (in_tasks st)(i \<mapsto> record_append payload r)\<rparr>))"

section \<open>Subscribers\<close>

text \<open>
  Where a subscriber can be suspended: between two polls (\<open>SubIdle\<close>), after the wake-up has been enabled
  and before the store is read (\<open>SubEnabled\<close>), awaiting the wake-up (\<open>SubParked\<close>), or at the end.
\<close>

datatype sub_phase = SubIdle | SubEnabled | SubParked | SubEnded

record task_sub =
  su_id :: string
  su_notify :: nat
  su_cursor :: nat
  su_batch :: "task_event list"
  su_phase :: sub_phase
  su_woken :: bool
  su_delivered :: "task_event list"

definition store_subscribe :: "task_store \<Rightarrow> string \<Rightarrow> nat \<Rightarrow> agentcore_error + task_sub" where
  "store_subscribe st i start =
     (case in_tasks st i of
        None \<Rightarrow> Inl (task_missing i)
      | Some r \<Rightarrow> Inr \<lparr>su_id = i, su_notify = tr_notify r, su_cursor = start, su_batch = [], su_phase = SubIdle,
          su_woken = False, su_delivered = []\<rparr>)"

text \<open>The read under the lock: the cursor clamped to the retained events, and the events from there.\<close>

definition task_read :: "task_record \<Rightarrow> nat \<Rightarrow> nat \<times> task_event list" where
  "task_read r cursor =
     (let c = (if cursor < tr_first_seq r then tr_first_seq r else cursor)
      in (c, filter (\<lambda>e. c \<le> fst e) (tr_events r)))"

text \<open>One step of a subscriber; \<open>None\<close> when it cannot move: at its end, or parked and not woken.\<close>

definition task_sub_step :: "task_store \<Rightarrow> task_sub \<Rightarrow> task_sub option" where
  "task_sub_step st s =
     (case su_phase s of
        SubIdle \<Rightarrow>
          (case su_batch s of
             ev # rest \<Rightarrow> Some (s\<lparr>su_batch := rest, su_delivered := su_delivered s @ [ev]\<rparr>)
           | [] \<Rightarrow> Some (s\<lparr>su_phase := SubEnabled, su_woken := False\<rparr>))
      | SubEnabled \<Rightarrow>
          (case in_tasks st (su_id s) of
             None \<Rightarrow> Some (s\<lparr>su_phase := SubEnded\<rparr>)
           | Some r \<Rightarrow>
               (case task_read r (su_cursor s) of
                  (c, batch) \<Rightarrow>
                    (if batch \<noteq> [] then Some (s\<lparr>su_batch := batch, su_cursor := fst (last batch) + 1, su_phase := SubIdle\<rparr>)
                     else if state_is_terminal (tk_state (tr_task r)) then Some (s\<lparr>su_cursor := c, su_phase := SubEnded\<rparr>)
                     else Some (s\<lparr>su_cursor := c, su_phase := SubParked\<rparr>))))
      | SubParked \<Rightarrow> (if su_woken s then Some (s\<lparr>su_phase := SubEnabled, su_woken := False\<rparr>) else None)
      | SubEnded \<Rightarrow> None)"

text \<open>\<open>notify_waiters\<close> on the given objects.\<close>

definition sub_wake :: "nat list \<Rightarrow> task_sub \<Rightarrow> task_sub" where
  "sub_wake woken s =
     (if su_notify s \<in> set woken \<and> (su_phase s = SubEnabled \<or> su_phase s = SubParked) then s\<lparr>su_woken := True\<rparr> else s)"

section \<open>Cancellation tokens\<close>

text \<open>A token is a number; the set holds the tokens that have been fired.\<close>

record cancel_registry =
  cg_live :: "string \<rightharpoonup> nat"
  cg_fired :: "nat set"

definition cancel_register :: "string \<Rightarrow> nat \<Rightarrow> cancel_registry \<Rightarrow> cancel_registry" where
  "cancel_register i token g = g\<lparr>cg_live := (cg_live g)(i \<mapsto> token)\<rparr>"

definition cancel_fire :: "string \<Rightarrow> cancel_registry \<Rightarrow> bool \<times> cancel_registry" where
  "cancel_fire i g =
     (case cg_live g i of
        Some token \<Rightarrow> (True, \<lparr>cg_live = (cg_live g)(i := None), cg_fired = insert token (cg_fired g)\<rparr>)
      | None \<Rightarrow> (False, g))"

definition cancel_remove :: "string \<Rightarrow> cancel_registry \<Rightarrow> cancel_registry" where
  "cancel_remove i g = g\<lparr>cg_live := (cg_live g)(i := None)\<rparr>"

section \<open>What the methods rely on\<close>

lemma non_terminal_complement: "s \<in> set NON_TERMINAL \<longleftrightarrow> \<not> state_is_terminal s"
  by (cases s) (auto simp: NON_TERMINAL_def)

text \<open>
  The contract of a task store: \<open>update_state\<close> is a compare-and-swap. It swaps exactly when the stored
  state is the expected one, touches no other task, and reports a missing task as an error.
\<close>

locale state_store =
  fixes state_of :: "'s \<Rightarrow> string \<Rightarrow> task_state option"
    and swap :: "string \<Rightarrow> string \<Rightarrow> task_state \<Rightarrow> task_state \<Rightarrow> 's \<Rightarrow> (agentcore_error + bool) \<times> nat list \<times> 's"
  assumes swap_won: "state_of s i = Some e \<Longrightarrow> fst (swap now i e n s) = Inr True"
    and swap_lost: "state_of s i = Some x \<Longrightarrow> x \<noteq> e \<Longrightarrow> fst (swap now i e n s) = Inr False"
    and swap_missing: "state_of s i = None \<Longrightarrow> \<exists>err. fst (swap now i e n s) = Inl err"
    and swap_state: "state_of (snd (snd (swap now i e n s))) =
      (if state_of s i = Some e then (state_of s)(i \<mapsto> n) else state_of s)"
begin

lemma swap_true_iff: "fst (swap now i e n s) = Inr True \<longleftrightarrow> state_of s i = Some e"
  using swap_won[of s i e now n] swap_lost[of s i _ e now n] swap_missing[of s i now e n]
  by (cases "state_of s i") force+

lemma swap_false_iff: "fst (swap now i e n s) = Inr False \<longleftrightarrow> (\<exists>x. state_of s i = Some x \<and> x \<noteq> e)"
  using swap_won[of s i e now n] swap_lost[of s i _ e now n] swap_missing[of s i now e n]
  by (cases "state_of s i") force+

text \<open>A swap from a non-terminal state leaves terminal states alone.\<close>

lemma swap_keeps_terminal:
  assumes "\<not> state_is_terminal e" "state_of s j = Some x" "state_is_terminal x"
  shows "state_of (snd (snd (swap now i e n s))) j = Some x"
  using assms by (auto simp: swap_state)

lemma swap_none: "state_of (snd (snd (swap now i e n s))) j = None \<longleftrightarrow> state_of s j = None"
  by (auto simp: swap_state)

end

definition task_state_of :: "task_store \<Rightarrow> string \<Rightarrow> task_state option" where
  "task_state_of st i = map_option tk_state (store_get st i)"

interpretation mem: state_store task_state_of update_state
  by unfold_locales
    (auto simp: task_state_of_def store_get_def update_state_def fun_eq_iff split: option.splits if_splits)

lemma set_artifacts_state [simp]: "task_state_of (snd (set_artifacts i as st)) = task_state_of st"
  by (auto simp: set_artifacts_def task_state_of_def store_get_def fun_eq_iff split: option.splits)

lemma record_append_simps [simp]:
  "tr_task (record_append p r) = tr_task r" "tr_notify (record_append p r) = tr_notify r"
  "tr_next_seq (record_append p r) = Suc (tr_next_seq r)"
  by (auto simp: record_append_def split: prod.splits)

lemma append_event_state [simp]: "task_state_of (snd (snd (append_event i p st))) = task_state_of st"
  by (auto simp: append_event_def task_state_of_def store_get_def fun_eq_iff split: option.splits)

lemma evict_tasks_result:
  "evict_tasks cap order tasks w = (order', tasks', w') \<Longrightarrow>
     order' = drop (length order - cap) order \<and>
     tasks' = (\<lambda>i. if i \<in> set (take (length order - cap) order) then None else tasks i) \<and>
     (\<forall>i r. tasks i = Some r \<longrightarrow> tasks' i = Some r \<or> tr_notify r \<in> set w')
     \<and> set w \<subseteq> set w'"
proof (induction cap order tasks w rule: evict_tasks.induct)
  case (2 cap i order tasks w)
  show ?case
  proof (cases "length (i # order) > cap")
    case True
    then have "evict_tasks cap order (tasks(i := None)) (case tasks i of Some r \<Rightarrow> w @ [tr_notify r] | None \<Rightarrow> w) = (order', tasks', w')"
      using 2(2) by simp
    note IH = 2(1)[OF True this]
    from True have len: "length (i # order) - cap = Suc (length order - cap)" by simp
    have "tasks' j = Some r \<or> tr_notify r \<in> set w'" if "tasks j = Some r" for j r
    proof (cases "j = i")
      case False
      then show ?thesis using conjunct1[OF conjunct2[OF conjunct2[OF IH]]] that by auto
    qed (use conjunct2[OF conjunct2[OF conjunct2[OF IH]]] that in auto)
    then show ?thesis
      using IH unfolding len by (simp add: fun_eq_iff) (auto split: option.splits)
  qed (use 2 in auto)
qed (auto)

lemma store_create_simps:
  assumes "store_create t st = (w, st')"
  shows "in_order st' = drop (length (in_order st) + 1 - in_max_tasks st) (in_order st @ [tk_id t])"
    and "in_max_tasks st' = in_max_tasks st"
    and "in_notifies st' = Suc (in_notifies st)"
    and "in_tasks st' = (\<lambda>i. if i \<in> set (take (length (in_order st) + 1 - in_max_tasks st) (in_order st @ [tk_id t])) then None
       else ((in_tasks st)(tk_id t \<mapsto> \<lparr>tr_task = t, tr_events = [], tr_first_seq = 0, tr_next_seq = 0,
         tr_notify = in_notifies st\<rparr>)) i)"
    and "\<And>i r. in_tasks st i = Some r \<Longrightarrow> i \<noteq> tk_id t \<Longrightarrow> in_tasks st' i = Some r \<or> in_tasks st' i = None \<and> tr_notify r \<in> set w"
proof -
  define r0 where "r0 = \<lparr>tr_task = t, tr_events = [], tr_first_seq = 0, tr_next_seq = 0, tr_notify = in_notifies st\<rparr>"
  obtain order' tasks' where ev:
    "evict_tasks (in_max_tasks st) (in_order st @ [tk_id t]) ((in_tasks st)(tk_id t \<mapsto> r0)) [] = (order', tasks', w)"
    and st': "st' = st\<lparr>in_tasks := tasks', in_order := order', in_notifies := in_notifies st + 1\<rparr>"
    using assms by (auto simp: store_create_def r0_def Let_def split: prod.splits)
  note E = evict_tasks_result[OF ev]
  show "in_order st' = drop (length (in_order st) + 1 - in_max_tasks st) (in_order st @ [tk_id t])"
    "in_max_tasks st' = in_max_tasks st" "in_notifies st' = Suc (in_notifies st)"
    "in_tasks st' = (\<lambda>i. if i \<in> set (take (length (in_order st) + 1 - in_max_tasks st) (in_order st @ [tk_id t])) then None
       else ((in_tasks st)(tk_id t \<mapsto> \<lparr>tr_task = t, tr_events = [], tr_first_seq = 0, tr_next_seq = 0,
         tr_notify = in_notifies st\<rparr>)) i)"
    using E unfolding st' r0_def by simp_all
  show "in_tasks st' i = Some r \<or> in_tasks st' i = None \<and> tr_notify r \<in> set w"
    if "in_tasks st i = Some r" "i \<noteq> tk_id t" for i r
  proof -
    have "tasks' i = Some r \<or> tr_notify r \<in> set w" "tasks' i = Some r \<or> tasks' i = None"
      using conjunct1[OF conjunct2[OF conjunct2[OF E]]] conjunct1[OF conjunct2[OF E]] that by auto
    then show ?thesis by (auto simp: st')
  qed
qed

lemma store_create_state:
  assumes "store_create t st = (w, st')" "task_state_of st' i = Some x"
  shows "if i = tk_id t then x = tk_state t else task_state_of st i = Some x"
  using assms(2) unfolding task_state_of_def store_get_def store_create_simps(4)[OF assms(1)]
  by (auto split: if_splits)

section \<open>Bounds\<close>

definition record_ok :: "task_record \<Rightarrow> bool" where
  "record_ok r \<longleftrightarrow> tr_first_seq r \<le> tr_next_seq r \<and> map fst (tr_events r) = [tr_first_seq r..<tr_next_seq r] \<and> length (tr_events r) \<le> MAX_EVENTS_PER_TASK"

definition store_ok :: "task_store \<Rightarrow> bool" where
  "store_ok st \<longleftrightarrow> 0 < in_max_tasks st \<and> length (in_order st) \<le> in_max_tasks st \<and> dom (in_tasks st) \<subseteq> set (in_order st)
     \<and> (\<forall>i r. in_tasks st i = Some r \<longrightarrow> record_ok r \<and> tk_id (tr_task r) = i \<and> tr_notify r < in_notifies st)"

lemma store_ok_new: "store_ok (store_new n)"
  by (simp add: store_ok_def store_new_def)

lemma evict_events_result:
  "evict_events cap es f = (drop (length es - cap) es, f + (length es - cap))"
proof (induction cap es f rule: evict_events.induct)
  case (2 cap e es f)
  then show ?case by (auto simp: Suc_diff_le)
qed simp

lemma record_append_events:
  "tr_events (record_append p r) =
     drop (Suc (length (tr_events r)) - MAX_EVENTS_PER_TASK) (tr_events r @ [(tr_next_seq r, p)])"
  "tr_first_seq (record_append p r) = tr_first_seq r + (Suc (length (tr_events r)) - MAX_EVENTS_PER_TASK)"
  by (simp_all add: record_append_def evict_events_result)

lemma record_ok_length: "record_ok r \<Longrightarrow> length (tr_events r) = tr_next_seq r - tr_first_seq r"
  unfolding record_ok_def by (metis length_map length_upt)

lemma record_ok_append:
  assumes "record_ok r"
  shows "record_ok (record_append p r)"
proof -
  let ?k = "Suc (length (tr_events r)) - MAX_EVENTS_PER_TASK"
  have "map fst (tr_events (record_append p r)) = drop ?k (map fst (tr_events r @ [(tr_next_seq r, p)]))"
    unfolding record_append_events by (rule drop_map [symmetric])
  also have "map fst (tr_events r @ [(tr_next_seq r, p)]) = [tr_first_seq r..<Suc (tr_next_seq r)]"
    using assms by (simp add: record_ok_def)
  also have "drop ?k \<dots> = [tr_first_seq r + ?k..<Suc (tr_next_seq r)]"
    by (rule drop_upt)
  finally show ?thesis
    using assms record_ok_length[OF assms]
    by (auto simp: record_ok_def record_append_events MAX_EVENTS_PER_TASK_def)
qed

lemma record_ok_task [simp]: "record_ok (r\<lparr>tr_task := t\<rparr>) = record_ok r"
  by (simp add: record_ok_def)

lemma store_ok_update_state: "store_ok st \<Longrightarrow> store_ok (snd (snd (update_state now i e n st)))"
  by (auto simp: store_ok_def update_state_def split: option.splits)

lemma store_ok_set_artifacts: "store_ok st \<Longrightarrow> store_ok (snd (set_artifacts i as st))"
  by (auto simp: store_ok_def set_artifacts_def split: option.splits)

lemma store_ok_append_event: "store_ok st \<Longrightarrow> store_ok (snd (snd (append_event i p st)))"
  by (auto simp: store_ok_def append_event_def record_ok_append split: option.splits)

lemma store_ok_create:
  assumes "store_ok st"
  shows "store_ok (snd (store_create t st))"
proof -
  obtain w st' where c: "store_create t st = (w, st')" by (cases "store_create t st")
  note C = store_create_simps[OF c]
  let ?k = "length (in_order st) + 1 - in_max_tasks st" and ?o = "in_order st @ [tk_id t]"
  have "i \<in> set (in_order st')" if "in_tasks st' i = Some r" for i r
  proof -
    have "i \<notin> set (take ?k ?o)" using that unfolding C(4) by (metis option.distinct(1))
    moreover have "i \<in> set ?o" using that assms unfolding C(4) store_ok_def by (auto split: if_splits)
    ultimately show ?thesis unfolding C(1) by (metis Un_iff append_take_drop_id set_append)
  qed
  then have "dom (in_tasks st') \<subseteq> set (in_order st')" by blast
  moreover have "length (in_order st') \<le> in_max_tasks st'" "0 < in_max_tasks st'"
    using assms unfolding C(1,2) store_ok_def by auto
  moreover have "record_ok r \<and> tk_id (tr_task r) = i \<and> tr_notify r < in_notifies st'"
    if "in_tasks st' i = Some r" for i r
    using that assms unfolding C(3,4) store_ok_def
    by (auto simp: record_ok_def MAX_EVENTS_PER_TASK_def less_SucI split: if_splits)
  ultimately show ?thesis by (simp add: c store_ok_def)
qed

lemma store_ok_card: "store_ok st \<Longrightarrow> card (dom (in_tasks st)) \<le> in_max_tasks st"
  unfolding store_ok_def by (meson List.finite_set card_length card_mono le_trans)

section \<open>Subscribers and the log\<close>

text \<open>
  The invariant of a subscriber that started at sequence number 0: it waits on the notification object of
  its task; when it is parked without a pending wake-up there is nothing to read and the task is not
  finished; what it has read is in order, and the log read so far while nothing has been evicted.
\<close>

definition sub_waits :: "task_store \<Rightarrow> task_sub \<Rightarrow> bool" where
  "sub_waits st s \<longleftrightarrow>
     (\<forall>r. in_tasks st (su_id s) = Some r \<longrightarrow> tr_notify r = su_notify s) \<and>
     (su_phase s = SubParked \<and> \<not> su_woken s \<longrightarrow>
        (\<exists>r. in_tasks st (su_id s) = Some r \<and> snd (task_read r (su_cursor s)) = [] \<and> \<not> state_is_terminal (tk_state (tr_task r))))"

definition sub_reads :: "task_store \<Rightarrow> task_sub \<Rightarrow> bool" where
  "sub_reads st s \<longleftrightarrow>
     (su_phase s \<noteq> SubIdle \<longrightarrow> su_batch s = []) \<and>
     sorted_wrt (<) (map fst (su_delivered s @ su_batch s)) \<and>
     list_all (\<lambda>e. fst e < su_cursor s) (su_delivered s @ su_batch s) \<and>
     (\<forall>r. in_tasks st (su_id s) = Some r \<and> tr_first_seq r = 0 \<longrightarrow>
        su_cursor s \<le> tr_next_seq r \<and> su_delivered s @ su_batch s = take (su_cursor s) (tr_events r))"

lemma sub_wake_simps [simp]:
  "su_id (sub_wake w s) = su_id s" "su_notify (sub_wake w s) = su_notify s" "su_cursor (sub_wake w s) = su_cursor s"
  "su_batch (sub_wake w s) = su_batch s" "su_phase (sub_wake w s) = su_phase s" "su_delivered (sub_wake w s) = su_delivered s"
  by (simp_all add: sub_wake_def)

lemma sub_wake_woken: "\<not> su_woken (sub_wake w s) \<Longrightarrow> \<not> su_woken s"
  "\<not> su_woken (sub_wake w s) \<Longrightarrow> su_phase s = SubParked \<Longrightarrow> su_notify s \<notin> set w"
  by (auto simp: sub_wake_def split: if_splits)

text \<open>
  An operation that changes a record only with a signal to its notification object keeps the waiting
  part, whatever it does.
\<close>

lemma sub_waits_op:
  assumes "sub_waits st s"
    and kept: "\<And>r. in_tasks st (su_id s) = Some r \<Longrightarrow> tr_notify r \<notin> set w \<Longrightarrow>
      \<exists>r'. in_tasks st' (su_id s) = Some r' \<and> tr_events r' = tr_events r \<and> tr_first_seq r' = tr_first_seq r
        \<and> tk_state (tr_task r') = tk_state (tr_task r)"
    and notify: "\<And>r'. in_tasks st' (su_id s) = Some r' \<Longrightarrow> \<exists>r. in_tasks st (su_id s) = Some r \<and> tr_notify r' = tr_notify r"
  shows "sub_waits st' (sub_wake w s)"
  unfolding sub_waits_def
proof (intro conjI impI allI)
  fix r' assume "in_tasks st' (su_id (sub_wake w s)) = Some r'"
  then show "tr_notify r' = su_notify (sub_wake w s)"
    using notify assms(1) unfolding sub_waits_def by fastforce
next
  assume p: "su_phase (sub_wake w s) = SubParked \<and> \<not> su_woken (sub_wake w s)"
  then obtain r where r: "in_tasks st (su_id s) = Some r" "snd (task_read r (su_cursor s)) = []"
    "\<not> state_is_terminal (tk_state (tr_task r))" "tr_notify r = su_notify s"
    using assms(1) sub_wake_woken(1) unfolding sub_waits_def by auto
  with p sub_wake_woken(2) kept obtain r' where "in_tasks st' (su_id s) = Some r'" "tr_events r' = tr_events r"
    "tr_first_seq r' = tr_first_seq r" "tk_state (tr_task r') = tk_state (tr_task r)"
    by (metis sub_wake_simps(5))
  with r show "\<exists>r. in_tasks st' (su_id (sub_wake w s)) = Some r \<and>
        snd (task_read r (su_cursor (sub_wake w s))) = [] \<and> \<not> state_is_terminal (tk_state (tr_task r))"
    by (auto simp: task_read_def Let_def)
qed

text \<open>A record that only grows at the end, or drops events at the front, keeps the reading part.\<close>

lemma sub_reads_op:
  assumes "sub_reads st s"
    and grown: "\<And>r'. in_tasks st' (su_id s) = Some r' \<Longrightarrow> tr_first_seq r' = 0 \<Longrightarrow>
      \<exists>r es. in_tasks st (su_id s) = Some r \<and> record_ok r \<and> tr_first_seq r = 0 \<and> tr_events r' = tr_events r @ es \<and> tr_next_seq r \<le> tr_next_seq r'"
  shows "sub_reads st' (sub_wake w s)"
  unfolding sub_reads_def
proof (intro conjI allI)
  fix r'
  show "in_tasks st' (su_id (sub_wake w s)) = Some r' \<and> tr_first_seq r' = 0 \<longrightarrow>
        su_cursor (sub_wake w s) \<le> tr_next_seq r' \<and>
        su_delivered (sub_wake w s) @ su_batch (sub_wake w s) = take (su_cursor (sub_wake w s)) (tr_events r')"
    using assms(1) grown[of r'] record_ok_length unfolding sub_reads_def by fastforce
qed (use assms(1) in \<open>auto simp: sub_reads_def\<close>)

definition sub_inv :: "task_store \<Rightarrow> task_sub \<Rightarrow> bool" where
  "sub_inv st s \<longleftrightarrow> sub_waits st s \<and> sub_reads st s"

lemma sub_inv_update_state:
  assumes "sub_inv st s" "store_ok st"
  shows "sub_inv (snd (snd (update_state now i e n st))) (sub_wake (fst (snd (update_state now i e n st))) s)"
  using assms unfolding sub_inv_def
  by (intro conjI sub_waits_op[of st] sub_reads_op[of st]; elim conjE; assumption?)
     (auto simp: update_state_def store_ok_def split: option.splits if_splits)

lemma sub_wake_Nil [simp]: "sub_wake [] s = s"
  by (simp add: sub_wake_def)

lemma sub_inv_set_artifacts:
  assumes "sub_inv st s" "store_ok st"
  shows "sub_inv (snd (set_artifacts i as st)) s"
proof -
  have "sub_waits (snd (set_artifacts i as st)) (sub_wake [] s)" "sub_reads (snd (set_artifacts i as st)) (sub_wake [] s)"
    using assms unfolding sub_inv_def
    by (intro sub_waits_op[of st] sub_reads_op[of st]; elim conjE; assumption?;
        auto simp: set_artifacts_def store_ok_def split: option.splits if_splits)+
  then show ?thesis by (simp add: sub_inv_def)
qed

lemma record_append_zero:
  assumes "record_ok r" "tr_first_seq (record_append p r) = 0"
  shows "tr_first_seq r = 0" "tr_events (record_append p r) = tr_events r @ [(tr_next_seq r, p)]"
  using assms by (auto simp: record_append_events)

lemma sub_inv_append_event:
  assumes "sub_inv st s" "store_ok st"
  shows "sub_inv (snd (snd (append_event i p st))) (sub_wake (fst (snd (append_event i p st))) s)"
  unfolding sub_inv_def
proof
  show "sub_waits (snd (snd (append_event i p st))) (sub_wake (fst (snd (append_event i p st))) s)"
    using assms unfolding sub_inv_def
    by (intro sub_waits_op[of st]; elim conjE; assumption?)
       (auto simp: append_event_def store_ok_def split: option.splits if_splits)
  show "sub_reads (snd (snd (append_event i p st))) (sub_wake (fst (snd (append_event i p st))) s)"
  proof (rule sub_reads_op[of st])
    fix r' assume r': "in_tasks (snd (snd (append_event i p st))) (su_id s) = Some r'" "tr_first_seq r' = 0"
    show "\<exists>r es. in_tasks st (su_id s) = Some r \<and> record_ok r \<and> tr_first_seq r = 0 \<and> tr_events r' = tr_events r @ es \<and> tr_next_seq r \<le> tr_next_seq r'"
    proof (cases "su_id s = i")
      case True
      with r' obtain r where "in_tasks st i = Some r" "r' = record_append p r"
        by (auto simp: append_event_def split: option.splits)
      with True r' assms(2) show ?thesis
        by (auto simp: store_ok_def record_append_zero)
    next
      case False
      with r' assms(2) show ?thesis by (auto simp: append_event_def store_ok_def split: option.splits)
    qed
  qed (use assms in \<open>simp add: sub_inv_def\<close>)
qed

lemma sub_inv_create:
  assumes "sub_inv st s" "store_ok st" "su_id s \<noteq> tk_id t" "store_create t st = (w, st')"
  shows "sub_inv st' (sub_wake w s)"
  unfolding sub_inv_def
proof
  have older: "in_tasks st (su_id s) = Some r'" if "in_tasks st' (su_id s) = Some r'" for r'
    using that assms(3) unfolding store_create_simps(4)[OF assms(4)] by (auto split: if_splits)
  show "sub_waits st' (sub_wake w s)"
    using assms(1) store_create_simps(5)[OF assms(4) _ assms(3)] older
    by (intro sub_waits_op[of st]) (fastforce simp: sub_inv_def)+
  show "sub_reads st' (sub_wake w s)"
    using assms(1,2) older by (intro sub_reads_op[of st]) (auto simp: sub_inv_def store_ok_def)
qed

lemma task_read_drop:
  assumes "record_ok r"
  shows "task_read r c = (max c (tr_first_seq r), drop (max c (tr_first_seq r) - tr_first_seq r) (tr_events r))"
proof -
  have *: "filter (\<lambda>e. c' \<le> fst e) es = drop (c' - f) es" if "map fst es = [f..<n]" for c' f n and es :: "task_event list"
    using that
  proof (induction es arbitrary: f)
    case (Cons e es)
    then have e: "fst e = f" "map fst es = [Suc f..<n]" "f < n"
      by (cases "f < n"; simp add: upt_conv_Cons)+
    then have "filter (\<lambda>x. c' \<le> fst x) es = drop (c' - Suc f) es" using Cons.IH by blast
    moreover have "c' - f = Suc (c' - Suc f)" if "f < c'" using that by simp
    ultimately show ?case using e(1) by (cases "f < c'") auto
  qed simp
  show ?thesis
    using assms *[of "tr_events r" "tr_first_seq r" "tr_next_seq r"]
    by (auto simp: task_read_def Let_def max_def record_ok_def)
qed

lemma task_read_seqs:
  assumes "record_ok r" "task_read r c = (c', batch)"
  shows "c \<le> c'" and "map fst batch = [c'..<tr_next_seq r]" and "batch \<noteq> [] \<Longrightarrow> fst (last batch) + 1 = tr_next_seq r"
proof -
  from assms(2) have b: "c' = max c (tr_first_seq r)" "batch = drop (c' - tr_first_seq r) (tr_events r)"
    by (auto simp: task_read_drop[OF assms(1)])
  then show "c \<le> c'" by simp
  show m: "map fst batch = [c'..<tr_next_seq r]"
    using assms(1) unfolding b(2) drop_map[symmetric] by (simp add: record_ok_def b(1))
  show "fst (last batch) + 1 = tr_next_seq r" if "batch \<noteq> []"
  proof -
    have "fst (last batch) = last [c'..<tr_next_seq r]" using m that by (metis last_map)
    moreover have "c' < tr_next_seq r" using m that by (metis map_is_Nil_conv not_less upt_conv_Nil)
    ultimately show ?thesis by simp
  qed
qed

lemma sub_inv_new: "store_subscribe st i 0 = Inr s \<Longrightarrow> sub_inv st s"
  by (auto simp: store_subscribe_def sub_inv_def sub_waits_def sub_reads_def split: option.splits)

lemma sub_reads_batch:
  assumes "sub_reads st s" "record_ok r" "in_tasks st (su_id s) = Some r" "su_phase s = SubEnabled"
    and "task_read r (su_cursor s) = (c, batch)" "batch \<noteq> []"
  shows "sub_reads st (s\<lparr>su_batch := batch, su_cursor := fst (last batch) + 1, su_phase := SubIdle\<rparr>)"
proof -
  note R = task_read_seqs[OF assms(2,5)]
  have seqs: "c \<le> fst e \<and> fst e < tr_next_seq r" if "e \<in> set batch" for e
    using that R(2) by (metis (no_types, lifting) atLeastLessThan_iff image_eqI list.set_map set_upt)
  have below: "fst e < su_cursor s" if "e \<in> set (su_delivered s)" for e
    using that assms(1) by (auto simp: sub_reads_def list_all_iff)
  have "sorted_wrt (<) (map fst batch)" unfolding R(2) by simp
  moreover have "sorted_wrt (<) (map fst (su_delivered s))" using assms(1) by (simp add: sub_reads_def sorted_wrt_append)
  ultimately have "sorted_wrt (<) (map fst (su_delivered s @ batch))"
    using seqs below R(1) by (fastforce simp: sorted_wrt_append)
  moreover have "list_all (\<lambda>e. fst e < tr_next_seq r) (su_delivered s @ batch)"
  proof -
    have "c < tr_next_seq r" using R(2) assms(6) by (metis map_is_Nil_conv not_less upt_conv_Nil)
    then show ?thesis using seqs below R(1) by (fastforce simp: list_all_iff)
  qed
  moreover have "su_delivered s @ batch = take (tr_next_seq r) (tr_events r)" if "tr_first_seq r = 0"
  proof -
    have "batch = drop (su_cursor s) (tr_events r)" using assms(5) that by (auto simp: task_read_drop[OF assms(2)])
    moreover have "su_delivered s = take (su_cursor s) (tr_events r)"
      using assms(1,3,4) that by (auto simp: sub_reads_def)
    ultimately show ?thesis using record_ok_length[OF assms(2)] that by simp
  qed
  ultimately show ?thesis
    using R(3)[OF assms(6)] assms(3) by (auto simp: sub_reads_def)
qed

lemma sub_inv_step:
  assumes "sub_inv st s" "store_ok st" "task_sub_step st s = Some s'"
  shows "sub_inv st s'"
proof (cases "su_phase s")
  case SubIdle
  with assms show ?thesis
    by (auto simp: sub_inv_def sub_waits_def sub_reads_def task_sub_step_def split: list.splits)
next
  case SubEnabled
  show ?thesis
  proof (cases "in_tasks st (su_id s)")
    case None
    with SubEnabled assms show ?thesis
      by (auto simp: sub_inv_def sub_waits_def sub_reads_def task_sub_step_def)
  next
    case (Some r)
    obtain c batch where rd: "task_read r (su_cursor s) = (c, batch)" by fastforce
    have ok: "record_ok r" using assms(2) Some by (simp add: store_ok_def)
    show ?thesis
    proof (cases "batch = []")
      case False
      with SubEnabled Some rd assms(3)
      have "s' = s\<lparr>su_batch := batch, su_cursor := fst (last batch) + 1, su_phase := SubIdle\<rparr>"
        by (simp add: task_sub_step_def)
      then show ?thesis
        using assms(1) sub_reads_batch[OF _ ok Some SubEnabled rd False] by (auto simp: sub_inv_def sub_waits_def)
    next
      case True
      have c: "c = max (su_cursor s) (tr_first_seq r)" using rd by (simp add: task_read_drop[OF ok])
      have "snd (task_read r c) = []" using rd True by (auto simp: task_read_drop[OF ok])
      moreover have "list_all (\<lambda>e. fst e < c) (su_delivered s)"
        using assms(1) unfolding sub_inv_def sub_reads_def list_all_append c
        by (metis (mono_tags, lifting) list.pred_mono_strong max.strict_coboundedI1)
      ultimately show ?thesis
        using SubEnabled Some rd True assms(1,3) c
        by (auto simp: task_sub_step_def sub_inv_def sub_waits_def sub_reads_def split: if_splits)
    qed
  qed
next
  case SubParked
  with assms show ?thesis
    by (auto simp: sub_inv_def sub_waits_def sub_reads_def task_sub_step_def split: if_splits)
next
  case SubEnded
  with assms show ?thesis by (simp add: task_sub_step_def)
qed

end
