(* ===== verification/A2a_Rpc.thy ===== *)
theory A2a_Rpc
  imports A2a_Store
begin

text \<open>
  The JSON-RPC methods of the A2A protocol (\<open>a2a/rpc.rs\<close>, \<open>a2a/types.rs\<close> and \<open>session.rs\<close> of \<open>runtime-agentcore\<close>): the
  dispatch of a request, \<open>message/send\<close>, \<open>message/stream\<close>, \<open>tasks/get\<close>, \<open>tasks/cancel\<close>, \<open>tasks/resubscribe\<close>, and the detached driver
  that runs the agent and records its task. Requests, drivers and subscribers are state machines that
  interleave at the points where they await the store. Shown are, for every interleaving, that a
  terminal state is final, that a cancellation takes effect or finds the task finished, that the final
  frame of a driver reports the state that is stored, that subscribers lose no event, and that the store stays
  bounded; and the result of a request that nothing disturbs.
\<close>

section \<open>Wire types\<close>

definition PARSE_ERROR :: int where "PARSE_ERROR = - 32700"
definition INVALID_REQUEST :: int where "INVALID_REQUEST = - 32600"
definition METHOD_NOT_FOUND :: int where "METHOD_NOT_FOUND = - 32601"
definition INVALID_PARAMS :: int where "INVALID_PARAMS = - 32602"
definition INTERNAL_ERROR :: int where "INTERNAL_ERROR = - 32603"
definition TASK_NOT_FOUND :: int where "TASK_NOT_FOUND = - 32001"
definition TASK_NOT_CANCELABLE :: int where "TASK_NOT_CANCELABLE = - 32002"
definition PUSH_NOTIFICATION_NOT_SUPPORTED :: int where "PUSH_NOTIFICATION_NOT_SUPPORTED = - 32003"
definition UNSUPPORTED_OPERATION :: int where "UNSUPPORTED_OPERATION = - 32004"
definition CONTENT_TYPE_NOT_SUPPORTED :: int where "CONTENT_TYPE_NOT_SUPPORTED = - 32005"

record a2a_message =
  ms_role :: string
  ms_parts :: "part list"
  ms_message_id :: "string option"
  ms_task_id :: "string option"
  ms_context_id :: "string option"

fun part_text :: "part \<Rightarrow> string" where
  "part_text (TextPart s) = s"
| "part_text OtherPart = []"

definition message_text :: "a2a_message \<Rightarrow> string" where
  "message_text m = concat (map part_text (ms_parts m))"

definition has_non_text_parts :: "a2a_message \<Rightarrow> bool" where
  "has_non_text_parts m = list_ex (\<lambda>p. p = OtherPart) (ms_parts m)"

record json_rpc_request =
  rq_jsonrpc :: string
  rq_id :: "json option"
  rq_method :: string
  rq_params :: "json option"

datatype rpc_reply =
    RpcOk json task
  | RpcErr json int string
  | SseReply nat

text \<open>The body of a reply; an event stream is identified by its subscriber.\<close>

fun response_value :: "(int \<Rightarrow> string) \<Rightarrow> rpc_reply \<Rightarrow> json option" where
  "response_value show_code (RpcOk i t) =
     Some (JObject [(''jsonrpc'', JString ''2.0''), (''id'', i), (''result'', task_value t)])"
| "response_value show_code (RpcErr i err_code message) =
     Some (JObject [(''jsonrpc'', JString ''2.0''), (''id'', i),
       (''error'', JObject [(''code'', JNumber (show_code err_code)), (''message'', JString message)])])"
| "response_value show_code (SseReply k) = None"

section \<open>The session header\<close>

definition SESSION_HEADER :: string where
  "SESSION_HEADER = ''x-amzn-bedrock-agentcore-runtime-session-id''"

definition validate_session_id :: "string \<Rightarrow> agentcore_error + string" where
  "validate_session_id v =
     (if 33 \<le> length v \<and> length v \<le> 256 then Ok v
      else Err (BadRequest (SESSION_HEADER @ '' must be between 33 and 256 characters, got '' @ show_nat (length v))))"

text \<open>The argument is the value of the header, itself without a value when \<open>to_str\<close> refuses its bytes.\<close>

definition extract_session_id :: "string option option \<Rightarrow> agentcore_error + string option" where
  "extract_session_id header =
     (case header of
        None \<Rightarrow> Ok None
      | Some None \<Rightarrow> Err (BadRequest (SESSION_HEADER @ '' header value is not valid UTF-8''))
      | Some (Some s) \<Rightarrow> (case validate_session_id s of Inl e \<Rightarrow> Err e | Inr v \<Rightarrow> Ok (Some v)))"

section \<open>Frames\<close>

definition status_update :: "string \<Rightarrow> string \<Rightarrow> string \<Rightarrow> task_state \<Rightarrow> bool \<Rightarrow> json" where
  "status_update now task_id context_id st final_frame = JObject [
     (''taskId'', JString task_id), (''contextId'', JString context_id), (''kind'', JString ''status-update''),
     (''status'', JObject [(''state'', JString (state_name st)), (''timestamp'', JString now)]),
     (''final'', JBool final_frame)]"

definition artifact_update :: "string \<Rightarrow> string \<Rightarrow> string \<Rightarrow> bool \<Rightarrow> json" where
  "artifact_update task_id context_id s last_chunk = JObject [
     (''taskId'', JString task_id), (''contextId'', JString context_id), (''kind'', JString ''artifact-update''),
     (''artifact'', JObject [(''artifactId'', JString ''agent_response''), (''name'', JString ''agent_response''),
        (''parts'', JArray [JObject [(''kind'', JString ''text''), (''text'', JString s)]])]),
     (''append'', JBool True), (''lastChunk'', JBool last_chunk)]"

fun a2a_assistant_text :: "item \<Rightarrow> string" where
  "a2a_assistant_text (AssistantMessage content _) = flatten_text content"
| "a2a_assistant_text _ = []"

section \<open>The driver\<close>

text \<open>
  The points of \<open>drive\<close> between its calls of the store. The events are those the run yields; a run that
  cannot start is its message, and how a run reacts to its token is part of the events it yields.
\<close>

datatype driver_phase = DrStart | DrAnnounce | DrRun | DrArtifacts | DrSwap | DrGet | DrFinal task_state | DrRemove | DrDone

record task_driver =
  dr_task :: string
  dr_context :: string
  dr_token :: nat
  dr_input :: string
  dr_run :: "string + agent_event list"
  dr_events :: "agent_event list"
  dr_accumulated :: string
  dr_streamed_text :: bool
  dr_outcome :: task_state
  dr_phase :: driver_phase

definition driver_new :: "string \<Rightarrow> string \<Rightarrow> nat \<Rightarrow> string \<Rightarrow> string + agent_event list \<Rightarrow> task_driver" where
  "driver_new task_id context_id token inp run = \<lparr>dr_task = task_id, dr_context = context_id, dr_token = token, dr_input = inp,
     dr_run = run, dr_events = [], dr_accumulated = [], dr_streamed_text = False, dr_outcome = Completed, dr_phase = DrStart\<rparr>"

text \<open>The effect of one event on the locals of the driver, and the text of the artifact frame it appends.\<close>

definition drive_event :: "agent_event \<Rightarrow> task_driver \<Rightarrow> task_driver \<times> string option" where
  "drive_event ev d =
     (case ev of
        TokenDelta s \<Rightarrow>
          (if s \<noteq> [] then (d\<lparr>dr_streamed_text := True, dr_accumulated := dr_accumulated d @ s\<rparr>, Some s) else (d, None))
      | MessageOutput it \<Rightarrow>
          (if \<not> dr_streamed_text d \<and> a2a_assistant_text it \<noteq> []
           then (d\<lparr>dr_accumulated := dr_accumulated d @ a2a_assistant_text it\<rparr>, Some (a2a_assistant_text it)) else (d, None))
      | RunFailed e \<Rightarrow> (d\<lparr>dr_outcome := Failed\<rparr>, None)
      | _ \<Rightarrow> (d, None))"

text \<open>The state of the server: store, tokens, and the tasks that run in it. \<open>sy_created\<close> lists the identifiers minted.\<close>

datatype handler =
    Replied rpc_reply
  | ResolveTask bool json a2a_message string
  | StartRun bool json string string string
  | AwaitRun json string nat
  | FetchTask json string
  | TasksGet json string
  | Subscribe json string
  | CancelGet json string
  | CancelFire json string
  | CancelSwap json string "task_state list"
  | CancelFetch json string

record a2a_sys =
  sy_store :: task_store
  sy_cancels :: cancel_registry
  sy_tokens :: nat
  sy_created :: "string list"
  sy_handlers :: "handler list"
  sy_drivers :: "task_driver list"
  sy_subs :: "task_sub list"

definition sys_new :: "nat \<Rightarrow> a2a_sys" where
  "sys_new max_tasks = \<lparr>sy_store = store_new max_tasks, sy_cancels = \<lparr>cg_live = Map.empty, cg_fired = {}\<rparr>, sy_tokens = 0,
     sy_created = [], sy_handlers = [], sy_drivers = [], sy_subs = []\<rparr>"

text \<open>A store operation takes effect: the store is replaced and the signalled subscribers are woken.\<close>

definition put_store :: "nat list \<times> task_store \<Rightarrow> a2a_sys \<Rightarrow> a2a_sys" where
  "put_store r y = y\<lparr>sy_store := snd r, sy_subs := map (sub_wake (fst r)) (sy_subs y)\<rparr>"

definition append_frame :: "string \<Rightarrow> json \<Rightarrow> a2a_sys \<Rightarrow> a2a_sys" where
  "append_frame task_id payload y = put_store (snd (append_event task_id payload (sy_store y))) y"

text \<open>One step of the driver. The arguments are the clock and a fresh identifier for the artifact.\<close>

definition drive_step :: "string \<Rightarrow> string \<Rightarrow> task_driver \<Rightarrow> a2a_sys \<Rightarrow> (task_driver \<times> a2a_sys) option" where
  "drive_step now uuid d y =
     (case dr_phase d of
        DrStart \<Rightarrow> Some (d\<lparr>dr_phase := DrAnnounce\<rparr>,
          put_store (snd (update_state now (dr_task d) Submitted Working (sy_store y))) y)
      | DrAnnounce \<Rightarrow> Some (d\<lparr>dr_phase := DrRun, dr_events := (case dr_run d of Inr evs \<Rightarrow> evs | Inl e \<Rightarrow> [RunFailed e])\<rparr>,
          append_frame (dr_task d) (status_update now (dr_task d) (dr_context d) Working False) y)
      | DrRun \<Rightarrow>
          (case dr_events d of
             ev # rest \<Rightarrow>
               (case drive_event ev (d\<lparr>dr_events := rest\<rparr>) of
                  (d', Some s) \<Rightarrow> Some (d', append_frame (dr_task d) (artifact_update (dr_task d) (dr_context d) s False) y)
                | (d', None) \<Rightarrow> Some (d', y))
           | [] \<Rightarrow> Some (d\<lparr>dr_phase := (if dr_accumulated d \<noteq> [] then DrArtifacts else DrSwap)\<rparr>, y))
      | DrArtifacts \<Rightarrow> Some (d\<lparr>dr_phase := DrSwap\<rparr>,
          put_store ([], snd (set_artifacts (dr_task d) [\<lparr>af_artifact_id = uuid, af_name = ''agent_response'',
            af_parts = [TextPart (dr_accumulated d)]\<rparr>] (sy_store y))) y)
      | DrSwap \<Rightarrow> Some (d\<lparr>dr_phase := DrGet\<rparr>,
          put_store (snd (update_state now (dr_task d) Working (dr_outcome d) (sy_store y))) y)
      | DrGet \<Rightarrow> Some (d\<lparr>dr_phase := DrFinal (case store_get (sy_store y) (dr_task d) of Some t \<Rightarrow> tk_state t | None \<Rightarrow> dr_outcome d)\<rparr>, y)
      | DrFinal fs \<Rightarrow> Some (d\<lparr>dr_phase := DrRemove\<rparr>,
          append_frame (dr_task d) (status_update now (dr_task d) (dr_context d) fs True) y)
      | DrRemove \<Rightarrow> Some (d\<lparr>dr_phase := DrDone\<rparr>, y\<lparr>sy_cancels := cancel_remove (dr_task d) (sy_cancels y)\<rparr>)
      | DrDone \<Rightarrow> None)"

section \<open>Dispatch\<close>

text \<open>
  Decoding with \<open>serde_json\<close> is a parameter: the request envelope, the parameters of a message, and the
  task identifier of the other methods.
\<close>

record a2a_ext =
  ax_from_slice :: "string \<Rightarrow> string + json_rpc_request"
  ax_message :: "json \<Rightarrow> string + a2a_message"
  ax_task_id :: "json \<Rightarrow> string + string"

definition parse_params :: "(json \<Rightarrow> string + 'a) \<Rightarrow> json option \<Rightarrow> string + 'a" where
  "parse_params decode params =
     (case params of
        None \<Rightarrow> Err ''missing params''
      | Some v \<Rightarrow> (case decode v of Inl e \<Rightarrow> Err (''invalid params: '' @ e) | Inr p \<Rightarrow> Ok p))"

text \<open>
  The start of \<open>send\<close> and \<open>stream_message\<close>, up to \<open>resolve_task\<close>; the flag tells them apart. The context is the
  session header, else the proposed context, else a fresh identifier.
\<close>

definition begin_message :: "a2a_ext \<Rightarrow> bool \<Rightarrow> string option \<Rightarrow> string \<Rightarrow> json \<Rightarrow> json option \<Rightarrow> handler" where
  "begin_message X streaming session_id uuid i params =
     (case parse_params (ax_message X) params of
        Inl msg \<Rightarrow> Replied (RpcErr i INVALID_PARAMS msg)
      | Inr m \<Rightarrow>
          (if has_non_text_parts m
           then Replied (RpcErr i CONTENT_TYPE_NOT_SUPPORTED ''only text parts are supported; file and data parts are not accepted'')
           else ResolveTask streaming i m
             (case session_id of Some s \<Rightarrow> s | None \<Rightarrow> (case ms_context_id m of Some c \<Rightarrow> c | None \<Rightarrow> uuid))))"

definition with_task_id :: "a2a_ext \<Rightarrow> json \<Rightarrow> json option \<Rightarrow> (string \<Rightarrow> handler) \<Rightarrow> handler" where
  "with_task_id X i params k =
     (case parse_params (ax_task_id X) params of
        Inl msg \<Rightarrow> Replied (RpcErr i INVALID_PARAMS msg)
      | Inr task_id \<Rightarrow> k task_id)"

definition M_EXTENDED_CARD :: "string list" where
  "M_EXTENDED_CARD = [''agent/authenticatedExtendedCard'', ''agent/getAuthenticatedExtendedCard'']"

definition dispatch_method :: "a2a_ext \<Rightarrow> string option \<Rightarrow> string \<Rightarrow> json_rpc_request \<Rightarrow> json \<Rightarrow> handler" where
  "dispatch_method X session_id uuid req i =
     (let m = rq_method req
      in if m = ''message/send'' then begin_message X False session_id uuid i (rq_params req)
         else if m = ''tasks/get'' then with_task_id X i (rq_params req) (TasksGet i)
         else if m = ''message/stream'' then begin_message X True session_id uuid i (rq_params req)
         else if m = ''tasks/resubscribe'' then with_task_id X i (rq_params req) (Subscribe i)
         else if m = ''tasks/cancel'' then with_task_id X i (rq_params req) (CancelGet i)
         else if starts_with ''tasks/pushNotificationConfig/'' m
         then Replied (RpcErr i PUSH_NOTIFICATION_NOT_SUPPORTED ''this agent does not support push notifications'')
         else if m \<in> set M_EXTENDED_CARD
         then Replied (RpcErr i UNSUPPORTED_OPERATION ''this agent does not publish an authenticated extended card'')
         else Replied (RpcErr i METHOD_NOT_FOUND (''method not found: '' @ m)))"

record http_request =
  hq_session_header :: "string option option"
  hq_body :: "string + string"

text \<open>The body is the result of reading at most 2 MiB of it.\<close>

definition dispatch :: "ext \<Rightarrow> a2a_ext \<Rightarrow> string \<Rightarrow> http_request \<Rightarrow> handler" where
  "dispatch E X uuid q =
     (case extract_session_id (hq_session_header q) of
        Inl e \<Rightarrow> Replied (RpcErr JNull INVALID_REQUEST (agentcore_display e))
      | Inr session_id \<Rightarrow>
          (case hq_body q of
             Inl e \<Rightarrow> Replied (RpcErr JNull PARSE_ERROR (''failed to read request body: '' @ e))
           | Inr bytes \<Rightarrow>
               (case ax_from_slice X bytes of
                  Inl e \<Rightarrow> Replied (RpcErr JNull PARSE_ERROR (''parse error: '' @ e))
                | Inr req \<Rightarrow>
                    (let i = (case rq_id req of Some v \<Rightarrow> v | None \<Rightarrow> JNull)
                     in if rq_jsonrpc req \<noteq> ''2.0''
                        then Replied (RpcErr i INVALID_REQUEST (''unsupported jsonrpc version '' @ dbg_str E (rq_jsonrpc req) @ ''; expected \"2.0\"''))
                        else dispatch_method X session_id uuid req i))))"

section \<open>The methods\<close>

text \<open>
  What a step of a request takes from outside: the clock, a fresh identifier, the results of the session
  and context providers, and the run the runner starts.
\<close>

record handler_input =
  hi_now :: string
  hi_uuid :: string
  hi_session :: "string + unit"
  hi_context :: "string + unit"
  hi_run :: "string + agent_event list"

datatype resolved = Resolved string | RpcFailure int string

definition resolve_task :: "handler_input \<Rightarrow> string option \<Rightarrow> string \<Rightarrow> a2a_sys \<Rightarrow> resolved \<times> a2a_sys" where
  "resolve_task inp inbound context_id y =
     (case inbound of
        None \<Rightarrow>
          (Resolved (hi_uuid inp),
           put_store (store_create \<lparr>tk_id = hi_uuid inp, tk_context_id = context_id, tk_state = Submitted, tk_timestamp = hi_now inp,
              tk_artifacts = []\<rparr> (sy_store y)) (y\<lparr>sy_created := sy_created y @ [hi_uuid inp]\<rparr>))
      | Some existing \<Rightarrow>
          (case store_get (sy_store y) existing of
             Some t \<Rightarrow>
               (if state_is_terminal (tk_state t)
                then (RpcFailure INVALID_PARAMS (''task '' @ existing @ '' is in terminal state '' @ state_debug (tk_state t)
                        @ '' and cannot accept more input''), y)
                else (Resolved existing, y))
           | None \<Rightarrow> (RpcFailure TASK_NOT_FOUND (''task not found: '' @ existing), y)))"

definition a2a_start_run :: "handler_input \<Rightarrow> string \<Rightarrow> string \<Rightarrow> string \<Rightarrow> a2a_sys \<Rightarrow> string + nat \<times> a2a_sys" where
  "a2a_start_run inp task_id context_id txt y =
     (case hi_session inp of
        Inl msg \<Rightarrow> Err msg
      | Inr _ \<Rightarrow>
          (case hi_context inp of
             Inl msg \<Rightarrow> Err msg
           | Inr _ \<Rightarrow> Ok (length (sy_drivers y),
               y\<lparr>sy_cancels := cancel_register task_id (sy_tokens y) (sy_cancels y), sy_tokens := sy_tokens y + 1,
                 sy_drivers := sy_drivers y @ [driver_new task_id context_id (sy_tokens y) txt (hi_run inp)]\<rparr>)))"

definition task_not_found :: "json \<Rightarrow> string \<Rightarrow> rpc_reply" where
  "task_not_found i task_id = RpcErr i TASK_NOT_FOUND (''task not found: '' @ task_id)"

text \<open>One iteration of the loop of \<open>tasks_cancel\<close> over the states still to be tried, with what follows the loop.\<close>

definition cancel_swap :: "string \<Rightarrow> json \<Rightarrow> string \<Rightarrow> task_state list \<Rightarrow> a2a_sys \<Rightarrow> handler \<times> a2a_sys" where
  "cancel_swap now i task_id states y =
     (case states of
        [] \<Rightarrow> (Replied (RpcErr i TASK_NOT_CANCELABLE (''task '' @ task_id @ '' reached a terminal state before it could be cancelled'')), y)
      | e # rest \<Rightarrow>
          (case update_state now task_id e Canceled (sy_store y) of
             (Inr True, w) \<Rightarrow> (CancelFetch i task_id, put_store w y)
           | (Inl err, w) \<Rightarrow> (Replied (RpcErr i INTERNAL_ERROR (agentcore_display err)), put_store w y)
           | (Inr False, w) \<Rightarrow> (CancelSwap i task_id rest, put_store w y)))"

text \<open>The task as \<open>send\<close> and \<open>tasks_cancel\<close> fetch it at their end, with what they say when it is gone.\<close>

definition fetch_finished :: "string \<Rightarrow> json \<Rightarrow> string \<Rightarrow> a2a_sys \<Rightarrow> rpc_reply" where
  "fetch_finished gone i task_id y =
     (case store_get (sy_store y) task_id of Some t \<Rightarrow> RpcOk i t | None \<Rightarrow> RpcErr i INTERNAL_ERROR gone)"

definition tasks_get :: "json \<Rightarrow> string \<Rightarrow> a2a_sys \<Rightarrow> rpc_reply" where
  "tasks_get i task_id y = (case store_get (sy_store y) task_id of Some t \<Rightarrow> RpcOk i t | None \<Rightarrow> task_not_found i task_id)"

definition sse_for_task :: "json \<Rightarrow> string \<Rightarrow> a2a_sys \<Rightarrow> handler \<times> a2a_sys" where
  "sse_for_task i task_id y =
     (case store_subscribe (sy_store y) task_id 0 of
        Inr s \<Rightarrow> (Replied (SseReply (length (sy_subs y))), y\<lparr>sy_subs := sy_subs y @ [s]\<rparr>)
      | Inl (NotFound _) \<Rightarrow> (Replied (task_not_found i task_id), y)
      | Inl e \<Rightarrow> (Replied (RpcErr i INTERNAL_ERROR (agentcore_display e)), y))"

text \<open>The checks of \<open>tasks_cancel\<close> before its loop: the state of the task, then its token.\<close>

definition cancel_check :: "json \<Rightarrow> string \<Rightarrow> a2a_sys \<Rightarrow> handler" where
  "cancel_check i task_id y =
     (case store_get (sy_store y) task_id of
        None \<Rightarrow> Replied (task_not_found i task_id)
      | Some t \<Rightarrow>
          (if state_is_terminal (tk_state t)
           then Replied (RpcErr i TASK_NOT_CANCELABLE (''task '' @ task_id @ '' is already in terminal state '' @ state_debug (tk_state t)))
           else CancelFire i task_id))"

definition cancel_token :: "json \<Rightarrow> string \<Rightarrow> a2a_sys \<Rightarrow> handler \<times> a2a_sys" where
  "cancel_token i task_id y =
     (case cancel_fire task_id (sy_cancels y) of
        (False, g) \<Rightarrow> (Replied (RpcErr i TASK_NOT_CANCELABLE (''task '' @ task_id
           @ '' has no live run in this container; with a durable task store it may be running elsewhere'')), y\<lparr>sy_cancels := g\<rparr>)
      | (True, g) \<Rightarrow> (CancelSwap i task_id NON_TERMINAL, y\<lparr>sy_cancels := g\<rparr>))"

text \<open>After \<open>resolve_task\<close>, and after \<open>start_run\<close>: \<open>message/stream\<close> goes on to the event log, \<open>message/send\<close> awaits the driver.\<close>

definition after_resolve :: "bool \<Rightarrow> json \<Rightarrow> a2a_message \<Rightarrow> string \<Rightarrow> resolved \<Rightarrow> handler" where
  "after_resolve streaming i m context_id r =
     (case r of
        Resolved task_id \<Rightarrow> StartRun streaming i task_id context_id (message_text m)
      | RpcFailure err_code msg \<Rightarrow> Replied (RpcErr i err_code msg))"

definition after_start :: "bool \<Rightarrow> json \<Rightarrow> string \<Rightarrow> string + nat \<times> a2a_sys \<Rightarrow> a2a_sys \<Rightarrow> handler \<times> a2a_sys" where
  "after_start streaming i task_id r y =
     (case r of
        Inl msg \<Rightarrow> (Replied (RpcErr i INTERNAL_ERROR msg), y)
      | Inr (k, y') \<Rightarrow> (if streaming then Subscribe i task_id else AwaitRun i task_id k, y'))"

text \<open>One step of a request; \<open>None\<close> when it has been answered, or awaits a driver that is not done.\<close>

definition handler_step :: "handler_input \<Rightarrow> handler \<Rightarrow> a2a_sys \<Rightarrow> (handler \<times> a2a_sys) option" where
  "handler_step inp h y =
     (case h of
        Replied r \<Rightarrow> None
      | ResolveTask streaming i m context_id \<Rightarrow>
          Some (apfst (after_resolve streaming i m context_id) (resolve_task inp (ms_task_id m) context_id y))
      | StartRun streaming i task_id context_id txt \<Rightarrow> Some (after_start streaming i task_id (a2a_start_run inp task_id context_id txt y) y)
      | AwaitRun i task_id k \<Rightarrow>
          (if k < length (sy_drivers y) \<and> dr_phase (sy_drivers y ! k) = DrDone then Some (FetchTask i task_id, y) else None)
      | FetchTask i task_id \<Rightarrow> Some (Replied (fetch_finished ''the task disappeared while it was running'' i task_id y), y)
      | TasksGet i task_id \<Rightarrow> Some (Replied (tasks_get i task_id y), y)
      | Subscribe i task_id \<Rightarrow> Some (sse_for_task i task_id y)
      | CancelGet i task_id \<Rightarrow> Some (cancel_check i task_id y, y)
      | CancelFire i task_id \<Rightarrow> Some (cancel_token i task_id y)
      | CancelSwap i task_id states \<Rightarrow> Some (cancel_swap (hi_now inp) i task_id states y)
      | CancelFetch i task_id \<Rightarrow> Some (Replied (fetch_finished ''the task disappeared while it was being cancelled'' i task_id y), y))"

lemmas handler_step_defs = handler_step_def fetch_finished_def tasks_get_def sse_for_task_def cancel_check_def cancel_token_def
  after_resolve_def after_start_def

section \<open>Interleavings\<close>

text \<open>
  One step of the server: a request arrives, or a request, a driver or a subscriber makes its next step. The
  identifiers minted for tasks are fresh.
\<close>

inductive a2a_step :: "ext \<Rightarrow> a2a_ext \<Rightarrow> a2a_sys \<Rightarrow> a2a_sys \<Rightarrow> bool" for E X where
  request: "a2a_step E X y (y\<lparr>sy_handlers := sy_handlers y @ [dispatch E X uuid q]\<rparr>)"
| handle: "k < length (sy_handlers y) \<Longrightarrow> hi_uuid inp \<notin> set (sy_created y) \<Longrightarrow>
    handler_step inp (sy_handlers y ! k) y = Some (h', y') \<Longrightarrow>
    a2a_step E X y (y'\<lparr>sy_handlers := (sy_handlers y')[k := h']\<rparr>)"
| drive: "k < length (sy_drivers y) \<Longrightarrow> drive_step now uuid (sy_drivers y ! k) y = Some (d', y') \<Longrightarrow>
    a2a_step E X y (y'\<lparr>sy_drivers := (sy_drivers y')[k := d']\<rparr>)"
| follow: "k < length (sy_subs y) \<Longrightarrow> task_sub_step (sy_store y) (sy_subs y ! k) = Some s' \<Longrightarrow>
    a2a_step E X y (y\<lparr>sy_subs := (sy_subs y)[k := s']\<rparr>)"

inductive_cases a2a_stepE: "a2a_step E X y y'"

definition a2a_reach :: "ext \<Rightarrow> a2a_ext \<Rightarrow> nat \<Rightarrow> a2a_sys \<Rightarrow> bool" where
  "a2a_reach E X max_tasks y \<longleftrightarrow> (a2a_step E X)\<^sup>*\<^sup>* (sys_new max_tasks) y"

section \<open>The life of a task\<close>

text \<open>
  The specification of a task: it may start working, and it may end once. \<open>advances\<close> says that a step of the
  store takes every task of a set along its life, or evicts it.
\<close>

definition task_advance :: "task_state \<Rightarrow> task_state \<Rightarrow> bool" where
  "task_advance z x \<longleftrightarrow> x = z \<or> (z = Submitted \<and> x = Working) \<or> (\<not> state_is_terminal z \<and> state_is_terminal x)"

definition advances :: "string set \<Rightarrow> task_store \<Rightarrow> task_store \<Rightarrow> bool" where
  "advances C st st' \<longleftrightarrow>
     (\<forall>i \<in> C. \<forall>x. task_state_of st' i = Some x \<longrightarrow> (\<exists>z. task_state_of st i = Some z \<and> task_advance z x))"

lemma task_advance_refl [simp]: "task_advance z z"
  by (simp add: task_advance_def)

lemma task_advance_trans: "task_advance x y \<Longrightarrow> task_advance y z \<Longrightarrow> task_advance x z"
  by (auto simp: task_advance_def)

lemma advances_same: "task_state_of st' = task_state_of st \<Longrightarrow> advances C st st'"
  by (simp add: advances_def)

lemma advances_update_state:
  assumes "\<not> state_is_terminal e" "state_is_terminal n \<or> e = Submitted \<and> n = Working"
  shows "advances C st (snd (snd (update_state now i e n st)))"
  using assms by (auto simp: advances_def mem.swap_state task_advance_def)

lemma advances_create: "tk_id t \<notin> C \<Longrightarrow> advances C st (snd (store_create t st))"
  unfolding advances_def
proof (intro ballI allI impI)
  fix i x assume "tk_id t \<notin> C" "i \<in> C" and x: "task_state_of (snd (store_create t st)) i = Some x"
  then have "i \<noteq> tk_id t" by blast
  with store_create_state[OF prod.collapse[symmetric] x] show "\<exists>z. task_state_of st i = Some z \<and> task_advance z x" by simp
qed

text \<open>The invariants of drivers and requests, over the states of their tasks.\<close>

definition driver_ok :: "task_store \<Rightarrow> task_driver \<Rightarrow> bool" where
  "driver_ok st d \<longleftrightarrow> state_is_terminal (dr_outcome d)
     \<and> (dr_phase d \<noteq> DrStart \<longrightarrow> task_state_of st (dr_task d) \<noteq> Some Submitted)
     \<and> (\<forall>x. (dr_phase d \<in> {DrGet, DrRemove, DrDone} \<or> (\<exists>fs. dr_phase d = DrFinal fs)) \<longrightarrow>
          task_state_of st (dr_task d) = Some x \<longrightarrow> state_is_terminal x)
     \<and> (\<forall>fs. dr_phase d = DrFinal fs \<longrightarrow> state_is_terminal fs \<and> (\<forall>x. task_state_of st (dr_task d) = Some x \<longrightarrow> x = fs))"

definition rpc_codes :: "int list" where
  "rpc_codes = [PARSE_ERROR, INVALID_REQUEST, METHOD_NOT_FOUND, INVALID_PARAMS, INTERNAL_ERROR, TASK_NOT_FOUND,
     TASK_NOT_CANCELABLE, PUSH_NOTIFICATION_NOT_SUPPORTED, UNSUPPORTED_OPERATION, CONTENT_TYPE_NOT_SUPPORTED]"

fun reply_ok :: "rpc_reply \<Rightarrow> bool" where
  "reply_ok (RpcErr i c m) = (c \<in> set rpc_codes)"
| "reply_ok _ = True"

fun handler_ok :: "string set \<Rightarrow> task_store \<Rightarrow> task_driver list \<Rightarrow> handler \<Rightarrow> bool" where
  "handler_ok C st ds (Replied r) = reply_ok r"
| "handler_ok C st ds (StartRun b i j c s) = (j \<in> C)"
| "handler_ok C st ds (AwaitRun i j k) = (k < length ds \<and> dr_task (ds ! k) = j)"
| "handler_ok C st ds (FetchTask i j) = (j \<in> C \<and> (\<forall>x. task_state_of st j = Some x \<longrightarrow> state_is_terminal x))"
| "handler_ok C st ds (CancelFire i j) = (j \<in> C)"
| "handler_ok C st ds (CancelSwap i j states) =
     (j \<in> C \<and> suffix states NON_TERMINAL \<and> (\<forall>x. task_state_of st j = Some x \<longrightarrow> \<not> state_is_terminal x \<longrightarrow> x \<in> set states))"
| "handler_ok C st ds (CancelFetch i j) = (j \<in> C \<and> (\<forall>x. task_state_of st j = Some x \<longrightarrow> x = Canceled))"
| "handler_ok C st ds h = True"

lemma driver_ok_advances:
  assumes "driver_ok st d" "advances C st st'" "dr_task d \<in> C"
  shows "driver_ok st' d"
proof -
  have adv: "\<exists>z. task_state_of st (dr_task d) = Some z \<and> task_advance z x" if "task_state_of st' (dr_task d) = Some x" for x
    using assms(2,3) that by (simp add: advances_def)
  have "task_state_of st' (dr_task d) \<noteq> Some Submitted" if "task_state_of st (dr_task d) \<noteq> Some Submitted"
    using adv[of Submitted] that by (auto simp: task_advance_def)
  moreover have "task_state_of st (dr_task d) = Some x" if "task_state_of st' (dr_task d) = Some x"
    "\<forall>z. task_state_of st (dr_task d) = Some z \<longrightarrow> state_is_terminal z" for x
    using adv[OF that(1)] that(2) by (auto simp: task_advance_def)
  ultimately show ?thesis using assms(1) unfolding driver_ok_def by blast
qed

lemma suffix_non_terminal:
  "suffix s NON_TERMINAL \<Longrightarrow> s \<in> {[], [InputRequired], [Working, InputRequired], [Submitted, Working, InputRequired]}"
  by (auto simp: NON_TERMINAL_def suffix_Cons)

lemma handler_ok_advances:
  assumes "handler_ok C st ds h" "advances C st st'" "C \<subseteq> C'" "length ds \<le> length ds'"
    and "\<And>k. k < length ds \<Longrightarrow> dr_task (ds' ! k) = dr_task (ds ! k)"
  shows "handler_ok C' st' ds' h"
proof (cases h)
  case (CancelSwap i j states)
  then have j: "j \<in> C" "suffix states NON_TERMINAL"
    and st: "\<And>x. task_state_of st j = Some x \<Longrightarrow> \<not> state_is_terminal x \<Longrightarrow> x \<in> set states"
    using assms(1) by auto
  have "x \<in> set states" if x: "task_state_of st' j = Some x" "\<not> state_is_terminal x" for x
  proof -
    obtain z where z: "task_state_of st j = Some z" "task_advance z x"
      using assms(2) j(1) x(1) by (auto simp: advances_def)
    with x(2) have "\<not> state_is_terminal z" by (auto simp: task_advance_def)
    with st z(1) have "z \<in> set states" by blast
    with z(2) x(2) suffix_non_terminal[OF j(2)] show ?thesis by (auto simp: task_advance_def)
  qed
  with CancelSwap j assms(3) show ?thesis by auto
next
  case (FetchTask i j)
  with assms show ?thesis by (fastforce simp: advances_def task_advance_def)
next
  case (CancelFetch i j)
  with assms show ?thesis by (fastforce simp: advances_def task_advance_def)
qed (use assms in auto)

definition sys_ok :: "a2a_sys \<Rightarrow> bool" where
  "sys_ok y \<longleftrightarrow> store_ok (sy_store y) \<and> dom (in_tasks (sy_store y)) \<subseteq> set (sy_created y)
     \<and> (\<forall>i. task_state_of (sy_store y) i \<noteq> Some InputRequired)
     \<and> (\<forall>d \<in> set (sy_drivers y). dr_task d \<in> set (sy_created y) \<and> driver_ok (sy_store y) d)
     \<and> (\<forall>h \<in> set (sy_handlers y). handler_ok (set (sy_created y)) (sy_store y) (sy_drivers y) h)
     \<and> (\<forall>s \<in> set (sy_subs y). su_id s \<in> set (sy_created y) \<and> sub_inv (sy_store y) s)"

lemma put_store_simps [simp]:
  "sy_store (put_store r y) = snd r" "sy_subs (put_store r y) = map (sub_wake (fst r)) (sy_subs y)"
  "sy_created (put_store r y) = sy_created y" "sy_drivers (put_store r y) = sy_drivers y"
  "sy_handlers (put_store r y) = sy_handlers y" "sy_cancels (put_store r y) = sy_cancels y" "sy_tokens (put_store r y) = sy_tokens y"
  by (simp_all add: put_store_def)

text \<open>Every operation of the store that advances the tasks keeps the invariant of the server.\<close>

lemma sys_ok_put_fresh:
  assumes "sys_ok y" "store_ok st'" "advances (set (sy_created y)) (sy_store y) st'"
    and "dom (in_tasks st') \<subseteq> set (sy_created y @ us)"
    and "\<And>i. i \<notin> set (sy_created y) \<Longrightarrow> task_state_of st' i \<noteq> Some InputRequired"
    and "\<And>s. s \<in> set (sy_subs y) \<Longrightarrow> sub_inv st' (sub_wake w s)"
  shows "sys_ok (put_store (w, st') (y\<lparr>sy_created := sy_created y @ us\<rparr>))"
proof -
  have "task_state_of st' i \<noteq> Some InputRequired" for i
  proof
    assume *: "task_state_of st' i = Some InputRequired"
    then have "i \<in> set (sy_created y)" using assms(5) by blast
    with * assms(3) obtain z where "task_state_of (sy_store y) i = Some z" "task_advance z InputRequired"
      by (auto simp: advances_def)
    then have "task_state_of (sy_store y) i = Some InputRequired" by (simp add: task_advance_def)
    with assms(1) show False by (simp add: sys_ok_def)
  qed
  moreover have "driver_ok st' d" if "d \<in> set (sy_drivers y)" for d
    using assms(1,3) driver_ok_advances that by (auto simp: sys_ok_def)
  moreover have "handler_ok (set (sy_created y @ us)) st' (sy_drivers y) h" if "h \<in> set (sy_handlers y)" for h
  proof (rule handler_ok_advances)
    show "handler_ok (set (sy_created y)) (sy_store y) (sy_drivers y) h" using assms(1) that by (simp add: sys_ok_def)
  qed (use assms(3) in auto)
  ultimately show ?thesis
    using assms by (auto simp: sys_ok_def)
qed

lemma sys_ok_put:
  assumes "sys_ok y" "store_ok st'" "advances (set (sy_created y)) (sy_store y) st'"
    and "dom (in_tasks st') \<subseteq> set (sy_created y)"
    and "\<And>s. s \<in> set (sy_subs y) \<Longrightarrow> sub_inv st' (sub_wake w s)"
  shows "sys_ok (put_store (w, st') y)"
proof -
  have "task_state_of st' i \<noteq> Some InputRequired" if "i \<notin> set (sy_created y)" for i
    using that assms(4) by (auto simp: task_state_of_def store_get_def)
  from sys_ok_put_fresh[where us = "[]" and w = w, OF assms(1,2,3) _ this assms(5)] assms(4) show ?thesis by simp
qed

lemma update_state_dom: "dom (in_tasks (snd (snd (update_state now i e n st)))) = dom (in_tasks st)"
  by (auto simp: update_state_def split: option.splits)

lemma set_artifacts_dom: "dom (in_tasks (snd (set_artifacts i as st))) = dom (in_tasks st)"
  by (auto simp: set_artifacts_def split: option.splits)

lemma append_event_dom: "dom (in_tasks (snd (snd (append_event i p st)))) = dom (in_tasks st)"
  by (auto simp: append_event_def split: option.splits)

lemma sys_ok_update_state:
  assumes "sys_ok y" "\<not> state_is_terminal e" "state_is_terminal n \<or> e = Submitted \<and> n = Working"
  shows "sys_ok (put_store (snd (update_state now i e n (sy_store y))) y)"
proof -
  have "sys_ok (put_store (fst (snd (update_state now i e n (sy_store y))), snd (snd (update_state now i e n (sy_store y)))) y)"
  proof (rule sys_ok_put[OF assms(1)])
    show "store_ok (snd (snd (update_state now i e n (sy_store y))))"
      using assms(1) by (simp add: sys_ok_def store_ok_update_state)
    show "advances (set (sy_created y)) (sy_store y) (snd (snd (update_state now i e n (sy_store y))))"
      by (rule advances_update_state[OF assms(2,3)])
    show "dom (in_tasks (snd (snd (update_state now i e n (sy_store y))))) \<subseteq> set (sy_created y)"
      unfolding update_state_dom using assms(1) by (simp add: sys_ok_def)
    show "sub_inv (snd (snd (update_state now i e n (sy_store y)))) (sub_wake (fst (snd (update_state now i e n (sy_store y)))) s)"
      if "s \<in> set (sy_subs y)" for s
      using assms(1) that by (intro sub_inv_update_state) (auto simp: sys_ok_def)
  qed
  then show ?thesis by simp
qed

lemma sys_ok_set_artifacts:
  assumes "sys_ok y"
  shows "sys_ok (put_store ([], snd (set_artifacts i as (sy_store y))) y)"
proof (rule sys_ok_put[OF assms])
  show "store_ok (snd (set_artifacts i as (sy_store y)))" using assms by (simp add: sys_ok_def store_ok_set_artifacts)
  show "dom (in_tasks (snd (set_artifacts i as (sy_store y)))) \<subseteq> set (sy_created y)"
    unfolding set_artifacts_dom using assms by (simp add: sys_ok_def)
  show "sub_inv (snd (set_artifacts i as (sy_store y))) (sub_wake [] s)" if "s \<in> set (sy_subs y)" for s
    using assms that by (simp add: sys_ok_def sub_inv_set_artifacts)
qed (simp add: advances_same)

lemma sys_ok_append_frame:
  assumes "sys_ok y"
  shows "sys_ok (append_frame i p y)"
proof -
  have "sys_ok (put_store (fst (snd (append_event i p (sy_store y))), snd (snd (append_event i p (sy_store y)))) y)"
  proof (rule sys_ok_put[OF assms])
    show "store_ok (snd (snd (append_event i p (sy_store y))))" using assms by (simp add: sys_ok_def store_ok_append_event)
    show "dom (in_tasks (snd (snd (append_event i p (sy_store y))))) \<subseteq> set (sy_created y)"
      unfolding append_event_dom using assms by (simp add: sys_ok_def)
    show "sub_inv (snd (snd (append_event i p (sy_store y)))) (sub_wake (fst (snd (append_event i p (sy_store y)))) s)"
      if "s \<in> set (sy_subs y)" for s
      using assms that by (intro sub_inv_append_event) (auto simp: sys_ok_def)
  qed (simp add: advances_same)
  then show ?thesis by (simp add: append_frame_def)
qed

lemma sys_ok_create:
  assumes "sys_ok y" "tk_id t \<notin> set (sy_created y)" "tk_state t = Submitted"
  shows "sys_ok (put_store (store_create t (sy_store y)) (y\<lparr>sy_created := sy_created y @ [tk_id t]\<rparr>))"
proof -
  obtain w st' where c: "store_create t (sy_store y) = (w, st')" by (cases "store_create t (sy_store y)")
  have "sys_ok (put_store (w, st') (y\<lparr>sy_created := sy_created y @ [tk_id t]\<rparr>))"
  proof (rule sys_ok_put_fresh[OF assms(1)])
    show "store_ok st'" using store_ok_create[of "sy_store y" t] assms(1) by (simp add: sys_ok_def c)
    show "advances (set (sy_created y)) (sy_store y) st'" using advances_create[OF assms(2), of "sy_store y"] by (simp add: c)
    have known: "i \<in> set (sy_created y)" if "in_tasks (sy_store y) i = Some r" for i r
      using assms(1) that by (auto simp: sys_ok_def)
    show "dom (in_tasks st') \<subseteq> set (sy_created y @ [tk_id t])"
      unfolding store_create_simps(4)[OF c] by (auto split: if_splits dest: known)
    show "task_state_of st' i \<noteq> Some InputRequired" if "i \<notin> set (sy_created y)" for i
      using store_create_state[OF c, of i InputRequired] that assms(3)
      by (auto simp: task_state_of_def store_get_def split: if_splits dest: known)
    show "sub_inv st' (sub_wake w s)" if "s \<in> set (sy_subs y)" for s
      using assms(1,2) that by (intro sub_inv_create[OF _ _ _ c]) (auto simp: sys_ok_def)
  qed
  then show ?thesis by (simp add: c)
qed

section \<open>Every step keeps the invariant\<close>

lemma sys_ok_replace_driver:
  assumes "sys_ok y" "k < length (sy_drivers y)" "dr_task d' = dr_task (sy_drivers y ! k)" "driver_ok (sy_store y) d'"
  shows "sys_ok (y\<lparr>sy_drivers := (sy_drivers y)[k := d']\<rparr>)"
proof -
  have "handler_ok (set (sy_created y)) (sy_store y) ((sy_drivers y)[k := d']) h" if "h \<in> set (sy_handlers y)" for h
  proof (rule handler_ok_advances)
    show "handler_ok (set (sy_created y)) (sy_store y) (sy_drivers y) h" using assms(1) that by (simp add: sys_ok_def)
    show "dr_task ((sy_drivers y)[k := d'] ! j) = dr_task (sy_drivers y ! j)" if "j < length (sy_drivers y)" for j
      using assms(3) that by (cases "j = k") simp_all
  qed (simp_all add: advances_same)
  moreover have "dr_task d \<in> set (sy_created y) \<and> driver_ok (sy_store y) d" if "d \<in> set ((sy_drivers y)[k := d'])" for d
    using that assms set_update_subset_insert[of "sy_drivers y" k d'] nth_mem[OF assms(2)] by (auto simp: sys_ok_def)
  ultimately show ?thesis using assms(1) by (simp add: sys_ok_def)
qed

lemma sys_ok_replace_handler:
  assumes "sys_ok y" "handler_ok (set (sy_created y)) (sy_store y) (sy_drivers y) h'"
  shows "sys_ok (y\<lparr>sy_handlers := (sy_handlers y)[k := h']\<rparr>)"
  using assms set_update_subset_insert[of "sy_handlers y" k h'] by (auto simp: sys_ok_def)

lemma append_frame_simps [simp]:
  "task_state_of (sy_store (append_frame i p y)) = task_state_of (sy_store y)"
  "sy_drivers (append_frame i p y) = sy_drivers y" "sy_handlers (append_frame i p y) = sy_handlers y"
  "sy_created (append_frame i p y) = sy_created y"
  by (simp_all add: append_frame_def)

lemma drive_event_simps:
  assumes "drive_event ev d = (d', s)"
  shows "dr_task d' = dr_task d" "dr_phase d' = dr_phase d" "dr_context d' = dr_context d" "dr_events d' = dr_events d"
    "state_is_terminal (dr_outcome d) \<Longrightarrow> state_is_terminal (dr_outcome d')"
  using assms by (auto simp: drive_event_def split: agent_event.splits if_splits)

text \<open>What one step of a driver does to the rest of the server.\<close>

lemma drive_step_frame:
  assumes "drive_step now uuid d y = Some (d', y')"
  shows "dr_task d' = dr_task d" "sy_drivers y' = sy_drivers y" "sy_handlers y' = sy_handlers y" "sy_created y' = sy_created y"
  using assms
  by (auto simp: drive_step_def drive_event_simps split: driver_phase.splits list.splits prod.splits option.splits)

lemma sys_ok_drive_step:
  assumes "sys_ok y" "state_is_terminal (dr_outcome d)" "drive_step now uuid d y = Some (d', y')"
  shows "sys_ok y'"
proof (cases "dr_phase d")
  case DrRun
  then show ?thesis
    using assms by (auto simp: drive_step_def sys_ok_append_frame split: list.splits prod.splits option.splits)
next
  case DrRemove
  then have "y' = y\<lparr>sy_cancels := cancel_remove (dr_task d) (sy_cancels y)\<rparr>" using assms(3) by (simp add: drive_step_def)
  then show ?thesis using assms(1) by (simp add: sys_ok_def)
qed (use assms in \<open>auto simp: drive_step_def sys_ok_append_frame sys_ok_update_state sys_ok_set_artifacts\<close>)

lemma driver_ok_step:
  assumes ok: "driver_ok (sy_store y) d" and inp: "task_state_of (sy_store y) (dr_task d) \<noteq> Some InputRequired"
    and st: "drive_step now uuid d y = Some (d', y')"
  shows "driver_ok (sy_store y') d'"
proof (cases "dr_phase d")
  case DrSwap
  have "state_is_terminal x" if "x \<noteq> Working" "x \<noteq> Submitted" "x \<noteq> InputRequired" for x
    using that by (cases x) auto
  moreover have "task_state_of (sy_store y') (dr_task d') = (if task_state_of (sy_store y) (dr_task d) = Some Working
      then Some (dr_outcome d) else task_state_of (sy_store y) (dr_task d))" "dr_phase d' = DrGet" "dr_outcome d' = dr_outcome d"
    using DrSwap st by (auto simp: drive_step_def mem.swap_state)
  ultimately show ?thesis using ok inp DrSwap by (auto simp: driver_ok_def split: if_splits)
next
  case DrGet
  with ok st show ?thesis by (auto simp: drive_step_def driver_ok_def task_state_of_def split: option.splits)
next
  case DrRun
  show ?thesis
  proof (cases "dr_events d")
    case Nil
    with DrRun ok st show ?thesis by (auto simp: drive_step_def driver_ok_def split: if_splits)
  next
    case (Cons ev rest)
    obtain d1 s where e: "drive_event ev (d\<lparr>dr_events := rest\<rparr>) = (d1, s)" by fastforce
    with DrRun Cons st have "d' = d1" "task_state_of (sy_store y') = task_state_of (sy_store y)"
      by (auto simp: drive_step_def split: option.splits)
    then show ?thesis using ok DrRun drive_event_simps[OF e] by (simp add: driver_ok_def)
  qed
qed (use ok inp st in \<open>auto simp: drive_step_def driver_ok_def mem.swap_state split: if_splits\<close>)

lemma sys_ok_drive:
  assumes "sys_ok y" "k < length (sy_drivers y)" "drive_step now uuid (sy_drivers y ! k) y = Some (d', y')"
  shows "sys_ok (y'\<lparr>sy_drivers := (sy_drivers y')[k := d']\<rparr>)"
proof -
  have d: "driver_ok (sy_store y) (sy_drivers y ! k)" "task_state_of (sy_store y) (dr_task (sy_drivers y ! k)) \<noteq> Some InputRequired"
    using assms(1) nth_mem[OF assms(2)] by (auto simp: sys_ok_def)
  then have "state_is_terminal (dr_outcome (sy_drivers y ! k))" by (simp add: driver_ok_def)
  from sys_ok_drive_step[OF assms(1) this assms(3)] show ?thesis
    using driver_ok_step[OF d assms(3)] assms(2) drive_step_frame[OF assms(3)] by (intro sys_ok_replace_driver) auto
qed

lemma rpc_codes_simps [simp]:
  "PARSE_ERROR \<in> set rpc_codes" "INVALID_REQUEST \<in> set rpc_codes" "METHOD_NOT_FOUND \<in> set rpc_codes"
  "INVALID_PARAMS \<in> set rpc_codes" "INTERNAL_ERROR \<in> set rpc_codes" "TASK_NOT_FOUND \<in> set rpc_codes"
  "TASK_NOT_CANCELABLE \<in> set rpc_codes" "PUSH_NOTIFICATION_NOT_SUPPORTED \<in> set rpc_codes"
  "UNSUPPORTED_OPERATION \<in> set rpc_codes" "CONTENT_TYPE_NOT_SUPPORTED \<in> set rpc_codes"
  by (simp_all add: rpc_codes_def)

lemma handler_ok_dispatch: "handler_ok C st ds (dispatch E X uuid q)"
  by (auto simp: dispatch_def dispatch_method_def begin_message_def with_task_id_def Let_def split: sum.splits)

text \<open>Requests that only read the store.\<close>

lemma handler_step_reads:
  assumes "sys_ok y" "handler_step inp h y = Some (h', y')" "h \<in> {FetchTask i j, TasksGet i j, CancelGet i j, CancelFetch i j}"
  shows "y' = y \<and> handler_ok (set (sy_created y)) (sy_store y) (sy_drivers y) h'"
proof -
  have "j \<in> set (sy_created y)" if "store_get (sy_store y) j = Some t" for t
    using that assms(1) by (auto simp: sys_ok_def store_get_def)
  then show ?thesis
    using assms(2,3) by (auto simp: handler_step_defs task_not_found_def split: option.splits if_splits)
qed

lemma sys_ok_resolve:
  assumes "sys_ok y" "hi_uuid inp \<notin> set (sy_created y)" "resolve_task inp inbound c y = (r, y')"
  shows "sys_ok y'" "r = Resolved j \<Longrightarrow> j \<in> set (sy_created y')" "r = RpcFailure cd m \<Longrightarrow> cd \<in> set rpc_codes"
proof -
  have known: "j \<in> set (sy_created y)" if "store_get (sy_store y) j = Some t" for j t
    using that assms(1) by (auto simp: sys_ok_def store_get_def)
  show "sys_ok y'"
    using assms sys_ok_create[OF assms(1), of "\<lparr>tk_id = hi_uuid inp, tk_context_id = c, tk_state = Submitted,
      tk_timestamp = hi_now inp, tk_artifacts = []\<rparr>"]
    by (auto simp: resolve_task_def split: option.splits if_splits)
  show "r = Resolved j \<Longrightarrow> j \<in> set (sy_created y')" "r = RpcFailure cd m \<Longrightarrow> cd \<in> set rpc_codes"
    using assms(3) known by (auto simp: resolve_task_def split: option.splits if_splits)
qed

lemma sys_ok_start_run:
  assumes "sys_ok y" "j \<in> set (sy_created y)" "a2a_start_run inp j c s y = Inr (k, y')"
  shows "sys_ok y'" "k < length (sy_drivers y')" "dr_task (sy_drivers y' ! k) = j"
proof -
  let ?ds = "sy_drivers y @ [driver_new j c (sy_tokens y) s (hi_run inp)]"
  have k: "k = length (sy_drivers y)" and y': "y' = y\<lparr>sy_cancels := cancel_register j (sy_tokens y) (sy_cancels y),
      sy_tokens := sy_tokens y + 1, sy_drivers := ?ds\<rparr>"
    using assms(3) by (auto simp: a2a_start_run_def split: sum.splits)
  have "handler_ok (set (sy_created y)) (sy_store y) ?ds h" if "h \<in> set (sy_handlers y)" for h
  proof (rule handler_ok_advances)
    show "handler_ok (set (sy_created y)) (sy_store y) (sy_drivers y) h" using assms(1) that by (simp add: sys_ok_def)
  qed (simp_all add: advances_same nth_append)
  moreover have "driver_ok (sy_store y) (driver_new j c (sy_tokens y) s (hi_run inp))"
    by (simp add: driver_ok_def driver_new_def)
  moreover have "dr_task (driver_new j c (sy_tokens y) s (hi_run inp)) = j"
    by (simp add: driver_new_def)
  ultimately show "sys_ok y'" "k < length (sy_drivers y')" "dr_task (sy_drivers y' ! k) = j"
    using assms(1,2) by (auto simp: sys_ok_def y' k)
qed

lemma sys_ok_cancel_swap:
  assumes "sys_ok y" "handler_ok (set (sy_created y)) (sy_store y) (sy_drivers y) (CancelSwap i j states)"
    and "cancel_swap now i j states y = (h', y')"
  shows "sys_ok y'" "handler_ok (set (sy_created y')) (sy_store y') (sy_drivers y') h'"
proof -
  have s: "suffix states NON_TERMINAL" "j \<in> set (sy_created y)"
    and st: "\<And>x. task_state_of (sy_store y) j = Some x \<Longrightarrow> \<not> state_is_terminal x \<Longrightarrow> x \<in> set states"
    using assms(2) by auto
  show "sys_ok y'"
  proof (cases states)
    case (Cons e rest)
    then have "\<not> state_is_terminal e" using s(1) suffix_non_terminal by fastforce
    from sys_ok_update_state[OF assms(1) this, of Canceled now j] show ?thesis
      using Cons assms(3) by (auto simp: cancel_swap_def split: prod.splits sum.splits bool.splits)
  qed (use assms in \<open>simp add: cancel_swap_def\<close>)
  show "handler_ok (set (sy_created y')) (sy_store y') (sy_drivers y') h'"
  proof (cases states)
    case (Cons e rest)
    obtain r w where u: "update_state now j e Canceled (sy_store y) = (r, w)" by (cases "update_state now j e Canceled (sy_store y)")
    note S = mem.swap_true_iff[of now j e Canceled "sy_store y"] mem.swap_false_iff[of now j e Canceled "sy_store y"]
      mem.swap_state[of now j e Canceled "sy_store y"]
    consider err where "r = Inl err" | "r = Inr True" | "r = Inr False" by (cases r) auto
    then show ?thesis
    proof cases
      case 2
      then have "task_state_of (snd w) j = Some Canceled" using S(1,3) u by simp
      with 2 Cons u s(2) assms(3) show ?thesis by (auto simp: cancel_swap_def)
    next
      case 3
      then obtain z where "task_state_of (sy_store y) j = Some z" "z \<noteq> e" using S(2) u by auto
      moreover have "task_state_of (snd w) = task_state_of (sy_store y)" using S(3) u calculation by simp
      moreover have "suffix rest NON_TERMINAL" using s(1) Cons by (simp add: suffix_ConsD)
      ultimately show ?thesis using 3 Cons u s(2) st assms(3) by (auto simp: cancel_swap_def)
    qed (use Cons u assms(3) in \<open>auto simp: cancel_swap_def\<close>)
  qed (use assms in \<open>auto simp: cancel_swap_def\<close>)
qed

lemma sys_ok_subscribe:
  assumes "sys_ok y" "store_subscribe (sy_store y) j 0 = Inr s"
  shows "sys_ok (y\<lparr>sy_subs := sy_subs y @ [s]\<rparr>)"
proof -
  have "su_id s \<in> set (sy_created y)"
    using assms by (auto simp: store_subscribe_def sys_ok_def split: option.splits)
  with assms(1) sub_inv_new[OF assms(2)] show ?thesis by (simp add: sys_ok_def)
qed

lemma sys_ok_cancels [simp]: "sys_ok (y\<lparr>sy_cancels := g\<rparr>) = sys_ok y"
  by (simp add: sys_ok_def)

text \<open>A driver that has finished leaves its task finished.\<close>

lemma handler_ok_fetch:
  assumes "sys_ok y" "k < length (sy_drivers y)" "dr_phase (sy_drivers y ! k) = DrDone"
  shows "handler_ok (set (sy_created y)) (sy_store y) (sy_drivers y) (FetchTask i (dr_task (sy_drivers y ! k)))"
  using assms(1,3) nth_mem[OF assms(2)] by (auto simp: sys_ok_def driver_ok_def)

lemma sys_ok_handler_step:
  assumes "sys_ok y" "hi_uuid inp \<notin> set (sy_created y)" "handler_step inp h y = Some (h', y')"
    and h: "handler_ok (set (sy_created y)) (sy_store y) (sy_drivers y) h"
  shows "sys_ok y' \<and> handler_ok (set (sy_created y')) (sy_store y') (sy_drivers y') h'"
proof (cases h)
  case (ResolveTask b i m c)
  obtain r y1 where r: "resolve_task inp (ms_task_id m) c y = (r, y1)" by fastforce
  then have "y' = y1" using assms(3) ResolveTask by (auto simp: handler_step_defs split: resolved.splits)
  then show ?thesis
    using r sys_ok_resolve[OF assms(1,2) r] assms(3) ResolveTask
    by (cases r) (auto simp: handler_step_defs)
next
  case (StartRun b i j c s)
  then have j: "j \<in> set (sy_created y)" using h by simp
  show ?thesis
  proof (cases "a2a_start_run inp j c s y")
    case (Inr r)
    obtain k y1 where "r = (k, y1)" by fastforce
    with Inr sys_ok_start_run[OF assms(1) j] have "sys_ok y1" "k < length (sy_drivers y1)" "dr_task (sy_drivers y1 ! k) = j"
      by blast+
    with Inr \<open>r = _\<close> assms(3) StartRun show ?thesis by (auto simp: handler_step_defs split: if_splits)
  qed (use assms(1,3) StartRun in \<open>auto simp: handler_step_defs\<close>)
next
  case (AwaitRun i j k)
  then have "k < length (sy_drivers y)" "dr_phase (sy_drivers y ! k) = DrDone" "h' = FetchTask i j" "y' = y"
    using assms(3) by (auto simp: handler_step_defs split: if_splits)
  with handler_ok_fetch[OF assms(1), of k i] h AwaitRun assms(1) show ?thesis by simp
next
  case (Subscribe i j)
  then show ?thesis
    using assms(1,3) sys_ok_subscribe[OF assms(1), of j]
    by (auto simp: handler_step_defs task_not_found_def split: sum.splits agentcore_error.splits)
next
  case (CancelFire i j)
  obtain b g where c: "cancel_fire j (sy_cancels y) = (b, g)" by fastforce
  have "handler_ok (set (sy_created y)) (sy_store y) (sy_drivers y) (CancelSwap i j NON_TERMINAL)"
    using h CancelFire by (simp add: non_terminal_complement)
  then show ?thesis
    using assms(1,3) CancelFire c by (auto simp: handler_step_defs split: bool.splits)
next
  case (CancelSwap i j states)
  then show ?thesis
    using assms(3) h sys_ok_cancel_swap[OF assms(1)] by (auto simp: handler_step_defs)
qed (use assms handler_step_reads[OF assms(1,3)] in \<open>auto simp: handler_step_defs\<close>)

lemma sys_ok_step:
  assumes "a2a_step E X y y'" "sys_ok y"
  shows "sys_ok y'"
  using assms(1)
proof (cases rule: a2a_step.cases)
  case (request uuid q)
  with assms(2) show ?thesis by (auto simp: sys_ok_def handler_ok_dispatch)
next
  case (handle k inp h' y1)
  have "handler_ok (set (sy_created y)) (sy_store y) (sy_drivers y) (sy_handlers y ! k)"
    using assms(2) handle(2) by (simp add: sys_ok_def)
  from sys_ok_handler_step[OF assms(2) handle(3,4) this] show ?thesis
    unfolding handle(1) by (auto intro: sys_ok_replace_handler)
next
  case (drive k now uuid d' y1)
  with sys_ok_drive[OF assms(2)] show ?thesis by blast
next
  case (follow k s')
  have "sub_inv (sy_store y) (sy_subs y ! k)" "su_id (sy_subs y ! k) \<in> set (sy_created y)" "store_ok (sy_store y)"
    using assms(2) nth_mem[OF follow(2)] by (auto simp: sys_ok_def)
  moreover have "su_id s' = su_id (sy_subs y ! k)"
    using follow(3) by (auto simp: task_sub_step_def split: sub_phase.splits list.splits option.splits prod.splits if_splits)
  ultimately show ?thesis
    using assms(2) sub_inv_step[OF _ _ follow(3)] set_update_subset_insert[of "sy_subs y" k s']
    by (auto simp: sys_ok_def follow(1))
qed

lemma sys_ok_reach: "a2a_reach E X n y \<Longrightarrow> sys_ok y"
  unfolding a2a_reach_def
proof (induction rule: rtranclp_induct)
  case base
  show ?case by (simp add: sys_ok_def sys_new_def store_ok_new task_state_of_def store_get_def, simp add: store_new_def)
qed (rule sys_ok_step)

section \<open>Steps follow the life of a task\<close>

lemma drive_step_advances:
  assumes "drive_step now uuid d y = Some (d', y')" "state_is_terminal (dr_outcome d)"
  shows "advances C (sy_store y) (sy_store y')"
proof (cases "dr_phase d")
  case DrRun
  then have "task_state_of (sy_store y') = task_state_of (sy_store y)"
    using assms(1) by (auto simp: drive_step_def split: list.splits prod.splits option.splits)
  then show ?thesis by (rule advances_same)
qed (use assms in \<open>auto simp: drive_step_def advances_update_state advances_same\<close>)

lemma cancel_swap_advances:
  assumes "cancel_swap now i j states y = (h', y')" "suffix states NON_TERMINAL"
  shows "advances C (sy_store y) (sy_store y')"
proof (cases states)
  case (Cons e rest)
  then have "\<not> state_is_terminal e" using assms(2) suffix_non_terminal by fastforce
  moreover have "sy_store y' = snd (snd (update_state now j e Canceled (sy_store y)))"
    using assms(1) Cons by (auto simp: cancel_swap_def split: prod.splits sum.splits bool.splits)
  ultimately show ?thesis by (simp add: advances_update_state)
qed (use assms(1) in \<open>auto simp: cancel_swap_def intro: advances_same\<close>)

lemma handler_step_advances:
  assumes "handler_step inp h y = Some (h', y')" "hi_uuid inp \<notin> C" "handler_ok C' (sy_store y) ds h"
  shows "advances C (sy_store y) (sy_store y')"
proof (cases h)
  case (ResolveTask b i m c)
  obtain r y1 where r: "resolve_task inp (ms_task_id m) c y = (r, y1)" by fastforce
  have "advances C (sy_store y) (sy_store y1)"
    using r assms(2) by (auto simp: resolve_task_def intro!: advances_create intro: advances_same split: option.splits if_splits)
  moreover have "y' = y1" using r assms(1) ResolveTask by (auto simp: handler_step_defs split: resolved.splits)
  ultimately show ?thesis by simp
next
  case (CancelSwap i j states)
  then show ?thesis using assms(1,3) cancel_swap_advances by (fastforce simp: handler_step_defs)
next
  case (StartRun b i j c s)
  then have "sy_store y' = sy_store y"
    using assms(1) by (auto simp: handler_step_defs a2a_start_run_def split: sum.splits)
  then show ?thesis by (simp add: advances_same)
next
  case (CancelFire i j)
  then have "sy_store y' = sy_store y"
    using assms(1) by (auto simp: handler_step_defs split: prod.splits bool.splits)
  then show ?thesis by (simp add: advances_same)
next
  case (Subscribe i j)
  then have "sy_store y' = sy_store y"
    using assms(1) by (auto simp: handler_step_defs split: sum.splits agentcore_error.splits)
  then show ?thesis by (simp add: advances_same)
qed (use assms(1) in \<open>auto simp: handler_step_defs intro!: advances_same split: option.splits if_splits\<close>)

lemma handler_step_created:
  assumes "handler_step inp h y = Some (h', y')"
  shows "set (sy_created y) \<subseteq> set (sy_created y')"
proof (cases h)
  case (CancelSwap i j states)
  then show ?thesis using assms
    by (auto simp: handler_step_defs cancel_swap_def split: list.splits prod.splits sum.splits bool.splits)
qed (use assms in \<open>auto simp: handler_step_defs resolve_task_def a2a_start_run_def
      split: resolved.splits prod.splits option.splits sum.splits agentcore_error.splits bool.splits if_splits\<close>)

lemma a2a_step_advances:
  assumes "a2a_step E X y y'" "sys_ok y"
  shows "advances (set (sy_created y)) (sy_store y) (sy_store y') \<and> set (sy_created y) \<subseteq> set (sy_created y')"
  using assms(1)
proof (cases rule: a2a_step.cases)
  case (handle k inp h' y1)
  have "handler_ok (set (sy_created y)) (sy_store y) (sy_drivers y) (sy_handlers y ! k)"
    using assms(2) handle(2) by (simp add: sys_ok_def)
  with handle handler_step_advances handler_step_created show ?thesis by auto
next
  case (drive k now uuid d' y1)
  have "state_is_terminal (dr_outcome (sy_drivers y ! k))"
    using assms(2) nth_mem[OF drive(2)] by (auto simp: sys_ok_def driver_ok_def)
  with drive drive_step_advances drive_step_frame(4)[OF drive(3)] show ?thesis by auto
qed (auto intro: advances_same)

text \<open>
  C26. Whatever requests, drivers and subscribers do, and in whatever order, every task moves along its life:
  it may start working, it ends at most once, and a terminal state is never overwritten; it can only be evicted.
\<close>

theorem a2a_task_life:
  assumes "a2a_reach E X n y" "(a2a_step E X)\<^sup>*\<^sup>* y y'" "i \<in> set (sy_created y)" "task_state_of (sy_store y') i = Some x"
  shows "\<exists>z. task_state_of (sy_store y) i = Some z \<and> task_advance z x \<and> (state_is_terminal z \<longrightarrow> x = z)"
proof -
  have ok: "sys_ok y" by (rule sys_ok_reach[OF assms(1)])
  have "sys_ok y' \<and> set (sy_created y) \<subseteq> set (sy_created y') \<and>
    (\<forall>x. task_state_of (sy_store y') i = Some x \<longrightarrow> (\<exists>z. task_state_of (sy_store y) i = Some z \<and> task_advance z x))"
    using assms(2)
  proof (induction rule: rtranclp_induct)
    case (step y1 y2)
    then have c: "set (sy_created y) \<subseteq> set (sy_created y1)" and ok1: "sys_ok y1" by auto
    note A = a2a_step_advances[OF step.hyps(2) ok1]
    have "\<exists>z. task_state_of (sy_store y) i = Some z \<and> task_advance z x" if "task_state_of (sy_store y2) i = Some x" for x
    proof -
      from A c assms(3) that obtain w where w: "task_state_of (sy_store y1) i = Some w" "task_advance w x"
        unfolding advances_def by blast
      with step.IH show ?thesis by (meson task_advance_trans)
    qed
    with A c sys_ok_step[OF step.hyps(2) ok1] show ?case by blast
  qed (use ok in auto)
  with assms(4) obtain z where "task_state_of (sy_store y) i = Some z" "task_advance z x" by blast
  then show ?thesis by (auto simp: task_advance_def)
qed

section \<open>What replies and frames say\<close>

text \<open>
  C27. A \<open>tasks/cancel\<close> that has fired the token of its task answers with the task in state \<open>canceled\<close>, or with an error
  and only when the task is finished or gone: trying the states in their order misses no task that
  moves on meanwhile.
\<close>

theorem a2a_cancel_decides:
  assumes "a2a_reach E X n y" "h \<in> set (sy_handlers y)" "h = CancelSwap i j states \<or> h = CancelFetch i j"
    and "handler_step inp h y = Some (Replied r, y')"
  shows "case r of RpcOk i' t \<Rightarrow> store_get (sy_store y) j = Some t \<and> tk_state t = Canceled
    | RpcErr i' c m \<Rightarrow> sy_store y' = sy_store y \<and> (\<forall>x. task_state_of (sy_store y) j = Some x \<longrightarrow> state_is_terminal x)
    | SseReply k \<Rightarrow> False"
proof -
  have h: "handler_ok (set (sy_created y)) (sy_store y) (sy_drivers y) h"
    using sys_ok_reach[OF assms(1)] assms(2) by (simp add: sys_ok_def)
  from assms(3) show ?thesis
  proof
    assume cs: "h = CancelSwap i j states"
    show ?thesis
    proof (cases states)
      case Nil
      with cs h assms(4) show ?thesis by (auto simp: handler_step_defs cancel_swap_def)
    next
      case (Cons e rest)
      with cs assms(4) show ?thesis
        by (auto simp: handler_step_defs cancel_swap_def update_state_def task_state_of_def store_get_def
            split: option.splits if_splits)
    qed
  next
    assume "h = CancelFetch i j"
    with h assms(4) show ?thesis by (auto simp: handler_step_defs task_state_of_def split: option.splits)
  qed
qed

text \<open>
  The final frame of a driver reports a terminal state, the one that is stored unless the task has
  been evicted, and a \<open>message/send\<close> that answers with a task answers with a finished one.
\<close>

theorem a2a_final_reports:
  assumes "a2a_reach E X n y"
  shows "(\<forall>d \<in> set (sy_drivers y). \<forall>fs. dr_phase d = DrFinal fs \<longrightarrow>
      state_is_terminal fs \<and> task_state_of (sy_store y) (dr_task d) \<in> {None, Some fs})
    \<and> (\<forall>h \<in> set (sy_handlers y). \<forall>inp i j i' t y'. h = FetchTask i j \<longrightarrow>
      handler_step inp h y = Some (Replied (RpcOk i' t), y') \<longrightarrow> state_is_terminal (tk_state t))"
proof (intro conjI ballI allI impI)
  fix d fs assume "d \<in> set (sy_drivers y)" "dr_phase d = DrFinal fs"
  moreover have "driver_ok (sy_store y) d" using calculation(1) sys_ok_reach[OF assms] by (simp add: sys_ok_def)
  ultimately show "state_is_terminal fs" "task_state_of (sy_store y) (dr_task d) \<in> {None, Some fs}"
    by (cases "task_state_of (sy_store y) (dr_task d)"; auto simp: driver_ok_def)+
next
  fix h inp i j i' t y'
  assume h: "h \<in> set (sy_handlers y)" "h = FetchTask i j" "handler_step inp h y = Some (Replied (RpcOk i' t), y')"
  moreover have "handler_ok (set (sy_created y)) (sy_store y) (sy_drivers y) h"
    using h(1) sys_ok_reach[OF assms] by (simp add: sys_ok_def)
  ultimately show "state_is_terminal (tk_state t)"
    by (auto simp: handler_step_defs task_state_of_def split: option.splits)
qed

text \<open>
  C29. A subscriber that cannot move is at its end, or its task is unfinished and holds no event it has not
  read; what it has delivered and fetched is in order, and while nothing has been evicted it is exactly the
  start of the log.
\<close>

theorem a2a_subscriber_complete:
  assumes "a2a_reach E X n y" "s \<in> set (sy_subs y)"
  shows "(task_sub_step (sy_store y) s = None \<longrightarrow> su_phase s = SubEnded \<or>
      (\<exists>r. in_tasks (sy_store y) (su_id s) = Some r \<and> snd (task_read r (su_cursor s)) = [] \<and> \<not> state_is_terminal (tk_state (tr_task r))))
    \<and> sorted_wrt (<) (map fst (su_delivered s @ su_batch s))
    \<and> (\<forall>r. in_tasks (sy_store y) (su_id s) = Some r \<longrightarrow> tr_first_seq r = 0 \<longrightarrow>
      su_delivered s @ su_batch s = take (su_cursor s) (tr_events r))"
proof -
  have inv: "sub_inv (sy_store y) s" using sys_ok_reach[OF assms(1)] assms(2) by (simp add: sys_ok_def)
  have "su_phase s = SubEnded \<or> (\<exists>r. in_tasks (sy_store y) (su_id s) = Some r \<and> snd (task_read r (su_cursor s)) = []
      \<and> \<not> state_is_terminal (tk_state (tr_task r)))" if "task_sub_step (sy_store y) s = None"
  proof -
    from that have "su_phase s = SubEnded \<or> su_phase s = SubParked \<and> \<not> su_woken s"
      by (auto simp: task_sub_step_def split: sub_phase.splits list.splits option.splits prod.splits if_splits)
    with inv show ?thesis unfolding sub_inv_def sub_waits_def by blast
  qed
  with inv show ?thesis by (simp add: sub_inv_def sub_reads_def)
qed

lemma max_tasks_kept [simp]:
  "in_max_tasks (snd (snd (update_state now i e m st))) = in_max_tasks st"
  "in_max_tasks (snd (set_artifacts i as st)) = in_max_tasks st"
  "in_max_tasks (snd (snd (append_event i p st))) = in_max_tasks st"
  "in_max_tasks (snd (store_create t st)) = in_max_tasks st"
  by (auto simp: update_state_def set_artifacts_def append_event_def store_create_def Let_def split: option.splits prod.splits)

lemma append_frame_max [simp]: "in_max_tasks (sy_store (append_frame i p y)) = in_max_tasks (sy_store y)"
  by (simp add: append_frame_def)

lemma drive_step_max: "drive_step now uuid d y = Some (d', y') \<Longrightarrow> in_max_tasks (sy_store y') = in_max_tasks (sy_store y)"
  by (auto simp: drive_step_def split: driver_phase.splits list.splits prod.splits option.splits)

lemma handler_step_max:
  assumes "handler_step inp h y = Some (h', y')"
  shows "in_max_tasks (sy_store y') = in_max_tasks (sy_store y)"
proof (cases h)
  case (CancelSwap i j states)
  show ?thesis
  proof (cases states)
    case (Cons e rest)
    then have "sy_store y' = snd (snd (update_state (hi_now inp) j e Canceled (sy_store y)))"
      using assms CancelSwap by (auto simp: handler_step_defs cancel_swap_def split: prod.splits sum.splits bool.splits)
    then show ?thesis by simp
  qed (use assms CancelSwap in \<open>auto simp: handler_step_defs cancel_swap_def\<close>)
qed (use assms in \<open>auto simp: handler_step_defs resolve_task_def a2a_start_run_def
      split: resolved.splits prod.splits option.splits sum.splits agentcore_error.splits bool.splits if_splits\<close>)

lemma reach_max: "a2a_reach E X n y \<Longrightarrow> in_max_tasks (sy_store y) = max n 1"
  unfolding a2a_reach_def
proof (induction rule: rtranclp_induct)
  case (step y y')
  from step.hyps(2) have "in_max_tasks (sy_store y') = in_max_tasks (sy_store y)"
    by (cases rule: a2a_step.cases) (auto simp: drive_step_max handler_step_max)
  with step.IH show ?case by simp
qed (simp add: sys_new_def store_new_def)

text \<open>
  The store never holds more tasks than configured, nor a task more than 512 events, and the events of
  a task are numbered without gaps.
\<close>

theorem a2a_store_bounded:
  assumes "a2a_reach E X n y"
  shows "card (dom (in_tasks (sy_store y))) \<le> max n 1
    \<and> (\<forall>i r. in_tasks (sy_store y) i = Some r \<longrightarrow> tk_id (tr_task r) = i \<and> length (tr_events r) \<le> 512
        \<and> map fst (tr_events r) = [tr_first_seq r..<tr_next_seq r])"
proof -
  have "store_ok (sy_store y)" using sys_ok_reach[OF assms] by (simp add: sys_ok_def)
  with store_ok_card[of "sy_store y"] reach_max[OF assms] show ?thesis
    by (simp add: store_ok_def record_ok_def MAX_EVENTS_PER_TASK_def)
qed

text \<open>
  Every error answered carries one of the codes of the A2A specification, and none of the codes of the
  platform in front of the container.
\<close>

theorem a2a_error_codes:
  assumes "a2a_reach E X n y" "Replied (RpcErr i c m) \<in> set (sy_handlers y)"
  shows "c \<in> {-32700, -32600, -32601, -32602, -32603, -32001, -32002, -32003, -32004, -32005} \<and> \<not> (-32055 \<le> c \<and> c \<le> -32051)"
proof -
  have "c \<in> set rpc_codes" using sys_ok_reach[OF assms(1)] assms(2) by (fastforce simp: sys_ok_def)
  then show ?thesis
    by (auto simp: rpc_codes_def PARSE_ERROR_def INVALID_REQUEST_def METHOD_NOT_FOUND_def INVALID_PARAMS_def INTERNAL_ERROR_def
        TASK_NOT_FOUND_def TASK_NOT_CANCELABLE_def PUSH_NOTIFICATION_NOT_SUPPORTED_def UNSUPPORTED_OPERATION_def
        CONTENT_TYPE_NOT_SUPPORTED_def)
qed

section \<open>Executions\<close>

text \<open>A schedule chooses who moves next; running it gives a reachable state.\<close>

datatype a2a_act = Arrive string http_request | Handle nat handler_input | Drive nat string string | Follow nat

fun a2a_act_step :: "ext \<Rightarrow> a2a_ext \<Rightarrow> a2a_act \<Rightarrow> a2a_sys \<Rightarrow> a2a_sys option" where
  "a2a_act_step E X (Arrive uuid q) y = Some (y\<lparr>sy_handlers := sy_handlers y @ [dispatch E X uuid q]\<rparr>)"
| "a2a_act_step E X (Handle k inp) y =
     (if k < length (sy_handlers y) \<and> hi_uuid inp \<notin> set (sy_created y)
      then (case handler_step inp (sy_handlers y ! k) y of
          Some (h', y') \<Rightarrow> Some (y'\<lparr>sy_handlers := (sy_handlers y')[k := h']\<rparr>) | None \<Rightarrow> None)
      else None)"
| "a2a_act_step E X (Drive k now uuid) y =
     (if k < length (sy_drivers y)
      then (case drive_step now uuid (sy_drivers y ! k) y of
          Some (d', y') \<Rightarrow> Some (y'\<lparr>sy_drivers := (sy_drivers y')[k := d']\<rparr>) | None \<Rightarrow> None)
      else None)"
| "a2a_act_step E X (Follow k) y =
     (if k < length (sy_subs y)
      then (case task_sub_step (sy_store y) (sy_subs y ! k) of
          Some s' \<Rightarrow> Some (y\<lparr>sy_subs := (sy_subs y)[k := s']\<rparr>) | None \<Rightarrow> None)
      else None)"

fun a2a_exec :: "ext \<Rightarrow> a2a_ext \<Rightarrow> a2a_act list \<Rightarrow> a2a_sys \<Rightarrow> a2a_sys option" where
  "a2a_exec E X [] y = Some y"
| "a2a_exec E X (a # as) y = (case a2a_act_step E X a y of Some y' \<Rightarrow> a2a_exec E X as y' | None \<Rightarrow> None)"

lemma a2a_act_step_sound: "a2a_act_step E X a y = Some y' \<Longrightarrow> a2a_step E X y y'"
  by (cases a) (auto intro: a2a_step.intros split: if_splits option.splits)

lemma a2a_exec_sound: "a2a_exec E X as y = Some y' \<Longrightarrow> (a2a_step E X)\<^sup>*\<^sup>* y y'"
proof (induction E X as y rule: a2a_exec.induct)
  case (2 E X a as y)
  then obtain y1 where "a2a_act_step E X a y = Some y1" "a2a_exec E X as y1 = Some y'" by (auto split: option.splits)
  with 2 show ?case by (meson a2a_act_step_sound converse_rtranclp_into_rtranclp)
qed simp

lemma a2a_exec_reach: "a2a_exec E X as (sys_new n) = Some y \<Longrightarrow> a2a_reach E X n y"
  by (simp add: a2a_reach_def a2a_exec_sound)

lemma a2a_exec_append: "a2a_exec E X (as @ bs) y = Option.bind (a2a_exec E X as y) (a2a_exec E X bs)"
  by (induction E X as y rule: a2a_exec.induct) (auto split: option.splits)

section \<open>A run that nothing disturbs\<close>

text \<open>The driver run to its end, with the clock at each of its points.\<close>

fun phase_rank :: "driver_phase \<Rightarrow> nat" where
  "phase_rank DrStart = 8"
| "phase_rank DrAnnounce = 7"
| "phase_rank DrRun = 6"
| "phase_rank DrArtifacts = 5"
| "phase_rank DrSwap = 4"
| "phase_rank DrGet = 3"
| "phase_rank (DrFinal fs) = 2"
| "phase_rank DrRemove = 1"
| "phase_rank DrDone = 0"

lemma drive_step_decreases:
  assumes "drive_step now uuid d y = Some (d', y')"
  shows "phase_rank (dr_phase d') < phase_rank (dr_phase d) \<or>
    phase_rank (dr_phase d') = phase_rank (dr_phase d) \<and> length (dr_events d') < length (dr_events d)"
proof (cases "dr_phase d")
  case DrRun
  then show ?thesis
    using assms by (auto simp: drive_step_def drive_event_simps split: list.splits prod.splits option.splits)
qed (use assms in \<open>auto simp: drive_step_def\<close>)

function drive_all :: "(driver_phase \<Rightarrow> string) \<Rightarrow> string \<Rightarrow> task_driver \<Rightarrow> a2a_sys \<Rightarrow> task_driver \<times> a2a_sys" where
  "drive_all clock uuid d y =
     (case drive_step (clock (dr_phase d)) uuid d y of
        Some (d', y') \<Rightarrow> drive_all clock uuid d' y'
      | None \<Rightarrow> (d, y))"
  by auto
termination
  by (relation "measures [\<lambda>(clock, uuid, d, y). phase_rank (dr_phase d), \<lambda>(clock, uuid, d, y). length (dr_events d)]")
    (auto dest: drive_step_decreases)

declare drive_all.simps [simp del]

text \<open>
  The text chunks of a run: the messages before the first non-empty delta, for a provider that does not
  stream, and the deltas. The task fails when the run reported a failure.
\<close>

fun delta_text :: "agent_event \<Rightarrow> string" where
  "delta_text (TokenDelta s) = s"
| "delta_text _ = []"

fun output_text :: "agent_event \<Rightarrow> string" where
  "output_text (MessageOutput it) = a2a_assistant_text it"
| "output_text _ = []"

definition run_chunks :: "agent_event list \<Rightarrow> string list" where
  "run_chunks evs = filter (\<lambda>s. s \<noteq> []) (map output_text (takeWhile (\<lambda>e. delta_text e = []) evs) @ map delta_text evs)"

definition run_outcome :: "agent_event list \<Rightarrow> task_state" where
  "run_outcome evs = (if \<exists>e. RunFailed e \<in> set evs then Failed else Completed)"

fun drive_chunks :: "agent_event list \<Rightarrow> task_driver \<Rightarrow> task_driver \<times> string list" where
  "drive_chunks [] d = (d, [])"
| "drive_chunks (ev # evs) d =
     (case drive_event ev (d\<lparr>dr_events := evs\<rparr>) of
        (d1, c) \<Rightarrow> (case drive_chunks evs d1 of (d2, cs) \<Rightarrow> (d2, (case c of Some s \<Rightarrow> s # cs | None \<Rightarrow> cs))))"

lemma drive_chunks_simps:
  "dr_task (fst (drive_chunks evs d)) = dr_task d \<and> dr_context (fst (drive_chunks evs d)) = dr_context d \<and>
   dr_phase (fst (drive_chunks evs d)) = dr_phase d \<and> (dr_events d = evs \<longrightarrow> dr_events (fst (drive_chunks evs d)) = [])"
proof (induction evs d rule: drive_chunks.induct)
  case (2 ev evs d)
  obtain d1 c where e: "drive_event ev (d\<lparr>dr_events := evs\<rparr>) = (d1, c)" by fastforce
  have "dr_events d1 = evs" using drive_event_simps(4)[OF e] by simp
  with 2[OF e[symmetric]] e drive_event_simps(1,2,3)[OF e] show ?case by (auto split: prod.splits)
qed simp

lemma delta_text_cases: "delta_text ev \<noteq> [] \<Longrightarrow> output_text ev = []"
  by (cases ev) auto

lemma drive_event_effect:
  assumes "drive_event ev d = (d1, c)"
  shows "dr_accumulated d1 = dr_accumulated d @ (case c of Some s \<Rightarrow> s | None \<Rightarrow> [])"
    and "dr_outcome d1 = (if \<exists>e. ev = RunFailed e then Failed else dr_outcome d)"
    and "dr_streamed_text d1 = (dr_streamed_text d \<or> delta_text ev \<noteq> [])"
    and "c = (if delta_text ev \<noteq> [] then Some (delta_text ev)
       else if \<not> dr_streamed_text d \<and> output_text ev \<noteq> [] then Some (output_text ev) else None)"
  using assms by (auto simp: drive_event_def split: agent_event.splits if_splits)

lemma drive_chunks_result:
  "dr_accumulated (fst (drive_chunks evs d)) = dr_accumulated d @ concat (snd (drive_chunks evs d)) \<and>
   dr_outcome (fst (drive_chunks evs d)) = (if \<exists>e. RunFailed e \<in> set evs then Failed else dr_outcome d) \<and>
   snd (drive_chunks evs d) = (if dr_streamed_text d then filter (\<lambda>s. s \<noteq> []) (map delta_text evs) else run_chunks evs)"
proof (induction evs d rule: drive_chunks.induct)
  case (1 d)
  then show ?case by (simp add: run_chunks_def)
next
  case (2 ev evs d)
  obtain d1 c where e: "drive_event ev (d\<lparr>dr_events := evs\<rparr>) = (d1, c)" by fastforce
  note IH = 2[OF e[symmetric]]
  note E = drive_event_effect[OF e, simplified]
  obtain d2 cs where c: "drive_chunks evs d1 = (d2, cs)" by fastforce
  have acc: "dr_accumulated d2 = dr_accumulated d @ concat (case c of Some s \<Rightarrow> s # cs | None \<Rightarrow> cs)"
    using IH E(1) c by (auto split: option.splits)
  have out: "dr_outcome d2 = (if \<exists>e. RunFailed e \<in> set (ev # evs) then Failed else dr_outcome d)"
    using IH E(2) c by auto
  have "(case c of Some s \<Rightarrow> s # cs | None \<Rightarrow> cs) =
    (if dr_streamed_text d then filter (\<lambda>s. s \<noteq> []) (map delta_text (ev # evs)) else run_chunks (ev # evs))"
    using IH E(3,4) c delta_text_cases[of ev] by (auto simp: run_chunks_def)
  with acc out e c show ?case by simp
qed

lemma append_frame_record:
  "in_tasks (sy_store (append_frame j p y)) = (in_tasks (sy_store y))(j := map_option (record_append p) (in_tasks (sy_store y) j))"
  by (auto simp: append_frame_def append_event_def fun_eq_iff split: option.splits)

lemma append_frames_record:
  "in_tasks (sy_store (fold (append_frame j) ps y)) j = map_option (fold record_append ps) (in_tasks (sy_store y) j)"
  by (induction ps arbitrary: y) (auto simp: append_frame_record option.map_comp option.map_id0 o_def)

lemma drive_all_run:
  assumes "dr_phase d = DrRun"
  shows "drive_all clock uuid d y =
    (case drive_chunks (dr_events d) d of (d', cs) \<Rightarrow>
       drive_all clock uuid (d'\<lparr>dr_phase := (if dr_accumulated d' \<noteq> [] then DrArtifacts else DrSwap)\<rparr>)
         (fold (append_frame (dr_task d)) (map (\<lambda>s. artifact_update (dr_task d) (dr_context d) s False) cs) y))"
  using assms
proof (induction "dr_events d" arbitrary: d y)
  case Nil
  then show ?case by (simp add: drive_all.simps[of clock uuid d y] drive_step_def)
next
  case (Cons ev rest)
  obtain d1 c where e: "drive_event ev (d\<lparr>dr_events := rest\<rparr>) = (d1, c)" by fastforce
  note E = drive_event_simps[OF e, simplified]
  define y1 where "y1 = (case c of Some s \<Rightarrow> append_frame (dr_task d) (artifact_update (dr_task d) (dr_context d) s False) y | None \<Rightarrow> y)"
  have "drive_step (clock (dr_phase d)) uuid d y = Some (d1, y1)"
    using Cons.hyps(2) Cons.prems e by (auto simp: drive_step_def y1_def split: list.splits option.splits)
  then have "drive_all clock uuid d y = drive_all clock uuid d1 y1" by (simp add: drive_all.simps[of clock uuid d y])
  also have "\<dots> = (case drive_chunks rest d1 of (d', cs) \<Rightarrow>
       drive_all clock uuid (d'\<lparr>dr_phase := (if dr_accumulated d' \<noteq> [] then DrArtifacts else DrSwap)\<rparr>)
         (fold (append_frame (dr_task d)) (map (\<lambda>s. artifact_update (dr_task d) (dr_context d) s False) cs) y1))"
    using Cons.hyps(1)[of d1 y1] Cons.prems E by simp
  finally show ?case
    using Cons.hyps(2)[symmetric] e by (simp add: y1_def split: prod.splits option.splits)
qed

text \<open>The log after a number of frames: the last 512 of them.\<close>

lemma record_append_all:
  assumes "map snd (tr_events r) = drop (length qs - MAX_EVENTS_PER_TASK) qs"
  shows "map snd (tr_events (fold record_append ps r)) = drop (length (qs @ ps) - MAX_EVENTS_PER_TASK) (qs @ ps)"
  using assms
proof (induction ps arbitrary: r qs)
  case (Cons p ps)
  have len: "length (tr_events r) = length qs - (length qs - MAX_EVENTS_PER_TASK)" using Cons.prems by (metis length_drop length_map)
  have "map snd (tr_events (record_append p r)) = drop (Suc (length (tr_events r)) - MAX_EVENTS_PER_TASK) (map snd (tr_events r) @ [p])"
    by (simp add: record_append_events drop_map[symmetric] del: drop_append)
  also have "\<dots> = drop (length (qs @ [p]) - MAX_EVENTS_PER_TASK) (qs @ [p])"
    unfolding Cons.prems len by (cases "length qs < MAX_EVENTS_PER_TASK") (auto simp: MAX_EVENTS_PER_TASK_def Suc_diff_le[symmetric])
  finally show ?case using Cons.IH[of "record_append p r" "qs @ [p]"] by simp
qed simp

lemma fold_append_task [simp]: "tr_task (fold record_append ps r) = tr_task r"
  by (induction ps arbitrary: r) auto

definition run_events :: "string + agent_event list \<Rightarrow> agent_event list" where
  "run_events run = (case run of Inr evs \<Rightarrow> evs | Inl e \<Rightarrow> [RunFailed e])"

definition run_frames :: "(driver_phase \<Rightarrow> string) \<Rightarrow> string \<Rightarrow> string \<Rightarrow> agent_event list \<Rightarrow> json list" where
  "run_frames clock j c evs = status_update (clock DrAnnounce) j c Working False
     # map (\<lambda>s. artifact_update j c s False) (run_chunks evs)
     @ [status_update (clock (DrFinal (run_outcome evs))) j c (run_outcome evs) True]"

lemma drive_all_finish:
  assumes "dr_phase d = DrSwap" "in_tasks (sy_store y) (dr_task d) = Some r" "tk_state (tr_task r) = Working"
  shows "\<exists>d' y'. drive_all clock uuid d y = (d', y') \<and> dr_phase d' = DrDone \<and> cg_live (sy_cancels y') (dr_task d) = None
    \<and> in_tasks (sy_store y') (dr_task d) =
      Some (record_append (status_update (clock (DrFinal (dr_outcome d))) (dr_task d) (dr_context d) (dr_outcome d) True)
        (r\<lparr>tr_task := (tr_task r)\<lparr>tk_state := dr_outcome d, tk_timestamp := clock DrSwap\<rparr>\<rparr>))"
proof -
  define r1 where "r1 = r\<lparr>tr_task := (tr_task r)\<lparr>tk_state := dr_outcome d, tk_timestamp := clock DrSwap\<rparr>\<rparr>"
  define y1 where "y1 = put_store (snd (update_state (clock DrSwap) (dr_task d) Working (dr_outcome d) (sy_store y))) y"
  have r1: "in_tasks (sy_store y1) (dr_task d) = Some r1"
    using assms(2,3) by (simp add: y1_def r1_def update_state_def)
  let ?fs = "dr_outcome d"
  let ?y2 = "append_frame (dr_task d) (status_update (clock (DrFinal ?fs)) (dr_task d) (dr_context d) ?fs True) y1"
  let ?y3 = "?y2\<lparr>sy_cancels := cancel_remove (dr_task d) (sy_cancels ?y2)\<rparr>"
  have "drive_all clock uuid d y = drive_all clock uuid (d\<lparr>dr_phase := DrGet\<rparr>) y1"
    using assms(1) by (simp add: drive_all.simps[of clock uuid d y] drive_step_def y1_def)
  also have "\<dots> = drive_all clock uuid (d\<lparr>dr_phase := DrFinal ?fs\<rparr>) y1"
    using r1 by (subst drive_all.simps) (simp add: drive_step_def store_get_def r1_def)
  also have "\<dots> = drive_all clock uuid (d\<lparr>dr_phase := DrRemove\<rparr>) ?y2"
    by (subst drive_all.simps) (simp add: drive_step_def)
  also have "\<dots> = drive_all clock uuid (d\<lparr>dr_phase := DrDone\<rparr>) ?y3"
    by (subst drive_all.simps) (simp add: drive_step_def)
  also have "\<dots> = (d\<lparr>dr_phase := DrDone\<rparr>, ?y3)"
    by (subst drive_all.simps) (simp add: drive_step_def)
  finally show ?thesis using r1 by (simp add: append_frame_record cancel_remove_def r1_def)
qed

text \<open>The start of the driver, up to the loop over the events.\<close>

lemma drive_all_start:
  assumes "in_tasks (sy_store y) j = Some r" "tk_state (tr_task r) = Submitted"
  shows "\<exists>y1. drive_all clock uuid (driver_new j c token txt run) y =
      drive_all clock uuid ((driver_new j c token txt run)\<lparr>dr_phase := DrRun, dr_events := run_events run\<rparr>) y1
    \<and> in_tasks (sy_store y1) j = Some (record_append (status_update (clock DrAnnounce) j c Working False)
        (r\<lparr>tr_task := (tr_task r)\<lparr>tk_state := Working, tk_timestamp := clock DrStart\<rparr>\<rparr>))"
proof -
  let ?d = "driver_new j c token txt run"
  define y1 where "y1 = put_store (snd (update_state (clock DrStart) j Submitted Working (sy_store y))) y"
  let ?y2 = "append_frame j (status_update (clock DrAnnounce) j c Working False) y1"
  have "drive_all clock uuid ?d y = drive_all clock uuid (?d\<lparr>dr_phase := DrAnnounce\<rparr>) y1"
    by (subst drive_all.simps) (simp add: drive_step_def y1_def driver_new_def)
  also have "\<dots> = drive_all clock uuid (?d\<lparr>dr_phase := DrRun, dr_events := run_events run\<rparr>) ?y2"
    by (subst drive_all.simps) (simp add: drive_step_def driver_new_def run_events_def)
  finally show ?thesis
    using assms by (intro exI[of _ ?y2]) (simp add: append_frame_record y1_def update_state_def)
qed

text \<open>From the first event to the swap: the chunks are in the log and the text is the artifact.\<close>

lemma drive_all_to_swap:
  assumes d0: "dr_phase d = DrRun" "dr_events d = evs" "dr_accumulated d = []" "dr_outcome d = Completed" "\<not> dr_streamed_text d"
    and r: "in_tasks (sy_store y) (dr_task d) = Some r"
  shows "\<exists>d' y'. drive_all clock uuid d y = drive_all clock uuid (d'\<lparr>dr_phase := DrSwap\<rparr>) y'
    \<and> dr_outcome d' = run_outcome evs \<and> dr_task d' = dr_task d \<and> dr_context d' = dr_context d
    \<and> in_tasks (sy_store y') (dr_task d) =
      Some ((fold record_append (map (\<lambda>s. artifact_update (dr_task d) (dr_context d) s False) (run_chunks evs)) r)
        \<lparr>tr_task := (tr_task r)\<lparr>tk_artifacts := (if run_chunks evs = [] then tk_artifacts (tr_task r)
          else [\<lparr>af_artifact_id = uuid, af_name = ''agent_response'', af_parts = [TextPart (concat (run_chunks evs))]\<rparr>])\<rparr>\<rparr>)"
proof -
  let ?cs = "map (\<lambda>s. artifact_update (dr_task d) (dr_context d) s False) (run_chunks evs)"
  obtain d2 cs where dc: "drive_chunks evs d = (d2, cs)" by fastforce
  have d2: "cs = run_chunks evs" "dr_accumulated d2 = concat cs" "dr_outcome d2 = run_outcome evs"
    "dr_task d2 = dr_task d" "dr_context d2 = dr_context d"
    using drive_chunks_result[of evs d] drive_chunks_simps[of evs d] d0 dc by (auto simp: run_outcome_def)
  have nil: "concat cs = [] \<longleftrightarrow> cs = []" unfolding d2(1) by (auto simp: run_chunks_def filter_empty_conv)
  let ?y2 = "fold (append_frame (dr_task d)) ?cs y" and ?r2 = "fold record_append ?cs r"
  have r2: "in_tasks (sy_store ?y2) (dr_task d) = Some ?r2" by (simp add: append_frames_record r)
  have all2: "drive_all clock uuid d y = drive_all clock uuid (d2\<lparr>dr_phase := (if cs \<noteq> [] then DrArtifacts else DrSwap)\<rparr>) ?y2"
    using drive_all_run[of d clock uuid y] d0 dc d2 nil by simp
  show ?thesis
  proof (cases "cs = []")
    case True
    with all2 r2 d2 show ?thesis by (intro exI[of _ d2] exI[of _ ?y2]) simp
  next
    case False
    let ?as = "[\<lparr>af_artifact_id = uuid, af_name = ''agent_response'', af_parts = [TextPart (concat cs)]\<rparr>]"
    let ?y3 = "put_store ([], snd (set_artifacts (dr_task d) ?as (sy_store ?y2))) ?y2"
    have "drive_all clock uuid (d2\<lparr>dr_phase := DrArtifacts\<rparr>) ?y2 = drive_all clock uuid (d2\<lparr>dr_phase := DrSwap\<rparr>) ?y3"
      using d2 by (subst drive_all.simps) (simp add: drive_step_def)
    with False all2 r2 d2 show ?thesis by (intro exI[of _ d2] exI[of _ ?y3]) (simp add: set_artifacts_def)
  qed
qed


section \<open>Closed executions\<close>

text \<open>
  A concrete decoder and environment: the body of a request names its method, and with a leading plus it
  addresses the task \<open>t\<close>.
\<close>

definition a2a_ext_ex :: a2a_ext where
  "a2a_ext_ex = \<lparr>
     ax_from_slice = (\<lambda>b. Ok (case b of
         [] \<Rightarrow> \<lparr>rq_jsonrpc = ''2.0'', rq_id = None, rq_method = [], rq_params = None\<rparr>
       | ch # m \<Rightarrow> \<lparr>rq_jsonrpc = ''2.0'', rq_id = None, rq_method = (if ch = CHR ''+'' then m else b), rq_params = Some (JBool (ch = CHR ''+''))\<rparr>)),
     ax_message = (\<lambda>v. Ok \<lparr>ms_role = ''user'', ms_parts = [TextPart ''hi''], ms_message_id = None,
       ms_task_id = (if v = JBool True then Some ''t'' else None), ms_context_id = None\<rparr>),
     ax_task_id = (\<lambda>v. Ok ''t'')\<rparr>"

definition a2a_request_ex :: "string \<Rightarrow> a2a_act" where
  "a2a_request_ex m = Arrive ''u'' \<lparr>hq_session_header = None, hq_body = Ok m\<rparr>"

definition a2a_handle_ex :: "nat \<Rightarrow> string \<Rightarrow> agent_event list \<Rightarrow> a2a_act" where
  "a2a_handle_ex k uuid evs = Handle k \<lparr>hi_now = ''now'', hi_uuid = uuid, hi_session = Ok (), hi_context = Ok (), hi_run = Ok evs\<rparr>"

definition a2a_drive_ex :: "nat \<Rightarrow> a2a_act" where
  "a2a_drive_ex k = Drive k ''now'' ''a''"

lemmas a2a_run_simps = a2a_ext_ex_def a2a_request_ex_def a2a_handle_ex_def a2a_drive_ex_def dispatch_def dispatch_method_def
  begin_message_def with_task_id_def parse_params_def extract_session_id_def has_non_text_parts_def handler_step_defs resolve_task_def
  a2a_start_run_def drive_step_def drive_event_def put_store_def append_frame_def append_event_def record_append_def update_state_def
  set_artifacts_def store_create_def store_get_def store_subscribe_def task_sub_step_def task_read_def sub_wake_def driver_new_def
  sys_new_def store_new_def MAX_EVENTS_PER_TASK_def message_text_def cancel_register_def cancel_fire_def cancel_remove_def
  cancel_swap_def NON_TERMINAL_def Let_def

text \<open>
  A streamed request whose subscriber reads between the swap of the driver to \<open>completed\<close> and its final frame: the
  stream ends, and the final frame, which is in the log, is never delivered.
\<close>

definition race_schedule :: "a2a_act list" where
  "race_schedule = [a2a_request_ex ''message/stream'', a2a_handle_ex 0 ''t'' [], a2a_handle_ex 0 ''v'' [], a2a_handle_ex 0 ''v'' [],
     a2a_drive_ex 0, a2a_drive_ex 0, Follow 0, Follow 0, Follow 0, Follow 0, a2a_drive_ex 0, a2a_drive_ex 0, Follow 0,
     a2a_drive_ex 0, a2a_drive_ex 0, a2a_drive_ex 0]"

lemma final_frame_missed:
  "\<exists>y s r. a2a_reach ext_ex a2a_ext_ex 4 y \<and> sy_subs y = [s] \<and> su_phase s = SubEnded \<and> in_tasks (sy_store y) ''t'' = Some r \<and> su_id s = ''t''
     \<and> tr_first_seq r = 0
     \<and> map snd (tr_events r) = [status_update ''now'' ''t'' ''u'' Working False, status_update ''now'' ''t'' ''u'' Completed True]
     \<and> map snd (su_delivered s) = [status_update ''now'' ''t'' ''u'' Working False]"
proof -
  obtain y where y: "a2a_exec ext_ex a2a_ext_ex race_schedule (sys_new 4) = Some y"
    by (simp add: race_schedule_def a2a_run_simps)
  from y show ?thesis
    by (intro exI[of _ y] conjI a2a_exec_reach[OF y] exI[of _ "hd (sy_subs y)"] exI[of _ "the (in_tasks (sy_store y) ''t'')"])
       (simp_all add: race_schedule_def a2a_run_simps, auto)
qed

text \<open>
  A second message to a task that is still working starts a second driver: when the first has completed
  the task and \<open>message/send\<close> has answered with its artifact, the second replaces the artifact of the completed task.
\<close>

definition second_run_schedule :: "a2a_act list" where
  "second_run_schedule = [a2a_request_ex ''message/send'', a2a_handle_ex 0 ''t'' [], a2a_handle_ex 0 ''v'' [TokenDelta ''one''], a2a_drive_ex 0,
     a2a_request_ex ''+message/send'', a2a_handle_ex 1 ''v'' [], a2a_handle_ex 1 ''v'' [TokenDelta ''two''],
     a2a_drive_ex 0, a2a_drive_ex 0, a2a_drive_ex 0, a2a_drive_ex 0, a2a_drive_ex 0, a2a_drive_ex 0, a2a_drive_ex 0, a2a_drive_ex 0,
     a2a_handle_ex 0 ''v'' [], a2a_handle_ex 0 ''v'' [],
     a2a_drive_ex 1, a2a_drive_ex 1, a2a_drive_ex 1, a2a_drive_ex 1, a2a_drive_ex 1]"

lemma artifacts_replaced:
  "\<exists>y t h t'. a2a_reach ext_ex a2a_ext_ex 4 y \<and> sy_handlers y = [Replied (RpcOk JNull t), h] \<and> store_get (sy_store y) ''t'' = Some t'
     \<and> tk_state t = Completed \<and> tk_state t' = Completed
     \<and> map af_parts (tk_artifacts t) = [[TextPart ''one'']] \<and> map af_parts (tk_artifacts t') = [[TextPart ''two'']]"
proof -
  obtain y where y: "a2a_exec ext_ex a2a_ext_ex second_run_schedule (sys_new 4) = Some y"
    by (simp add: second_run_schedule_def a2a_run_simps)
  then show ?thesis
    using a2a_exec_reach[OF y] by (auto simp add: second_run_schedule_def a2a_run_simps)
qed

text \<open>The second driver also replaces the token of the first, which a later cancellation does not fire.\<close>

lemma first_token_not_fired:
  "a \<noteq> b \<Longrightarrow> a \<notin> cg_fired g \<Longrightarrow> cancel_fire j (cancel_register j b (cancel_register j a g)) = (ok, g') \<Longrightarrow> ok \<and> a \<notin> cg_fired g'"
  by (auto simp: cancel_fire_def cancel_register_def)

section \<open>Witnesses\<close>

theorem a2a_task_life_witness:
  "\<exists>y y'. a2a_reach ext_ex a2a_ext_ex 4 y \<and> (a2a_step ext_ex a2a_ext_ex)\<^sup>*\<^sup>* y y' \<and> ''t'' \<in> set (sy_created y)
     \<and> task_state_of (sy_store y') ''t'' = Some Completed
     \<and> (\<exists>z. task_state_of (sy_store y) ''t'' = Some z \<and> task_advance z Completed \<and> (state_is_terminal z \<longrightarrow> Completed = z))"
proof -
  obtain y where y: "a2a_exec ext_ex a2a_ext_ex (take 2 race_schedule) (sys_new 4) = Some y"
    by (simp add: race_schedule_def a2a_run_simps)
  then obtain y' where y': "a2a_exec ext_ex a2a_ext_ex (drop 2 race_schedule) y = Some y'"
    by (auto simp: race_schedule_def a2a_run_simps)
  have "''t'' \<in> set (sy_created y)" "task_state_of (sy_store y') ''t'' = Some Completed"
    using y y' by (auto simp: race_schedule_def a2a_run_simps task_state_of_def)
  with a2a_task_life[OF a2a_exec_reach[OF y] a2a_exec_sound[OF y'] this] show ?thesis
    using a2a_exec_reach[OF y] a2a_exec_sound[OF y'] by blast
qed

text \<open>A request to cancel a task whose driver has announced that it works.\<close>

definition cancel_schedule :: "a2a_act list" where
  "cancel_schedule = [a2a_request_ex ''message/send'', a2a_handle_ex 0 ''t'' [], a2a_handle_ex 0 ''v'' [], a2a_request_ex ''tasks/cancel'',
     a2a_handle_ex 1 ''v'' [], a2a_handle_ex 1 ''v'' [], a2a_drive_ex 0, a2a_handle_ex 1 ''v'' [], a2a_handle_ex 1 ''v'' []]"

theorem a2a_cancel_decides_witness:
  "\<exists>y h inp r y'. a2a_reach ext_ex a2a_ext_ex 4 y \<and> h \<in> set (sy_handlers y) \<and> h = CancelFetch JNull ''t''
     \<and> handler_step inp h y = Some (Replied r, y') \<and> (\<exists>i' t. r = RpcOk i' t \<and> tk_state t = Canceled)"
proof -
  obtain y where y: "a2a_exec ext_ex a2a_ext_ex cancel_schedule (sys_new 4) = Some y"
    by (simp add: cancel_schedule_def a2a_run_simps)
  let ?h = "CancelFetch JNull ''t''" and ?inp = "\<lparr>hi_now = [], hi_uuid = [], hi_session = Ok (), hi_context = Ok (), hi_run = Ok []\<rparr>"
  have h: "?h \<in> set (sy_handlers y)"
    using y by (auto simp: cancel_schedule_def a2a_run_simps)
  obtain i t where s: "handler_step ?inp ?h y = Some (Replied (RpcOk i t), y)"
    using y by (auto simp: cancel_schedule_def a2a_run_simps)
  from a2a_cancel_decides[OF a2a_exec_reach[OF y] h disjI2[OF refl] s] have "tk_state t = Canceled" by simp
  with a2a_exec_reach[OF y] h s show ?thesis by blast
qed

theorem a2a_subscriber_complete_witness:
  "\<exists>y s. a2a_reach ext_ex a2a_ext_ex 4 y \<and> s \<in> set (sy_subs y) \<and> su_delivered s \<noteq> []
     \<and> sorted_wrt (<) (map fst (su_delivered s @ su_batch s))"
proof -
  obtain y s where "a2a_reach ext_ex a2a_ext_ex 4 y" "sy_subs y = [s]"
    "map snd (su_delivered s) = [status_update ''now'' ''t'' ''u'' Working False]"
    using final_frame_missed by (elim exE conjE) (rule that)
  moreover from this have "su_delivered s \<noteq> []" "s \<in> set (sy_subs y)" by auto
  ultimately show ?thesis using a2a_subscriber_complete[of ext_ex a2a_ext_ex 4 y s] by blast
qed


end
