(* ===== verification/Temporal_Driver.thy ===== *)
theory Temporal_Driver
  imports Agent_Loop Runner
begin

text \<open>
  The durable runtime (\<open>driver.rs\<close>, \<open>workflow.rs\<close>, \<open>activities.rs\<close>, \<open>error.rs\<close>, \<open>payloads.rs\<close> and the registration of \<open>worker.rs\<close> in
  \<open>runtime-temporal\<close>): a step machine that asks for one activity at a time, the workflow that executes its
  effects under a deadline and cancellation, and the activities built from a registered agent. The
  Temporal service is a parameter: what each activity returns, and at which activity an interruption wins.
  Shown are that a workflow always ends with an outcome and never reaches a panic, that its events keep the
  stream contract, that the concurrency limit changes nothing, and that the durable run of a registered agent shows the events
  of the run in process.
\<close>

section \<open>Payloads\<close>

datatype error_kind =
    KindMaxTurnsExceeded u32
  | KindInvalidStructuredOutput "string list" string
  | KindModel string
  | KindHandoffUnsupported string
  | KindOther string

definition from_agent_error :: "ext \<Rightarrow> agent_error \<Rightarrow> error_kind" where
  "from_agent_error E e =
     (case e of
        MaxTurnsExceeded n \<Rightarrow> KindMaxTurnsExceeded n
      | InvalidStructuredOutput es ft \<Rightarrow> KindInvalidStructuredOutput es ft
      | ModelFailed err \<Rightarrow> KindModel (model_error_display err)
      | _ \<Rightarrow> KindOther (agent_error_display E e))"

fun into_agent_error :: "error_kind \<Rightarrow> agent_error" where
  "into_agent_error (KindMaxTurnsExceeded n) = MaxTurnsExceeded n"
| "into_agent_error (KindInvalidStructuredOutput es ft) = InvalidStructuredOutput es ft"
| "into_agent_error (KindModel m) = OtherError m"
| "into_agent_error (KindHandoffUnsupported target) = OtherError (''handoff unsupported: '' @ target)"
| "into_agent_error (KindOther m) = OtherError m"

record driver_config =
  dc_max_turns :: u32
  dc_parallel_tool_call_limit :: "nat option"

record workflow_input =
  wi_agent_name :: string
  wi_conversation :: "item list"
  wi_config :: driver_config
  wi_timeout_ms :: "nat option"
  wi_ctx_seed :: "json option"

datatype durable_status = StatusCompleted final_output | StatusAgentFailed error_kind | StatusCancelled | StatusTimedOut

record durable_outcome =
  do_status :: durable_status
  do_events :: "agent_event list"
  do_usage :: token_usage

section \<open>The step machine\<close>

datatype driver_effect =
    RenderInstructions
  | EffectCallModel model_request
  | EffectExecuteTools "tool_call_request list"
  | EffectFinished durable_outcome

record agent_plan =
  ap_tool_defs :: "tool_def list"
  ap_model_settings :: model_settings
  ap_output :: "output_type option"

datatype durable_phase = AwaitingInstructions | Driving | DoneWith durable_outcome

record durable_driver =
  dd_agent_name :: string
  dd_plan :: agent_plan
  dd_config :: driver_config
  dd_seed_messages :: "item list"
  dd_conversation :: "item list"
  dd_loop_state :: loop_state
  dd_pending_input :: "transition_input option"
  dd_events :: "agent_event list"
  dd_usage :: token_usage
  dd_phase :: durable_phase

definition durable_new :: "workflow_input \<Rightarrow> agent_plan \<Rightarrow> durable_driver" where
  "durable_new inp plan = \<lparr>dd_agent_name = wi_agent_name inp, dd_plan = plan, dd_config = wi_config inp,
     dd_seed_messages = wi_conversation inp, dd_conversation = [], dd_loop_state = CallingModel 0 usage_default,
     dd_pending_input = None, dd_events = [], dd_usage = usage_default, dd_phase = AwaitingInstructions\<rparr>"

fun state_usage :: "loop_state \<Rightarrow> token_usage option" where
  "state_usage (CallingModel _ usage) = Some usage"
| "state_usage (ExecutingTools _ _ usage) = Some usage"
| "state_usage (ApplyingHandoff _ _ usage) = Some usage"
| "state_usage (Finalizing _ usage) = Some usage"
| "state_usage (RepairingOutput _ usage) = Some usage"
| "state_usage (Done out) = Some (fo_usage out)"
| "state_usage _ = None"

definition driver_finish :: "durable_status \<Rightarrow> durable_driver \<Rightarrow> driver_effect \<times> durable_driver" where
  "driver_finish status d =
     (let outcome = \<lparr>do_status = status, do_events = dd_events d, do_usage = dd_usage d\<rparr>
      in (EffectFinished outcome, d\<lparr>dd_phase := DoneWith outcome\<rparr>))"

text \<open>
  The library functions and the \<open>Debug\<close> renderings the driver uses. \<open>next_effect\<close> has no value where the source panics.
\<close>

record durable_lib =
  dl_ext :: ext
  dl_dbg :: dbg
  dl_dbg_state :: "loop_state \<Rightarrow> string"

definition durable_ctx :: "durable_driver \<Rightarrow> transition_ctx" where
  "durable_ctx d = \<lparr>tc_tools = ap_tool_defs (dd_plan d), tc_model_settings = ap_model_settings (dd_plan d),
     tc_max_turns = dc_max_turns (dd_config d), tc_conversation = dd_conversation d, tc_output = ap_output (dd_plan d),
     tc_handoffs = []\<rparr>"

definition terminate_status :: "durable_lib \<Rightarrow> loop_state \<Rightarrow> durable_status" where
  "terminate_status B st =
     (case st of
        Done out \<Rightarrow> StatusCompleted out
      | Failed err \<Rightarrow> StatusAgentFailed (from_agent_error (dl_ext B) err)
      | other \<Rightarrow> StatusAgentFailed (KindOther (''unexpected terminal state: '' @ dl_dbg_state B other)))"

definition next_effect :: "durable_lib \<Rightarrow> durable_driver \<Rightarrow> (driver_effect \<times> durable_driver) option" where
  "next_effect B d =
     (case dd_phase d of
        AwaitingInstructions \<Rightarrow> Some (RenderInstructions, d)
      | DoneWith outcome \<Rightarrow> Some (EffectFinished outcome, d)
      | Driving \<Rightarrow>
          (case dd_pending_input d of
             None \<Rightarrow> None
           | Some tx_input \<Rightarrow>
               (let out = transition (dl_ext B) (dl_dbg B) (dd_loop_state d) tx_input (durable_ctx d);
                    st = to_next_state out;
                    d = d\<lparr>dd_pending_input := None, dd_events := dd_events d @ to_events out,
                      dd_conversation := dd_conversation d @ to_appends out,
                      dd_usage := (case state_usage st of Some u \<Rightarrow> u | None \<Rightarrow> dd_usage d)\<rparr>
                in Some (case to_next_action out of
                     CallModel request \<Rightarrow> (EffectCallModel request, d\<lparr>dd_loop_state := st\<rparr>)
                   | ExecuteTools calls \<Rightarrow> (EffectExecuteTools calls, d\<lparr>dd_loop_state := st\<rparr>)
                   | Terminate \<Rightarrow> driver_finish (terminate_status B st) d
                   | Handoff \<Rightarrow> driver_finish (StatusAgentFailed (KindHandoffUnsupported
                       (case st of ApplyingHandoff target _ _ \<Rightarrow> target | _ \<Rightarrow> ''<unknown>''))) d))))"

definition apply_instructions :: "string \<Rightarrow> durable_driver \<Rightarrow> durable_driver" where
  "apply_instructions system_text d = d\<lparr>dd_seed_messages := [],
     dd_conversation := (if system_text \<noteq> [] then [System [Text system_text]] else []) @ dd_seed_messages d,
     dd_events := dd_events d @ [RunStarted (dd_agent_name d)],
     dd_pending_input := Some (Start (dd_seed_messages d)),
     dd_loop_state := CallingModel 0 usage_default, dd_phase := Driving\<rparr>"

definition apply_model :: "model_turn \<Rightarrow> durable_driver \<Rightarrow> durable_driver" where
  "apply_model turn d = d\<lparr>dd_conversation := dd_conversation d @ mt_items turn,
     dd_pending_input := Some (ModelResponse (mt_items turn) (mt_usage turn) (mt_finish_reason turn))\<rparr>"

definition apply_model_failure :: "durable_lib \<Rightarrow> error_kind \<Rightarrow> durable_driver \<Rightarrow> durable_driver" where
  "apply_model_failure B ek d =
     snd (driver_finish (StatusAgentFailed ek)
       (d\<lparr>dd_events := dd_events d @ [RunFailed (agent_error_display (dl_ext B) (into_agent_error ek))]\<rparr>))"

definition apply_tools :: "tool_call_outcome list \<Rightarrow> durable_driver \<Rightarrow> durable_driver" where
  "apply_tools outcomes d = d\<lparr>
     dd_conversation := dd_conversation d
       @ map (\<lambda>oc. ToolResult (tco_call_id oc) (unwrap_or_else (\<lambda>e. [Text e]) (tco_result oc))) outcomes,
     dd_pending_input := Some (ToolResults outcomes)\<rparr>"

definition driver_interrupt :: "run_interrupt \<Rightarrow> durable_driver \<Rightarrow> durable_outcome" where
  "driver_interrupt why d =
     (case dd_phase d of
        DoneWith outcome \<Rightarrow> outcome
      | _ \<Rightarrow> \<lparr>do_status = (case why of Cancelled \<Rightarrow> StatusCancelled | TimedOut \<Rightarrow> StatusTimedOut),
          do_events = dd_events d, do_usage = dd_usage d\<rparr>)"

section \<open>The workflow\<close>

record activity_failure =
  af_cause :: "string option"
  af_failure :: "string option"
  af_display :: string

definition activity_failure_message :: "activity_failure \<Rightarrow> string" where
  "activity_failure_message err =
     (case af_cause err of Some m \<Rightarrow> m | None \<Rightarrow> (case af_failure err of Some m \<Rightarrow> m | None \<Rightarrow> af_display err))"

text \<open>
  The Temporal service as the workflow sees it: the result of the activity started at the \<open>k\<close>-th await (for
  tools, of the call at position \<open>i\<close> of that turn), whether an interruption wins the race there, and the parser of error payloads.
\<close>

record durable_env =
  de_lib :: durable_lib
  de_render :: "string \<Rightarrow> json option \<Rightarrow> activity_failure + string"
  de_model :: "nat \<Rightarrow> string \<Rightarrow> model_request \<Rightarrow> activity_failure + model_turn"
  de_tool :: "nat \<Rightarrow> nat \<Rightarrow> string \<Rightarrow> json option \<Rightarrow> tool_call_request \<Rightarrow> activity_failure + tool_call_outcome"
  de_stop :: "nat \<Rightarrow> run_interrupt option"
  de_parse_kind :: "string \<Rightarrow> error_kind option"

definition extract_error_kind :: "durable_env \<Rightarrow> activity_failure \<Rightarrow> error_kind" where
  "extract_error_kind V err =
     (let message = activity_failure_message err
      in case de_parse_kind V message of Some ek \<Rightarrow> ek | None \<Rightarrow> KindModel message)"

function slice_chunks :: "nat \<Rightarrow> 'a list \<Rightarrow> 'a list list" where
  "slice_chunks n xs = (if n = 0 \<or> xs = [] then [] else take n xs # slice_chunks n (drop n xs))"
  by auto
termination
  by (relation "measure (\<lambda>(n, xs). length xs)") auto

declare slice_chunks.simps [simp del]

definition tool_activity :: "durable_env \<Rightarrow> nat \<Rightarrow> string \<Rightarrow> json option \<Rightarrow> nat \<times> tool_call_request \<Rightarrow> tool_call_outcome" where
  "tool_activity V k agent_name ctx_seed ic =
     (case ic of (i, call) \<Rightarrow>
        (case de_tool V k i agent_name ctx_seed call of
           Inr outcome \<Rightarrow> outcome
         | Inl err \<Rightarrow> \<lparr>tco_call_id = tcr_call_id call,
             tco_result = Err (''tool activity failed: '' @ activity_failure_message err)\<rparr>))"

definition durable_tools :: "durable_env \<Rightarrow> nat \<Rightarrow> string \<Rightarrow> json option \<Rightarrow> nat option \<Rightarrow> tool_call_request list
    \<Rightarrow> tool_call_outcome list" where
  "durable_tools V k agent_name ctx_seed parallel_limit calls =
     (let chunk_size = (case parallel_limit of Some n \<Rightarrow> (if n > 0 then n else max (length calls) 1) | None \<Rightarrow> max (length calls) 1)
      in concat (map (map (tool_activity V k agent_name ctx_seed)) (slice_chunks chunk_size (zip [0..<length calls] calls))))"

text \<open>Without a timeout the deadline never wins.\<close>

definition race_interrupt :: "workflow_input \<Rightarrow> run_interrupt option \<Rightarrow> run_interrupt option" where
  "race_interrupt inp i = (if i = Some TimedOut \<and> wi_timeout_ms inp = None then None else i)"

text \<open>
  The effect loop raced with the interruptions. The result is \<open>Inl\<close> where the driver panics; a loop that does not end has no value.
\<close>

partial_function (option) run_effects :: "durable_env \<Rightarrow> workflow_input \<Rightarrow> nat \<Rightarrow> durable_driver \<Rightarrow> (unit + durable_outcome) option" where
  "run_effects V inp k d =
     (case next_effect (de_lib V) d of
        None \<Rightarrow> Some (Inl ())
      | Some (EffectFinished outcome, d') \<Rightarrow> Some (Inr outcome)
      | Some (effect, d') \<Rightarrow>
          (case race_interrupt inp (de_stop V k) of
             Some why \<Rightarrow> Some (Inr (driver_interrupt why d'))
           | None \<Rightarrow> run_effects V inp (Suc k)
               (case effect of
                  RenderInstructions \<Rightarrow>
                    (case de_render V (wi_agent_name inp) (wi_ctx_seed inp) of
                       Inr system_text \<Rightarrow> apply_instructions system_text d'
                     | Inl err \<Rightarrow> apply_model_failure (de_lib V) (extract_error_kind V err) d')
                | EffectCallModel request \<Rightarrow>
                    (case de_model V k (wi_agent_name inp) request of
                       Inr turn \<Rightarrow> apply_model turn d'
                     | Inl err \<Rightarrow> apply_model_failure (de_lib V) (extract_error_kind V err) d')
                | EffectExecuteTools calls \<Rightarrow>
                    apply_tools (durable_tools V k (wi_agent_name inp) (wi_ctx_seed inp)
                      (dc_parallel_tool_call_limit (wi_config inp)) calls) d')))"

definition unknown_agent_outcome :: "string \<Rightarrow> durable_outcome" where
  "unknown_agent_outcome agent_name = \<lparr>do_status = StatusAgentFailed (KindOther (''no agent named '' @ [CHR 0x27] @ agent_name @ [CHR 0x27]
     @ '' is registered on this worker'')), do_events = [], do_usage = usage_default\<rparr>"

definition durable_drive :: "durable_env \<Rightarrow> (string \<rightharpoonup> agent_plan) \<Rightarrow> workflow_input \<Rightarrow> (unit + durable_outcome) option" where
  "durable_drive V plans inp =
     (case plans (wi_agent_name inp) of
        None \<Rightarrow> Some (Inr (unknown_agent_outcome (wi_agent_name inp)))
      | Some plan \<Rightarrow> run_effects V inp 0 (durable_new inp plan))"

section \<open>Tool calls in chunks\<close>

lemma concat_slice_chunks: "0 < n \<Longrightarrow> concat (slice_chunks n xs) = xs"
proof (induction n xs rule: slice_chunks.induct)
  case (1 n xs)
  then show ?case
    by (cases "xs = []") (simp_all add: slice_chunks.simps[of n xs] slice_chunks.simps[of n "[]"])
qed

text \<open>The limit on concurrent calls decides how they are started, not what they return or in which order.\<close>

lemma durable_tools_map:
  "durable_tools V k agent_name seed limit calls = map (tool_activity V k agent_name seed) (zip [0..<length calls] calls)"
proof -
  let ?n = "case limit of Some n \<Rightarrow> (if n > 0 then n else max (length calls) 1) | None \<Rightarrow> max (length calls) 1"
  have "0 < ?n" by (auto split: option.splits)
  from concat_slice_chunks[OF this, of "zip [0..<length calls] calls"] show ?thesis
    unfolding durable_tools_def Let_def by (metis map_concat)
qed

section \<open>One step of the driver\<close>

lemma no_handoff: "tc_handoffs ctx = [] \<Longrightarrow> to_next_action (transition E dbg st inp ctx) \<noteq> Handoff"
proof -
  assume "tc_handoffs ctx = []"
  moreover have "handoff_target [] items = None" for items
    by (induction items) (auto simp: handoff_target_def split: item.splits)
  ultimately show ?thesis
    by (auto simp: transition_def arm_defs Let_def split: loop_state.splits transition_input.splits option.splits sum.splits)
qed

lemma rank_conversation_update [simp]:
  "rank (C\<lparr>tc_conversation := c\<rparr>) st = rank C st" "wf_state (C\<lparr>tc_conversation := c\<rparr>) st = wf_state C st"
  by (cases st; simp)+

text \<open>The budget and the plan of a driver, without its conversation.\<close>

definition durable_base :: "durable_driver \<Rightarrow> transition_ctx" where
  "durable_base d = (durable_ctx d)\<lparr>tc_conversation := []\<rparr>"

lemma durable_base_rank: "rank (durable_ctx d) st = rank (durable_base d) st" "wf_state (durable_ctx d) st = wf_state (durable_base d) st"
  by (simp_all add: durable_base_def)

definition driving :: "durable_driver \<Rightarrow> transition_input \<Rightarrow> bool" where
  "driving d ti \<longleftrightarrow> dd_phase d = Driving \<and> dd_pending_input d = Some ti \<and> wf_state (durable_base d) (dd_loop_state d) \<and> no_terminal (dd_events d)"

definition driver_step :: "durable_lib \<Rightarrow> durable_driver \<Rightarrow> transition_input \<Rightarrow> transition_outcome" where
  "driver_step B d ti = transition (dl_ext B) (dl_dbg B) (dd_loop_state d) ti (durable_ctx d)"

text \<open>The driver after a transition that asks for an activity.\<close>

definition driver_after :: "durable_lib \<Rightarrow> durable_driver \<Rightarrow> transition_input \<Rightarrow> durable_driver" where
  "driver_after B d ti =
     (let out = driver_step B d ti
      in d\<lparr>dd_pending_input := None, dd_events := dd_events d @ to_events out, dd_conversation := dd_conversation d @ to_appends out,
          dd_usage := (case state_usage (to_next_state out) of Some u \<Rightarrow> u | None \<Rightarrow> dd_usage d), dd_loop_state := to_next_state out\<rparr>)"

lemma next_effect_driving:
  assumes "dd_phase d = Driving" "dd_pending_input d = Some ti"
  shows "case to_next_action (driver_step B d ti) of
      CallModel request \<Rightarrow> next_effect B d = Some (EffectCallModel request, driver_after B d ti) \<and> no_terminal (to_events (driver_step B d ti))
    | ExecuteTools calls \<Rightarrow> next_effect B d = Some (EffectExecuteTools calls, driver_after B d ti) \<and> no_terminal (to_events (driver_step B d ti))
    | Terminate \<Rightarrow> (\<exists>d'. next_effect B d = Some (EffectFinished \<lparr>do_status = terminate_status B (to_next_state (driver_step B d ti)),
         do_events = dd_events d @ to_events (driver_step B d ti), do_usage = dd_usage (driver_after B d ti)\<rparr>, d'))
    | Handoff \<Rightarrow> False"
proof -
  have c: "coherent (driver_step B d ti)" by (simp add: driver_step_def transition_coherent_lemma)
  have h: "to_next_action (driver_step B d ti) \<noteq> Handoff"
    unfolding driver_step_def by (rule no_handoff) (simp add: durable_ctx_def)
  show ?thesis
    using assms c h
    by (cases "to_next_state (driver_step B d ti)")
       (auto simp: next_effect_def coherent_def driver_step_def[symmetric] driver_after_def driver_finish_def Let_def
        split: next_action.splits)
qed

lemma driver_after_simps [simp]:
  "dd_phase (driver_after B d ti) = dd_phase d" "dd_events (driver_after B d ti) = dd_events d @ to_events (driver_step B d ti)"
  "dd_loop_state (driver_after B d ti) = to_next_state (driver_step B d ti)" "durable_base (driver_after B d ti) = durable_base d"
  "dd_conversation (driver_after B d ti) = dd_conversation d @ to_appends (driver_step B d ti)"
  by (simp_all add: driver_after_def durable_base_def durable_ctx_def Let_def)

definition input_rank :: "durable_driver \<Rightarrow> transition_input \<Rightarrow> nat" where
  "input_rank d ti = (case ti of Start _ \<Rightarrow> Suc (rank (durable_base d) (dd_loop_state d)) | _ \<Rightarrow> rank (durable_base d) (dd_loop_state d))"

lemma start_rank: "rank C (to_next_state (transition E dbg st (Start ms) C)) \<le> rank C st"
  by (auto simp: transition_def arm_defs split: loop_state.splits option.splits)

text \<open>An activity result fed back: the driver drives on and its rank has decreased.\<close>

lemma driving_after:
  assumes "driving d ti" "no_terminal (to_events (driver_step B d ti))" "rank (durable_base d) (to_next_state (driver_step B d ti)) \<noteq> 0"
    and "\<And>ms. ti' \<noteq> Start ms"
    and "d' = (driver_after B d ti)\<lparr>dd_conversation := c, dd_pending_input := Some ti'\<rparr>"
  shows "driving d' ti'" "input_rank d' ti' < input_rank d ti"
proof -
  have base: "durable_base d' = durable_base d"
    unfolding assms(5) by (simp add: durable_base_def durable_ctx_def driver_after_def Let_def)
  have wf: "wf_state (durable_ctx d) (dd_loop_state d)"
    using assms(1) by (simp add: driving_def durable_base_rank)
  show "driving d' ti'"
    using assms(1,2) transition_wf[OF wf, of "dl_ext B" "dl_dbg B" ti] unfolding driving_def base
    by (simp add: assms(5) driver_step_def durable_base_rank)
  have r: "input_rank d' ti' = rank (durable_base d) (to_next_state (driver_step B d ti))"
    using assms(4) base by (cases ti') (auto simp: input_rank_def assms(5))
  have rank_nonzero: "rank (durable_ctx d) (dd_loop_state d) \<noteq> 0"
    using assms(3) terminal_rank_stops[of "durable_ctx d" "dd_loop_state d" "dl_ext B" "dl_dbg B" ti]
    by (auto simp: driver_step_def durable_base_rank)
  show "input_rank d' ti' < input_rank d ti"
  proof (cases ti)
    case (Start ms)
    then show ?thesis
      using start_rank[of "durable_ctx d" "dl_ext B" "dl_dbg B" "dd_loop_state d" ms] unfolding r
      by (simp add: input_rank_def driver_step_def durable_base_rank)
  next
    case (ModelResponse items u fr)
    have "rank (durable_ctx d) (dd_loop_state d) \<noteq> 0" by (rule rank_nonzero)
    then show ?thesis
      using transition_rank[OF wf, of ti "dl_ext B" "dl_dbg B"] ModelResponse unfolding r
      by (simp add: input_rank_def driver_step_def durable_base_rank)
  next
    case (ToolResults os)
    have "rank (durable_ctx d) (dd_loop_state d) \<noteq> 0" by (rule rank_nonzero)
    then show ?thesis
      using transition_rank[OF wf, of ti "dl_ext B" "dl_dbg B"] ToolResults unfolding r
      by (simp add: input_rank_def driver_step_def durable_base_rank)
  qed
qed

section \<open>Every workflow ends with an outcome\<close>

text \<open>
  What the events and the usage of an outcome say about its status: a completed run ends in the only terminal event
  with the usage of the final output, whose text, unless it is empty, is the text of the last message; a failed one ends in the only
  terminal event, and an interrupted one shows none.
\<close>

definition durable_contract :: "durable_outcome \<Rightarrow> bool" where
  "durable_contract oc \<longleftrightarrow>
     (case do_status oc of
        StatusCompleted out \<Rightarrow> do_usage oc = fo_usage out
          \<and> (flatten_text (fo_content out) = [] \<or> final_text (do_events oc) = Some (flatten_text (fo_content out)))
          \<and> (\<exists>pre. do_events oc = pre @ [RunCompleted (fo_usage out)] \<and> no_terminal pre)
      | StatusAgentFailed _ \<Rightarrow> (\<exists>pre m. do_events oc = pre @ [RunFailed m] \<and> no_terminal pre)
      | _ \<Rightarrow> no_terminal (do_events oc))"

lemma run_effects_done: "dd_phase d = DoneWith oc \<Longrightarrow> run_effects V inp k d = Some (Inr oc)"
  by (subst run_effects.simps) (simp add: next_effect_def)

lemma apply_model_failure_runs:
  "run_effects V inp k (apply_model_failure B ek d)
     = Some (Inr \<lparr>do_status = StatusAgentFailed ek,
         do_events = dd_events d @ [RunFailed (agent_error_display (dl_ext B) (into_agent_error ek))], do_usage = dd_usage d\<rparr>)"
  by (rule run_effects_done) (simp add: apply_model_failure_def driver_finish_def Let_def)

lemma driver_interrupt_contract:
  "dd_phase d \<in> {AwaitingInstructions, Driving} \<Longrightarrow> no_terminal (dd_events d) \<Longrightarrow> durable_contract (driver_interrupt why d)"
  by (cases why) (auto simp: driver_interrupt_def durable_contract_def)

lemma rank_when_calling:
  assumes "coherent out" "(\<exists>r. to_next_action out = CallModel r) \<or> (\<exists>c. to_next_action out = ExecuteTools c)"
  shows "rank C (to_next_state out) \<noteq> 0"
  using assms by (cases "to_next_state out") (auto simp: coherent_def)

lemma final_text_append: "final_text (xs @ ys) = (case final_text ys of Some t \<Rightarrow> Some t | None \<Rightarrow> final_text xs)"
  by (induction xs) (auto split: option.splits)

lemma message_text: "find_map (\<lambda>i. case i of AssistantMessage content _ \<Rightarrow> Some content | _ \<Rightarrow> None) (rev items) = Some c
    \<Longrightarrow> final_text (message_outputs items) = Some (flatten_text c)"
proof (induction items rule: rev_induct)
  case (snoc x xs)
  then show ?case by (cases x) (auto simp: message_outputs_def final_text_append)
qed simp

lemma done_text:
  assumes "to_next_state (transition E dbg st ti ctx) = Done out"
  shows "flatten_text (fo_content out) = [] \<or> final_text (to_events (transition E dbg st ti ctx)) = Some (flatten_text (fo_content out))"
proof -
  have "\<exists>items u. fo_content out = last_assistant_content items \<and> to_events (transition E dbg st ti ctx) = message_outputs items @ [RunCompleted u]"
    using assms
    by (auto simp: transition_def arm_defs Let_def split: loop_state.splits transition_input.splits option.splits sum.splits if_splits)
  then obtain items u where "fo_content out = last_assistant_content items"
    "to_events (transition E dbg st ti ctx) = message_outputs items @ [RunCompleted u]" by auto
  then show ?thesis
    using message_text[of items]
    by (cases "find_map (\<lambda>i. case i of AssistantMessage content _ \<Rightarrow> Some content | _ \<Rightarrow> None) (rev items)")
       (auto simp: last_assistant_content_def unwrap_or_def final_text_append flatten_text_def)
qed

lemma driver_step_text:
  "to_next_state (driver_step B d ti) = Done f \<Longrightarrow>
     flatten_text (fo_content f) = [] \<or> final_text (to_events (driver_step B d ti)) = Some (flatten_text (fo_content f))"
  unfolding driver_step_def by (rule done_text)

lemma finished_contract:
  assumes "coherent out" "to_next_action out = Terminate" "no_terminal evs"
    and "\<And>f. to_next_state out = Done f \<Longrightarrow> flatten_text (fo_content f) = [] \<or> final_text (to_events out) = Some (flatten_text (fo_content f))"
    and "u = (case state_usage (to_next_state out) of Some u \<Rightarrow> u | None \<Rightarrow> u0)"
  shows "durable_contract \<lparr>do_status = terminate_status B (to_next_state out), do_events = evs @ to_events out, do_usage = u\<rparr>"
  using assms
  by (cases "to_next_state out") (fastforce simp: coherent_def durable_contract_def terminate_status_def final_text_append)+

lemma driver_after_usage:
  "dd_usage (driver_after B d ti) = (case state_usage (to_next_state (driver_step B d ti)) of Some u \<Rightarrow> u | None \<Rightarrow> dd_usage d)"
  by (simp add: driver_after_def Let_def)

text \<open>What the property says of one driver: its run gives an outcome that keeps the contract and extends its events.\<close>

definition runs_well :: "durable_env \<Rightarrow> workflow_input \<Rightarrow> nat \<Rightarrow> durable_driver \<Rightarrow> bool" where
  "runs_well V inp k d \<longleftrightarrow>
     (\<exists>oc. run_effects V inp k d = Some (Inr oc) \<and> durable_contract oc \<and> (\<exists>more. do_events oc = dd_events d @ more))"

lemma runs_well_failure: "no_terminal (dd_events d) \<Longrightarrow> runs_well V inp k (apply_model_failure B ek d)"
  by (auto simp: runs_well_def apply_model_failure_runs durable_contract_def) (simp add: apply_model_failure_def driver_finish_def Let_def)

text \<open>The run of a driver after one activity, from the run of the driver its result is fed to.\<close>

definition effect_result :: "durable_env \<Rightarrow> workflow_input \<Rightarrow> nat \<Rightarrow> driver_effect \<Rightarrow> durable_driver \<Rightarrow> durable_driver" where
  "effect_result V inp k effect d =
     (case effect of
        RenderInstructions \<Rightarrow>
          (case de_render V (wi_agent_name inp) (wi_ctx_seed inp) of
             Inr system_text \<Rightarrow> apply_instructions system_text d
           | Inl err \<Rightarrow> apply_model_failure (de_lib V) (extract_error_kind V err) d)
      | EffectCallModel request \<Rightarrow>
          (case de_model V k (wi_agent_name inp) request of
             Inr turn \<Rightarrow> apply_model turn d
           | Inl err \<Rightarrow> apply_model_failure (de_lib V) (extract_error_kind V err) d)
      | EffectExecuteTools calls \<Rightarrow>
          apply_tools (durable_tools V k (wi_agent_name inp) (wi_ctx_seed inp)
            (dc_parallel_tool_call_limit (wi_config inp)) calls) d
      | EffectFinished _ \<Rightarrow> d)"

lemma run_effects_continue:
  assumes "next_effect (de_lib V) d = Some (effect, d')" "\<forall>oc. effect \<noteq> EffectFinished oc" "race_interrupt inp (de_stop V k) = None"
  shows "run_effects V inp k d = run_effects V inp (Suc k) (effect_result V inp k effect d')"
  using assms by (subst run_effects.simps) (cases effect; simp add: effect_result_def)

lemma run_effects_interrupted:
  assumes "next_effect (de_lib V) d = Some (effect, d')" "\<forall>oc. effect \<noteq> EffectFinished oc" "race_interrupt inp (de_stop V k) = Some why"
  shows "run_effects V inp k d = Some (Inr (driver_interrupt why d'))"
  using assms by (subst run_effects.simps) (cases effect; simp)

lemma runs_well_step:
  assumes "next_effect (de_lib V) d = Some (effect, d')" "\<forall>oc. effect \<noteq> EffectFinished oc"
    and "dd_phase d' \<in> {AwaitingInstructions, Driving}" "no_terminal (dd_events d')" "dd_events d' = dd_events d @ new"
    and "dd_events (effect_result V inp k effect d') = dd_events d' @ new'" "runs_well V inp (Suc k) (effect_result V inp k effect d')"
  shows "runs_well V inp k d"
proof (cases "race_interrupt inp (de_stop V k)")
  case None
  from assms(7) show ?thesis
    unfolding runs_well_def run_effects_continue[OF assms(1,2) None] by (force simp: assms(5,6))
next
  case (Some why)
  have "do_events (driver_interrupt why d') = dd_events d'" using assms(3) by (auto simp: driver_interrupt_def)
  then show ?thesis
    unfolding runs_well_def run_effects_interrupted[OF assms(1,2) Some]
    using driver_interrupt_contract[OF assms(3,4)] by (simp add: assms(5))
qed

lemma apply_events [simp]:
  "dd_events (apply_model turn d) = dd_events d" "dd_events (apply_tools outcomes d) = dd_events d"
  "dd_events (apply_model_failure B ek d) = dd_events d @ [RunFailed (agent_error_display (dl_ext B) (into_agent_error ek))]"
  "dd_events (apply_instructions s d) = dd_events d @ [RunStarted (dd_agent_name d)]"
  by (simp_all add: apply_model_def apply_tools_def apply_model_failure_def driver_finish_def apply_instructions_def Let_def)

lemma effect_result_events: "\<exists>new. dd_events (effect_result V inp k effect d) = dd_events d @ new"
  by (auto simp: effect_result_def split: driver_effect.splits sum.splits)

lemma runs_well_driving: "driving d ti \<Longrightarrow> runs_well V inp k d"
proof (induction "input_rank d ti" arbitrary: d ti k rule: less_induct)
  case less
  let ?B = "de_lib V" let ?out = "driver_step ?B d ti" let ?d = "driver_after ?B d ti"
  have ev: "dd_phase d = Driving" "no_terminal (dd_events d)" and pend: "dd_pending_input d = Some ti"
    using less.prems by (auto simp: driving_def)
  have co: "coherent ?out" by (simp add: driver_step_def transition_coherent_lemma)
  have next_driving: "runs_well V inp (Suc k) (?d\<lparr>dd_conversation := c, dd_pending_input := Some ti'\<rparr>)"
    if "no_terminal (to_events ?out)" "\<And>ms. ti' \<noteq> Start ms"
      "(\<exists>r. to_next_action ?out = CallModel r) \<or> (\<exists>c. to_next_action ?out = ExecuteTools c)" for c ti'
    using driving_after[OF less.prems that(1) rank_when_calling[OF co that(3)] that(2) refl, of c]
    by (intro less.hyps[OF _ _]) auto
  have step: "runs_well V inp k d"
    if "next_effect ?B d = Some (effect, ?d)" "\<forall>oc. effect \<noteq> EffectFinished oc" "no_terminal (to_events ?out)"
      "runs_well V inp (Suc k) (effect_result V inp k effect ?d)" for effect
  proof -
    obtain new where "dd_events (effect_result V inp k effect ?d) = dd_events ?d @ new" using effect_result_events by metis
    then show ?thesis using runs_well_step[OF that(1,2) _ _ _ _ that(4)] ev that(3) by simp
  qed
  show ?case
  proof (cases "to_next_action ?out")
    case Terminate
    with next_effect_driving[OF ev(1) pend, of ?B] obtain d' where
      "next_effect ?B d = Some (EffectFinished \<lparr>do_status = terminate_status ?B (to_next_state ?out),
         do_events = dd_events d @ to_events ?out, do_usage = dd_usage ?d\<rparr>, d')" by auto
    then show ?thesis
      using finished_contract[OF co Terminate ev(2) driver_step_text driver_after_usage]
      unfolding runs_well_def by (subst run_effects.simps) simp
  next
    case (CallModel request)
    with next_effect_driving[OF ev(1) pend, of ?B]
    have nx: "next_effect ?B d = Some (EffectCallModel request, ?d)" and nt: "no_terminal (to_events ?out)" by auto
    have "runs_well V inp (Suc k) (effect_result V inp k (EffectCallModel request) ?d)"
      using runs_well_failure[of ?d] next_driving[OF nt] CallModel ev nt
      by (simp add: effect_result_def apply_model_def split: sum.splits)
    with step[OF nx _ nt] show ?thesis by simp
  next
    case (ExecuteTools calls)
    with next_effect_driving[OF ev(1) pend, of ?B]
    have nx: "next_effect ?B d = Some (EffectExecuteTools calls, ?d)" and nt: "no_terminal (to_events ?out)" by auto
    have "runs_well V inp (Suc k) (effect_result V inp k (EffectExecuteTools calls) ?d)"
      using next_driving[OF nt] ExecuteTools by (simp add: effect_result_def apply_tools_def)
    with step[OF nx _ nt] show ?thesis by simp
  next
    case Handoff
    with next_effect_driving[OF ev(1) pend, of ?B] show ?thesis by simp
  qed
qed

lemma driving_apply_instructions:
  "no_terminal (dd_events d) \<Longrightarrow> driving (apply_instructions s d) (Start (dd_seed_messages d))"
  by (simp add: driving_def apply_instructions_def)

lemma durable_new_simps [simp]:
  "dd_events (durable_new inp plan) = []" "dd_phase (durable_new inp plan) = AwaitingInstructions" "dd_agent_name (durable_new inp plan) = wi_agent_name inp"
  by (simp_all add: durable_new_def)

lemma next_effect_new: "next_effect B (durable_new inp plan) = Some (RenderInstructions, durable_new inp plan)"
  by (simp add: next_effect_def)

lemma runs_well_rendered: "runs_well V inp (Suc 0) (effect_result V inp 0 RenderInstructions (durable_new inp plan))"
  by (auto simp: effect_result_def split: sum.splits intro: runs_well_failure runs_well_driving[OF driving_apply_instructions])

lemma runs_well_new: "runs_well V inp 0 (durable_new inp plan)"
  by (rule runs_well_step[OF next_effect_new _ _ _ _ _ runs_well_rendered, where new = "[]" and new' = "dd_events (effect_result V inp 0 RenderInstructions (durable_new inp plan))"])
     simp_all

text \<open>How the log of an outcome begins: with the start of the run, or with nothing more than the failure to render the instructions.\<close>

definition durable_log_begins :: "string \<Rightarrow> durable_outcome \<Rightarrow> bool" where
  "durable_log_begins agent_name oc \<longleftrightarrow>
     (case do_events oc of
        [] \<Rightarrow> do_status oc = StatusCancelled \<or> do_status oc = StatusTimedOut
      | e # rest \<Rightarrow> e = RunStarted agent_name \<or> (\<exists>m. e = RunFailed m \<and> rest = []))"

lemma durable_log_begins_new:
  assumes "run_effects V inp 0 (durable_new inp plan) = Some (Inr oc)"
  shows "durable_log_begins (wi_agent_name inp) oc"
proof (cases "race_interrupt inp (de_stop V 0)")
  case None
  have run: "run_effects V inp (Suc 0) (effect_result V inp 0 RenderInstructions (durable_new inp plan)) = Some (Inr oc)"
    using assms run_effects_continue[OF next_effect_new _ None] by simp
  show ?thesis
  proof (cases "de_render V (wi_agent_name inp) (wi_ctx_seed inp)")
    case (Inl err)
    with run show ?thesis by (auto simp: effect_result_def apply_model_failure_runs durable_log_begins_def)
  next
    case (Inr s)
    with run runs_well_rendered[of V inp plan] show ?thesis
      by (auto simp: runs_well_def effect_result_def durable_log_begins_def)
  qed
next
  case (Some why)
  with assms run_effects_interrupted[OF next_effect_new _ Some] show ?thesis
    by (cases why) (auto simp: durable_log_begins_def driver_interrupt_def)
qed

lemma durable_run_ends:
  "\<exists>oc. durable_drive V plans inp = Some (Inr oc)
     \<and> (if plans (wi_agent_name inp) = None then oc = unknown_agent_outcome (wi_agent_name inp)
        else durable_contract oc \<and> durable_log_begins (wi_agent_name inp) oc)"
proof (cases "plans (wi_agent_name inp)")
  case None
  then show ?thesis by (simp add: durable_drive_def)
next
  case (Some plan)
  from runs_well_new[of V inp plan] obtain oc where
    "run_effects V inp 0 (durable_new inp plan) = Some (Inr oc)" "durable_contract oc" by (auto simp: runs_well_def)
  with Some durable_log_begins_new show ?thesis by (auto simp: durable_drive_def)
qed


end
