(* ===== verification/Temporal_Worker.thy ===== *)
theory Temporal_Worker
  imports Temporal_Driver
begin

text \<open>
  The worker of the durable runtime (\<open>worker.rs\<close>, \<open>activities.rs\<close>, \<open>activity_input.rs\<close> and the activity settings of \<open>workflow.rs\<close> in
  \<open>runtime-temporal\<close>): which agents it registers, the contexts it makes for each activity under its security posture, the activities
  themselves, and the codec of their inputs. The user's context factory, the serializers and the way the service wraps a failure are parameters.
  Shown are that only agents without hooks, handoffs and guardrails are registered, that activity inputs round trip while older shapes are
  refused, that a rejected seed fails the run before anything else happens, and that the durable run of a registered agent shows
  what the run in process shows.
\<close>

section \<open>The security posture\<close>

record 'u worker_posture =
  wp_permission_mode :: permission_mode
  wp_deny_rules :: "matcher list"
  wp_allow_rules :: "matcher list"
  wp_guard_rules :: "guard_rule list"
  wp_permission_policy :: "'u policy_fn option"
  wp_approval_handler :: "approval_fn option"
  wp_default_guards :: bool
  wp_redact_output :: bool
  wp_extra_secrets :: "string list"

definition worker_posture_default :: "'u worker_posture" where
  "worker_posture_default = \<lparr>wp_permission_mode = DefaultMode, wp_deny_rules = [], wp_allow_rules = [], wp_guard_rules = [],
     wp_permission_policy = None, wp_approval_handler = None, wp_default_guards = True, wp_redact_output = True, wp_extra_secrets = []\<rparr>"

definition posture_apply :: "'u worker_posture \<Rightarrow> 'u run_context \<Rightarrow> 'u run_context" where
  "posture_apply P ctx =
     (let ctx = with_permission_mode (wp_permission_mode P) ctx;
          ctx = ctx\<lparr>rx_deny_rules := wp_deny_rules P\<rparr>;
          ctx = ctx\<lparr>rx_allow_rules := wp_allow_rules P\<rparr>;
          ctx = ctx\<lparr>rx_guard_rules := wp_guard_rules P\<rparr>;
          ctx = with_extra_secrets (wp_extra_secrets P) ctx;
          ctx = (case wp_permission_policy P of Some p \<Rightarrow> ctx\<lparr>rx_permission_policy := Some p\<rparr> | None \<Rightarrow> ctx);
          ctx = (case wp_approval_handler P of Some h \<Rightarrow> ctx\<lparr>rx_approval_handler := Some h\<rparr> | None \<Rightarrow> ctx);
          ctx = (if \<not> wp_default_guards P then ctx\<lparr>rx_default_guards := False\<rparr> else ctx);
          ctx = (if \<not> wp_redact_output P then ctx\<lparr>rx_redact_output := False\<rparr> else ctx)
      in ctx)"

section \<open>Activity settings\<close>

text \<open>Durations are in milliseconds; the backoff coefficient is passed through, with 0 as the server's default.\<close>

record 'f retry_policy_config =
  rpc_initial_interval :: "nat option"
  rpc_backoff_coefficient :: "'f option"
  rpc_maximum_interval :: "nat option"
  rpc_maximum_attempts :: "u32 option"
  rpc_non_retryable_error_types :: "string list"

record 'f proto_retry_policy =
  prp_initial_interval :: "nat option"
  prp_backoff_coefficient :: 'f
  prp_maximum_interval :: "nat option"
  prp_maximum_attempts :: "32 word"
  prp_non_retryable_error_types :: "string list"

definition proto_duration :: "nat \<Rightarrow> nat option" where
  "proto_duration d = (if d div 1000 < 2 ^ 63 then Some d else None)"

definition to_proto_retry_policy :: "('f::zero) retry_policy_config \<Rightarrow> 'f proto_retry_policy option" where
  "to_proto_retry_policy cfg =
     (if rpc_initial_interval cfg = None \<and> rpc_backoff_coefficient cfg = None \<and> rpc_maximum_interval cfg = None
         \<and> rpc_maximum_attempts cfg = None \<and> rpc_non_retryable_error_types cfg = []
      then None
      else Some \<lparr>prp_initial_interval = Option.bind (rpc_initial_interval cfg) proto_duration,
        prp_backoff_coefficient = unwrap_or 0 (rpc_backoff_coefficient cfg),
        prp_maximum_interval = Option.bind (rpc_maximum_interval cfg) proto_duration,
        prp_maximum_attempts = (case rpc_maximum_attempts cfg of
            Some mx \<Rightarrow> (if unat mx < 2 ^ 31 then ucast mx else 0x7FFFFFFF)
          | None \<Rightarrow> 0),
        prp_non_retryable_error_types = rpc_non_retryable_error_types cfg\<rparr>)"

record activity_timeouts =
  at_instructions :: nat
  at_model :: nat
  at_tool :: nat

definition activity_timeouts_default :: activity_timeouts where
  "activity_timeouts_default = \<lparr>at_instructions = 300000, at_model = 300000, at_tool = 300000\<rparr>"

record 'f activity_spec =
  as_start_to_close :: nat
  as_retry_policy :: "'f proto_retry_policy option"
  as_heartbeat_timeout :: "nat option"

record 'f workflow_activity_config =
  wac_plans :: "(string \<times> agent_plan) list"
  wac_instructions :: "'f activity_spec"
  wac_model :: "'f activity_spec"
  wac_tool :: "'f activity_spec"

definition build_activity_config :: "(string \<times> agent_plan) list \<Rightarrow> ('f::zero) retry_policy_config \<Rightarrow> 'f retry_policy_config \<Rightarrow> activity_timeouts
    \<Rightarrow> nat option \<Rightarrow> 'f workflow_activity_config" where
  "build_activity_config plans model_retry tool_retry timeouts heartbeat_timeout = \<lparr>wac_plans = plans,
     wac_instructions = \<lparr>as_start_to_close = at_instructions timeouts, as_retry_policy = None, as_heartbeat_timeout = None\<rparr>,
     wac_model = \<lparr>as_start_to_close = at_model timeouts, as_retry_policy = to_proto_retry_policy model_retry, as_heartbeat_timeout = heartbeat_timeout\<rparr>,
     wac_tool = \<lparr>as_start_to_close = at_tool timeouts, as_retry_policy = to_proto_retry_policy tool_retry, as_heartbeat_timeout = heartbeat_timeout\<rparr>\<rparr>"

section \<open>Registration\<close>

record ('u, 'w) durable_agent_def =
  dad_name :: string
  dad_instructions :: "'u run_scope \<Rightarrow> string"
  dad_model :: "nat \<Rightarrow> model_request \<Rightarrow> model_error + (model_error + model_event) list"
  dad_tools :: "('u, 'w) tool list"
  dad_plan :: agent_plan

type_synonym 'u ctx_factory = "json option \<Rightarrow> string + 'u"

datatype registration_error = UnsupportedFeature string | DuplicateAgentName string

datatype worker_build_error =
    MissingTaskQueue
  | MissingClient
  | MissingCtxFactory
  | NoAgentsRegistered
  | BuildRuntime string
  | BuildWorker string

record ('u, 'w, 'f) worker_builder =
  wb_task_queue :: "string option"
  wb_client :: bool
  wb_ctx_factory :: "'u ctx_factory option"
  wb_registry :: "(string \<times> ('u, 'w) durable_agent_def) list"
  wb_model_retry_policy :: "'f retry_policy_config"
  wb_tool_retry_policy :: "'f retry_policy_config"
  wb_model_start_to_close :: "nat option"
  wb_tool_start_to_close :: "nat option"
  wb_posture :: "'u worker_posture"
  wb_heartbeat_interval :: "nat option"

definition activity_retry_default :: "'f retry_policy_config" where
  "activity_retry_default = \<lparr>rpc_initial_interval = None, rpc_backoff_coefficient = None, rpc_maximum_interval = None,
     rpc_maximum_attempts = None, rpc_non_retryable_error_types = []\<rparr>"

definition worker_builder_new :: "('u, 'w, 'f) worker_builder" where
  "worker_builder_new = \<lparr>wb_task_queue = None, wb_client = False, wb_ctx_factory = None, wb_registry = [],
     wb_model_retry_policy = activity_retry_default, wb_tool_retry_policy = activity_retry_default,
     wb_model_start_to_close = None, wb_tool_start_to_close = None, wb_posture = worker_posture_default, wb_heartbeat_interval = None\<rparr>"

definition with_ctx :: "(unit \<Rightarrow> 'u) \<Rightarrow> ('u, 'w, 'f) worker_builder \<Rightarrow> ('u, 'w, 'f) worker_builder" where
  "with_ctx factory b = b\<lparr>wb_ctx_factory := Some (\<lambda>_. Ok (factory ()))\<rparr>"

definition with_seeded_ctx :: "(json option \<Rightarrow> 'u) \<Rightarrow> ('u, 'w, 'f) worker_builder \<Rightarrow> ('u, 'w, 'f) worker_builder" where
  "with_seeded_ctx factory b = b\<lparr>wb_ctx_factory := Some (\<lambda>seed. Ok (factory seed))\<rparr>"

definition try_with_seeded_ctx :: "(json option \<Rightarrow> string + 'u) \<Rightarrow> ('u, 'w, 'f) worker_builder \<Rightarrow> ('u, 'w, 'f) worker_builder" where
  "try_with_seeded_ctx factory b = b\<lparr>wb_ctx_factory := Some factory\<rparr>"

definition set_heartbeat_interval :: "nat \<Rightarrow> ('u, 'w, 'f) worker_builder \<Rightarrow> ('u, 'w, 'f) worker_builder" where
  "set_heartbeat_interval interval b = b\<lparr>wb_heartbeat_interval := Some (max interval 1000)\<rparr>"

definition register_agent :: "('u, 'w) llm_agent \<Rightarrow> ('u, 'w, 'f) worker_builder \<Rightarrow> registration_error + ('u, 'w, 'f) worker_builder" where
  "register_agent agent b =
     (if la_hooks agent \<noteq> [] then Err (UnsupportedFeature ''hooks'')
      else if la_handoffs agent \<noteq> [] then Err (UnsupportedFeature ''handoffs'')
      else if la_input_guardrails agent \<noteq> [] then Err (UnsupportedFeature ''input_guardrails'')
      else if la_output_guardrails agent \<noteq> [] then Err (UnsupportedFeature ''output_guardrails'')
      else if map_of (wb_registry b) (la_name agent) \<noteq> None then Err (DuplicateAgentName (la_name agent))
      else
        (let tool_defs = map (\<lambda>t. \<lparr>td_name = tl_name t, td_description = tl_description t, td_schema = tl_schema t\<rparr>) (la_tools agent);
             plan = \<lparr>ap_tool_defs = tool_defs, ap_model_settings = la_model_settings agent, ap_output = la_output_type agent\<rparr>;
             def = \<lparr>dad_name = la_name agent, dad_instructions = la_instructions agent, dad_model = la_model agent, dad_tools = la_tools agent, dad_plan = plan\<rparr>
         in Ok (b\<lparr>wb_registry := (la_name agent, def) # wb_registry b\<rparr>)))"

text \<open>A built worker. The Core runtime and the SDK's worker are outside: whether their construction fails is a parameter.\<close>

record ('u, 'w, 'f) agent_worker =
  aw_registry :: "(string \<times> ('u, 'w) durable_agent_def) list"
  aw_ctx_factory :: "'u ctx_factory"
  aw_posture :: "'u worker_posture"
  aw_heartbeat_interval :: "nat option"
  aw_config :: "'f workflow_activity_config"

definition build_worker :: "string option \<Rightarrow> string option \<Rightarrow> ('u, 'w, 'f::zero) worker_builder \<Rightarrow> worker_build_error + ('u, 'w, 'f) agent_worker" where
  "build_worker runtime_error worker_error b =
     (case wb_task_queue b of None \<Rightarrow> Err MissingTaskQueue
      | Some task_queue \<Rightarrow>
     if \<not> wb_client b then Err MissingClient
     else (case wb_ctx_factory b of None \<Rightarrow> Err MissingCtxFactory
      | Some ctx_factory \<Rightarrow>
     if wb_registry b = [] then Err NoAgentsRegistered
     else
       (let plans = map (\<lambda>(nm, def). (nm, dad_plan def)) (wb_registry b);
            timeouts = activity_timeouts_default;
            timeouts = (case wb_model_start_to_close b of Some d \<Rightarrow> timeouts\<lparr>at_model := d\<rparr> | None \<Rightarrow> timeouts);
            timeouts = (case wb_tool_start_to_close b of Some d \<Rightarrow> timeouts\<lparr>at_tool := d\<rparr> | None \<Rightarrow> timeouts);
            heartbeat_timeout = map_option (\<lambda>iv. min (2 * iv) ((2 ^ 64 - 1) * 1000 + 999)) (wb_heartbeat_interval b);
            config = build_activity_config plans (wb_model_retry_policy b) (wb_tool_retry_policy b) timeouts heartbeat_timeout
        in case runtime_error of Some e \<Rightarrow> Err (BuildRuntime e)
           | None \<Rightarrow> (case worker_error of Some e \<Rightarrow> Err (BuildWorker e)
              | None \<Rightarrow> Ok \<lparr>aw_registry = wb_registry b, aw_ctx_factory = ctx_factory, aw_posture = wb_posture b,
                  aw_heartbeat_interval = wb_heartbeat_interval b, aw_config = config\<rparr>))))"

section \<open>Activities\<close>

fun drain_model :: "model_turn_accumulator \<Rightarrow> (model_error + model_event) list \<Rightarrow> error_kind + model_turn_accumulator" where
  "drain_model acc [] = Ok acc"
| "drain_model acc (Inr ev # rest) = drain_model (observe acc ev) rest"
| "drain_model acc (Inl e # rest) = Err (KindModel (model_error_display e))"

definition call_model_inner :: "ext \<Rightarrow> (model_request \<Rightarrow> model_error + (model_error + model_event) list) \<Rightarrow> string \<Rightarrow> model_request
    \<Rightarrow> error_kind + model_turn" where
  "call_model_inner E model agent_name request =
     (case model request of
        Inl e \<Rightarrow> Err (KindModel (model_error_display e))
      | Inr strm \<Rightarrow>
          (case drain_model (accumulator_new agent_name) strm of
             Inl ek \<Rightarrow> Err ek
           | Inr acc \<Rightarrow> (case finish E acc of Inr turn \<Rightarrow> Ok turn | Inl message \<Rightarrow> Err (KindOther message))))"

definition invoke_tool_inner :: "'w surroundings \<Rightarrow> ('u, 'w) durable_agent_def \<Rightarrow> 'u run_context \<Rightarrow> tool_call_request \<Rightarrow> 'w
    \<Rightarrow> tool_call_outcome" where
  "invoke_tool_inner U def run_ctx call w =
     (let tool_ctx = to_tool_context (su_child_token U) run_ctx
      in fst (fst (execute_tool_call (su_ext U) (su_env U) (dad_tools def) run_ctx tool_ctx call w)))"

definition render_instructions_inner :: "('u, 'w) durable_agent_def \<Rightarrow> 'u run_context \<Rightarrow> string" where
  "render_instructions_inner def run_ctx = dad_instructions def (scope_of run_ctx)"

definition resolve_agent :: "('u, 'w, 'f) agent_worker \<Rightarrow> string \<Rightarrow> string + ('u, 'w) durable_agent_def" where
  "resolve_agent W agent_name =
     (case map_of (aw_registry W) agent_name of
        Some def \<Rightarrow> Ok def
      | None \<Rightarrow> Err (''no agent named '' @ [CHR 0x27] @ agent_name @ [CHR 0x27] @ '' is registered on this worker''))"

text \<open>\<open>RunContext::ephemeral\<close>; the addresses of its fresh slots and of the activity's token are given by the caller.\<close>

definition ephemeral_context :: "'u \<Rightarrow> (nat \<Rightarrow> addr) \<Rightarrow> 'u run_context" where
  "ephemeral_context user fresh = run_context_new user (fresh 0) [] tracer_default (fresh 1) (fresh 2) (fresh 3) (fresh 4)"

definition activity_run_context :: "('u, 'w, 'f) agent_worker \<Rightarrow> json option \<Rightarrow> addr \<Rightarrow> (nat \<Rightarrow> addr) \<Rightarrow> string + 'u run_context" where
  "activity_run_context W seed cancel fresh =
     (case aw_ctx_factory W seed of
        Inl e \<Rightarrow> Err (''ctx seed rejected: '' @ e)
      | Inr user_ctx \<Rightarrow> Ok (posture_apply (aw_posture W) ((ephemeral_context user_ctx fresh)\<lparr>rx_cancel := cancel\<rparr>)))"

text \<open>
  What the service does with a worker: the slots and the token of the \<open>i\<close>-th activity of an await, how it hands a failure's message to the
  workflow, the serializer of errors, and when an interruption wins.
\<close>

record temporal_service =
  ts_fresh :: "nat \<Rightarrow> nat \<Rightarrow> nat \<Rightarrow> addr"
  ts_cancel :: "nat \<Rightarrow> nat \<Rightarrow> addr"
  ts_failure :: "string \<Rightarrow> activity_failure"
  ts_print_kind :: "error_kind \<Rightarrow> string"
  ts_parse_kind :: "string \<Rightarrow> error_kind option"
  ts_stop :: "nat \<Rightarrow> run_interrupt option"

definition activity_render :: "('u, 'w, 'f) agent_worker \<Rightarrow> temporal_service \<Rightarrow> string \<Rightarrow> json option \<Rightarrow> activity_failure + string" where
  "activity_render W T agent_name ctx_seed =
     (case resolve_agent W agent_name of
        Inl e \<Rightarrow> Err (ts_failure T e)
      | Inr def \<Rightarrow>
          (case activity_run_context W ctx_seed (ts_cancel T 0 0) (ts_fresh T 0 0) of
             Inl e \<Rightarrow> Err (ts_failure T e)
           | Inr run_ctx \<Rightarrow> Ok (render_instructions_inner def run_ctx)))"

definition activity_call_model :: "ext \<Rightarrow> ('u, 'w, 'f) agent_worker \<Rightarrow> temporal_service \<Rightarrow> nat \<Rightarrow> string \<Rightarrow> model_request
    \<Rightarrow> activity_failure + model_turn" where
  "activity_call_model E W T k agent_name request =
     (case resolve_agent W agent_name of
        Inl e \<Rightarrow> Err (ts_failure T e)
      | Inr def \<Rightarrow>
          (case call_model_inner E (dad_model def k) (dad_name def) request of
             Inl ek \<Rightarrow> Err (ts_failure T (ts_print_kind T ek))
           | Inr turn \<Rightarrow> Ok turn))"

definition activity_invoke_tool :: "'w surroundings \<Rightarrow> ('u, 'w, 'f) agent_worker \<Rightarrow> temporal_service \<Rightarrow> nat \<Rightarrow> nat \<Rightarrow> string \<Rightarrow> json option
    \<Rightarrow> tool_call_request \<Rightarrow> activity_failure + tool_call_outcome" where
  "activity_invoke_tool U W T k i agent_name ctx_seed call =
     (case resolve_agent W agent_name of
        Inl e \<Rightarrow> Err (ts_failure T e)
      | Inr def \<Rightarrow>
          (case activity_run_context W ctx_seed (ts_cancel T k i) (ts_fresh T k i) of
             Inl e \<Rightarrow> Err (ts_failure T e)
           | Inr run_ctx \<Rightarrow> Ok (invoke_tool_inner U def run_ctx call (su_world U k i))))"

text \<open>The environment of a workflow whose activities this worker executes.\<close>

definition worker_env :: "(loop_state \<Rightarrow> string) \<Rightarrow> 'w surroundings \<Rightarrow> ('u, 'w, 'f) agent_worker \<Rightarrow> temporal_service \<Rightarrow> durable_env" where
  "worker_env dbg_state U W T = \<lparr>de_lib = \<lparr>dl_ext = su_ext U, dl_dbg = su_dbg U, dl_dbg_state = dbg_state\<rparr>,
     de_render = activity_render W T, de_model = activity_call_model (su_ext U) W T, de_tool = activity_invoke_tool U W T,
     de_stop = ts_stop T, de_parse_kind = ts_parse_kind T\<rparr>"

definition worker_drive :: "(loop_state \<Rightarrow> string) \<Rightarrow> 'w surroundings \<Rightarrow> ('u, 'w, 'f) agent_worker \<Rightarrow> temporal_service \<Rightarrow> workflow_input
    \<Rightarrow> (unit + durable_outcome) option" where
  "worker_drive dbg_state U W T inp = durable_drive (worker_env dbg_state U W T) (map_of (wac_plans (aw_config W))) inp"

section \<open>The codec of activity inputs\<close>

datatype payload_conversion_error = EncodingError string | WrongEncoding

record render_instructions_args =
  ria_agent_name :: string
  ria_ctx_seed :: "json option"

record call_model_args =
  cma_agent_name :: string
  cma_request :: model_request

record invoke_tool_args =
  ita_agent_name :: string
  ita_call :: tool_call_request
  ita_ctx_seed :: "json option"

definition act_render :: string where
  "act_render = ''AgentActivities::render_instructions''"

definition act_call_model :: string where
  "act_call_model = ''AgentActivities::call_model''"

definition act_invoke_tool :: string where
  "act_invoke_tool = ''AgentActivities::invoke_tool''"

definition reject_legacy :: "string \<Rightarrow> nat \<Rightarrow> payload_conversion_error" where
  "reject_legacy activity arity = EncodingError (activity @ '': received '' @ show_nat arity @ '' payloads '' @ [CHR 0xE2, CHR 0x80, CHR 0x94]
     @ '' the pre-envelope positional shape (0.2.1 and earlier). This worker decodes only the single-payload envelope. ''
     @ ''Recovery: re-join a worker built against `paigasus-helikon-runtime-temporal` 0.2.2, which decodes both shapes, ''
     @ ''to this task queue and let in-flight runs drain.'')"

text \<open>The converter of single values is a parameter, with its own errors.\<close>

definition decode_arg :: "('p \<Rightarrow> payload_conversion_error + 'a) \<Rightarrow> 'p \<Rightarrow> string \<Rightarrow> nat \<Rightarrow> string \<Rightarrow> payload_conversion_error + 'a" where
  "decode_arg from_payload payload activity index expected =
     (case from_payload payload of
        Inr v \<Rightarrow> Ok v
      | Inl _ \<Rightarrow> Err (EncodingError (activity @ '': argument '' @ show_nat index @ '' could not be decoded as '' @ expected)))"

definition encode_envelope :: "('a \<Rightarrow> payload_conversion_error + 'p) \<Rightarrow> 'a \<Rightarrow> payload_conversion_error + 'p list" where
  "encode_envelope to_payload args = (case to_payload args of Inr p \<Rightarrow> Ok [p] | Inl e \<Rightarrow> Err e)"

definition render_from_payloads :: "('p \<Rightarrow> payload_conversion_error + render_instructions_args) \<Rightarrow> 'p list
    \<Rightarrow> payload_conversion_error + render_instructions_args" where
  "render_from_payloads from_payload payloads =
     (case payloads of
        [p] \<Rightarrow> decode_arg from_payload p act_render 0 ''RenderInstructionsArgs''
      | [_, _] \<Rightarrow> Err (reject_legacy act_render 2)
      | _ \<Rightarrow> Err WrongEncoding)"

definition call_model_from_payloads :: "('p \<Rightarrow> payload_conversion_error + call_model_args) \<Rightarrow> 'p list
    \<Rightarrow> payload_conversion_error + call_model_args" where
  "call_model_from_payloads from_payload payloads =
     (case payloads of
        [p] \<Rightarrow> decode_arg from_payload p act_call_model 0 ''CallModelArgs''
      | [_, _] \<Rightarrow> Err (reject_legacy act_call_model 2)
      | _ \<Rightarrow> Err WrongEncoding)"

definition invoke_tool_from_payloads :: "('p \<Rightarrow> payload_conversion_error + invoke_tool_args) \<Rightarrow> 'p list
    \<Rightarrow> payload_conversion_error + invoke_tool_args" where
  "invoke_tool_from_payloads from_payload payloads =
     (case payloads of
        [p] \<Rightarrow> decode_arg from_payload p act_invoke_tool 0 ''InvokeToolArgs''
      | [_, _, _] \<Rightarrow> Err (reject_legacy act_invoke_tool 3)
      | _ \<Rightarrow> Err WrongEncoding)"

text \<open>
  What the three input types share: the shape that is accepted, the one that is refused by name, and an error that never carries a payload.
\<close>

locale activity_input =
  fixes from_payloads :: "('p \<Rightarrow> payload_conversion_error + 'a) \<Rightarrow> 'p list \<Rightarrow> payload_conversion_error + 'a"
    and activity :: string and expected :: string and legacy :: nat
  assumes one: "from_payloads conv [p] = decode_arg conv p activity 0 expected"
    and old: "length ps = legacy \<Longrightarrow> from_payloads conv ps = Err (reject_legacy activity legacy)"
    and other: "length ps \<noteq> 1 \<Longrightarrow> length ps \<noteq> legacy \<Longrightarrow> from_payloads conv ps = Err WrongEncoding"
begin

lemma roundtrip:
  "(\<And>v p. to_payload v = Ok p \<Longrightarrow> conv p = Ok v) \<Longrightarrow> encode_envelope to_payload args = Ok ps \<Longrightarrow> from_payloads conv ps = Ok args"
  by (auto simp: encode_envelope_def one decode_arg_def split: sum.splits)

lemma error_cases:
  assumes "from_payloads conv ps = Err e"
  shows "e = (if length ps = legacy then reject_legacy activity legacy
    else if length ps = 1 then EncodingError (activity @ '': argument '' @ show_nat 0 @ '' could not be decoded as '' @ expected) else WrongEncoding)"
proof (cases "length ps = legacy")
  case False
  show ?thesis
  proof (cases "length ps = 1")
    case True
    then obtain p where "ps = [p]" by (auto simp: length_Suc_conv)
    then show ?thesis using assms False by (auto simp: one decode_arg_def split: sum.splits)
  qed (use assms other False in simp)
qed (use assms old in simp)

end

interpretation render_input: activity_input render_from_payloads act_render "''RenderInstructionsArgs''" 2
  by unfold_locales (auto simp: render_from_payloads_def length_Suc_conv numeral_2_eq_2 split: list.splits)

interpretation call_model_input: activity_input call_model_from_payloads act_call_model "''CallModelArgs''" 2
  by unfold_locales (auto simp: call_model_from_payloads_def length_Suc_conv numeral_2_eq_2 split: list.splits)

interpretation invoke_tool_input: activity_input invoke_tool_from_payloads act_invoke_tool "''InvokeToolArgs''" 3
  by unfold_locales (auto simp: invoke_tool_from_payloads_def length_Suc_conv numeral_3_eq_3 split: list.splits)

text \<open>
  Inputs of activities survive the wire: whatever the three argument types hold, decoding what was encoded gives it back, as long
  as the converter of single values does. The positional shapes of older workers, two payloads for the first two activities and three for the
  last, are refused by name, and a refusal never contains what was in the payloads.
\<close>

theorem activity_inputs_roundtrip:
  assumes "\<And>v p. render_to v = Ok p \<Longrightarrow> render_of p = Ok v" "\<And>v p. model_to v = Ok p \<Longrightarrow> model_of p = Ok v"
    and "\<And>v p. tool_to v = Ok p \<Longrightarrow> tool_of p = Ok v"
  shows "(encode_envelope render_to ra = Ok ps \<longrightarrow> render_from_payloads render_of ps = Ok ra)
    \<and> (encode_envelope model_to ma = Ok ps \<longrightarrow> call_model_from_payloads model_of ps = Ok ma)
    \<and> (encode_envelope tool_to ta = Ok ps \<longrightarrow> invoke_tool_from_payloads tool_of ps = Ok ta)
    \<and> render_from_payloads render_of [p, q] = Err (reject_legacy act_render 2)
    \<and> call_model_from_payloads model_of [p, q] = Err (reject_legacy act_call_model 2)
    \<and> invoke_tool_from_payloads tool_of [p, q, r] = Err (reject_legacy act_invoke_tool 3)"
  using render_input.roundtrip[of render_to render_of ra ps] call_model_input.roundtrip[of model_to model_of ma ps]
    invoke_tool_input.roundtrip[of tool_to tool_of ta ps] render_input.old[of "[p, q]"] call_model_input.old[of "[p, q]"]
    invoke_tool_input.old[of "[p, q, r]"] assms
  by simp

text \<open>A converter of values of any type, for closed examples: payloads are the values themselves.\<close>

theorem activity_inputs_roundtrip_witness:
  "render_from_payloads Inr [\<lparr>ria_agent_name = ''a'', ria_ctx_seed = Some JNull\<rparr>] = Ok \<lparr>ria_agent_name = ''a'', ria_ctx_seed = Some JNull\<rparr>"
  using activity_inputs_roundtrip[of Inr Inr "\<lambda>_. Err WrongEncoding" "\<lambda>_. Err WrongEncoding" "\<lambda>_. Err WrongEncoding" "\<lambda>_. Err WrongEncoding"
      "\<lparr>ria_agent_name = ''a'', ria_ctx_seed = Some JNull\<rparr>" "[\<lparr>ria_agent_name = ''a'', ria_ctx_seed = Some JNull\<rparr>]"]
  by (simp add: encode_envelope_def)

section \<open>Registration and posture\<close>

text \<open>An agent the durable loop can drive: nothing the loop would have to skip.\<close>

definition plain_agent :: "('u, 'w) llm_agent \<Rightarrow> bool" where
  "plain_agent A \<longleftrightarrow> la_hooks A = [] \<and> la_handoffs A = [] \<and> la_input_guardrails A = [] \<and> la_output_guardrails A = []"

definition def_of :: "('u, 'w) llm_agent \<Rightarrow> ('u, 'w) durable_agent_def" where
  "def_of A = \<lparr>dad_name = la_name A, dad_instructions = la_instructions A, dad_model = la_model A, dad_tools = la_tools A,
     dad_plan = \<lparr>ap_tool_defs = tool_defs A, ap_model_settings = la_model_settings A, ap_output = la_output_type A\<rparr>\<rparr>"

lemma register_agent_iff:
  "register_agent A b = Ok b' \<longleftrightarrow> plain_agent A \<and> map_of (wb_registry b) (la_name A) = None \<and> b' = b\<lparr>wb_registry := (la_name A, def_of A) # wb_registry b\<rparr>"
  by (auto simp: register_agent_def plain_agent_def def_of_def tool_defs_def Let_def)

definition worker_context :: "'u worker_posture \<Rightarrow> 'u \<Rightarrow> addr \<Rightarrow> (nat \<Rightarrow> addr) \<Rightarrow> 'u run_context" where
  "worker_context P user cancel fresh = posture_apply P ((ephemeral_context user fresh)\<lparr>rx_cancel := cancel\<rparr>)"

lemmas posture_defs = worker_context_def posture_apply_def ephemeral_context_def run_context_new_def with_permission_mode_def
  with_extra_secrets_def Let_def

lemma worker_context_fields:
  "rx_user_ctx (worker_context P user cancel fresh) = user" "rx_hooks (worker_context P user cancel fresh) = []"
  "rx_permission_mode (worker_context P user cancel fresh) = wp_permission_mode P" "rx_deny_rules (worker_context P user cancel fresh) = wp_deny_rules P"
  "rx_allow_rules (worker_context P user cancel fresh) = wp_allow_rules P" "rx_guard_rules (worker_context P user cancel fresh) = wp_guard_rules P"
  "rx_default_guards (worker_context P user cancel fresh) = wp_default_guards P" "rx_redact_output (worker_context P user cancel fresh) = wp_redact_output P"
  "rx_extra_secrets (worker_context P user cancel fresh) = wp_extra_secrets P"
  "rx_permission_policy (worker_context P user cancel fresh) = wp_permission_policy P"
  "rx_approval_handler (worker_context P user cancel fresh) = wp_approval_handler P"
  "rx_agent_depth (worker_context P user cancel fresh) = 0" "rx_run_config (worker_context P user cancel fresh) = None"
  by (simp_all add: posture_defs split: option.splits)

lemma default_posture: "posture_apply worker_posture_default (ephemeral_context user fresh) = ephemeral_context user fresh"
  by (simp add: posture_defs worker_posture_default_def)

text \<open>The depth limit of a run's configuration does not reach the tools of a durable run: they see the default.\<close>

lemma worker_depth_default: "tc_max_agent_depth (to_tool_context token (worker_context P user cancel fresh)) = 8"
  by (simp add: to_tool_context_def worker_context_fields run_config_default_def)

section \<open>The durable run and the run in process\<close>

text \<open>
  The agent, its policy and its tools as the comparison needs them: of their context they read the user's part only. A worker makes a new context for every
  activity, so coordination state, the session and the depth limit of a run in process are not there to be read.
\<close>

definition reads_user_ctx :: "('u, 'w) llm_agent \<Rightarrow> 'u worker_posture \<Rightarrow> bool" where
  "reads_user_ctx A P \<longleftrightarrow>
     (\<forall>s s'. rx_user_ctx s = rx_user_ctx s' \<longrightarrow> la_instructions A s = la_instructions A s')
     \<and> (\<forall>check s s'. wp_permission_policy P = Some check \<longrightarrow> rx_user_ctx s = rx_user_ctx s' \<longrightarrow> check s = check s')
     \<and> (\<forall>t\<in>set (la_tools A). \<forall>tc tc'. tc_user_ctx tc = tc_user_ctx tc' \<longrightarrow> tl_invoke t tc = tl_invoke t tc')"

text \<open>A context of a run in process under the worker's posture.\<close>

definition under_posture :: "'u worker_posture \<Rightarrow> 'u \<Rightarrow> 'u run_context \<Rightarrow> bool" where
  "under_posture P user ctx \<longleftrightarrow> rx_user_ctx ctx = user \<and> rx_hooks ctx = [] \<and> rx_permission_mode ctx = wp_permission_mode P
     \<and> rx_deny_rules ctx = wp_deny_rules P \<and> rx_allow_rules ctx = wp_allow_rules P \<and> rx_guard_rules ctx = wp_guard_rules P
     \<and> rx_default_guards ctx = wp_default_guards P \<and> rx_redact_output ctx = wp_redact_output P \<and> rx_extra_secrets ctx = wp_extra_secrets P
     \<and> rx_permission_policy ctx = wp_permission_policy P \<and> rx_approval_handler ctx = wp_approval_handler P"

lemma under_worker_context: "under_posture P user (worker_context P user cancel fresh)"
  by (simp add: under_posture_def worker_context_fields)

lemma scope_user: "rx_user_ctx (scope_of ctx) = rx_user_ctx ctx"
  by (simp add: scope_of_def run_scope.truncate_def)

lemma authorize_under_posture:
  assumes "under_posture P user ctx" "under_posture P user ctx'" "reads_user_ctx A P"
  shows "authorize_tool ctx tool effect args = authorize_tool ctx' tool effect args"
proof -
  have "check (scope_of ctx) = check (scope_of ctx')" if "wp_permission_policy P = Some check" for check
    using assms that unfolding reads_user_ctx_def by (metis scope_user under_posture_def)
  then show ?thesis
    using assms(1,2) unfolding under_posture_def authorize_tool_def active_guards_def
    by (auto split: option.splits sum.splits)
qed

lemma fire_plain: "rx_hooks ctx = [] \<Longrightarrow> fire k ctx [] = (\<lambda>_. resolved_hook_default)"
  by (simp add: fire_def fun_eq_iff)

lemma find_tool_in: "find_tool tools nm = Some t \<Longrightarrow> t \<in> set tools"
  by (metis find_tool_def find_Some_iff nth_mem)

text \<open>One tool call: the activity gives the outcome of the call in process.\<close>

lemma tool_outcome_agrees:
  assumes "plain_agent A" "reads_user_ctx A P" "under_posture P user ctx" "under_posture P user wctx"
  shows "invoke_tool_inner U (def_of A) wctx call w = fst (fst (run_tool_call U A ctx (to_tool_context (su_child_token U) ctx) k call w))"
proof -
  let ?tool = "find_tool (la_tools A) (tcr_name call)"
  have hooks: "fire k ctx (la_hooks A) = (\<lambda>_. resolved_hook_default)"
    using assms(1,3) by (simp add: plain_agent_def under_posture_def fire_plain)
  have same: "tl_invoke t (to_tool_context (su_child_token U) wctx) = tl_invoke t (to_tool_context (su_child_token U) ctx)"
    if "?tool = Some t" for t
    using find_tool_in[OF that] assms(2-4) unfolding reads_user_ctx_def by (auto simp: to_tool_context_def under_posture_def)
  have red: "rx_redact_output ctx = rx_redact_output wctx" "rx_extra_secrets ctx = rx_extra_secrets wctx"
    using assms(3,4) by (simp_all add: under_posture_def)
  note auth = authorize_under_posture[OF assms(3,4,2), of "tcr_name call" "effective_effect ?tool" "tcr_args call"]
  show ?thesis
    using same
    by (auto simp: invoke_tool_inner_def def_of_def execute_tool_call_def run_tool_call_def hooks resolved_hook_default_def auth red
        invoke_tool_def invoke_json_def post_tool_def Let_def split: permission_decision.splits option.splits prod.splits sum.splits)
qed

text \<open>The events the durable log keeps: no streamed deltas and no reports of denied calls.\<close>

fun durable_visible :: "agent_event \<Rightarrow> bool" where
  "durable_visible (TokenDelta _) = False"
| "durable_visible (ReasoningDelta _) = False"
| "durable_visible (ToolCallDelta _ _ _) = False"
| "durable_visible (PermissionDenied _ _) = False"
| "durable_visible _ = True"

lemma visible_message_outputs: "filter durable_visible (message_outputs items) = message_outputs items"
  by (auto simp: message_outputs_def)

lemma visible_tool_events: "filter durable_visible (tool_call_events items) = tool_call_events items"
  by (induction items) (auto simp: tool_call_events_def split: item.splits)

lemma visible_tool_outputs:
  "filter durable_visible (map (\<lambda>oc. ToolOutputItem (outcome_item oc)) outcomes) = map (\<lambda>oc. ToolOutputItem (outcome_item oc)) outcomes"
  by (induction outcomes) auto

lemma transition_events_visible:
  assumes "tc_handoffs ctx = []"
  shows "filter durable_visible (to_events (transition E dbg st ti ctx)) = to_events (transition E dbg st ti ctx)"
proof -
  have "handoff_target [] items = None" for items
    by (induction items) (auto simp: handoff_target_def split: item.splits)
  then show ?thesis
    using assms
    by (auto simp: transition_def arm_defs Let_def visible_message_outputs visible_tool_events visible_tool_outputs
        split: loop_state.splits transition_input.splits option.splits sum.splits)
qed

lemma relay_drain:
  "relay_model acc strm = (evs, r) \<Longrightarrow> filter durable_visible evs = []
     \<and> drain_model acc strm = (case r of Inl e \<Rightarrow> Err (KindModel (model_error_display e)) | Inr acc' \<Rightarrow> Ok acc')"
proof (induction acc strm arbitrary: evs rule: relay_model.induct)
  case (3 acc ev rest)
  then show ?case by (cases ev) (auto split: prod.splits)
qed auto

text \<open>What a worker and the service must do for the comparison: serve the agent, accept the seed, carry errors faithfully, never interrupt.\<close>

definition serves :: "('u, 'w, 'f) agent_worker \<Rightarrow> temporal_service \<Rightarrow> workflow_input \<Rightarrow> ('u, 'w) llm_agent \<Rightarrow> 'u \<Rightarrow> bool" where
  "serves W T inp A user \<longleftrightarrow>
     map_of (aw_registry W) (la_name A) = Some (def_of A) \<and> wi_agent_name inp = la_name A \<and> aw_ctx_factory W (wi_ctx_seed inp) = Ok user
     \<and> (\<forall>m. activity_failure_message (ts_failure T m) = m) \<and> (\<forall>m. ts_parse_kind T (ts_print_kind T (KindModel m)) = Some (KindModel m))
     \<and> (\<forall>m. ts_parse_kind T (ts_print_kind T (KindOther m)) = Some (KindOther m)) \<and> (\<forall>k. ts_stop T k = None)"

lemma model_agrees:
  assumes "serves W T inp A user" "call_model U A k [] request = (evs, r)"
  shows "case activity_call_model (su_ext U) W T k (la_name A) request of
      Inr turn \<Rightarrow> r = Feed (ModelResponse (mt_items turn) (mt_usage turn) (mt_finish_reason turn)) (mt_items turn) \<and> filter durable_visible evs = []
    | Inl err \<Rightarrow> (\<exists>e. r = EndStream (Some e) \<and> extract_error_kind (worker_env dbg_state U W T) err = from_agent_error (su_ext U) e
        \<and> filter durable_visible evs = [RunFailed (agent_error_display (su_ext U) (into_agent_error (from_agent_error (su_ext U) e)))])"
proof -
  have dd: "dad_model (def_of A) = la_model A" "dad_name (def_of A) = la_name A" by (simp_all add: def_of_def)
  show ?thesis
    using assms
    by (auto simp: call_model_def activity_call_model_def call_model_inner_def resolve_agent_def serves_def dd extract_error_kind_def worker_env_def
        from_agent_error_def Let_def split: sum.splits prod.splits dest!: relay_drain)
qed

lemma tools_agree:
  assumes "serves W T inp A user" "plain_agent A" "reads_user_ctx A (aw_posture W)" "under_posture (aw_posture W) user ctx"
  shows "durable_tools (worker_env dbg_state U W T) k (wi_agent_name inp) (wi_ctx_seed inp) limit calls
    = fst (run_tools_concurrent U A ctx (to_tool_context (su_child_token U) ctx) k calls)"
proof -
  have "tool_activity (worker_env dbg_state U W T) k (wi_agent_name inp) (wi_ctx_seed inp) (i, call)
      = fst (fst (run_tool_call U A ctx (to_tool_context (su_child_token U) ctx) k call (su_world U k i)))" for i call
    using assms(1) tool_outcome_agrees[OF assms(2-4) under_worker_context]
    by (simp add: tool_activity_def worker_env_def activity_invoke_tool_def resolve_agent_def serves_def activity_run_context_def worker_context_def[symmetric])
  then show ?thesis by (auto simp: durable_tools_map run_tools_concurrent_def Let_def)
qed

lemma denied_invisible:
  assumes "\<And>k evs. mset (su_order U k evs) = mset evs"
  shows "filter durable_visible (snd (run_tools_concurrent U A ctx tctx k calls)) = []"
proof -
  have one: "snd (fst (run_tool_call U A ctx tctx k call w)) = Some e \<Longrightarrow> \<not> durable_visible e" for call w e
    by (auto simp: run_tool_call_def Let_def split: option.splits permission_decision.splits prod.splits)
  have "set (su_order U k xs) = set xs" for xs
    using assms[of k xs] by (metis set_mset_mset)
  then show ?thesis
    using one by (auto simp: run_tools_concurrent_def Let_def filter_empty_conv List.map_filter_def) (metis snd_conv)
qed

text \<open>The durable driver follows the driver in process.\<close>

definition follows :: "('u, 'w) llm_agent \<Rightarrow> 'u run_context \<Rightarrow> driver \<Rightarrow> durable_driver \<Rightarrow> nat \<Rightarrow> bool" where
  "follows A ctx dv d k \<longleftrightarrow> dd_phase d = Driving \<and> dd_pending_input d = Some (dv_input dv) \<and> dd_loop_state d = dv_state dv
     \<and> dd_conversation d = dv_conversation dv \<and> dv_pending dv = [] \<and> dv_step dv = k \<and> dd_plan d = dad_plan (def_of A)
     \<and> dc_max_turns (dd_config d) = cfg_max_turns (effective_config A ctx)"

definition status_agrees :: "ext \<Rightarrow> agent_error option \<Rightarrow> durable_status \<Rightarrow> bool" where
  "status_agrees E slot status \<longleftrightarrow>
     (case slot of None \<Rightarrow> \<exists>out. status = StatusCompleted out | Some e \<Rightarrow> status = StatusAgentFailed (from_agent_error E e))"

lemma follows_step:
  assumes "follows A ctx dv d k" "plain_agent A" "dl_ext B = su_ext U" "dl_dbg B = su_dbg U"
  shows "driver_step B d (dv_input dv) = machine_step U A ctx dv"
proof -
  have "durable_ctx d = transition_ctx_of A ctx (dv_conversation dv)"
    using assms by (simp add: follows_def durable_ctx_def transition_ctx_of_def plain_agent_def def_of_def)
  then show ?thesis using assms by (simp add: driver_step_def machine_step_def follows_def)
qed

lemma emit_events_plain: "(\<And>e. f e = resolved_hook_default) \<Longrightarrow> emit_events f evs pending = (evs, pending, None)"
  by (induction f evs pending rule: emit_events.induct) (simp_all add: resolved_hook_default_def Let_def)

lemma iterate_plain:
  assumes "plain_agent A" "rx_hooks ctx = []" "dv_pending dv = []" "out = machine_step U A ctx dv"
  shows "iterate U A ctx dv =
    (case perform U A ctx (dv_step dv) [] (to_next_state out) (to_next_action out) of
       (evs, EndStream slot) \<Rightarrow> (to_events out @ evs, Inr slot)
     | (evs, Feed ti items) \<Rightarrow> (to_events out @ evs, Inl \<lparr>dv_state = to_next_state out, dv_input = ti,
         dv_conversation = dv_conversation dv @ to_appends out @ items, dv_pending = [], dv_step = Suc (dv_step dv)\<rparr>))"
proof -
  have "output_trip A ctx k st = None" for k st
    using assms(1) by (simp add: output_trip_def plain_agent_def split: loop_state.splits)
  moreover have "emit_events (fire k ctx (la_hooks A)) evs [] = (evs, [], None)" for k evs
    using assms(1,2) by (intro emit_events_plain) (simp add: plain_agent_def fire_plain)
  ultimately show ?thesis
    using assms(3)
    by (simp add: iterate_def assms(4) machine_step_def[symmetric] Let_def split: prod.splits action_result.splits next_action.splits)
qed

lemma visible_machine_step:
  "plain_agent A \<Longrightarrow> filter durable_visible (to_events (machine_step U A ctx dv)) = to_events (machine_step U A ctx dv)"
  unfolding machine_step_def by (rule transition_events_visible) (simp add: transition_ctx_of_def plain_agent_def)

text \<open>What one iteration of the loop in process is in the durable run.\<close>

definition simulates :: "(loop_state \<Rightarrow> string) \<Rightarrow> 'w surroundings \<Rightarrow> ('u, 'w, 'f) agent_worker \<Rightarrow> temporal_service \<Rightarrow> workflow_input
    \<Rightarrow> ('u, 'w) llm_agent \<Rightarrow> 'u run_context \<Rightarrow> nat \<Rightarrow> durable_driver \<Rightarrow> agent_event list \<times> (driver + agent_error option) \<Rightarrow> bool" where
  "simulates dbg_state U W T inp A ctx k d it \<longleftrightarrow>
     (case it of
        (evs, Inl dv') \<Rightarrow> (\<exists>d'. run_effects (worker_env dbg_state U W T) inp k d = run_effects (worker_env dbg_state U W T) inp (Suc k) d'
          \<and> follows A ctx dv' d' (Suc k) \<and> dd_events d' = dd_events d @ filter durable_visible evs)
      | (evs, Inr slot) \<Rightarrow> (\<exists>oc. run_effects (worker_env dbg_state U W T) inp k d = Some (Inr oc)
          \<and> do_events oc = dd_events d @ filter durable_visible evs \<and> status_agrees (su_ext U) slot (do_status oc)))"

lemma race_none: "serves W T inp A user \<Longrightarrow> race_interrupt inp (de_stop (worker_env dbg_state U W T) k) = None"
  by (simp add: serves_def worker_env_def race_interrupt_def)

lemma worker_env_simps [simp]:
  "dl_ext (de_lib (worker_env dbg_state U W T)) = su_ext U" "dl_dbg (de_lib (worker_env dbg_state U W T)) = su_dbg U"
  "de_model (worker_env dbg_state U W T) = activity_call_model (su_ext U) W T"
  "de_render (worker_env dbg_state U W T) = activity_render W T"
  by (simp_all add: worker_env_def)

lemma simulate_model:
  assumes "follows A ctx dv d k" "plain_agent A" "rx_hooks ctx = []" "serves W T inp A user"
    and "to_next_action (machine_step U A ctx dv) = CallModel request"
  shows "simulates dbg_state U W T inp A ctx k d (iterate U A ctx dv)"
proof -
  let ?V = "worker_env dbg_state U W T" let ?B = "de_lib ?V" let ?out = "machine_step U A ctx dv"
  let ?d = "driver_after ?B d (dv_input dv)"
  have st: "driver_step ?B d (dv_input dv) = ?out" by (rule follows_step[OF assms(1,2)]) simp_all
  have ph: "dd_phase d = Driving" "dd_pending_input d = Some (dv_input dv)" "dv_pending dv = []" "dv_step dv = k"
    using assms(1) by (simp_all add: follows_def)
  have nx: "next_effect ?B d = Some (EffectCallModel request, ?d)"
    using next_effect_driving[OF ph(1,2), of ?B] assms(5) st by simp
  have run: "run_effects ?V inp k d = run_effects ?V inp (Suc k) (effect_result ?V inp k (EffectCallModel request) ?d)"
    by (rule run_effects_continue[OF nx _ race_none[OF assms(4)]]) simp
  obtain evs r where cm: "call_model U A k [] request = (evs, r)" by fastforce
  note agrees = model_agrees[OF assms(4) cm, of dbg_state]
  have nm: "wi_agent_name inp = la_name A" using assms(4) by (simp add: serves_def)
  show ?thesis
  proof (cases "activity_call_model (su_ext U) W T k (la_name A) request")
    case (Inr turn)
    with agrees have r: "r = Feed (ModelResponse (mt_items turn) (mt_usage turn) (mt_finish_reason turn)) (mt_items turn)"
      and ev: "filter durable_visible evs = []" by auto
    have "follows A ctx \<lparr>dv_state = to_next_state ?out, dv_input = ModelResponse (mt_items turn) (mt_usage turn) (mt_finish_reason turn),
        dv_conversation = dv_conversation dv @ to_appends ?out @ mt_items turn, dv_pending = [], dv_step = Suc k\<rparr> (apply_model turn ?d) (Suc k)"
      using assms(1) by (simp add: follows_def apply_model_def driver_after_def st Let_def)
    then show ?thesis
      using Inr r ev run nm
      by (auto simp: simulates_def iterate_plain[OF assms(2,3) ph(3) refl] assms(5) perform_def ph(4) cm effect_result_def st
          visible_machine_step[OF assms(2)] intro!: exI[of _ "apply_model turn ?d"])
  next
    case (Inl err)
    with agrees obtain e where "r = EndStream (Some e)" "extract_error_kind ?V err = from_agent_error (su_ext U) e"
      "filter durable_visible evs = [RunFailed (agent_error_display (su_ext U) (into_agent_error (from_agent_error (su_ext U) e)))]" by auto
    then show ?thesis
      using Inl run nm
      by (auto simp: simulates_def iterate_plain[OF assms(2,3) ph(3) refl] assms(5) perform_def ph(4) cm effect_result_def st
          visible_machine_step[OF assms(2)] apply_model_failure_runs status_agrees_def)
  qed
qed

lemma simulate_tools:
  assumes "follows A ctx dv d k" "plain_agent A" "serves W T inp A user" "reads_user_ctx A (aw_posture W)"
    and "under_posture (aw_posture W) user ctx" "\<And>k evs. mset (su_order U k evs) = mset evs"
    and "to_next_action (machine_step U A ctx dv) = ExecuteTools calls"
  shows "simulates dbg_state U W T inp A ctx k d (iterate U A ctx dv)"
proof -
  let ?V = "worker_env dbg_state U W T" let ?B = "de_lib ?V" let ?out = "machine_step U A ctx dv"
  let ?d = "driver_after ?B d (dv_input dv)"
  have st: "driver_step ?B d (dv_input dv) = ?out" by (rule follows_step[OF assms(1,2)]) simp_all
  have ph: "dd_phase d = Driving" "dd_pending_input d = Some (dv_input dv)" "dv_pending dv = []" "dv_step dv = k"
    using assms(1) by (simp_all add: follows_def)
  have hooks: "rx_hooks ctx = []" using assms(5) by (simp add: under_posture_def)
  have nx: "next_effect ?B d = Some (EffectExecuteTools calls, ?d)"
    using next_effect_driving[OF ph(1,2), of ?B] assms(7) st by simp
  obtain outcomes denied where tools: "run_tools_concurrent U A ctx (to_tool_context (su_child_token U) ctx) k calls = (outcomes, denied)" by fastforce
  have run: "run_effects ?V inp k d = run_effects ?V inp (Suc k) (apply_tools outcomes ?d)"
    using run_effects_continue[OF nx _ race_none[OF assms(3)]] tools_agree[OF assms(3,2,4,5), of dbg_state U k] tools
    by (simp add: effect_result_def)
  have "filter durable_visible denied = []" using denied_invisible[OF assms(6), of A ctx] tools by (metis snd_conv)
  moreover have "follows A ctx \<lparr>dv_state = to_next_state ?out, dv_input = ToolResults outcomes,
      dv_conversation = dv_conversation dv @ to_appends ?out
        @ map (\<lambda>oc. ToolResult (tco_call_id oc) (unwrap_or_else (\<lambda>e. [Text e]) (tco_result oc))) outcomes,
      dv_pending = [], dv_step = Suc k\<rparr> (apply_tools outcomes ?d) (Suc k)"
    using assms(1) by (simp add: follows_def apply_tools_def driver_after_def st Let_def)
  ultimately show ?thesis
    using run
    by (auto simp: simulates_def iterate_plain[OF assms(2) hooks ph(3) refl] assms(7) perform_def ph(4) execute_tools_def tools st
        visible_machine_step[OF assms(2)] Let_def intro!: exI[of _ "apply_tools outcomes ?d"])
qed

lemma simulate_end:
  assumes "follows A ctx dv d k" "plain_agent A" "rx_hooks ctx = []" "to_next_action (machine_step U A ctx dv) = Terminate"
  shows "simulates dbg_state U W T inp A ctx k d (iterate U A ctx dv)"
proof -
  let ?V = "worker_env dbg_state U W T" let ?B = "de_lib ?V" let ?out = "machine_step U A ctx dv"
  have st: "driver_step ?B d (dv_input dv) = ?out" by (rule follows_step[OF assms(1,2)]) simp_all
  have ph: "dd_phase d = Driving" "dd_pending_input d = Some (dv_input dv)" "dv_pending dv = []"
    using assms(1) by (simp_all add: follows_def)
  have co: "coherent ?out" by (simp add: machine_step_def transition_coherent_lemma)
  obtain u d' where nx: "next_effect ?B d = Some (EffectFinished \<lparr>do_status = terminate_status ?B (to_next_state ?out),
      do_events = dd_events d @ to_events ?out, do_usage = u\<rparr>, d')"
    using next_effect_driving[OF ph(1,2), of ?B] assms(4) st by auto
  have "status_agrees (su_ext U) (case to_next_state ?out of Failed err \<Rightarrow> Some err | _ \<Rightarrow> None) (terminate_status ?B (to_next_state ?out))"
    using co assms(4) by (cases "to_next_state ?out") (auto simp: coherent_def status_agrees_def terminate_status_def)
  moreover have "run_effects ?V inp k d = Some (Inr \<lparr>do_status = terminate_status ?B (to_next_state ?out),
      do_events = dd_events d @ to_events ?out, do_usage = u\<rparr>)"
    by (subst run_effects.simps) (simp add: nx)
  ultimately show ?thesis
    by (auto simp: simulates_def iterate_plain[OF assms(2,3) ph(3) refl] assms(4) perform_def visible_machine_step[OF assms(2)])
qed

lemma simulate_iterate:
  assumes "follows A ctx dv d k" "plain_agent A" "serves W T inp A user" "reads_user_ctx A (aw_posture W)"
    and "under_posture (aw_posture W) user ctx" "\<And>k evs. mset (su_order U k evs) = mset evs"
  shows "simulates dbg_state U W T inp A ctx k d (iterate U A ctx dv)"
proof (cases "to_next_action (machine_step U A ctx dv)")
  case Handoff
  moreover have "to_next_action (machine_step U A ctx dv) \<noteq> Handoff"
    unfolding machine_step_def by (rule no_handoff) (use assms(2) in \<open>simp add: transition_ctx_of_def plain_agent_def\<close>)
  ultimately show ?thesis by simp
next
  case Terminate
  then show ?thesis using simulate_end[OF assms(1,2)] assms(5) by (simp add: under_posture_def)
next
  case (CallModel request)
  then show ?thesis using simulate_model[OF assms(1,2) _ assms(3)] assms(5) by (simp add: under_posture_def)
next
  case (ExecuteTools calls)
  then show ?thesis by (rule simulate_tools[OF assms])
qed

lemma simulate_drive:
  assumes "plain_agent A" "serves W T inp A user" "reads_user_ctx A (aw_posture W)"
    and "under_posture (aw_posture W) user ctx" "\<And>k evs. mset (su_order U k evs) = mset evs"
  shows "follows A ctx dv d k \<Longrightarrow> drive n U A ctx dv = Some (evs, slot) \<Longrightarrow>
    \<exists>oc. run_effects (worker_env dbg_state U W T) inp k d = Some (Inr oc) \<and> do_events oc = dd_events d @ filter durable_visible evs
      \<and> status_agrees (su_ext U) slot (do_status oc)"
proof (induction n arbitrary: dv d k evs)
  case (Suc n)
  note sim = simulate_iterate[OF Suc.prems(1) assms, of dbg_state]
  obtain evs1 r where it: "iterate U A ctx dv = (evs1, r)" by fastforce
  show ?case
  proof (cases r)
    case (Inr s)
    then show ?thesis using Suc.prems(2) it sim by (auto simp: simulates_def)
  next
    case (Inl dv')
    then obtain rest where rest: "drive n U A ctx dv' = Some (rest, slot)" "evs = evs1 @ rest" using Suc.prems(2) it by auto
    from sim it Inl obtain d' where
      "run_effects (worker_env dbg_state U W T) inp k d = run_effects (worker_env dbg_state U W T) inp (Suc k) d'"
      "follows A ctx dv' d' (Suc k)" "dd_events d' = dd_events d @ filter durable_visible evs1"
      by (auto simp: simulates_def)
    with Suc.IH[OF _ rest(1)] rest(2) show ?thesis by fastforce
  qed
qed simp

text \<open>The two runs start alike: the instructions are the same, and so is the first conversation.\<close>

lemma durable_start:
  assumes "serves W T inp A user" "reads_user_ctx A (aw_posture W)" "under_posture (aw_posture W) user ctx"
    and "dc_max_turns (wi_config inp) = cfg_max_turns (effective_config A ctx)"
  shows "\<exists>d. run_effects (worker_env dbg_state U W T) inp 0 (durable_new inp (dad_plan (def_of A))) = run_effects (worker_env dbg_state U W T) inp 1 d
    \<and> follows A ctx (start_driver A ctx (wi_conversation inp) []) d 1 \<and> dd_events d = [RunStarted (la_name A)]"
proof -
  let ?V = "worker_env dbg_state U W T" let ?n = "durable_new inp (dad_plan (def_of A))" let ?s = "la_instructions A (scope_of ctx)"
  have same: "la_instructions A (scope_of (worker_context (aw_posture W) user c f)) = ?s" for c f
    using assms(2,3) unfolding reads_user_ctx_def by (metis scope_user under_posture_def worker_context_fields(1))
  have "activity_render W T (wi_agent_name inp) (wi_ctx_seed inp) = Ok ?s"
    using assms(1) same by (simp add: activity_render_def serves_def resolve_agent_def activity_run_context_def worker_context_def[symmetric]
        render_instructions_inner_def def_of_def)
  then have "run_effects ?V inp 0 ?n = run_effects ?V inp 1 (apply_instructions ?s ?n)"
    using run_effects_continue[OF next_effect_new _ race_none[OF assms(1)]] by (simp add: effect_result_def)
  moreover have "follows A ctx (start_driver A ctx (wi_conversation inp) []) (apply_instructions ?s ?n) 1"
    using assms(4) by (simp add: follows_def start_driver_def apply_instructions_def durable_new_def seed_conversation_def)
  moreover have "dd_events (apply_instructions ?s ?n) = [RunStarted (la_name A)]" using assms(1) by (simp add: serves_def)
  ultimately show ?thesis by blast
qed

lemma llm_stream_plain:
  assumes "plain_agent A" "rx_hooks ctx = []"
  shows "llm_stream U A ctx messages = map_option (\<lambda>(evs, slot). (RunStarted (la_name A) # evs, slot))
    (drive (drive_fuel A ctx) U A ctx (start_driver A ctx messages []))"
  using assms by (simp add: llm_stream_def plain_agent_def fire_plain resolved_hook_default_def Let_def)

lemma build_worker_fields:
  assumes "build_worker re we b = Ok W"
  shows "aw_registry W = wb_registry b" "aw_posture W = wb_posture b" "wb_ctx_factory b = Some (aw_ctx_factory W)"
    "wac_plans (aw_config W) = map (\<lambda>(nm, def). (nm, dad_plan def)) (wb_registry b)" "wb_registry b \<noteq> []"
  using assms by (auto simp: build_worker_def build_activity_config_def Let_def split: option.splits if_splits)

lemma map_of_plans: "map_of (map (\<lambda>(nm, def). (nm, dad_plan def)) reg) nm = map_option dad_plan (map_of reg nm)"
  by (induction reg) auto

lemma registered_plan:
  assumes "register_agent A b = Ok b'" "build_worker re we b' = Ok W"
  shows "map_of (aw_registry W) (la_name A) = Some (def_of A)" "map_of (wac_plans (aw_config W)) (la_name A) = Some (dad_plan (def_of A))" "plain_agent A"
  using assms(1) build_worker_fields[OF assms(2)] by (auto simp: register_agent_iff map_of_plans)

lemma durable_agrees_with_process:
  assumes "register_agent A b = Ok b'" "build_worker re we b' = Ok W"
    and "aw_ctx_factory W (wi_ctx_seed inp) = Ok user" "wi_agent_name inp = la_name A"
    and "\<And>m. activity_failure_message (ts_failure T m) = m" "\<And>k. ts_stop T k = None"
    and "\<And>m. ts_parse_kind T (ts_print_kind T (KindModel m)) = Some (KindModel m)"
    and "\<And>m. ts_parse_kind T (ts_print_kind T (KindOther m)) = Some (KindOther m)"
    and "reads_user_ctx A (aw_posture W)" "under_posture (aw_posture W) user ctx" "\<And>k evs. mset (su_order U k evs) = mset evs"
    and "dc_max_turns (wi_config inp) = cfg_max_turns (effective_config A ctx)"
  shows "\<exists>evs slot oc. llm_run U A ctx (wi_conversation inp) = Ok (evs, slot) \<and> worker_drive dbg_state U W T inp = Some (Inr oc)
    \<and> do_events oc = filter durable_visible evs \<and> status_agrees (su_ext U) slot (do_status oc)"
proof -
  note reg = registered_plan[OF assms(1,2)]
  have sv: "serves W T inp A user" using assms(3-8) reg(1) by (simp add: serves_def)
  have hooks: "rx_hooks ctx = []" using assms(10) by (simp add: under_posture_def)
  obtain r where r: "llm_stream U A ctx (wi_conversation inp) = Some r" using llm_stream_total by fastforce
  then obtain rest slot where dr: "drive (drive_fuel A ctx) U A ctx (start_driver A ctx (wi_conversation inp) []) = Some (rest, slot)"
    and rr: "r = (RunStarted (la_name A) # rest, slot)"
    by (auto simp: llm_stream_plain[OF reg(3) hooks])
  from durable_start[OF sv assms(9,10,12), of dbg_state U] obtain d where
    d: "run_effects (worker_env dbg_state U W T) inp 0 (durable_new inp (dad_plan (def_of A))) = run_effects (worker_env dbg_state U W T) inp 1 d"
      "follows A ctx (start_driver A ctx (wi_conversation inp) []) d 1" "dd_events d = [RunStarted (la_name A)]" by auto
  from simulate_drive[OF reg(3) sv assms(9,10,11) d(2) dr, of dbg_state] d show ?thesis
    using r rr reg(2) assms(4) by (auto simp: llm_run_def worker_drive_def durable_drive_def)
qed

text \<open>
  The durable run of a registered agent is the run in process, seen through the durable log: with the same user context, posture, turn budget and
  model, a service that carries error payloads faithfully and does not interrupt, and tools, instructions and a policy that read no more of their
  context than the user's part, the log holds the events of the stream in process without the streamed deltas and the reports of denied calls, and
  the status is completed where that run left no error and the projection of its structured error where it did.
\<close>

theorem durable_run_agrees:
  assumes "register_agent A b = Ok b'" "build_worker re we b' = Ok W"
    and "aw_ctx_factory W (wi_ctx_seed inp) = Ok user" "wi_agent_name inp = la_name A"
    and "\<And>m. activity_failure_message (ts_failure T m) = m" "\<And>k. ts_stop T k = None"
    and "\<And>m. ts_parse_kind T (ts_print_kind T (KindModel m)) = Some (KindModel m)"
    and "\<And>m. ts_parse_kind T (ts_print_kind T (KindOther m)) = Some (KindOther m)"
    and "reads_user_ctx A (aw_posture W)" "under_posture (aw_posture W) user ctx" "\<And>k evs. mset (su_order U k evs) = mset evs"
    and "dc_max_turns (wi_config inp) = cfg_max_turns (effective_config A ctx)"
  shows "\<exists>evs slot oc. llm_run U A ctx (wi_conversation inp) = Ok (evs, slot) \<and> worker_drive dbg_state U W T inp = Some (Inr oc)
    \<and> do_events oc = filter durable_visible evs \<and> status_agrees (su_ext U) slot (do_status oc)"
  by (rule durable_agrees_with_process [OF assms])

definition print_kind_ex :: "error_kind \<Rightarrow> string" where
  "print_kind_ex ek = (case ek of KindModel m \<Rightarrow> CHR ''M'' # m | KindOther m \<Rightarrow> CHR ''O'' # m | _ \<Rightarrow> [])"

fun parse_kind_ex :: "string \<Rightarrow> error_kind option" where
  "parse_kind_ex [] = None"
| "parse_kind_ex (c # m) = (if c = CHR ''M'' then Some (KindModel m) else if c = CHR ''O'' then Some (KindOther m) else None)"

definition service_ex :: temporal_service where
  "service_ex = \<lparr>ts_fresh = (\<lambda>_ _ _. 0), ts_cancel = (\<lambda>_ _. 0), ts_failure = (\<lambda>m. \<lparr>af_cause = Some m, af_failure = None, af_display = []\<rparr>),
     ts_print_kind = print_kind_ex, ts_parse_kind = parse_kind_ex, ts_stop = (\<lambda>_. None)\<rparr>"

definition builder_ex :: "(unit, nat, nat) worker_builder" where
  "builder_ex = with_ctx (\<lambda>_. ()) (worker_builder_new\<lparr>wb_task_queue := Some ''q'', wb_client := True\<rparr>)"

definition workflow_input_ex :: workflow_input where
  "workflow_input_ex = \<lparr>wi_agent_name = ''a'', wi_conversation = [UserMessage [Text ''hi'']],
     wi_config = \<lparr>dc_max_turns = 16, dc_parallel_tool_call_limit = Some 2\<rparr>, wi_timeout_ms = None, wi_ctx_seed = None\<rparr>"

lemmas worker_ex_defs = service_ex_def print_kind_ex_def builder_ex_def workflow_input_ex_def agent_a_def around_def worker_builder_new_def with_ctx_def

lemma registered_ex: "register_agent agent_a builder_ex = Ok (builder_ex\<lparr>wb_registry := [(''a'', def_of agent_a)]\<rparr>)"
  by (simp add: register_agent_iff plain_agent_def worker_ex_defs)

lemma worker_ex_built:
  "\<exists>W. build_worker None None (builder_ex\<lparr>wb_registry := [(''a'', def_of agent_a)]\<rparr>) = Ok W \<and> aw_ctx_factory W = (\<lambda>_. Ok ())
    \<and> reads_user_ctx agent_a (aw_posture W) \<and> under_posture (aw_posture W) () (ephemeral_context () (\<lambda>_. 0))"
proof -
  let ?b = "builder_ex\<lparr>wb_registry := [(''a'', def_of agent_a)]\<rparr>"
  have "wb_task_queue ?b \<noteq> None" "wb_client ?b" "wb_ctx_factory ?b \<noteq> None" "wb_registry ?b \<noteq> []" by (simp_all add: worker_ex_defs)
  then obtain W where W: "build_worker None None ?b = Ok W" by (auto simp: build_worker_def Let_def)
  have "aw_ctx_factory W = (\<lambda>_. Ok ())" "aw_posture W = worker_posture_default"
    using build_worker_fields[OF W] by (simp_all add: worker_ex_defs)
  then show ?thesis
    using W by (simp add: reads_user_ctx_def under_posture_def worker_posture_default_def agent_a_def echo_tool_def ephemeral_context_def run_context_new_def)
qed

lemma service_ex_carries:
  "activity_failure_message (ts_failure service_ex m) = m" "ts_stop service_ex k = None"
  "ts_parse_kind service_ex (ts_print_kind service_ex (KindModel m)) = Some (KindModel m)"
  "ts_parse_kind service_ex (ts_print_kind service_ex (KindOther m)) = Some (KindOther m)"
  by (simp_all add: service_ex_def print_kind_ex_def activity_failure_message_def)

lemma around_order: "mset (su_order around k evs) = mset evs"
  by (simp add: around_def)

theorem durable_run_agrees_witness:
  "\<exists>evs slot oc W. build_worker None None (builder_ex\<lparr>wb_registry := [(''a'', def_of agent_a)]\<rparr>) = Ok W
    \<and> llm_run around agent_a (ephemeral_context () (\<lambda>_. 0)) [UserMessage [Text ''hi'']] = Ok (evs, slot)
    \<and> worker_drive (\<lambda>_. []) around W service_ex workflow_input_ex = Some (Inr oc) \<and> do_events oc = filter durable_visible evs"
proof -
  obtain W where W: "build_worker None None (builder_ex\<lparr>wb_registry := [(''a'', def_of agent_a)]\<rparr>) = Ok W" "aw_ctx_factory W = (\<lambda>_. Ok ())"
    "reads_user_ctx agent_a (aw_posture W)" "under_posture (aw_posture W) () (ephemeral_context () (\<lambda>_. 0))"
    using worker_ex_built by blast
  have "dc_max_turns (wi_config workflow_input_ex) = cfg_max_turns (effective_config agent_a (ephemeral_context () (\<lambda>_. 0)))"
    "wi_agent_name workflow_input_ex = la_name agent_a" "aw_ctx_factory W (wi_ctx_seed workflow_input_ex) = Ok ()"
    by (simp_all add: W(2) worker_ex_defs effective_config_def ephemeral_context_def run_context_new_def run_config_default_def)
  from durable_run_agrees[OF registered_ex W(1) this(3,2) service_ex_carries W(3,4) around_order this(1), of "\<lambda>_. []"]
  show ?thesis using W(1) by (auto simp: workflow_input_ex_def)
qed

lemma render_failure_ends:
  assumes "ts_stop T 0 = None" "map_of (wac_plans (aw_config W)) nm = Some plan" "wi_agent_name inp = nm"
    and "activity_render W T (wi_agent_name inp) (wi_ctx_seed inp) = Err err"
  shows "worker_drive dbg_state U W T inp = Some (Inr \<lparr>do_status = StatusAgentFailed (extract_error_kind (worker_env dbg_state U W T) err),
    do_events = [RunFailed (agent_error_display (su_ext U) (into_agent_error (extract_error_kind (worker_env dbg_state U W T) err)))],
    do_usage = usage_default\<rparr>)"
proof -
  let ?V = "worker_env dbg_state U W T" let ?n = "durable_new inp plan"
  have stop: "race_interrupt inp (de_stop ?V 0) = None" using assms(1) by (simp add: worker_env_def race_interrupt_def)
  have "effect_result ?V inp 0 RenderInstructions ?n = apply_model_failure (de_lib ?V) (extract_error_kind ?V err) ?n"
    using assms(4) by (simp add: effect_result_def)
  then show ?thesis
    using run_effects_continue[OF next_effect_new[of _ inp plan] _ stop] assms(2,3)
    by (simp add: worker_drive_def durable_drive_def apply_model_failure_runs) (simp add: durable_new_def)
qed

text \<open>
  A seed the worker's factory rejects ends the run before anything else happens: the instructions cannot be rendered, so the workflow fails with the
  rejection as its only event, and neither the model nor a tool is asked.
\<close>

theorem rejected_seed_fails_run:
  assumes "register_agent A b = Ok b'" "build_worker re we b' = Ok W" "wi_agent_name inp = la_name A"
    and "aw_ctx_factory W (wi_ctx_seed inp) = Err e" "ts_stop T 0 = None"
    and "activity_failure_message (ts_failure T (''ctx seed rejected: '' @ e)) = ''ctx seed rejected: '' @ e" "ts_parse_kind T (''ctx seed rejected: '' @ e) = None"
  shows "worker_drive dbg_state U W T inp = Some (Inr \<lparr>do_status = StatusAgentFailed (KindModel (''ctx seed rejected: '' @ e)),
    do_events = [RunFailed (''ctx seed rejected: '' @ e)], do_usage = usage_default\<rparr>)"
proof -
  note reg = registered_plan[OF assms(1,2)]
  define m where "m = ''ctx seed rejected: '' @ e"
  have "activity_render W T (wi_agent_name inp) (wi_ctx_seed inp) = Err (ts_failure T m)"
    using assms(3,4) reg(1) by (simp add: activity_render_def resolve_agent_def activity_run_context_def m_def)
  moreover have "extract_error_kind (worker_env dbg_state U W T) (ts_failure T m) = KindModel m"
    using assms(6,7) unfolding m_def[symmetric] by (simp add: extract_error_kind_def worker_env_def)
  ultimately have "worker_drive dbg_state U W T inp = Some (Inr \<lparr>do_status = StatusAgentFailed (KindModel m), do_events = [RunFailed m], do_usage = usage_default\<rparr>)"
    using render_failure_ends[OF assms(5) reg(2) assms(3)] by simp
  then show ?thesis unfolding m_def .
qed

theorem rejected_seed_fails_run_witness:
  "\<exists>W oc. build_worker None None ((try_with_seeded_ctx (\<lambda>_. Err ''nope'') builder_ex)\<lparr>wb_registry := [(''a'', def_of agent_a)]\<rparr>) = Ok W
    \<and> worker_drive (\<lambda>_. []) around W service_ex workflow_input_ex = Some (Inr oc) \<and> do_events oc = [RunFailed ''ctx seed rejected: nope'']"
proof -
  let ?c = "try_with_seeded_ctx (\<lambda>_. Err ''nope'') builder_ex"
  let ?b = "(try_with_seeded_ctx (\<lambda>_. Err ''nope'') builder_ex)\<lparr>wb_registry := [(''a'', def_of agent_a)]\<rparr>"
  have reg: "register_agent agent_a ?c = Ok ?b" by (simp add: register_agent_iff plain_agent_def worker_ex_defs try_with_seeded_ctx_def)
  have "wb_task_queue ?b \<noteq> None" "wb_client ?b" "wb_ctx_factory ?b \<noteq> None" "wb_registry ?b \<noteq> []"
    by (simp_all add: worker_ex_defs try_with_seeded_ctx_def)
  then obtain W where W: "build_worker None None ?b = Ok W" by (auto simp: build_worker_def Let_def)
  have "aw_ctx_factory W = (\<lambda>_. Err ''nope'')" using build_worker_fields[OF W] by (simp add: worker_ex_defs try_with_seeded_ctx_def)
  then show ?thesis
    using rejected_seed_fails_run[OF reg W, of workflow_input_ex "''nope''" service_ex "\<lambda>_. []" around] W
    by (simp add: worker_ex_defs activity_failure_message_def)
qed

end
