(* ===== verification/Temporal_Runner.thy ===== *)
theory Temporal_Runner
  imports Temporal_Worker Agent_Tool
begin

text \<open>
  The client side of the durable runtime (\<open>runner.rs\<close> and the outcome mapping of \<open>error.rs\<close> in \<open>runtime-temporal\<close>):
  it starts the workflow, awaits its outcome, persists the run and answers with a result or with a replayed stream.
  The Temporal client is a parameter: whether the workflow starts and what the awaited handle shows at each poll. Shown are that
  every exit persists the turn, that the stream has exactly one terminal event as its last, and that collecting the stream gives what
  the plain run returns.
\<close>

section \<open>The configuration and the client\<close>

record temporal_runner_config =
  trc_task_queue :: string
  trc_workflow_id :: "string option"
  trc_execution_timeout_margin :: nat
  trc_ctx_seed :: "json option"

definition temporal_runner_config_new :: "string \<Rightarrow> temporal_runner_config" where
  "temporal_runner_config_new task_queue = \<lparr>trc_task_queue = task_queue, trc_workflow_id = None,
     trc_execution_timeout_margin = 60000, trc_ctx_seed = None\<rparr>"

definition with_ctx_seed :: "json \<Rightarrow> temporal_runner_config \<Rightarrow> temporal_runner_config" where
  "with_ctx_seed seed cfg = cfg\<lparr>trc_ctx_seed := Some seed\<rparr>"

text \<open>
  What the \<open>select!\<close> on the handle takes at one poll: the result, the fired token, or neither. A start takes the task queue, the
  workflow id and the execution timeout in milliseconds and may fail.
\<close>

datatype client_poll = ResultReady "string + durable_outcome" | TokenFired | NothingReady

record temporal_client =
  tcl_uuid :: string
  tcl_start :: "string \<Rightarrow> string \<Rightarrow> nat option \<Rightarrow> workflow_input \<Rightarrow> string option"
  tcl_polls :: "workflow_input \<Rightarrow> client_poll list"

text \<open>The loop on the handle: how often it requests cancellation, and the result, if it becomes ready.\<close>

fun await_outcome :: "bool \<Rightarrow> client_poll list \<Rightarrow> nat \<times> (string + durable_outcome) option" where
  "await_outcome requested_cancel [] = (0, None)"
| "await_outcome requested_cancel (ResultReady r # ps) = (0, Some r)"
| "await_outcome requested_cancel (TokenFired # ps) =
     (if \<not> requested_cancel then (case await_outcome True ps of (n, r) \<Rightarrow> (Suc n, r)) else await_outcome requested_cancel ps)"
| "await_outcome requested_cancel (NothingReady # ps) = await_outcome requested_cancel ps"

definition duration_max_ms :: nat where
  "duration_max_ms = (2 ^ 64 - 1) * 1000 + 999"

definition run_workflow :: "temporal_runner_config \<Rightarrow> temporal_client \<Rightarrow> workflow_input \<Rightarrow> nat option \<Rightarrow> (run_error + durable_outcome) option" where
  "run_workflow cfg C inp timeout =
     (let workflow_id = (case trc_workflow_id cfg of Some i \<Rightarrow> i | None \<Rightarrow> ''helikon-run-'' @ tcl_uuid C);
          execution_timeout = map_option (\<lambda>d. min (d + trc_execution_timeout_margin cfg) duration_max_ms) timeout
      in case tcl_start C (trc_task_queue cfg) workflow_id execution_timeout inp of
           Some e \<Rightarrow> Some (Err (RunOther (''failed to start temporal workflow: '' @ e)))
         | None \<Rightarrow> map_option (\<lambda>r. case r of Inr oc \<Rightarrow> Ok oc | Inl e \<Rightarrow> Err (RunOther (''temporal workflow failed: '' @ e)))
             (snd (await_outcome False (tcl_polls C inp))))"

section \<open>The outcome at the runner boundary\<close>

definition outcome_to_run_result :: "durable_outcome \<Rightarrow> run_error + run_result" where
  "outcome_to_run_result outcome =
     (case do_status outcome of
        StatusCompleted out \<Rightarrow> Ok \<lparr>rr_final_output = flatten_text (fo_content out), rr_events = do_events outcome, rr_usage = do_usage outcome\<rparr>
      | StatusAgentFailed ek \<Rightarrow> Err (RunAgent (into_agent_error ek))
      | StatusCancelled \<Rightarrow> Err (interrupt_error Cancelled)
      | StatusTimedOut \<Rightarrow> Err (interrupt_error TimedOut))"

definition temporal_load_and_record :: "'s session_ops \<Rightarrow> (nat \<Rightarrow> int) \<Rightarrow> 's \<Rightarrow> string \<Rightarrow> item list
    \<Rightarrow> run_error + item list \<times> session_recorder" where
  "temporal_load_and_record S clk session agent_name input =
     (case ses_snapshot S session of
        Inl e \<Rightarrow> Err (RunOther (session_error_display e))
      | Inr messages \<Rightarrow> Ok (messages @ input, record_input clk (recorder_new agent_name) input))"

definition temporal_finalize :: "'s session_ops \<Rightarrow> (nat \<Rightarrow> int) \<Rightarrow> 's \<Rightarrow> session_recorder \<Rightarrow> 's" where
  "temporal_finalize S clk session recorder = (case drain clk recorder of (evs, _) \<Rightarrow> snd (ses_append S session evs))"

section \<open>The runs\<close>

definition workflow_input_of :: "temporal_runner_config \<Rightarrow> string \<Rightarrow> item list \<Rightarrow> run_config \<Rightarrow> workflow_input" where
  "workflow_input_of cfg agent_name messages config = \<lparr>wi_agent_name = agent_name, wi_conversation = messages,
     wi_config = \<lparr>dc_max_turns = cfg_max_turns config, dc_parallel_tool_call_limit = cfg_parallel_tool_call_limit config\<rparr>,
     wi_timeout_ms = map_option (\<lambda>d. d mod 2 ^ 64) (cfg_timeout config), wi_ctx_seed = trc_ctx_seed cfg\<rparr>"

text \<open>A run whose workflow is never seen to end has no value.\<close>

definition temporal_run_inner :: "'s session_ops \<Rightarrow> (nat \<Rightarrow> int) \<Rightarrow> temporal_runner_config \<Rightarrow> temporal_client \<Rightarrow> string \<Rightarrow> 's \<Rightarrow> item list
    \<Rightarrow> run_config \<Rightarrow> ((run_error + agent_event list \<times> (run_error + run_result)) \<times> 's) option" where
  "temporal_run_inner S clk cfg C agent_name session input config =
     (case temporal_load_and_record S clk session agent_name input of
        Inl e \<Rightarrow> Some (Err e, session)
      | Inr (merged, recorder) \<Rightarrow>
          map_option (\<lambda>r. case r of
              Inr outcome \<Rightarrow> (Ok (do_events outcome, outcome_to_run_result outcome),
                temporal_finalize S clk session (rec_observe_all clk recorder (do_events outcome)))
            | Inl infra \<Rightarrow> (Ok ([], Err infra), temporal_finalize S clk session recorder))
            (run_workflow cfg C (workflow_input_of cfg agent_name merged config) (cfg_timeout config)))"

definition temporal_run :: "'s session_ops \<Rightarrow> (nat \<Rightarrow> int) \<Rightarrow> temporal_runner_config \<Rightarrow> temporal_client \<Rightarrow> string \<Rightarrow> 's \<Rightarrow> item list
    \<Rightarrow> run_config \<Rightarrow> ((run_error + run_result) \<times> 's) option" where
  "temporal_run S clk cfg C agent_name session input config =
     map_option (\<lambda>(r, s). (case r of Inl e \<Rightarrow> Err e | Inr (_, result) \<Rightarrow> result, s))
       (temporal_run_inner S clk cfg C agent_name session input config)"

definition synthetic_terminal_event :: "ext \<Rightarrow> (run_error + run_result) \<Rightarrow> agent_event option" where
  "synthetic_terminal_event E result =
     (case result of
        Inr _ \<Rightarrow> None
      | Inl (RunAgent err) \<Rightarrow> Some (RunFailed (agent_error_display E err))
      | Inl RunCancelled \<Rightarrow> Some (terminal_event Cancelled)
      | Inl RunTimeout \<Rightarrow> Some (terminal_event TimedOut)
      | Inl other \<Rightarrow> Some (RunFailed (run_error_display E other)))"

definition append_synthetic_terminal :: "agent_event list \<Rightarrow> agent_event option \<Rightarrow> agent_event list" where
  "append_synthetic_terminal evs ev =
     (case ev of
        Some e \<Rightarrow> (if \<not> (evs \<noteq> [] \<and> is_terminal (last evs)) then evs @ [e] else evs)
      | None \<Rightarrow> evs)"

definition into_streaming :: "ext \<Rightarrow> agent_event list \<Rightarrow> (run_error + run_result) \<Rightarrow> agent_event list \<times> agent_error option" where
  "into_streaming E evs result =
     (append_synthetic_terminal evs (synthetic_terminal_event E result),
      case result of Inl (RunAgent err) \<Rightarrow> Some err | _ \<Rightarrow> None)"

definition temporal_run_streamed :: "ext \<Rightarrow> 's session_ops \<Rightarrow> (nat \<Rightarrow> int) \<Rightarrow> temporal_runner_config \<Rightarrow> temporal_client \<Rightarrow> string \<Rightarrow> 's \<Rightarrow> item list
    \<Rightarrow> run_config \<Rightarrow> ((run_error + agent_event list \<times> agent_error option) \<times> 's) option" where
  "temporal_run_streamed E S clk cfg C agent_name session input config =
     map_option (\<lambda>(r, s). (case r of Inl e \<Rightarrow> Err e | Inr (evs, result) \<Rightarrow> Ok (into_streaming E evs result), s))
       (temporal_run_inner S clk cfg C agent_name session input config)"

section \<open>The client\<close>

text \<open>Cancellation is requested at most once and does not decide what is awaited.\<close>

lemma await_outcome_result:
  "snd (await_outcome b ps) = map_option (\<lambda>p. case p of ResultReady r \<Rightarrow> r | _ \<Rightarrow> Err []) (List.find (\<lambda>p. \<exists>r. p = ResultReady r) ps)"
  by (induction b ps rule: await_outcome.induct) (auto split: prod.splits)

lemma await_cancels_once: "fst (await_outcome b ps) \<le> (if b then 0 else 1)"
  by (induction b ps rule: await_outcome.induct) (auto split: prod.splits)

text \<open>What a run that ends sees: the session's messages and the result of its workflow.\<close>

definition workflow_ends :: "'s session_ops \<Rightarrow> temporal_runner_config \<Rightarrow> temporal_client \<Rightarrow> string \<Rightarrow> 's \<Rightarrow> item list \<Rightarrow> run_config
    \<Rightarrow> item list \<Rightarrow> (run_error + durable_outcome) \<Rightarrow> bool" where
  "workflow_ends S cfg C agent_name session input config history r \<longleftrightarrow>
     ses_snapshot S session = Ok history
     \<and> run_workflow cfg C (workflow_input_of cfg agent_name (history @ input) config) (cfg_timeout config) = Some r"

fun workflow_events :: "run_error + durable_outcome \<Rightarrow> agent_event list" where
  "workflow_events (Inr outcome) = do_events outcome"
| "workflow_events (Inl _) = []"

fun workflow_result :: "run_error + durable_outcome \<Rightarrow> run_error + run_result" where
  "workflow_result (Inr outcome) = outcome_to_run_result outcome"
| "workflow_result (Inl e) = Err e"

lemma temporal_finalize_eq: "temporal_finalize S clk session r = fst (finalize S clk session r)"
  by (simp add: temporal_finalize_def finalize_def split: prod.splits)

lemma temporal_run_inner_ends:
  assumes "workflow_ends S cfg C agent_name session input config history r"
  shows "temporal_run_inner S clk cfg C agent_name session input config =
    Some (Ok (workflow_events r, workflow_result r),
      fst (finalize S clk session (run_recorder clk agent_name input (workflow_events r))))"
  using assms
  by (cases r) (simp_all add: workflow_ends_def temporal_run_inner_def temporal_load_and_record_def temporal_finalize_eq run_recorder_def rec_observe_all_def)

lemma temporal_run_ends:
  assumes "workflow_ends S cfg C agent_name session input config history r"
  shows "temporal_run S clk cfg C agent_name session input config =
      Some (workflow_result r, fst (finalize S clk session (run_recorder clk agent_name input (workflow_events r))))"
    and "temporal_run_streamed E S clk cfg C agent_name session input config =
      Some (Ok (into_streaming E (workflow_events r) (workflow_result r)),
        fst (finalize S clk session (run_recorder clk agent_name input (workflow_events r))))"
  by (simp_all add: temporal_run_def temporal_run_streamed_def temporal_run_inner_ends[OF assms])

section \<open>Persistence\<close>

text \<open>
  Every durable run that ends is persisted as one turn before its caller sees anything, by the plain and the streamed call alike: completed, failed,
  cancelled, timed out, or with a service that could not start the workflow or lost its result. Over the
  in-memory session the stored conversation becomes the earlier one, the input, what the run showed and a closing result for each call cut off.
\<close>

theorem temporal_run_persists:
  assumes "workflow_ends memory_session_ops cfg C agent_name session input config history r"
    and "turn = recorded agent_name input @ emitted agent_name (workflow_events r)"
  shows "\<exists>session' stream. temporal_run memory_session_ops clk cfg C agent_name session input config = Some (workflow_result r, session')
    \<and> temporal_run_streamed E memory_session_ops clk cfg C agent_name session input config = Some (Ok stream, session')
    \<and> project session' = history @ turn @ interrupted turn"
proof -
  have "history = project session"
    using assms(1) by (auto simp: workflow_ends_def memory_session_ops_def memory_snapshot_def memory_events_def Let_def)
  moreover have "project (fst (finalize memory_session_ops clk session (run_recorder clk agent_name input (workflow_events r))))
      = project session @ turn @ interrupted turn"
    using mem.finalize_projects[OF memory_append_ok assms(2)] by simp
  ultimately show ?thesis using temporal_run_ends[OF assms(1)] by auto
qed

text \<open>A client that is cancelled once and then receives an outcome, for closed examples.\<close>

definition client_ex :: "(string + durable_outcome) \<Rightarrow> temporal_client" where
  "client_ex r = \<lparr>tcl_uuid = ''u'', tcl_start = (\<lambda>_ _ _ _. None), tcl_polls = (\<lambda>_. [NothingReady, TokenFired, TokenFired, ResultReady r])\<rparr>"

definition outcome_ex :: durable_outcome where
  "outcome_ex = \<lparr>do_status = StatusCancelled, do_events = [RunStarted ''a'', ToolCallItem (ToolCall ''c1'' ''grep'' JNull)], do_usage = usage_default\<rparr>"

lemma client_ex_ends:
  "workflow_ends memory_session_ops (temporal_runner_config_new ''q'') (client_ex (Ok oc)) nm [] [UserMessage [Text ''hi'']] run_config_default [] (Ok oc)"
  by (simp add: workflow_ends_def memory_session_ops_def memory_snapshot_def memory_events_def project_def run_workflow_def client_ex_def
      temporal_runner_config_new_def Let_def)

theorem temporal_run_persists_witness:
  "\<exists>session'. temporal_run memory_session_ops (\<lambda>k. int k) (temporal_runner_config_new ''q'') (client_ex (Ok outcome_ex)) ''a'' []
       [UserMessage [Text ''hi'']] run_config_default = Some (Err RunCancelled, session')
     \<and> project session' = [UserMessage [Text ''hi''], ToolCall ''c1'' ''grep'' JNull, ToolResult ''c1'' interrupted_content]"
  using temporal_run_persists[OF client_ex_ends[of outcome_ex "''a''"] refl, of "\<lambda>k. int k" ext_ex]
  by (auto simp: outcome_ex_def outcome_to_run_result_def interrupted_def)

section \<open>The stream\<close>

text \<open>What collecting the stream gives where the plain run gives a result: the interruptions and infrastructure failures come back as their message.\<close>

fun collects_as :: "(run_error + run_result) \<Rightarrow> (run_error + run_result) \<Rightarrow> bool" where
  "collects_as (Inr r) c \<longleftrightarrow> (\<exists>t. c = Ok (r\<lparr>rr_final_output := t\<rparr>) \<and> (rr_final_output r = [] \<or> t = rr_final_output r))"
| "collects_as (Inl RunCancelled) c \<longleftrightarrow> c = Err (RunOther ''run cancelled'')"
| "collects_as (Inl RunTimeout) c \<longleftrightarrow> c = Err (RunOther ''run timed out'')"
| "collects_as (Inl RunMaxIterations) c \<longleftrightarrow> c = Err (RunOther ''max iterations reached'')"
| "collects_as (Inl e) c \<longleftrightarrow> c = Err e"

definition one_terminal_last :: "agent_event list \<Rightarrow> bool" where
  "one_terminal_last evs \<longleftrightarrow> (\<exists>pre e. evs = pre @ [e] \<and> is_terminal e \<and> no_terminal pre)"

lemma no_terminal_not_ex: "no_terminal evs \<Longrightarrow> \<not> list_ex is_failed evs" "no_terminal evs \<Longrightarrow> completed_usage evs = None"
  by (induction evs) (auto simp: no_terminal_def is_failed_def is_terminal_def split: agent_event.splits)

lemma collect_failed: "no_terminal pre \<Longrightarrow> collect (pre @ [RunFailed m]) failure
    = (case failure of Some err \<Rightarrow> Err (RunAgent err) | None \<Rightarrow> Err (RunOther m))"
  by (auto simp: collect_def collect_event_failed Let_def split: option.splits)

lemma collect_completed:
  assumes "no_terminal pre"
  shows "collect (pre @ [RunCompleted u]) failure
    = Ok \<lparr>rr_final_output = unwrap_or [] (final_text (pre @ [RunCompleted u])), rr_events = pre @ [RunCompleted u], rr_usage = u\<rparr>"
proof -
  let ?s = "foldl collect_event collect_init (pre @ [RunCompleted u])"
  have "co_failed ?s = None"
    using no_terminal_not_ex(1)[OF assms] collect_fold_failed[of collect_init "pre @ [RunCompleted u]"]
    by (simp add: collect_init_def is_failed_def)
  moreover have "completed_usage (pre @ [RunCompleted u]) = Some u" by (induction pre) auto
  ultimately show ?thesis
    using collect_fold_values[of collect_init "pre @ [RunCompleted u]"]
    by (simp add: collect_def Let_def collect_init_def)
qed

lemma streaming_of_outcome:
  assumes "durable_contract oc" "into_streaming E (do_events oc) (outcome_to_run_result oc) = (evs, failure)"
  shows "one_terminal_last evs \<and> prefix (do_events oc) evs \<and> collects_as (outcome_to_run_result oc) (collect evs failure)"
proof (cases "do_status oc")
  case (StatusCompleted out)
  with assms(1) obtain pre where p: "do_events oc = pre @ [RunCompleted (fo_usage out)]" "no_terminal pre" "do_usage oc = fo_usage out"
    and ft: "flatten_text (fo_content out) = [] \<or> final_text (do_events oc) = Some (flatten_text (fo_content out))"
    by (auto simp: durable_contract_def)
  have "evs = do_events oc" "failure = None"
    using assms(2) StatusCompleted by (auto simp: into_streaming_def outcome_to_run_result_def synthetic_terminal_event_def append_synthetic_terminal_def)
  with p ft StatusCompleted collect_completed[OF p(2), of "fo_usage out" None] show ?thesis
    by (auto simp: one_terminal_last_def outcome_to_run_result_def unwrap_or_def is_terminal_def)
next
  case (StatusAgentFailed ek)
  with assms(1) obtain pre m where p: "do_events oc = pre @ [RunFailed m]" "no_terminal pre" by (auto simp: durable_contract_def)
  have "evs = do_events oc" "failure = Some (into_agent_error ek)"
    using assms(2) StatusAgentFailed p
    by (auto simp: into_streaming_def outcome_to_run_result_def synthetic_terminal_event_def append_synthetic_terminal_def is_terminal_def)
  with p StatusAgentFailed collect_failed[OF p(2)] show ?thesis
    by (auto simp: one_terminal_last_def outcome_to_run_result_def is_terminal_def)
next
  case StatusCancelled
  with assms have "no_terminal (do_events oc)" "evs = do_events oc @ [RunFailed ''run cancelled'']" "failure = None"
    by (auto simp: durable_contract_def into_streaming_def outcome_to_run_result_def synthetic_terminal_event_def append_synthetic_terminal_def
        terminal_event_def no_terminal_def list_all_iff)
  with StatusCancelled collect_failed show ?thesis
    by (auto simp: one_terminal_last_def outcome_to_run_result_def is_terminal_def)
next
  case StatusTimedOut
  with assms have "no_terminal (do_events oc)" "evs = do_events oc @ [RunFailed ''run timed out'']" "failure = None"
    by (auto simp: durable_contract_def into_streaming_def outcome_to_run_result_def synthetic_terminal_event_def append_synthetic_terminal_def
        terminal_event_def no_terminal_def list_all_iff)
  with StatusTimedOut collect_failed show ?thesis
    by (auto simp: one_terminal_last_def outcome_to_run_result_def is_terminal_def)
qed

lemma streaming_without_events:
  assumes "into_streaming E [] (Err e) = (evs, failure)"
  shows "prefix [] evs \<and> one_terminal_last evs \<and> collects_as (Err e) (collect evs failure)"
  using assms collect_failed[of "[]"]
  by (cases e) (auto simp: into_streaming_def synthetic_terminal_event_def append_synthetic_terminal_def terminal_event_def
      one_terminal_last_def is_terminal_def)



text \<open>
  A last turn without a message: the durable result has no text, while the text of an earlier message is what collecting the same events gives.
\<close>

lemma empty_last_turn_loses_text:
  assumes "dd_phase d = Driving" "dd_pending_input d = Some (ModelResponse [] u fr)" "dd_loop_state d = CallingModel turn prior"
    and "turn < dc_max_turns (dd_config d)" "ap_output (dd_plan d) = None"
  shows "\<exists>oc d' r. next_effect B d = Some (EffectFinished oc, d') \<and> outcome_to_run_result oc = Ok r \<and> rr_final_output r = []
    \<and> final_text (do_events oc) = final_text (dd_events d)"
  using assms
  by (auto simp: next_effect_def transition_def arm_defs durable_ctx_def driver_finish_def terminate_status_def outcome_to_run_result_def
      last_assistant_content_def message_outputs_def flatten_text_def final_text_append handoff_target_def not_le Let_def split: option.splits)

section \<open>The durable log in a session\<close>

text \<open>What the durable log leaves out is nothing the session or the result would have kept.\<close>

lemma emitted_visible: "emitted nm (filter durable_visible evs) = emitted nm evs"
  by (induction nm evs rule: emitted.induct) simp_all

lemma collected_visible:
  "final_text (filter durable_visible evs) = final_text evs" "completed_usage (filter durable_visible evs) = completed_usage evs"
  by (induction evs) (auto split: option.splits agent_event.splits)

end
