(* ===== verification/Bedrock_Schema.thy ===== *)
theory Bedrock_Schema
  imports Helikon_Prelude
begin

text \<open>
  Tool schemas for the Bedrock Converse API (\<open>translate/schema.rs\<close> in \<open>providers-bedrock\<close>): references are inlined, combinators are collapsed
  into one relaxed object, and keywords the service does not know are removed. Objects are maps in key order. Shown are that the result
  is free of references, combinators and such keywords at every place a schema can stand, within the depth limit, that rewriting
  it again changes nothing, and that no property of a collapsed variant is lost. Both
  statements need that nothing structural stands beside a reference; two lemmas show what happens otherwise.
\<close>

section \<open>The rewriter\<close>

definition bedrock_max_depth :: nat where
  "bedrock_max_depth = 64"

definition UNSUPPORTED_KEYS :: "string list" where
  "UNSUPPORTED_KEYS = [''$schema'', ''$id'', ''$anchor'', ''format'', ''examples'', ''default'', ''$comment'']"

definition terminal_object :: json where
  "terminal_object = JObject [(''type'', JString ''object'')]"

definition object_with_properties :: "(string \<times> json) list \<Rightarrow> json" where
  "object_with_properties props = JObject [(''properties'', JObject props), (''type'', JString ''object'')]"

definition local_def_name :: "string \<Rightarrow> string option" where
  "local_def_name ref_str =
     (case strip_prefix ''#/$defs/'' ref_str of Some nm \<Rightarrow> Some nm | None \<Rightarrow> strip_prefix ''#/definitions/'' ref_str)"

definition resolve_ref :: "(string \<times> json) list \<Rightarrow> string \<Rightarrow> json option" where
  "resolve_ref defs ref_str = Option.bind (local_def_name ref_str) (map_of defs)"

fun json_object :: "json \<Rightarrow> (string \<times> json) list option" where
  "json_object (JObject m) = Some m"
| "json_object _ = None"

definition extract_const_string :: "json \<Rightarrow> json option" where
  "extract_const_string schema =
     (case schema of
        JObject obj \<Rightarrow>
          (case map_of obj ''const'' of
             Some (JString s) \<Rightarrow> Some (JString s)
           | _ \<Rightarrow> (case map_of obj ''enum'' of Some (JArray [JString s]) \<Rightarrow> Some (JString s) | _ \<Rightarrow> None))
      | _ \<Rightarrow> None)"

text \<open>The tag values of a candidate, in variant order and without duplicates, if it is a tag in every variant.\<close>

fun tag_values :: "string \<Rightarrow> (string \<times> json) list list \<Rightarrow> json list \<Rightarrow> json list option" where
  "tag_values candidate [] acc = Some acc"
| "tag_values candidate (props # rest) acc =
     (case Option.bind (map_of props candidate) extract_const_string of
        Some v \<Rightarrow> tag_values candidate rest (if v \<in> set acc then acc else acc @ [v])
      | None \<Rightarrow> None)"

definition find_shared_tag :: "(string \<times> json) list list \<Rightarrow> (string \<times> json list) option" where
  "find_shared_tag props_maps =
     (case props_maps of
        [] \<Rightarrow> None
      | first # _ \<Rightarrow> find_map (\<lambda>candidate.
          (case tag_values candidate props_maps [] of
             Some vs \<Rightarrow> (if vs \<noteq> [] then Some (candidate, vs) else None)
           | None \<Rightarrow> None)) (map fst first))"

definition merge_properties :: "(string \<times> json) list \<Rightarrow> (string \<times> json) list \<Rightarrow> (string \<times> json) list" where
  "merge_properties ap bp = foldl (\<lambda>m (k, v). if map_of m k = None then bt_insert k v m else m) ap bp"

definition merge_object_schemas :: "json \<Rightarrow> json \<Rightarrow> json" where
  "merge_object_schemas a b =
     (case (Option.bind (json_get ''properties'' a) json_object, Option.bind (json_get ''properties'' b) json_object) of
        (Some ap, Some bp) \<Rightarrow> object_with_properties (merge_properties ap bp)
      | _ \<Rightarrow> terminal_object)"

definition union_entry :: "string option \<Rightarrow> (string \<times> json) list \<Rightarrow> string \<times> json \<Rightarrow> (string \<times> json) list" where
  "union_entry tag_name m kv =
     (case kv of (k, v) \<Rightarrow>
        (if tag_name = Some k then m
         else (case map_of m k of
             Some existing \<Rightarrow> bt_insert k (merge_object_schemas existing v) m
           | None \<Rightarrow> bt_insert k v m)))"

text \<open>The collapse of the variants once they have been rewritten.\<close>

definition collapse_combinator :: "json list \<Rightarrow> json" where
  "collapse_combinator rewritten =
     (let obj_variants = List.map_filter json_object rewritten
      in if obj_variants = [] then terminal_object
         else
           (let props_maps = List.map_filter (\<lambda>v. Option.bind (map_of v ''properties'') json_object) obj_variants;
                tag_key = (if length props_maps = length obj_variants then find_shared_tag props_maps else None);
                start = (case tag_key of
                    Some (nm, vs) \<Rightarrow> bt_insert nm (JObject [(''enum'', JArray vs), (''type'', JString ''string'')]) []
                  | None \<Rightarrow> []);
                union_props = foldl (union_entry (map_option fst tag_key)) start (concat props_maps)
            in if union_props = [] then terminal_object else object_with_properties union_props))"

definition recurse_properties :: "(json \<Rightarrow> json) \<Rightarrow> json \<Rightarrow> json" where
  "recurse_properties rw val =
     (case val of JObject props \<Rightarrow> JObject (map (\<lambda>(k, s). (k, rw s)) props) | _ \<Rightarrow> val)"

definition recurse_items :: "(json \<Rightarrow> json) \<Rightarrow> json \<Rightarrow> json" where
  "recurse_items rw val =
     (case val of JObject _ \<Rightarrow> rw val | JArray arr \<Rightarrow> JArray (map rw arr) | _ \<Rightarrow> val)"

definition rewrite_entry :: "(json \<Rightarrow> json) \<Rightarrow> string \<times> json \<Rightarrow> (string \<times> json) option" where
  "rewrite_entry rw kv =
     (case kv of (k, val) \<Rightarrow>
        (if k \<in> set UNSUPPORTED_KEYS then None
         else if k = ''$defs'' \<or> k = ''definitions'' then None
         else Some (k,
           if k = ''properties'' then recurse_properties rw val
           else if k = ''items'' then recurse_items rw val
           else if k = ''additionalProperties'' then (case val of JObject _ \<Rightarrow> rw val | _ \<Rightarrow> val)
           else val)))"

definition combinator_variants :: "(string \<times> json) list \<Rightarrow> json list option" where
  "combinator_variants obj =
     find_map (\<lambda>c. case map_of obj c of Some (JArray variants) \<Rightarrow> Some variants | _ \<Rightarrow> None) [''oneOf'', ''anyOf'', ''allOf'']"

definition merge_siblings :: "(string \<times> json) list \<Rightarrow> json \<Rightarrow> json" where
  "merge_siblings siblings expanded =
     (case expanded of
        JObject e \<Rightarrow> JObject (foldl (\<lambda>m (k, v). if k = ''$ref'' \<or> k \<in> set UNSUPPORTED_KEYS then m else bt_insert k v m) e siblings)
      | _ \<Rightarrow> expanded)"

definition handle_ref :: "(string list \<Rightarrow> json \<Rightarrow> json) \<Rightarrow> (string \<times> json) list \<Rightarrow> string list \<Rightarrow> json \<Rightarrow> (string \<times> json) list \<Rightarrow> json" where
  "handle_ref rw defs chain ref_val siblings =
     (case ref_val of
        JString ref_str \<Rightarrow>
          (case resolve_ref defs ref_str of
             None \<Rightarrow> terminal_object
           | Some resolved \<Rightarrow>
               (case local_def_name ref_str of
                  Some nm \<Rightarrow> (if nm \<in> set chain then terminal_object else merge_siblings siblings (rw (chain @ [nm]) resolved))
                | None \<Rightarrow> merge_siblings siblings (rw chain resolved)))
      | _ \<Rightarrow> terminal_object)"

text \<open>
  The depth is counted down from the limit. The chain of definitions being expanded is restored after an expansion, so it is an argument.
\<close>

fun rewrite_node :: "(string \<times> json) list \<Rightarrow> string list \<Rightarrow> nat \<Rightarrow> json \<Rightarrow> json" where
  "rewrite_node defs chain 0 node = terminal_object"
| "rewrite_node defs chain (Suc n) node =
     (case node of
        JObject obj \<Rightarrow>
          (case map_of obj ''$ref'' of
             Some ref_val \<Rightarrow> handle_ref (\<lambda>chain'. rewrite_node defs chain' n) defs chain ref_val obj
           | None \<Rightarrow>
               (case combinator_variants obj of
                  Some variants \<Rightarrow> collapse_combinator (map (rewrite_node defs chain n) variants)
                | None \<Rightarrow> JObject (List.map_filter (rewrite_entry (rewrite_node defs chain n)) obj)))
      | _ \<Rightarrow> node)"

definition root_defs :: "json \<Rightarrow> (string \<times> json) list" where
  "root_defs schema =
     unwrap_or [] (Option.bind (case json_get ''$defs'' schema of Some v \<Rightarrow> Some v | None \<Rightarrow> json_get ''definitions'' schema) json_object)"

definition without_defs :: "json \<Rightarrow> json" where
  "without_defs v = (case v of JObject m \<Rightarrow> JObject (filter (\<lambda>(k, _). k \<noteq> ''$defs'' \<and> k \<noteq> ''definitions'') m) | _ \<Rightarrow> v)"

definition rewrite_tool_schema :: "json \<Rightarrow> json" where
  "rewrite_tool_schema schema = without_defs (rewrite_node (root_defs schema) [] bedrock_max_depth schema)"

section \<open>Clean schemas\<close>

text \<open>
  What the service accepts, up to a depth: no reference, no combinator, no unsupported key at a place where a schema stands.
\<close>

definition place_ok :: "(json \<Rightarrow> bool) \<Rightarrow> string \<Rightarrow> json \<Rightarrow> bool" where
  "place_ok ok k val \<longleftrightarrow>
     (k = ''properties'' \<longrightarrow> (case val of JObject ps \<Rightarrow> list_all (\<lambda>(_, s). ok s) ps | _ \<Rightarrow> True))
     \<and> (k = ''items'' \<longrightarrow> (case val of JObject _ \<Rightarrow> ok val | JArray arr \<Rightarrow> list_all ok arr | _ \<Rightarrow> True))
     \<and> (k = ''additionalProperties'' \<longrightarrow> (case val of JObject _ \<Rightarrow> ok val | _ \<Rightarrow> True))"

definition removed_key :: "string \<Rightarrow> bool" where
  "removed_key k \<longleftrightarrow> k \<in> set UNSUPPORTED_KEYS \<or> k = ''$defs'' \<or> k = ''definitions''"

fun clean_schema :: "nat \<Rightarrow> json \<Rightarrow> bool" where
  "clean_schema 0 v \<longleftrightarrow> v = terminal_object"
| "clean_schema (Suc n) v \<longleftrightarrow>
     (case v of
        JObject obj \<Rightarrow> map_of obj ''$ref'' = None \<and> combinator_variants obj = None
          \<and> list_all (\<lambda>(k, val). \<not> removed_key k \<and> place_ok (clean_schema n) k val) obj
      | _ \<Rightarrow> True)"

text \<open>Keys that carry schemas, and schemas in which none of them stands beside a reference.\<close>

definition structural_key :: "string \<Rightarrow> bool" where
  "structural_key k \<longleftrightarrow> k \<in> {''properties'', ''items'', ''additionalProperties'', ''oneOf'', ''anyOf'', ''allOf'', ''$defs'', ''definitions''}"

fun plain_refs :: "json \<Rightarrow> bool" where
  "plain_refs (JObject obj) \<longleftrightarrow> (map_of obj ''$ref'' \<noteq> None \<longrightarrow> list_all (\<lambda>(k, _). \<not> structural_key k) obj)
     \<and> (\<forall>kv\<in>set obj. plain_refs (snd kv))"
| "plain_refs (JArray vs) \<longleftrightarrow> (\<forall>v\<in>set vs. plain_refs v)"
| "plain_refs _ \<longleftrightarrow> True"

lemma kept_keys: "\<not> removed_key ''type''" "\<not> removed_key ''properties''" "\<not> removed_key ''enum''"
  by code_simp+

lemma terminal_combinator: "combinator_variants [(''type'', JString ''object'')] = None"
  by code_simp

lemma place_ok_other: "k \<notin> {''properties'', ''items'', ''additionalProperties''} \<Longrightarrow> place_ok ok k val"
  unfolding place_ok_def by blast

lemma terminal_clean [simp]: "clean_schema n terminal_object"
proof (cases n)
  case (Suc m)
  have "place_ok (clean_schema m) ''type'' (JString ''object'')" by (rule place_ok_other) code_simp
  then show ?thesis by (simp add: Suc terminal_object_def terminal_combinator kept_keys)
qed simp

lemma place_ok_mono: "(\<And>v. ok v \<Longrightarrow> ok' v) \<Longrightarrow> place_ok ok k val \<Longrightarrow> place_ok ok' k val"
  by (auto simp: place_ok_def list_all_iff split: json.splits)

lemma clean_mono: "clean_schema n v \<Longrightarrow> clean_schema (Suc n) v"
proof (induction n arbitrary: v)
  case 0
  then show ?case using terminal_clean by (simp del: clean_schema.simps(2))
next
  case (Suc n)
  have step: "place_ok (clean_schema n) k val \<Longrightarrow> place_ok (clean_schema (Suc n)) k val" for k val
    using Suc.IH by (rule place_ok_mono)
  show ?case
  proof (cases v)
    case (JObject obj)
    with Suc.prems have c: "map_of obj ''$ref'' = None" "combinator_variants obj = None"
      "list_all (\<lambda>(k, val). \<not> removed_key k \<and> place_ok (clean_schema n) k val) obj"
      by (simp_all only: clean_schema.simps json.simps)
    have "list_all (\<lambda>(k, val). \<not> removed_key k \<and> place_ok (clean_schema (Suc n)) k val) obj"
      using c(3) by (rule list.pred_mono_strong) (use step in \<open>auto simp del: clean_schema.simps\<close>)
    then show ?thesis using JObject c(1,2) by (simp only: clean_schema.simps(2)[of "Suc n"] json.simps simp_thms)
  qed simp_all
qed

lemma map_filter_self: "list_all (\<lambda>x. f x = Some x) xs \<Longrightarrow> List.map_filter f xs = xs"
  by (induction xs) (auto simp: List.map_filter_simps)

lemma map_self: "list_all (\<lambda>(k, s). f s = s) ps \<Longrightarrow> map (\<lambda>(k, s). (k, f s)) ps = ps"
  by (induction ps) auto

lemma rewrite_entry_self:
  assumes "\<not> removed_key k" "place_ok (\<lambda>v. rw v = v) k val"
  shows "rewrite_entry rw (k, val) = Some (k, val)"
proof -
  have "recurse_properties rw val = val" if "k = ''properties''"
    using assms(2) that by (auto simp: place_ok_def recurse_properties_def map_self split: json.splits)
  moreover have "recurse_items rw val = val" if "k = ''items''"
    using assms(2) that by (auto simp: place_ok_def recurse_items_def list_all_iff map_idI split: json.splits)
  moreover have "(case val of JObject _ \<Rightarrow> rw val | _ \<Rightarrow> val) = val" if "k = ''additionalProperties''"
    using assms(2) that unfolding place_ok_def by (cases val) simp_all
  ultimately have "(if k = ''properties'' then recurse_properties rw val else if k = ''items'' then recurse_items rw val
      else if k = ''additionalProperties'' then (case val of JObject _ \<Rightarrow> rw val | _ \<Rightarrow> val) else val) = val"
    by metis
  then show ?thesis using assms(1) unfolding rewrite_entry_def removed_key_def by simp
qed

lemma clean_fixed: "clean_schema n v \<Longrightarrow> rewrite_node defs chain n v = v"
proof (induction n arbitrary: chain v)
  case (Suc n)
  have entry: "rewrite_entry (rewrite_node defs chain n) (k, val) = Some (k, val)"
    if "\<not> removed_key k" "place_ok (clean_schema n) k val" for k val
    using that(1) place_ok_mono[OF Suc.IH that(2)] by (rule rewrite_entry_self)
  show ?case
  proof (cases v)
    case (JObject obj)
    with Suc.prems have c: "map_of obj ''$ref'' = None" "combinator_variants obj = None"
      "list_all (\<lambda>(k, val). \<not> removed_key k \<and> place_ok (clean_schema n) k val) obj" by auto
    have "list_all (\<lambda>x. rewrite_entry (rewrite_node defs chain n) x = Some x) obj"
      using c(3) by (rule list.pred_mono_strong) (use entry in auto)
    then show ?thesis using JObject c(1,2) by (simp add: map_filter_self)
  qed simp_all
qed simp

section \<open>Rewritten schemas are clean\<close>

lemma bt_insert_all: "list_all P m \<Longrightarrow> P (k, v) \<Longrightarrow> list_all P (bt_insert k v m)"
  by (induction m) auto

lemma bt_insert_other: "x \<noteq> k \<Longrightarrow> map_of (bt_insert k v m) x = map_of m x"
  by (induction m) auto

lemma find_map_cong: "(\<And>x. x \<in> set xs \<Longrightarrow> f x = g x) \<Longrightarrow> find_map f xs = find_map g xs"
  by (induction xs) (auto split: option.splits)

lemma combinator_cong:
  "(\<And>c. c \<in> {''oneOf'', ''anyOf'', ''allOf''} \<Longrightarrow> map_of a c = map_of b c) \<Longrightarrow> combinator_variants a = combinator_variants b"
  unfolding combinator_variants_def by (rule find_map_cong) (metis list.set(1,2))

lemma combinator_insert: "k \<notin> {''oneOf'', ''anyOf'', ''allOf''} \<Longrightarrow> combinator_variants (bt_insert k v m) = combinator_variants m"
  by (rule combinator_cong) (metis bt_insert_other)

lemma clean_insert:
  assumes "clean_schema (Suc n) (JObject m)" "\<not> removed_key k" "k \<noteq> ''$ref''" "k \<notin> {''oneOf'', ''anyOf'', ''allOf''}" "place_ok (clean_schema n) k v"
  shows "clean_schema (Suc n) (JObject (bt_insert k v m))"
proof -
  have "list_all (\<lambda>(k, val). \<not> removed_key k \<and> place_ok (clean_schema n) k val) m" using assms(1) by simp
  then have "list_all (\<lambda>(k, val). \<not> removed_key k \<and> place_ok (clean_schema n) k val) (bt_insert k v m)"
    by (rule bt_insert_all) (use assms(2,5) in simp)
  then show ?thesis using assms(1,3) combinator_insert[OF assms(4)] by (simp add: bt_insert_other)
qed

lemma merge_siblings_clean:
  assumes "clean_schema (Suc n) e" "list_all (\<lambda>(k, _). \<not> structural_key k) siblings"
  shows "clean_schema (Suc n) (merge_siblings siblings e)"
proof (cases e)
  case (JObject m)
  have "clean_schema (Suc n) (JObject (foldl (\<lambda>m (k, v). if k = ''$ref'' \<or> k \<in> set UNSUPPORTED_KEYS then m else bt_insert k v m) m siblings))"
    using assms unfolding JObject
  proof (induction siblings arbitrary: m)
    case (Cons kv siblings)
    obtain k v where kv: "kv = (k, v)" by fastforce
    with Cons.prems have nk: "\<not> structural_key k" by simp
    have "clean_schema (Suc n) (JObject (if k = ''$ref'' \<or> k \<in> set UNSUPPORTED_KEYS then m else bt_insert k v m))"
    proof (cases "k = ''$ref'' \<or> k \<in> set UNSUPPORTED_KEYS")
      case False
      have "clean_schema (Suc n) (JObject (bt_insert k v m))"
        using Cons.prems(1)
      proof (rule clean_insert)
        show "\<not> removed_key k" "k \<noteq> ''$ref''" "k \<notin> {''oneOf'', ''anyOf'', ''allOf''}"
          using False nk by (auto simp: removed_key_def structural_key_def)
        show "place_ok (clean_schema n) k v" using nk by (intro place_ok_other) (auto simp: structural_key_def)
      qed
      then show ?thesis using False by simp
    qed (use Cons.prems(1) in simp)
    then show ?case using Cons.IH Cons.prems(2) kv by (simp del: clean_schema.simps)
  qed (simp del: clean_schema.simps)
  then show ?thesis by (simp add: merge_siblings_def JObject del: clean_schema.simps)
qed (use assms in \<open>simp_all add: merge_siblings_def\<close>)

lemma object_with_properties_combinator: "map_of [(''properties'', x), (''type'', y)] ''$ref'' = None" "combinator_variants [(''properties'', x), (''type'', y)] = None"
  by (simp_all add: combinator_variants_def)

lemma object_with_properties_clean:
  assumes "list_all (\<lambda>(_, s). clean_schema n s) props"
  shows "clean_schema (Suc n) (object_with_properties props)"
proof -
  have "place_ok (clean_schema n) ''type'' (JString ''object'')" by (rule place_ok_other) code_simp
  moreover have "place_ok (clean_schema n) ''properties'' (JObject props)" using assms by (simp add: place_ok_def)
  ultimately show ?thesis by (simp add: object_with_properties_def object_with_properties_combinator kept_keys)
qed

definition schema_props :: "json \<Rightarrow> (string \<times> json) list option" where
  "schema_props v = Option.bind (json_get ''properties'' v) json_object"

lemma schema_props_clean:
  assumes "clean_schema n v" "schema_props v = Some ps"
  obtains m where "n = Suc m" "list_all (\<lambda>(_, s). clean_schema m s) ps"
proof (cases n)
  case 0
  then have "schema_props v = None" using assms(1) by (simp add: schema_props_def terminal_object_def json_get_def)
  with assms(2) show ?thesis by simp
next
  case (Suc m)
  obtain obj where v: "v = JObject obj" "map_of obj ''properties'' = Some (JObject ps)"
    using assms(2) by (cases v) (auto simp: schema_props_def json_get_def bind_eq_Some_conv elim!: json_object.elims)
  then have "place_ok (clean_schema m) ''properties'' (JObject ps)"
    using assms(1) Suc map_of_SomeD[OF v(2)] by (fastforce simp: list_all_iff)
  then show ?thesis using that Suc by (simp add: place_ok_def)
qed

lemma merge_properties_all: "list_all P ap \<Longrightarrow> list_all P bp \<Longrightarrow> list_all P (merge_properties ap bp)"
  unfolding merge_properties_def by (induction bp arbitrary: ap) (auto simp: bt_insert_all)

lemma merge_object_schemas_clean:
  assumes "clean_schema n a" "clean_schema n b"
  shows "clean_schema n (merge_object_schemas a b)"
proof (cases "schema_props a = None \<or> schema_props b = None")
  case True
  then show ?thesis by (auto simp: merge_object_schemas_def schema_props_def[symmetric] split: option.splits)
next
  case False
  then obtain ap bp where p: "schema_props a = Some ap" "schema_props b = Some bp" by auto
  obtain m where m: "n = Suc m" "list_all (\<lambda>(_, s). clean_schema m s) ap" using schema_props_clean[OF assms(1) p(1)] by blast
  have "list_all (\<lambda>(_, s). clean_schema m s) bp" using schema_props_clean[OF assms(2) p(2)] m(1) by blast
  with m(2) have "list_all (\<lambda>(_, s). clean_schema m s) (merge_properties ap bp)" by (rule merge_properties_all)
  then have "clean_schema (Suc m) (object_with_properties (merge_properties ap bp))" by (rule object_with_properties_clean)
  then show ?thesis using p m(1) by (simp add: merge_object_schemas_def schema_props_def[symmetric] del: clean_schema.simps)
qed

lemma union_entries_clean:
  assumes "list_all (\<lambda>(_, s). clean_schema n s) m" "list_all (\<lambda>(_, s). clean_schema n s) kvs"
  shows "list_all (\<lambda>(_, s). clean_schema n s) (foldl (union_entry tag) m kvs)"
  using assms
proof (induction kvs arbitrary: m)
  case (Cons kv kvs)
  obtain k v where kv: "kv = (k, v)" by fastforce
  have "list_all (\<lambda>(_, s). clean_schema n s) (union_entry tag m kv)"
  proof (cases "map_of m k")
    case (Some ex)
    then have "clean_schema n ex" using Cons.prems(1) map_of_SomeD[OF Some] by (fastforce simp: list_all_iff)
    then have "clean_schema n (merge_object_schemas ex v)" using Cons.prems(2) kv by (intro merge_object_schemas_clean) simp_all
    then show ?thesis using Cons.prems(1) Some kv by (simp add: union_entry_def bt_insert_all)
  qed (use Cons.prems kv in \<open>simp add: union_entry_def bt_insert_all\<close>)
  then show ?case using Cons.IH Cons.prems(2) by simp
qed simp

lemma tag_enum_clean: "clean_schema (Suc n) (JObject [(''enum'', JArray vs), (''type'', JString ''string'')])"
proof -
  have "place_ok (clean_schema n) ''enum'' (JArray vs)" "place_ok (clean_schema n) ''type'' (JString ''string'')"
    by (rule place_ok_other; code_simp)+
  then show ?thesis by (simp add: combinator_variants_def kept_keys)
qed

lemma collapse_clean:
  assumes "list_all (clean_schema n) rewritten"
  shows "clean_schema (Suc n) (collapse_combinator rewritten)"
proof -
  define objs where "objs = List.map_filter json_object rewritten"
  define maps where "maps = List.map_filter (\<lambda>v. Option.bind (map_of v ''properties'') json_object) objs"
  define tag where "tag = (if length maps = length objs then find_shared_tag maps else None)"
  define start where "start = (case tag of Some (nm, vs) \<Rightarrow> bt_insert nm (JObject [(''enum'', JArray vs), (''type'', JString ''string'')]) [] | None \<Rightarrow> [])"
  have props: "\<exists>m. n = Suc m \<and> list_all (\<lambda>(_, s). clean_schema m s) ps" if "ps \<in> set maps" for ps
  proof -
    from that obtain obj where "JObject obj \<in> set rewritten" "schema_props (JObject obj) = Some ps"
      by (auto simp: maps_def objs_def List.map_filter_def schema_props_def json_get_def elim!: json_object.elims)
    then show ?thesis using assms schema_props_clean by (metis list_all_iff)
  qed
  have entries: "list_all (\<lambda>(_, s). clean_schema n s) (concat maps)"
    unfolding list_all_iff
  proof
    fix kv assume "kv \<in> set (concat maps)"
    then obtain ps where ps: "ps \<in> set maps" "kv \<in> set ps" by auto
    then obtain m where "n = Suc m" "list_all (\<lambda>(_, s). clean_schema m s) ps" using props by blast
    then show "case kv of (_, s) \<Rightarrow> clean_schema n s" using ps(2) clean_mono by (fastforce simp: list_all_iff simp del: clean_schema.simps)
  qed
  have "list_all (\<lambda>(_, s). clean_schema n s) start"
  proof (cases tag)
    case (Some nv)
    then have "maps \<noteq> []" by (auto simp: tag_def find_shared_tag_def split: if_splits)
    then obtain m where "n = Suc m" using props by (cases maps) auto
    then show ?thesis using Some tag_enum_clean[of m] by (auto simp: start_def simp del: clean_schema.simps split: prod.splits)
  qed (simp add: start_def)
  then have "list_all (\<lambda>(_, s). clean_schema n s) (foldl (union_entry (map_option fst tag)) start (concat maps))"
    using entries by (rule union_entries_clean)
  then show ?thesis
    using object_with_properties_clean terminal_clean
    by (auto simp: collapse_combinator_def Let_def objs_def[symmetric] maps_def[symmetric] tag_def[symmetric] start_def[symmetric]
        simp del: clean_schema.simps)
qed

lemma rewrite_entry_place:
  assumes "rewrite_entry rw (k, val) = Some (k', val')" "plain_refs val" "\<And>v. plain_refs v \<Longrightarrow> ok (rw v)"
    and "\<And>m arr. rw (JObject m) \<noteq> JArray arr"
  shows "k' = k \<and> \<not> removed_key k \<and> place_ok ok k val'"
proof -
  have kept: "\<not> removed_key k" "k' = k" using assms(1) by (auto simp: rewrite_entry_def removed_key_def split: if_splits)
  consider (p) "k = ''properties''" | (i) "k = ''items''" | (a) "k = ''additionalProperties''" | (o) "k \<notin> {''properties'', ''items'', ''additionalProperties''}"
    by blast
  then have "place_ok ok k val'"
  proof cases
    case p
    then have "val' = recurse_properties rw val" using assms(1) kept(1) by (simp add: rewrite_entry_def removed_key_def split: if_splits)
    then show ?thesis using p assms(2,3) by (cases val) (auto simp: place_ok_def recurse_properties_def list_all_iff)
  next
    case i
    then have v: "val' = recurse_items rw val" using assms(1) kept(1) by (simp add: rewrite_entry_def removed_key_def split: if_splits)
    show ?thesis
    proof (cases val)
      case (JObject m)
      then have "ok val'" "\<forall>arr. val' \<noteq> JArray arr" using v assms(2-4) by (simp_all add: recurse_items_def)
      then show ?thesis using i by (cases val') (simp_all add: place_ok_def)
    qed (use i v assms(2,3) in \<open>auto simp: place_ok_def recurse_items_def list_all_iff\<close>)
  next
    case a
    then have v: "val' = (case val of JObject _ \<Rightarrow> rw val | _ \<Rightarrow> val)"
      using assms(1) kept(1) by (simp add: rewrite_entry_def removed_key_def split: if_splits)
    show ?thesis
    proof (cases val)
      case (JObject m)
      then have "ok val'" using v assms(2,3) by simp
      then show ?thesis using a by (cases val') (simp_all add: place_ok_def)
    qed (use a v in \<open>simp_all add: place_ok_def\<close>)
  qed (rule place_ok_other)
  with kept show ?thesis by simp
qed

text \<open>An object is never rewritten to an array, as long as no definition is one.\<close>

definition no_array_defs :: "(string \<times> json) list \<Rightarrow> bool" where
  "no_array_defs defs \<longleftrightarrow> list_all (\<lambda>(_, v). \<forall>arr. v \<noteq> JArray arr) defs"

lemma rewrite_not_array: "no_array_defs defs \<Longrightarrow> (\<And>a. v \<noteq> JArray a) \<Longrightarrow> rewrite_node defs chain n v \<noteq> JArray arr"
proof (induction n arbitrary: chain v)
  case (Suc n)
  have resolved: "r \<noteq> JArray a" if "resolve_ref defs s = Some r" for s r a
    using that Suc.prems(1) map_of_SomeD by (fastforce simp: resolve_ref_def no_array_defs_def list_all_iff bind_eq_Some_conv)
  have merged: "x \<noteq> JArray arr \<Longrightarrow> merge_siblings sib x \<noteq> JArray arr" for sib x
    by (cases x) (simp_all add: merge_siblings_def)
  have collapsed: "collapse_combinator vs \<noteq> JArray arr" for vs
    by (auto simp: collapse_combinator_def terminal_object_def object_with_properties_def Let_def)
  have "handle_ref (\<lambda>c. rewrite_node defs c n) defs chain rv obj \<noteq> JArray arr" for rv obj
    using Suc.IH[OF Suc.prems(1)] resolved merged by (auto simp: handle_ref_def terminal_object_def split: json.splits option.splits)
  then show ?case using Suc.prems(2) collapsed by (cases v) (auto split: option.splits)
qed (simp add: terminal_object_def)

lemma map_of_rewritten:
  "map_of (List.map_filter (rewrite_entry rw) obj) k = (if removed_key k then None else map_option (\<lambda>val. snd (the (rewrite_entry rw (k, val)))) (map_of obj k))"
proof (induction obj)
  case (Cons kv obj)
  obtain k' v where kv: "kv = (k', v)" by fastforce
  show ?case
  proof (cases "removed_key k'")
    case True
    then have "rewrite_entry rw (k', v) = None" by (auto simp: rewrite_entry_def removed_key_def)
    then show ?thesis using Cons True kv by (auto simp: List.map_filter_simps)
  next
    case False
    then obtain v' where "rewrite_entry rw (k', v) = Some (k', v')" by (auto simp: rewrite_entry_def removed_key_def)
    then show ?thesis using Cons False kv by (auto simp: List.map_filter_simps)
  qed
qed (simp add: List.map_filter_simps)

lemma rewritten_combinator:
  assumes "combinator_variants obj = None"
  shows "combinator_variants (List.map_filter (rewrite_entry rw) obj) = None"
proof -
  have same: "map_of (List.map_filter (rewrite_entry rw) obj) c = map_of obj c" if "c \<in> {''oneOf'', ''anyOf'', ''allOf''}" for c
  proof -
    have "\<not> removed_key c" using that by (auto simp: removed_key_def UNSUPPORTED_KEYS_def)
    moreover have "rewrite_entry rw (c, val) = Some (c, val)" for val
      using calculation that by (intro rewrite_entry_self place_ok_other) auto
    ultimately show ?thesis by (simp add: map_of_rewritten option.map_ident)
  qed
  have "combinator_variants (List.map_filter (rewrite_entry rw) obj) = combinator_variants obj"
    using same by (rule combinator_cong)
  with assms show ?thesis by simp
qed

lemma rewrite_clean:
  assumes "list_all (\<lambda>(_, v). plain_refs v) defs" "no_array_defs defs"
  shows "plain_refs v \<Longrightarrow> clean_schema n (rewrite_node defs chain n v)"
proof (induction n arbitrary: chain v)
  case (Suc n)
  show ?case
  proof (cases v)
    case (JObject obj)
    have sub: "plain_refs x" if "(k, x) \<in> set obj" for k x using Suc.prems that unfolding JObject by fastforce
    show ?thesis
    proof (cases "map_of obj ''$ref''")
      case (Some rv)
      have sib: "list_all (\<lambda>(k, _). \<not> structural_key k) obj" using Suc.prems Some JObject by simp
      have resolved: "clean_schema (Suc n) (merge_siblings obj (rewrite_node defs c n r))" if "resolve_ref defs s = Some r" for s r c
      proof -
        have "plain_refs r" using that assms(1) map_of_SomeD by (fastforce simp: resolve_ref_def list_all_iff bind_eq_Some_conv)
        then show ?thesis using Suc.IH clean_mono merge_siblings_clean[OF _ sib] by blast
      qed
      have "clean_schema (Suc n) (handle_ref (\<lambda>c. rewrite_node defs c n) defs chain rv obj)"
        using resolved terminal_clean by (auto simp: handle_ref_def simp del: clean_schema.simps split: json.splits option.splits)
      then show ?thesis using Some JObject by (simp del: clean_schema.simps)
    next
      case None
      show ?thesis
      proof (cases "combinator_variants obj")
        case (Some variants)
        then obtain c where "(c, JArray variants) \<in> set obj"
          by (auto simp: combinator_variants_def split: option.splits json.splits dest!: map_of_SomeD)
        then have "\<forall>x\<in>set variants. plain_refs x" using sub by fastforce
        then have "list_all (clean_schema n) (map (rewrite_node defs chain n) variants)" using Suc.IH by (simp add: list_all_iff)
        then show ?thesis using collapse_clean None Some JObject by (simp del: clean_schema.simps)
      next
        case none: None
        let ?out = "List.map_filter (rewrite_entry (rewrite_node defs chain n)) obj"
        have "map_of ?out ''$ref'' = None" using None by (simp add: map_of_rewritten)
        moreover have "list_all (\<lambda>(k, val). \<not> removed_key k \<and> place_ok (clean_schema n) k val) ?out"
          unfolding list_all_iff
        proof
          fix kv assume "kv \<in> set ?out"
          then obtain k x k' x' where "(k, x) \<in> set obj" "kv = (k', x')" "rewrite_entry (rewrite_node defs chain n) (k, x) = Some (k', x')"
            by (auto simp: List.map_filter_def)
          with rewrite_entry_place[OF this(3) sub[OF this(1)], of "clean_schema n"] Suc.IH rewrite_not_array[OF assms(2)]
          show "case kv of (k, val) \<Rightarrow> \<not> removed_key k \<and> place_ok (clean_schema n) k val" by simp
        qed
        ultimately show ?thesis using None none JObject rewritten_combinator[OF none] by simp
      qed
    qed
  qed simp_all
qed simp

section \<open>The entry point\<close>

text \<open>A schema whose root may carry definitions beside a reference.\<close>

definition rewritable :: "json \<Rightarrow> bool" where
  "rewritable schema \<longleftrightarrow> plain_refs (without_defs schema) \<and> list_all (\<lambda>(_, v). plain_refs v) (root_defs schema) \<and> no_array_defs (root_defs schema)"

definition defs_key :: "string \<Rightarrow> bool" where
  "defs_key k \<longleftrightarrow> k = ''$defs'' \<or> k = ''definitions''"

lemma without_defs_obj: "without_defs (JObject m) = JObject (filter (\<lambda>(k, _). \<not> defs_key k) m)"
  by (simp add: without_defs_def defs_key_def)

lemma map_of_filter_key: "\<not> defs_key x \<Longrightarrow> map_of (filter (\<lambda>(k, _). \<not> defs_key k) m) x = map_of m x"
  by (induction m) auto

lemma key_facts: "\<not> defs_key ''$ref''" "c \<in> {''oneOf'', ''anyOf'', ''allOf''} \<Longrightarrow> \<not> defs_key c" "defs_key k \<Longrightarrow> removed_key k" "defs_key k \<Longrightarrow> structural_key k"
  by (auto simp: defs_key_def removed_key_def structural_key_def)

lemma without_defs_clean: "clean_schema (Suc n) v \<Longrightarrow> without_defs v = v"
proof (cases v)
  case (JObject m)
  assume "clean_schema (Suc n) v"
  then have "list_all (\<lambda>(k, val). \<not> removed_key k) m" unfolding JObject by (auto simp: list_all_iff)
  then show ?thesis using key_facts(3) by (auto simp: JObject without_defs_obj list_all_iff filter_id_conv)
qed (simp_all add: without_defs_def)

text \<open>A root object into which definitions may have been merged.\<close>

definition root_ok :: "nat \<Rightarrow> (string \<times> json) list \<Rightarrow> bool" where
  "root_ok n m \<longleftrightarrow> map_of m ''$ref'' = None \<and> combinator_variants m = None
     \<and> list_all (\<lambda>(k, val). defs_key k \<or> \<not> removed_key k \<and> place_ok (clean_schema n) k val) m"

lemma root_ok_clean: "root_ok n m \<Longrightarrow> clean_schema (Suc n) (without_defs (JObject m))"
proof -
  assume r: "root_ok n m"
  have "combinator_variants (filter (\<lambda>(k, _). \<not> defs_key k) m) = combinator_variants m"
    by (rule combinator_cong) (metis map_of_filter_key key_facts(2))
  then show ?thesis
    using r key_facts(1) by (auto simp: root_ok_def without_defs_obj map_of_filter_key list_all_iff)
qed

lemma root_ok_insert:
  assumes "root_ok n m" "k \<noteq> ''$ref''" "k \<notin> set UNSUPPORTED_KEYS" "defs_key k \<or> \<not> structural_key k"
  shows "root_ok n (bt_insert k v m)"
proof -
  have "k \<notin> {''oneOf'', ''anyOf'', ''allOf''}" using assms(4) by (auto simp: structural_key_def defs_key_def)
  note c = combinator_insert[OF this]
  have "defs_key k \<or> \<not> removed_key k \<and> place_ok (clean_schema n) k v"
  proof (cases "defs_key k")
    case False
    then have "\<not> removed_key k" using assms(3) by (simp add: removed_key_def defs_key_def)
    moreover have "place_ok (clean_schema n) k v" using assms(4) False by (intro place_ok_other) (auto simp: structural_key_def)
    ultimately show ?thesis by simp
  qed simp
  then have "list_all (\<lambda>(k, val). defs_key k \<or> \<not> removed_key k \<and> place_ok (clean_schema n) k val) (bt_insert k v m)"
    using assms(1) by (intro bt_insert_all) (simp_all add: root_ok_def)
  then show ?thesis using assms(1,2) c by (simp add: root_ok_def bt_insert_other)
qed

lemma root_siblings_clean:
  assumes "clean_schema (Suc n) e" "list_all (\<lambda>(k, _). defs_key k \<or> \<not> structural_key k) siblings"
  shows "clean_schema (Suc n) (without_defs (merge_siblings siblings e))"
proof (cases e)
  case (JObject m)
  have "root_ok n m" using assms(1) unfolding JObject root_ok_def by (auto simp: list_all_iff)
  then have "root_ok n (foldl (\<lambda>m (k, v). if k = ''$ref'' \<or> k \<in> set UNSUPPORTED_KEYS then m else bt_insert k v m) m siblings)"
    using assms(2)
  proof (induction siblings arbitrary: m)
    case (Cons kv siblings)
    then show ?case by (cases kv) (simp add: root_ok_insert)
  qed simp
  then show ?thesis using root_ok_clean by (simp add: merge_siblings_def JObject del: clean_schema.simps)
qed (use assms in \<open>simp_all add: merge_siblings_def without_defs_def\<close>)

lemma map_filter_skip: "(\<And>x. \<not> P x \<Longrightarrow> f x = None) \<Longrightarrow> List.map_filter f (filter P xs) = List.map_filter f xs"
  by (induction xs) (auto simp: List.map_filter_simps split: option.splits)

lemma rewrite_entry_defs: "defs_key k \<Longrightarrow> rewrite_entry rw (k, v) = None"
  unfolding rewrite_entry_def defs_key_def by simp

lemma rewrite_root_defs:
  assumes "map_of obj ''$ref'' = None"
  shows "rewrite_node defs chain (Suc n) (without_defs (JObject obj)) = rewrite_node defs chain (Suc n) (JObject obj)"
proof -
  let ?obj = "filter (\<lambda>(k, _). \<not> defs_key k) obj"
  have "combinator_variants ?obj = combinator_variants obj" by (rule combinator_cong) (metis map_of_filter_key key_facts(2))
  moreover have "List.map_filter (rewrite_entry rw) ?obj = List.map_filter (rewrite_entry rw) obj" for rw
    by (rule map_filter_skip) (use rewrite_entry_defs in auto)
  ultimately show ?thesis using assms key_facts(1) by (simp add: without_defs_obj map_of_filter_key split: option.splits)
qed

lemma rewrite_tool_schema_clean:
  assumes "rewritable schema"
  shows "clean_schema bedrock_max_depth (rewrite_tool_schema schema)"
proof -
  let ?defs = "root_defs schema"
  have d: "list_all (\<lambda>(_, v). plain_refs v) ?defs" "no_array_defs ?defs" "plain_refs (without_defs schema)" using assms by (auto simp: rewritable_def)
  obtain n where n: "bedrock_max_depth = Suc n" by (simp add: bedrock_max_depth_def)
  note clean = rewrite_clean[OF d(1,2)]
  have "clean_schema (Suc n) (without_defs (rewrite_node ?defs [] (Suc n) schema))"
  proof (cases schema)
    case (JObject obj)
    show ?thesis
    proof (cases "map_of obj ''$ref''")
      case None
      have "clean_schema (Suc n) (rewrite_node ?defs [] (Suc n) schema)"
        using clean[OF d(3), of "Suc n" "[]"] rewrite_root_defs[OF None] by (simp only: JObject)
      then show ?thesis using without_defs_clean by metis
    next
      case (Some rv)
      have "map_of (filter (\<lambda>(k, _). \<not> defs_key k) obj) ''$ref'' = Some rv" using Some key_facts(1) by (simp add: map_of_filter_key)
      then have sib: "list_all (\<lambda>(k, _). defs_key k \<or> \<not> structural_key k) obj" using d(3) by (auto simp: JObject without_defs_obj list_all_iff)
      have term_ok: "clean_schema (Suc n) (without_defs terminal_object)" using without_defs_clean[OF terminal_clean] terminal_clean by metis
      have resolved: "clean_schema (Suc n) (without_defs (merge_siblings obj (rewrite_node ?defs c n r)))" if "resolve_ref ?defs s = Some r" for s r c
      proof -
        have "plain_refs r" using that d(1) map_of_SomeD by (fastforce simp: resolve_ref_def list_all_iff bind_eq_Some_conv)
        then show ?thesis using clean clean_mono root_siblings_clean[OF _ sib] by blast
      qed
      have "clean_schema (Suc n) (without_defs (handle_ref (\<lambda>c. rewrite_node ?defs c n) ?defs [] rv obj))"
        using resolved term_ok by (auto simp: handle_ref_def simp del: clean_schema.simps split: json.splits option.splits)
      then show ?thesis using Some JObject by (simp del: clean_schema.simps)
    qed
  qed (simp_all add: without_defs_def)
  then show ?thesis by (simp add: rewrite_tool_schema_def n del: clean_schema.simps)
qed


text \<open>A schema with a cyclic definition under a combinator, for a closed example.\<close>

definition schema_ex :: json where
  "schema_ex = JObject [(''$defs'', JObject [(''T'', JObject [(''format'', JString ''x''), (''properties'', JObject [(''next'', JObject [(''$ref'', JString ''#/$defs/T'')])])])]),
     (''anyOf'', JArray [JObject [(''$ref'', JString ''#/$defs/T'')], JObject [(''properties'', JObject [(''id'', JObject [(''type'', JString ''string'')])])]])]"


section \<open>What a collapse keeps\<close>

lemma bt_insert_keys: "fst ` set (bt_insert k v m) = insert k (fst ` set m)"
proof (induction m)
  case (Cons kv m)
  then show ?case by (cases kv) (simp add: insert_commute)
qed simp

lemma union_entry_keys: "fst ` set (union_entry tag m (k, v)) = (if tag = Some k then fst ` set m else insert k (fst ` set m))"
  by (cases "map_of m k") (simp_all add: union_entry_def bt_insert_keys)

lemma union_keys:
  "fst ` set m \<subseteq> fst ` set (foldl (union_entry tag) m kvs)"
  "(k, v) \<in> set kvs \<Longrightarrow> tag = Some k \<or> k \<in> fst ` set (foldl (union_entry tag) m kvs)"
proof (induction kvs arbitrary: m)
  case (Cons kv kvs)
  obtain k' v' where kv: "kv = (k', v')" by fastforce
  note keys = union_entry_keys[of tag _ k' v']
  { case 1
    have "fst ` set m \<subseteq> fst ` set (union_entry tag m kv)" unfolding kv keys by (cases "tag = Some k'") auto
    also have "\<dots> \<subseteq> fst ` set (foldl (union_entry tag) (union_entry tag m kv) kvs)" by (rule Cons.IH(1))
    finally show ?case by (simp only: foldl_Cons)
  next
    case 2
    show ?case using Cons.IH[of "union_entry tag m kv"] keys 2 unfolding kv by (auto split: if_splits)
  }
qed simp_all

text \<open>No property of a variant is lost when a combinator is collapsed: its name is a property of the collapsed object, as the tag or beside it.\<close>

theorem collapse_keeps_properties:
  assumes "JObject obj \<in> set rewritten" "map_of obj ''properties'' = Some (JObject ps)" "(k, s) \<in> set ps"
  shows "\<exists>union_props. collapse_combinator rewritten = object_with_properties union_props \<and> k \<in> fst ` set union_props"
proof -
  define objs where "objs = List.map_filter json_object rewritten"
  define maps where "maps = List.map_filter (\<lambda>v. Option.bind (map_of v ''properties'') json_object) objs"
  define tag where "tag = (if length maps = length objs then find_shared_tag maps else None)"
  define start where "start = (case tag of Some (nm, vs) \<Rightarrow> bt_insert nm (JObject [(''enum'', JArray vs), (''type'', JString ''string'')]) [] | None \<Rightarrow> [])"
  define un where "un = foldl (union_entry (map_option fst tag)) start (concat maps)"
  have o: "obj \<in> set objs" using assms(1) by (force simp: objs_def List.map_filter_def)
  then have "ps \<in> set maps" using assms(2) by (force simp: maps_def List.map_filter_def)
  then have "(k, s) \<in> set (concat maps)" using assms(3) by auto
  then have "map_option fst tag = Some k \<or> k \<in> fst ` set un" unfolding un_def by (rule union_keys(2))
  moreover have "k \<in> fst ` set start" if "map_option fst tag = Some k" using that by (auto simp: start_def)
  moreover have "fst ` set start \<subseteq> fst ` set un" unfolding un_def by (rule union_keys(1))
  ultimately have k: "k \<in> fst ` set un" by blast
  then have "un \<noteq> []" "objs \<noteq> []" using o by auto
  then have "collapse_combinator rewritten = object_with_properties un"
    by (simp add: collapse_combinator_def Let_def objs_def[symmetric] maps_def[symmetric] tag_def[symmetric] start_def[symmetric] un_def[symmetric])
  with k show ?thesis by blast
qed

theorem collapse_keeps_properties_witness:
  "\<exists>u. collapse_combinator [object_with_properties [(''id'', JNull)]] = object_with_properties u \<and> ''id'' \<in> fst ` set u"
  using collapse_keeps_properties[of "[(''properties'', JObject [(''id'', JNull)]), (''type'', JString ''object'')]" "[object_with_properties [(''id'', JNull)]]" "[(''id'', JNull)]" "''id''" JNull]
  by (simp add: object_with_properties_def)

section \<open>Keys beside a reference\<close>

text \<open>
  Keys that stand beside a reference are merged as they are: a reference among them survives while the definitions are
  removed, and rewriting the result again changes it.
\<close>

definition sibling_ex :: json where
  "sibling_ex = JObject [(''$defs'', JObject [(''A'', JObject [(''type'', JString ''object'')])]),
     (''properties'', JObject [(''x'', JObject [(''$ref'', JString ''#/$defs/A''),
        (''properties'', JObject [(''y'', JObject [(''$ref'', JString ''#/$defs/A'')])])])])]"

lemma reference_survives:
  "rewrite_tool_schema sibling_ex = JObject [(''properties'', JObject [(''x'', object_with_properties [(''y'', JObject [(''$ref'', JString ''#/$defs/A'')])])])]"
  by code_simp

lemma rewrite_not_idempotent:
  "rewrite_tool_schema (rewrite_tool_schema sibling_ex) = JObject [(''properties'', JObject [(''x'', object_with_properties [(''y'', terminal_object)])])]"
  unfolding reference_survives by code_simp

end
