(* ===== verification/Anthropic_Stream.thy ===== *)
theory Anthropic_Stream
  imports Litellm_Model Model_Turn
begin

text \<open>
  The streamed Messages API (\<open>stream.rs\<close>, \<open>sse.rs\<close>, \<open>error.rs\<close> and the stream of \<open>model.rs\<close> in
  \<open>providers-anthropic\<close>): the translator from content blocks to model events and the event loop around it. Shown are what a
  turn accumulated from the translated events holds, in terms of the blocks alone, and that a stream read to its end has one
  terminal item when a stop reason was seen and none otherwise; a lemma shows an error that follows a finish.
\<close>

section \<open>Events and errors\<close>

datatype content_block_head = HeadText | HeadThinking | HeadToolUse string string

datatype content_block_delta = BlockTextDelta string | BlockThinkingDelta string | BlockSignatureDelta string | InputJsonDelta string

datatype anthropic_event =
    MessageStart u32 "u32 option"
  | ContentBlockStart u32 content_block_head
  | ContentBlockDelta u32 content_block_delta
  | ContentBlockStop u32
  | MessageDelta "string option" "u32 option"
  | MessageStop
  | Ping
  | AnthropicError string string

definition map_error_type :: "u16 option \<Rightarrow> string \<Rightarrow> string \<Rightarrow> u64 option \<Rightarrow> model_error" where
  "map_error_type status error_type message retry_after_ms =
     (if error_type = ''overloaded_error'' then Unavailable
      else if error_type = ''rate_limit_error'' then RateLimited retry_after_ms
      else if error_type = ''authentication_error'' \<or> error_type = ''permission_error'' then Refused message
      else if error_type = ''invalid_request_error'' \<and> contains_str ''prompt is too long'' message then ContextLengthExceeded
      else (case status of
          Some s \<Rightarrow> (if 500 \<le> s \<and> s \<le> 504 \<or> s = 529 then Unavailable else ModelOther (''anthropic '' @ error_type @ '': '' @ message))
        | None \<Rightarrow> Transport message))"

text \<open>The argument is the header's value when it is present and visible ASCII (\<open>to_str\<close>).\<close>

definition anthropic_retry_after_ms :: "string option \<Rightarrow> u64 option" where
  "anthropic_retry_after_ms h = Option.bind h (\<lambda>v. map_option (\<lambda>seconds. u64_saturating_mul seconds 1000) (parse_u64 (trim v)))"

section \<open>The translator\<close>

definition SYNTHESIZED_TOOL_NAME :: string where
  "SYNTHESIZED_TOOL_NAME = ''__paigasus_structured_output__''"

datatype block_state = BlockText | BlockThinking | BlockToolUse string string bool

record message_translator =
  an_blocks :: "u32 \<rightharpoonup> block_state"
  an_last_input_tokens :: u32
  an_last_cached_input_tokens :: "u32 option"
  an_stop_reason :: "string option"
  an_synthesizing_output :: bool
  an_synthesized_tool_index :: "u32 option"
  an_other_tool_fired :: bool
  an_terminal_emitted :: bool

definition message_translator_new :: "bool \<Rightarrow> message_translator" where
  "message_translator_new synthesizing = \<lparr>an_blocks = Map.empty, an_last_input_tokens = 0, an_last_cached_input_tokens = None, an_stop_reason = None,
     an_synthesizing_output = synthesizing, an_synthesized_tool_index = None, an_other_tool_fired = False, an_terminal_emitted = False\<rparr>"

definition finish_or_error :: "message_translator \<Rightarrow> string \<Rightarrow> model_error + model_event" where
  "finish_or_error t reason =
     (if reason = ''end_turn'' \<or> reason = ''stop_sequence'' then Ok (MFinish Stop)
      else if reason = ''max_tokens'' then Ok (MFinish Length)
      else if reason = ''tool_use'' then
        (if an_synthesizing_output t \<and> \<not> an_other_tool_fired t then Ok (MFinish Stop)
         else if an_synthesizing_output t \<and> an_other_tool_fired t
           then Err (ModelOther ''structured output: model fired both a real tool and the synthesized output tool'')
         else Ok (MFinish ToolCalls))
      else if reason = ''refusal'' then Err (Refused ''model refused'')
      else Ok (MFinish (OtherReason reason)))"

definition anthropic_delta :: "message_translator \<Rightarrow> u32 \<Rightarrow> content_block_delta
    \<Rightarrow> message_translator \<times> (model_error + (model_error + model_event) list)" where
  "anthropic_delta t index delta =
     (case delta of
        BlockTextDelta text \<Rightarrow> (t, Ok [Ok (MTokenDelta text)])
      | BlockThinkingDelta thinking \<Rightarrow> (t, Ok [Ok (MReasoningDelta thinking)])
      | BlockSignatureDelta _ \<Rightarrow> (t, Ok [])
      | InputJsonDelta partial_json \<Rightarrow>
          (if Some index = an_synthesized_tool_index t then (t, Ok [Ok (MTokenDelta partial_json)])
           else (case an_blocks t index of
               Some (BlockToolUse call_id nm emitted) \<Rightarrow>
                 (t\<lparr>an_blocks := (an_blocks t)(index \<mapsto> BlockToolUse call_id nm True)\<rparr>,
                  Ok [Ok (MToolCallDelta call_id (if emitted then None else Some nm) partial_json)])
             | _ \<Rightarrow> (t, Err (Transport (''anthropic stream: input_json_delta at index '' @ show_u32 index
                 @ '' has no preceding tool_use content_block_start''))))))"

definition anthropic_consume :: "message_translator \<Rightarrow> anthropic_event \<Rightarrow> message_translator \<times> (model_error + (model_error + model_event) list)" where
  "anthropic_consume t event =
     (case event of
        MessageStart tokens_in cached \<Rightarrow>
          (t\<lparr>an_last_input_tokens := tokens_in, an_last_cached_input_tokens := cached\<rparr>, Ok [Ok (MUsage tokens_in 0 cached None)])
      | ContentBlockStart index head \<Rightarrow>
          (case head of
             HeadText \<Rightarrow> (t\<lparr>an_blocks := (an_blocks t)(index \<mapsto> BlockText)\<rparr>, Ok [])
           | HeadThinking \<Rightarrow> (t\<lparr>an_blocks := (an_blocks t)(index \<mapsto> BlockThinking)\<rparr>, Ok [])
           | HeadToolUse i nm \<Rightarrow>
               (let t = (if an_synthesizing_output t \<and> nm = SYNTHESIZED_TOOL_NAME then t\<lparr>an_synthesized_tool_index := Some index\<rparr>
                         else t\<lparr>an_other_tool_fired := True\<rparr>)
                in (t\<lparr>an_blocks := (an_blocks t)(index \<mapsto> BlockToolUse i nm False)\<rparr>, Ok [])))
      | ContentBlockDelta index delta \<Rightarrow> anthropic_delta t index delta
      | ContentBlockStop _ \<Rightarrow> (t, Ok [])
      | MessageDelta stop_reason usage \<Rightarrow>
          (let out = (if \<not> an_terminal_emitted t then
                 (case usage of Some tokens_out \<Rightarrow> [Ok (MUsage (an_last_input_tokens t) tokens_out (an_last_cached_input_tokens t) None)] | None \<Rightarrow> [])
               else [])
           in (case stop_reason of Some reason \<Rightarrow> t\<lparr>an_stop_reason := Some reason\<rparr> | None \<Rightarrow> t, Ok out))
      | MessageStop \<Rightarrow>
          (case an_stop_reason t of
             Some reason \<Rightarrow>
               (let t = t\<lparr>an_stop_reason := None\<rparr>
                in if \<not> an_terminal_emitted t then (t\<lparr>an_terminal_emitted := True\<rparr>, Ok [finish_or_error t reason]) else (t, Ok []))
           | None \<Rightarrow> (t, Ok []))
      | Ping \<Rightarrow> (t, Ok [])
      | AnthropicError ty message \<Rightarrow> (t, Err (map_error_type None ty message None)))"

definition message_translator_finish :: "message_translator \<Rightarrow> (model_error + model_event) option" where
  "message_translator_finish t =
     (if an_terminal_emitted t then None else map_option (finish_or_error t) (an_stop_reason t))"

section \<open>The event loop\<close>

text \<open>
  What each wait of the loop takes: the fired token, a transport error, or the data of one event; the end of the list is the
  end of the body. The parser of event data is a parameter.
\<close>

datatype anthropic_poll = PollCancelled | PollError string | PollEvent string

fun anthropic_loop :: "(string \<Rightarrow> anthropic_event option) \<Rightarrow> message_translator \<Rightarrow> anthropic_poll list \<Rightarrow> (model_error + model_event) list" where
  "anthropic_loop parse t [] = (case message_translator_finish t of Some terminal \<Rightarrow> [terminal] | None \<Rightarrow> [])"
| "anthropic_loop parse t (PollCancelled # ps) = []"
| "anthropic_loop parse t (PollError e # ps) = [Err (Transport e)]"
| "anthropic_loop parse t (PollEvent data # ps) =
     (case parse data of
        None \<Rightarrow> anthropic_loop parse t ps
      | Some event \<Rightarrow>
          (case anthropic_consume t event of
             (t', Inl e) \<Rightarrow> [Err e]
           | (t', Inr events) \<Rightarrow> events @ anthropic_loop parse t' ps))"

text \<open>A reply: its status, its \<open>retry-after\<close> header, its body and the waits of its event stream.\<close>

record anthropic_reply =
  ar_status :: u16
  ar_retry_after :: "string option"
  ar_body :: string
  ar_polls :: "anthropic_poll list"

datatype anthropic_send = SendCancelled | SendFailed string | SendReply anthropic_reply

record anthropic_ext =
  ax_from_slice :: "string \<Rightarrow> json option"
  ax_lossy :: "string \<Rightarrow> string"
  ax_event :: "string \<Rightarrow> anthropic_event option"

definition anthropic_stream :: "anthropic_ext \<Rightarrow> bool \<Rightarrow> anthropic_send \<Rightarrow> (model_error + model_event) list" where
  "anthropic_stream X synthesizing send =
     (case send of
        SendCancelled \<Rightarrow> []
      | SendFailed e \<Rightarrow> [Err (Transport e)]
      | SendReply r \<Rightarrow>
          (if \<not> is_success (ar_status r) then
             (let (ty, message) = (case ax_from_slice X (ar_body r) of
                  Some v \<Rightarrow> (unwrap_or [] (Option.bind (json_get ''error'' v) (json_str_field ''type'')),
                    unwrap_or [] (Option.bind (json_get ''error'' v) (json_str_field ''message'')))
                | None \<Rightarrow> ([], ax_lossy X (ar_body r)))
              in [Err (map_error_type (Some (ar_status r)) ty message (anthropic_retry_after_ms (ar_retry_after r)))])
           else anthropic_loop (ax_event X) (message_translator_new synthesizing) (ar_polls r)))"

section \<open>One terminal event\<close>

definition is_terminal_item :: "model_error + model_event \<Rightarrow> bool" where
  "is_terminal_item x = (case x of Inl _ \<Rightarrow> True | Inr (MFinish _) \<Rightarrow> True | Inr _ \<Rightarrow> False)"

definition event_reason :: "anthropic_event \<Rightarrow> string option" where
  "event_reason event = (case event of MessageDelta reason _ \<Rightarrow> reason | _ \<Rightarrow> None)"

text \<open>No event of the stream is an error or argument text outside a tool block: the translator accepts every one.\<close>

fun anthropic_accepts :: "message_translator \<Rightarrow> anthropic_event list \<Rightarrow> bool" where
  "anthropic_accepts t [] = True"
| "anthropic_accepts t (event # events) =
     (case anthropic_consume t event of (t', Inl _) \<Rightarrow> False | (t', Inr _) \<Rightarrow> anthropic_accepts t' events)"

lemma finish_or_error_terminal [simp]: "is_terminal_item (finish_or_error t reason)"
  by (simp add: finish_or_error_def is_terminal_item_def)

lemma is_terminal_item_simps [simp]:
  "is_terminal_item (Inl e)" "\<not> is_terminal_item (Inr (MTokenDelta text))" "\<not> is_terminal_item (Inr (MReasoningDelta text))"
  "\<not> is_terminal_item (Inr (MToolCallDelta i nm d))" "\<not> is_terminal_item (Inr (MUsage a b c u))" "is_terminal_item (Inr (MFinish r))"
  by (simp_all add: is_terminal_item_def)

lemma anthropic_delta_keeps:
  assumes "anthropic_delta t index delta = (t', Inr out)"
  shows "an_terminal_emitted t' = an_terminal_emitted t \<and> an_stop_reason t' = an_stop_reason t \<and> filter is_terminal_item out = []"
  using assms by (auto simp: anthropic_delta_def split: content_block_delta.splits option.splits block_state.splits if_splits)

text \<open>What one event does to the pending stop reason and to the terminal flag.\<close>

lemma anthropic_consume_terminal:
  assumes "anthropic_consume t event = (t', Inr out)"
  shows "length (filter is_terminal_item out) = (if an_terminal_emitted t' \<and> \<not> an_terminal_emitted t then 1 else 0)
    \<and> (an_terminal_emitted t \<longrightarrow> an_terminal_emitted t')
    \<and> (\<not> an_terminal_emitted t' \<longrightarrow> (an_stop_reason t' \<noteq> None) = (an_stop_reason t \<noteq> None \<or> event_reason event \<noteq> None))
    \<and> (\<not> an_terminal_emitted t \<and> an_terminal_emitted t' \<longrightarrow> an_stop_reason t \<noteq> None)"
proof (cases event)
  case (ContentBlockStart i h)
  then show ?thesis using assms by (cases h) (auto simp: anthropic_consume_def event_reason_def Let_def split: if_splits)
next
  case (ContentBlockDelta i d)
  then show ?thesis using assms anthropic_delta_keeps [of t i d t' out] by (simp add: anthropic_consume_def event_reason_def)
next
  case (MessageDelta r u)
  then show ?thesis using assms by (cases r; cases u) (auto simp: anthropic_consume_def event_reason_def Let_def split: if_splits)
next
  case MessageStop
  then show ?thesis using assms by (cases "an_stop_reason t") (auto simp: anthropic_consume_def event_reason_def Let_def split: if_splits)
qed (use assms in \<open>auto simp: anthropic_consume_def event_reason_def\<close>)

lemma anthropic_loop_terminal:
  assumes "map parse ds = map Some events" and "anthropic_accepts t events"
  shows "length (filter is_terminal_item (anthropic_loop parse t (map PollEvent ds))) =
    (if an_terminal_emitted t then 0 else if an_stop_reason t \<noteq> None \<or> (\<exists>e\<in>set events. event_reason e \<noteq> None) then 1 else 0)"
  using assms
proof (induction events arbitrary: t ds)
  case Nil
  then show ?case by (auto simp: message_translator_finish_def)
next
  case (Cons event events)
  then obtain d ds' where ds: "ds = d # ds'" "parse d = Some event" "map parse ds' = map Some events"
    by (cases ds) auto
  from Cons.prems(2) obtain t' out where c: "anthropic_consume t event = (t', Inr out)" "anthropic_accepts t' events"
    by (auto split: prod.splits sum.splits)
  note step = anthropic_consume_terminal [OF c(1)]
  from Cons.IH [OF ds(3) c(2)] ds(1,2) c(1) step show ?case by auto
qed

section \<open>Messages\<close>

text \<open>A message as the service streams it: content blocks with the fragments of their text, one after the other.\<close>

datatype message_block = TextBlk "string list" | ThinkBlk "string list" | ToolBlk string string "string list"

fun block_events :: "u32 \<Rightarrow> message_block \<Rightarrow> anthropic_event list" where
  "block_events i (TextBlk ts) = ContentBlockStart i HeadText # map (\<lambda>s. ContentBlockDelta i (BlockTextDelta s)) ts @ [ContentBlockStop i]"
| "block_events i (ThinkBlk ts) = ContentBlockStart i HeadThinking # map (\<lambda>s. ContentBlockDelta i (BlockThinkingDelta s)) ts @ [ContentBlockStop i]"
| "block_events i (ToolBlk c nm ts) = ContentBlockStart i (HeadToolUse c nm) # map (\<lambda>s. ContentBlockDelta i (InputJsonDelta s)) ts @ [ContentBlockStop i]"

fun blocks_events :: "nat \<Rightarrow> message_block list \<Rightarrow> anthropic_event list" where
  "blocks_events n [] = []"
| "blocks_events n (b # bs) = block_events (word_of_nat n) b @ blocks_events (Suc n) bs"

definition message_events :: "u32 \<Rightarrow> u32 option \<Rightarrow> message_block list \<Rightarrow> string \<Rightarrow> u32 \<Rightarrow> anthropic_event list" where
  "message_events tokens_in cached bs reason tokens_out =
     MessageStart tokens_in cached # blocks_events 0 bs @ [MessageDelta (Some reason) (Some tokens_out), MessageStop]"

definition is_synthesized :: "bool \<Rightarrow> message_block \<Rightarrow> bool" where
  "is_synthesized synthesizing b = (case b of ToolBlk c nm ts \<Rightarrow> synthesizing \<and> nm = SYNTHESIZED_TOOL_NAME | _ \<Rightarrow> False)"

definition is_real_tool :: "bool \<Rightarrow> message_block \<Rightarrow> bool" where
  "is_real_tool synthesizing b = (case b of ToolBlk c nm ts \<Rightarrow> \<not> (synthesizing \<and> nm = SYNTHESIZED_TOOL_NAME) | _ \<Rightarrow> False)"

definition tool_deltas :: "string \<Rightarrow> string \<Rightarrow> string list \<Rightarrow> model_event list" where
  "tool_deltas c nm ts = (case ts of [] \<Rightarrow> [] | s # ss \<Rightarrow> MToolCallDelta c (Some nm) s # map (MToolCallDelta c None) ss)"

definition block_model_events :: "bool \<Rightarrow> message_block \<Rightarrow> model_event list" where
  "block_model_events synthesizing b =
     (case b of
        TextBlk ts \<Rightarrow> map MTokenDelta ts
      | ThinkBlk ts \<Rightarrow> map MReasoningDelta ts
      | ToolBlk c nm ts \<Rightarrow> if is_synthesized synthesizing b then map MTokenDelta ts else tool_deltas c nm ts)"

text \<open>The translator along a list of accepted events: its last state and what it emitted.\<close>

fun anthropic_consume_all :: "message_translator \<Rightarrow> anthropic_event list \<Rightarrow> (message_translator \<times> (model_error + model_event) list) option" where
  "anthropic_consume_all t [] = Some (t, [])"
| "anthropic_consume_all t (event # events) =
     (case anthropic_consume t event of
        (t', Inl _) \<Rightarrow> None
      | (t', Inr out) \<Rightarrow> map_option (\<lambda>(u, rest). (u, out @ rest)) (anthropic_consume_all t' events))"

lemma anthropic_consume_all_append:
  "anthropic_consume_all t (xs @ ys) = (case anthropic_consume_all t xs of None \<Rightarrow> None
     | Some (u, out) \<Rightarrow> map_option (\<lambda>(v, rest). (v, out @ rest)) (anthropic_consume_all u ys))"
  by (induction xs arbitrary: t) (auto simp: map_option_case split: prod.splits sum.splits option.splits)

lemma anthropic_loop_consume_all:
  assumes "map parse ds = map Some events" and "anthropic_consume_all t events = Some (u, out)"
  shows "anthropic_loop parse t (map PollEvent ds @ ps) = out @ anthropic_loop parse u ps"
  using assms
proof (induction events arbitrary: t ds out)
  case (Cons event events)
  then obtain d ds' where ds: "ds = d # ds'" "parse d = Some event" "map parse ds' = map Some events"
    by (cases ds) auto
  from Cons.prems(2) obtain t' o1 o2 where c: "anthropic_consume t event = (t', Inr o1)" "anthropic_consume_all t' events = Some (u, o2)" "out = o1 @ o2"
    by (auto split: prod.splits sum.splits)
  with ds Cons.IH [OF ds(3) c(2)] show ?case by simp
qed simp

lemma consume_text_deltas:
  "anthropic_consume_all t (map (\<lambda>s. ContentBlockDelta i (BlockTextDelta s)) ts) = Some (t, map (\<lambda>s. Ok (MTokenDelta s)) ts)"
  by (induction ts) (simp_all add: anthropic_consume_def anthropic_delta_def)

lemma consume_thinking_deltas:
  "anthropic_consume_all t (map (\<lambda>s. ContentBlockDelta i (BlockThinkingDelta s)) ts) = Some (t, map (\<lambda>s. Ok (MReasoningDelta s)) ts)"
  by (induction ts) (simp_all add: anthropic_consume_def anthropic_delta_def)

lemma consume_synthesized_deltas:
  "an_synthesized_tool_index t = Some i
   \<Longrightarrow> anthropic_consume_all t (map (\<lambda>s. ContentBlockDelta i (InputJsonDelta s)) ts) = Some (t, map (\<lambda>s. Ok (MTokenDelta s)) ts)"
  by (induction ts) (simp_all add: anthropic_consume_def anthropic_delta_def)

lemma consume_named_deltas:
  assumes "an_synthesized_tool_index t \<noteq> Some i" and "an_blocks t i = Some (BlockToolUse c nm True)"
  shows "anthropic_consume_all t (map (\<lambda>s. ContentBlockDelta i (InputJsonDelta s)) ts) = Some (t, map (\<lambda>s. Ok (MToolCallDelta c None s)) ts)"
proof -
  have "t\<lparr>an_blocks := (an_blocks t)(i \<mapsto> BlockToolUse c nm True)\<rparr> = t"
    using assms(2) by (simp add: fun_upd_idem)
  then show ?thesis using assms
    by (induction ts) (auto simp: anthropic_consume_def anthropic_delta_def)
qed

lemma consume_tool_deltas:
  assumes "an_synthesized_tool_index t \<noteq> Some i" and "an_blocks t i = Some (BlockToolUse c nm False)"
  obtains bs where "anthropic_consume_all t (map (\<lambda>s. ContentBlockDelta i (InputJsonDelta s)) ts) = Some (t\<lparr>an_blocks := bs\<rparr>, map Ok (tool_deltas c nm ts))"
proof (cases ts)
  case Nil
  then show ?thesis using that [of "an_blocks t"] by (simp add: tool_deltas_def)
next
  case (Cons s ss)
  let ?t = "t\<lparr>an_blocks := (an_blocks t)(i \<mapsto> BlockToolUse c nm True)\<rparr>"
  have "anthropic_consume_all ?t (map (\<lambda>s. ContentBlockDelta i (InputJsonDelta s)) ss) = Some (?t, map (\<lambda>s. Ok (MToolCallDelta c None s)) ss)"
    using assms by (intro consume_named_deltas) simp_all
  then show ?thesis using that [of "(an_blocks t)(i \<mapsto> BlockToolUse c nm True)"] assms Cons
    by (simp add: tool_deltas_def anthropic_consume_def anthropic_delta_def eq_commute [of "Some i"])
qed

text \<open>One block is translated on its own, whatever the blocks before it left.\<close>

lemma consume_block:
  assumes "an_synthesized_tool_index t \<noteq> Some i" and "an_synthesizing_output t = syn"
  obtains bs where "anthropic_consume_all t (block_events i b) =
    Some (t\<lparr>an_blocks := bs, an_synthesized_tool_index := (if is_synthesized syn b then Some i else an_synthesized_tool_index t),
           an_other_tool_fired := (an_other_tool_fired t \<or> is_real_tool syn b)\<rparr>, map Ok (block_model_events syn b))"
proof (cases b)
  case (TextBlk ts)
  then show ?thesis using that [of "(an_blocks t)(i \<mapsto> BlockText)"]
    by (simp add: anthropic_consume_all_append consume_text_deltas anthropic_consume_def block_model_events_def is_synthesized_def is_real_tool_def)
next
  case (ThinkBlk ts)
  then show ?thesis using that [of "(an_blocks t)(i \<mapsto> BlockThinking)"]
    by (simp add: anthropic_consume_all_append consume_thinking_deltas anthropic_consume_def block_model_events_def is_synthesized_def is_real_tool_def)
next
  case (ToolBlk c nm ts)
  show ?thesis
  proof (cases "is_synthesized syn b")
    case True
    then show ?thesis using that [of "(an_blocks t)(i \<mapsto> BlockToolUse c nm False)"] ToolBlk assms
      by (simp add: anthropic_consume_all_append consume_synthesized_deltas anthropic_consume_def block_model_events_def is_synthesized_def
          is_real_tool_def Let_def)
  next
    case False
    let ?t = "t\<lparr>an_blocks := (an_blocks t)(i \<mapsto> BlockToolUse c nm False), an_other_tool_fired := True\<rparr>"
    from False ToolBlk assms(2) have start: "anthropic_consume t (ContentBlockStart i (HeadToolUse c nm)) = (?t, Inr [])"
      by (auto simp: anthropic_consume_def is_synthesized_def Let_def)
    have "an_synthesized_tool_index ?t \<noteq> Some i" "an_blocks ?t i = Some (BlockToolUse c nm False)"
      using assms(1) by simp_all
    then obtain bs where "anthropic_consume_all ?t (map (\<lambda>s. ContentBlockDelta i (InputJsonDelta s)) ts) = Some (?t\<lparr>an_blocks := bs\<rparr>, map Ok (tool_deltas c nm ts))"
      by (rule consume_tool_deltas)
    moreover have "?t\<lparr>an_blocks := bs\<rparr> = t\<lparr>an_blocks := bs, an_other_tool_fired := True\<rparr>" by simp
    ultimately have "anthropic_consume_all ?t (map (\<lambda>s. ContentBlockDelta i (InputJsonDelta s)) ts) =
      Some (t\<lparr>an_blocks := bs, an_other_tool_fired := True\<rparr>, map Ok (tool_deltas c nm ts))" by (simp only:)
    moreover have "anthropic_consume u (ContentBlockStop i) = (u, Inr [])" for u by (simp add: anthropic_consume_def)
    moreover have "is_real_tool syn b" "block_model_events syn b = tool_deltas c nm ts"
      using False ToolBlk by (auto simp: is_real_tool_def is_synthesized_def block_model_events_def)
    ultimately show ?thesis using that [of bs] False start by (simp add: ToolBlk anthropic_consume_all_append)
  qed
qed

lemma consume_blocks:
  assumes "n + length bs \<le> 2 ^ 32" and "\<forall>j. an_synthesized_tool_index t = Some j \<longrightarrow> unat j < n" and "an_synthesizing_output t = syn"
  shows "\<exists>m k. anthropic_consume_all t (blocks_events n bs) =
    Some (t\<lparr>an_blocks := m, an_synthesized_tool_index := k, an_other_tool_fired := (an_other_tool_fired t \<or> list_ex (is_real_tool syn) bs)\<rparr>,
          map Ok (concat (map (block_model_events syn) bs)))"
  using assms
proof (induction bs arbitrary: n t)
  case Nil
  show ?case by (intro exI [of _ "an_blocks t"] exI [of _ "an_synthesized_tool_index t"]) simp
next
  case (Cons b bs)
  let ?i = "word_of_nat n :: u32"
  have i: "unat ?i = n" using Cons.prems(1) by (simp add: unat_of_nat take_bit_nat_eq_self)
  with Cons.prems(2) have "an_synthesized_tool_index t \<noteq> Some ?i" by auto
  from this Cons.prems(3) obtain m where blk: "anthropic_consume_all t (block_events ?i b) =
    Some (t\<lparr>an_blocks := m, an_synthesized_tool_index := (if is_synthesized syn b then Some ?i else an_synthesized_tool_index t),
           an_other_tool_fired := (an_other_tool_fired t \<or> is_real_tool syn b)\<rparr>, map Ok (block_model_events syn b))" (is "_ = Some (?u, _)")
    by (rule consume_block)
  have "\<exists>m k. anthropic_consume_all ?u (blocks_events (Suc n) bs) =
    Some (?u\<lparr>an_blocks := m, an_synthesized_tool_index := k, an_other_tool_fired := (an_other_tool_fired ?u \<or> list_ex (is_real_tool syn) bs)\<rparr>,
          map Ok (concat (map (block_model_events syn) bs)))"
    using Cons.prems i by (intro Cons.IH) (auto split: if_splits simp: less_Suc_eq)
  then show ?case using blk by (auto simp: anthropic_consume_all_append)
qed

definition message_end :: "bool \<Rightarrow> message_block list \<Rightarrow> string \<Rightarrow> model_error + model_event" where
  "message_end syn bs reason = finish_or_error ((message_translator_new syn)\<lparr>an_other_tool_fired := list_ex (is_real_tool syn) bs\<rparr>) reason"

lemma finish_or_error_cong:
  "an_synthesizing_output t = an_synthesizing_output u \<Longrightarrow> an_other_tool_fired t = an_other_tool_fired u \<Longrightarrow> finish_or_error t reason = finish_or_error u reason"
  by (simp add: finish_or_error_def)

lemma consume_message:
  assumes "length bs \<le> 2 ^ 32"
  shows "\<exists>u. anthropic_consume_all (message_translator_new syn) (message_events tokens_in cached bs reason tokens_out) =
    Some (u, Ok (MUsage tokens_in 0 cached None) # map Ok (concat (map (block_model_events syn) bs))
             @ [Ok (MUsage tokens_in tokens_out cached None), message_end syn bs reason]) \<and> an_terminal_emitted u"
proof -
  let ?t = "(message_translator_new syn)\<lparr>an_last_input_tokens := tokens_in, an_last_cached_input_tokens := cached\<rparr>"
  have "\<exists>m k. anthropic_consume_all ?t (blocks_events 0 bs) =
    Some (?t\<lparr>an_blocks := m, an_synthesized_tool_index := k, an_other_tool_fired := (an_other_tool_fired ?t \<or> list_ex (is_real_tool syn) bs)\<rparr>,
          map Ok (concat (map (block_model_events syn) bs)))"
    using assms by (intro consume_blocks) (simp_all add: message_translator_new_def)
  then obtain m k where blks: "anthropic_consume_all ?t (blocks_events 0 bs) =
    Some (?t\<lparr>an_blocks := m, an_synthesized_tool_index := k, an_other_tool_fired := (an_other_tool_fired ?t \<or> list_ex (is_real_tool syn) bs)\<rparr>,
          map Ok (concat (map (block_model_events syn) bs)))" by blast
  have start: "anthropic_consume (message_translator_new syn) (MessageStart tokens_in cached) = (?t, Inr [Ok (MUsage tokens_in 0 cached None)])"
    by (simp add: anthropic_consume_def)
  define u where "u = ?t\<lparr>an_blocks := m, an_synthesized_tool_index := k, an_other_tool_fired := (an_other_tool_fired ?t \<or> list_ex (is_real_tool syn) bs)\<rparr>"
  have stop: "anthropic_consume_all u [MessageDelta (Some reason) (Some tokens_out), MessageStop] =
    Some (u\<lparr>an_terminal_emitted := True\<rparr>, [Ok (MUsage tokens_in tokens_out cached None), message_end syn bs reason])"
    by (simp add: u_def anthropic_consume_def message_translator_new_def message_end_def Let_def) (simp add: finish_or_error_def)
  have "anthropic_consume_all ?t (blocks_events 0 bs @ [MessageDelta (Some reason) (Some tokens_out), MessageStop]) =
    Some (u\<lparr>an_terminal_emitted := True\<rparr>, map Ok (concat (map (block_model_events syn) bs))
      @ [Ok (MUsage tokens_in tokens_out cached None), message_end syn bs reason])"
    unfolding anthropic_consume_all_append blks [folded u_def] by (simp only: stop option.case prod.case option.map)
  then show ?thesis
    unfolding message_events_def anthropic_consume_all.simps start by simp
qed

section \<open>The turn a message becomes\<close>

definition block_text :: "bool \<Rightarrow> message_block \<Rightarrow> string" where
  "block_text syn b = (case b of TextBlk ts \<Rightarrow> concat ts | ThinkBlk ts \<Rightarrow> []
     | ToolBlk c nm ts \<Rightarrow> if is_synthesized syn b then concat ts else [])"

definition block_thinking :: "message_block \<Rightarrow> string" where
  "block_thinking b = (case b of ThinkBlk ts \<Rightarrow> concat ts | _ \<Rightarrow> [])"

definition block_call :: "message_block \<Rightarrow> string" where
  "block_call b = (case b of ToolBlk c nm ts \<Rightarrow> c | _ \<Rightarrow> [])"

lemma text_of_append: "text_of (xs @ ys) = text_of xs @ text_of ys" and text_of_Nil: "text_of [] = []"
  by (simp_all add: text_of_def)

lemma reasoning_of_append: "reasoning_of (xs @ ys) = reasoning_of xs @ reasoning_of ys" and reasoning_of_Nil: "reasoning_of [] = []"
  by (simp_all add: reasoning_of_def)

lemma deltas_of_append: "deltas_of c (xs @ ys) = deltas_of c xs @ deltas_of c ys" and deltas_of_Nil: "deltas_of c [] = []"
  by (simp_all add: deltas_of_def map_filter_def)

lemma reports_silent:
  "text_of (MUsage i k u r # evs) = text_of evs" "reasoning_of (MUsage i k u r # evs) = reasoning_of evs"
  "deltas_of c (MUsage i k u r # evs) = deltas_of c evs" "text_of [MFinish fr] = []" "reasoning_of [MFinish fr] = []" "deltas_of c [MFinish fr] = []"
  by (simp_all add: text_of_def reasoning_of_def deltas_of_def map_filter_def)

lemma text_of_singles:
  "text_of (map MTokenDelta ts) = concat ts" "text_of (map MReasoningDelta ts) = []" "text_of (map (MToolCallDelta c nm) ts) = []"
  by (induction ts) (simp_all add: text_of_def)

lemma reasoning_of_singles:
  "reasoning_of (map MTokenDelta ts) = []" "reasoning_of (map MReasoningDelta ts) = concat ts" "reasoning_of (map (MToolCallDelta c nm) ts) = []"
  by (induction ts) (simp_all add: reasoning_of_def)

lemma deltas_of_singles:
  "deltas_of c (map MTokenDelta ts) = []" "deltas_of c (map MReasoningDelta ts) = []"
  "deltas_of c (map (MToolCallDelta c' nm) ts) = (if c' = c then map (\<lambda>s. (nm, s)) ts else [])"
  by (induction ts) (simp_all add: deltas_of_def map_filter_def)

lemma text_of_tool: "text_of (tool_deltas c nm ts) = []" "reasoning_of (tool_deltas c nm ts) = []"
  by (cases ts; simp add: tool_deltas_def text_of_def reasoning_of_def)+

lemma text_of_block: "text_of (block_model_events syn b) = block_text syn b"
  by (cases b) (simp_all add: block_model_events_def block_text_def text_of_singles text_of_tool)

lemma reasoning_of_block: "reasoning_of (block_model_events syn b) = block_thinking b"
  by (cases b) (simp_all add: block_model_events_def block_thinking_def reasoning_of_singles text_of_tool)

lemma deltas_of_tool: "deltas_of c (tool_deltas c' nm ts) = (if c' = c then (case ts of [] \<Rightarrow> [] | s # ss \<Rightarrow> (Some nm, s) # map (\<lambda>s. (None, s)) ss) else [])"
  using deltas_of_append [of c "[MToolCallDelta c' (Some nm) (hd ts)]" "map (MToolCallDelta c' None) (tl ts)"]
  by (cases ts) (auto simp: tool_deltas_def deltas_of_singles deltas_of_Nil, simp_all add: deltas_of_def map_filter_def)

lemma deltas_of_block_other:
  assumes "\<not> (is_real_tool syn b \<and> block_call b = c)"
  shows "deltas_of c (block_model_events syn b) = []"
  using assms by (cases b) (auto simp: block_model_events_def block_call_def is_real_tool_def is_synthesized_def deltas_of_singles deltas_of_tool)

lemma text_of_concat: "text_of (concat (map f bs)) = concat (map (\<lambda>b. text_of (f b)) bs)"
  by (induction bs) (simp_all add: text_of_append text_of_Nil)

lemma reasoning_of_concat: "reasoning_of (concat (map f bs)) = concat (map (\<lambda>b. reasoning_of (f b)) bs)"
  by (induction bs) (simp_all add: reasoning_of_append reasoning_of_Nil)

lemma deltas_of_concat: "deltas_of c (concat (map f bs)) = concat (map (\<lambda>b. deltas_of c (f b)) bs)"
  by (induction bs) (simp_all add: deltas_of_append deltas_of_Nil)

text \<open>With distinct call ids, the fragments of a call are those of its block.\<close>

lemma deltas_of_message:
  assumes "distinct (map block_call (filter (is_real_tool syn) bs))" and "b \<in> set bs" and "is_real_tool syn b"
  shows "deltas_of (block_call b) (concat (map (block_model_events syn) bs)) = deltas_of (block_call b) (block_model_events syn b)"
  using assms
proof (induction bs)
  case (Cons a bs)
  have rest: "deltas_of (block_call b) (concat (map (block_model_events syn) bs)) = []"
    if "\<forall>b'\<in>set bs. \<not> (is_real_tool syn b' \<and> block_call b' = block_call b)"
    using that by (simp add: deltas_of_concat deltas_of_block_other)
  show ?case
  proof (cases "a = b")
    case True
    with Cons.prems have "\<forall>b'\<in>set bs. \<not> (is_real_tool syn b' \<and> block_call b' = block_call b)" by (auto simp: image_iff)
    with True rest show ?thesis by (simp add: deltas_of_append)
  next
    case False
    with Cons.prems have "b \<in> set bs" by simp
    with Cons.prems have "\<not> (is_real_tool syn a \<and> block_call a = block_call b)"
      by (auto simp: image_iff)
    with Cons \<open>b \<in> set bs\<close> show ?thesis by (simp add: deltas_of_append deltas_of_block_other split: if_splits)
  qed
qed simp

lemma call_of_block_deltas:
  assumes "deltas_of c evs = deltas_of c (tool_deltas c nm ts)"
  shows "call_of c evs = (if ts = [] then None else Some \<lparr>ta_name = Some nm, ta_args_str = concat ts\<rparr>)"
  using assms by (cases ts) (auto simp: call_of_def deltas_of_tool comp_def)

lemma last_reports:
  "last_usage (xs @ [MUsage i out c r, MFinish fr]) = Some (usage_snapshot i out c r)"
  "last_finish (xs @ [MUsage i out c r, MFinish fr]) = Some fr"
  by (simp_all add: last_usage_def last_finish_def)

text \<open>The turn of a message, block by block.\<close>

lemma anthropic_turn:
  assumes "ar_status r = 200" and "ar_polls r = map PollEvent ds"
    and "map (ax_event X) ds = map Some (message_events tokens_in cached bs reason tokens_out)"
    and "length bs \<le> 2 ^ 32" and "distinct (map block_call (filter (is_real_tool syn) bs))"
    and "message_end syn bs reason = Ok (MFinish fr)"
  shows "\<exists>evs. anthropic_stream X syn (SendReply r) = map Ok evs
    \<and> text_of evs = concat (map (block_text syn) bs) \<and> reasoning_of evs = concat (map block_thinking bs)
    \<and> (\<forall>c nm ts. ToolBlk c nm ts \<in> set bs \<and> is_real_tool syn (ToolBlk c nm ts)
         \<longrightarrow> call_of c evs = (if ts = [] then None else Some \<lparr>ta_name = Some nm, ta_args_str = concat ts\<rparr>))
    \<and> last_usage evs = Some (usage_snapshot tokens_in tokens_out cached None) \<and> last_finish evs = Some fr"
proof -
  let ?mid = "concat (map (block_model_events syn) bs)"
  let ?evs = "MUsage tokens_in 0 cached None # ?mid @ [MUsage tokens_in tokens_out cached None, MFinish fr]"
  from consume_message [OF assms(4), of syn tokens_in cached reason tokens_out] assms(6) obtain u
    where u: "anthropic_consume_all (message_translator_new syn) (message_events tokens_in cached bs reason tokens_out) = Some (u, map Ok ?evs)"
      "an_terminal_emitted u" by auto
  have inv: "anthropic_stream X syn (SendReply r) = map Ok ?evs"
    using anthropic_loop_consume_all [OF assms(3) u(1), of "[]"] u(2) assms(1,2) by (simp add: anthropic_stream_def is_success_def message_translator_finish_def)
  have deltas: "deltas_of c ?evs = deltas_of c ?mid" for c
    by (simp add: deltas_of_append reports_silent)
  have calls: "call_of c ?evs = (if ts = [] then None else Some \<lparr>ta_name = Some nm, ta_args_str = concat ts\<rparr>)"
    if "ToolBlk c nm ts \<in> set bs" "is_real_tool syn (ToolBlk c nm ts)" for c nm ts
    using deltas_of_message [OF assms(5) that] that(2)
    by (intro call_of_block_deltas) (auto simp: deltas block_call_def block_model_events_def is_real_tool_def is_synthesized_def)
  have "text_of ?evs = concat (map (block_text syn) bs)" "reasoning_of ?evs = concat (map block_thinking bs)"
    by (simp_all add: text_of_append reasoning_of_append text_of_concat reasoning_of_concat text_of_block reasoning_of_block reports_silent)
  then show ?thesis
    using inv calls last_reports [of "MUsage tokens_in 0 cached None # ?mid"] by (intro exI [of _ ?evs]) auto
qed

text \<open>
  One terminal event: on a reply whose events the translator accepts, read to a clean end of the body, the consumer sees
  exactly one finish or error when some event carried a stop reason, with or without \<open>message_stop\<close> and however many follow,
  and none when no event did.
\<close>

theorem anthropic_one_terminal:
  assumes "ar_status r = 200" and "ar_polls r = map PollEvent ds" and "map (ax_event X) ds = map Some events"
    and "anthropic_accepts (message_translator_new syn) events"
  shows "length (filter is_terminal_item (anthropic_stream X syn (SendReply r))) = (if \<exists>e\<in>set events. event_reason e \<noteq> None then 1 else 0)"
  using anthropic_loop_terminal [OF assms(3,4)] assms(1,2)
  by (auto simp: anthropic_stream_def is_success_def message_translator_new_def)

text \<open>A failed reply is one error, and a cancelled or refused request yields nothing else.\<close>

lemma anthropic_failed_reply:
  assumes "\<not> is_success (ar_status r)"
  shows "\<exists>e. anthropic_stream X syn (SendReply r) = [Err e]"
  using assms by (simp add: anthropic_stream_def split: prod.splits)

text \<open>An error event after the end of the message is a second terminal item.\<close>

lemma anthropic_error_after_finish:
  assumes "message_end syn bs reason = Ok (MFinish fr)" and "length bs \<le> 2 ^ 32"
    and "map parse ds = map Some (message_events i c bs reason out)" and "parse d = Some (AnthropicError ty msg)"
  shows "\<exists>xs. anthropic_loop parse (message_translator_new syn) (map PollEvent ds @ [PollEvent d]) =
    xs @ [Ok (MFinish fr), Err (map_error_type None ty msg None)]"
proof -
  from consume_message [OF assms(2), of syn i c reason out] obtain u where
    "anthropic_consume_all (message_translator_new syn) (message_events i c bs reason out) =
       Some (u, Ok (MUsage i 0 c None) # map Ok (concat (map (block_model_events syn) bs)) @ [Ok (MUsage i out c None), Ok (MFinish fr)])"
    using assms(1) by auto
  from anthropic_loop_consume_all [OF assms(3) this, of "[PollEvent d]"] show ?thesis
    using assms(4) by (auto simp: anthropic_consume_def)
qed

section \<open>Examples\<close>

definition demo_blocks :: "message_block list" where
  "demo_blocks = [ThinkBlk [''hm''], TextBlk [''Hel'', ''lo''], ToolBlk ''t1'' ''search'' [''{}'']]"

definition demo_reply_200 :: anthropic_reply where
  "demo_reply_200 = \<lparr>ar_status = 200, ar_retry_after = None, ar_body = [], ar_polls = map PollEvent [''0'', ''1'', ''2'', ''3'', ''4'', ''5'', ''6'', ''7'', ''8'', ''9'', ''10'', ''11'', ''12'']\<rparr>"

definition demo_anthropic :: anthropic_ext where
  "demo_anthropic = \<lparr>ax_from_slice = (\<lambda>_. None), ax_lossy = id,
     ax_event = map_of (zip [''0'', ''1'', ''2'', ''3'', ''4'', ''5'', ''6'', ''7'', ''8'', ''9'', ''10'', ''11'', ''12'']
       (message_events 7 None demo_blocks ''tool_use'' 3))\<rparr>"

lemma demo_events: "length (message_events 7 None demo_blocks ''tool_use'' 3) = 13"
  by (simp add: message_events_def demo_blocks_def)

lemma demo_parse:
  "map (ax_event demo_anthropic) [''0'', ''1'', ''2'', ''3'', ''4'', ''5'', ''6'', ''7'', ''8'', ''9'', ''10'', ''11'', ''12''] =
     map Some (message_events 7 None demo_blocks ''tool_use'' 3)"
  by (simp add: demo_anthropic_def message_events_def demo_blocks_def)

lemma demo_end: "message_end False demo_blocks ''tool_use'' = Ok (MFinish ToolCalls)"
  by (simp add: message_end_def finish_or_error_def message_translator_new_def)

lemma demo_accepts: "anthropic_accepts (message_translator_new False) (message_events 7 None demo_blocks ''tool_use'' 3)"
  by (simp add: message_events_def demo_blocks_def message_translator_new_def anthropic_consume_def anthropic_delta_def Let_def)

theorem anthropic_one_terminal_witness:
  "length (filter is_terminal_item (anthropic_stream demo_anthropic False (SendReply demo_reply_200))) = 1"
proof -
  have "\<exists>e\<in>set (message_events 7 None demo_blocks ''tool_use'' 3). event_reason e \<noteq> None"
    by (simp add: message_events_def event_reason_def)
  with anthropic_one_terminal [OF _ _ demo_parse demo_accepts, of demo_reply_200] show ?thesis
    by (auto simp: demo_reply_200_def)
qed

end
