(* ===== verification/Anthropic_Request.thy ===== *)
theory Anthropic_Request
  imports Anthropic_Stream
begin

text \<open>
  The request of the Messages API (\<open>translate/\<close>, \<open>http.rs\<close> and \<open>model.rs\<close> in \<open>providers-anthropic\<close>): the translation of
  a conversation into messages, of tools and structured output, the cache markers, the body, the headers and the invocation.
  Shown are that no block of either side is lost or reordered among its own side, that a conversation whose tool calls
  follow an assistant message is sent in its own order, and which requests are refused; a lemma shows the conversation
  in which a tool result is sent before its call.
\<close>

section \<open>Messages\<close>

record anthropic_message =
  am_role :: string
  am_content :: "json list"

definition message_value :: "anthropic_message \<Rightarrow> json" where
  "message_value m = JObject [(''content'', JArray (am_content m)), (''role'', JString (am_role m))]"

definition joined_text :: "content_part list \<Rightarrow> string" where
  "joined_text parts = foldl (\<lambda>s p. case p of Text t \<Rightarrow> (if s \<noteq> [] then s @ [CHR 0x0A] else s) @ t | _ \<Rightarrow> s) [] parts"

definition text_block :: "string \<Rightarrow> json" where
  "text_block t = JObject [(''text'', JString t), (''type'', JString ''text'')]"

definition tool_use_block :: "string \<Rightarrow> string \<Rightarrow> json \<Rightarrow> json" where
  "tool_use_block call_id nm args = JObject [(''id'', JString call_id), (''input'', args), (''name'', JString nm), (''type'', JString ''tool_use'')]"

definition tool_result_block :: "string \<Rightarrow> content_part list \<Rightarrow> json" where
  "tool_result_block call_id content =
     JObject [(''content'', JString (joined_text content)), (''tool_use_id'', JString call_id), (''type'', JString ''tool_result'')]"

definition image_block :: "media_source \<Rightarrow> json" where
  "image_block source =
     (case source of
        Url u \<Rightarrow> JObject [(''source'', JObject [(''type'', JString ''url''), (''url'', JString u)]), (''type'', JString ''image'')]
      | Base64 mime_type data \<Rightarrow>
          JObject [(''source'', JObject [(''data'', JString data), (''media_type'', JString mime_type), (''type'', JString ''base64'')]),
            (''type'', JString ''image'')])"

definition user_blocks :: "content_part list \<Rightarrow> json list" where
  "user_blocks content = List.map_filter (\<lambda>p. case p of
       Text t \<Rightarrow> Some (text_block t)
     | ToolResultPart call_id parts \<Rightarrow> Some (tool_result_block call_id parts)
     | Image source \<Rightarrow> Some (image_block source)
     | _ \<Rightarrow> None) content"

definition assistant_blocks :: "content_part list \<Rightarrow> json list" where
  "assistant_blocks content = List.map_filter (\<lambda>p. case p of
       Text t \<Rightarrow> Some (text_block t)
     | ToolUse call_id nm args \<Rightarrow> Some (tool_use_block call_id nm args)
     | _ \<Rightarrow> None) content"

text \<open>The accumulators of \<open>translate_messages\<close>.\<close>

record translate_state =
  ts_system_text :: string
  ts_messages :: "anthropic_message list"
  ts_tool_use :: "json list"
  ts_tool_results :: "json list"

definition flush_pending_assistant :: "translate_state \<Rightarrow> translate_state" where
  "flush_pending_assistant s =
     (if ts_tool_use s \<noteq> [] then s\<lparr>ts_messages := ts_messages s @ [\<lparr>am_role = ''assistant'', am_content = ts_tool_use s\<rparr>], ts_tool_use := []\<rparr> else s)"

definition flush_pending_user :: "translate_state \<Rightarrow> translate_state" where
  "flush_pending_user s =
     (if ts_tool_results s \<noteq> [] then s\<lparr>ts_messages := ts_messages s @ [\<lparr>am_role = ''user'', am_content = ts_tool_results s\<rparr>], ts_tool_results := []\<rparr> else s)"

definition push_tool_use :: "json \<Rightarrow> translate_state \<Rightarrow> translate_state" where
  "push_tool_use block s =
     (if ts_messages s \<noteq> [] \<and> am_role (last (ts_messages s)) = ''assistant''
      then s\<lparr>ts_messages := butlast (ts_messages s) @ [(last (ts_messages s))\<lparr>am_content := am_content (last (ts_messages s)) @ [block]\<rparr>]\<rparr>
      else s\<lparr>ts_tool_use := ts_tool_use s @ [block]\<rparr>)"

fun translate_item :: "translate_state \<Rightarrow> item \<Rightarrow> translate_state" where
  "translate_item s (System content) =
     (let s = flush_pending_user (flush_pending_assistant s)
      in s\<lparr>ts_system_text := (if ts_system_text s \<noteq> [] then ts_system_text s @ [CHR 0x0A] else ts_system_text s) @ joined_text content\<rparr>)"
| "translate_item s (UserMessage content) =
     (let s = flush_pending_assistant s
      in s\<lparr>ts_messages := ts_messages s @ [\<lparr>am_role = ''user'', am_content = ts_tool_results s @ user_blocks content\<rparr>], ts_tool_results := []\<rparr>)"
| "translate_item s (AssistantMessage content _) =
     (let s = flush_pending_assistant (flush_pending_user s)
      in s\<lparr>ts_messages := ts_messages s @ [\<lparr>am_role = ''assistant'', am_content = assistant_blocks content\<rparr>]\<rparr>)"
| "translate_item s (ToolCall call_id nm args) = push_tool_use (tool_use_block call_id nm args) s"
| "translate_item s (ToolResult call_id content) = s\<lparr>ts_tool_results := ts_tool_results s @ [tool_result_block call_id content]\<rparr>"

definition translate_start :: translate_state where
  "translate_start = \<lparr>ts_system_text = [], ts_messages = [], ts_tool_use = [], ts_tool_results = []\<rparr>"

definition translate_messages :: "item list \<Rightarrow> string option \<times> anthropic_message list" where
  "translate_messages items =
     (let s = flush_pending_user (flush_pending_assistant (foldl translate_item translate_start items))
      in (if ts_system_text s = [] then None else Some (ts_system_text s), ts_messages s))"

section \<open>Tools and structured output\<close>

definition translate_tools :: "tool_def list \<Rightarrow> json list" where
  "translate_tools defs = map (\<lambda>t. JObject [(''description'', JString (td_description t)), (''input_schema'', td_schema t), (''name'', JString (td_name t))]) defs"

definition validate_tool_names :: "tool_def list \<Rightarrow> string + unit" where
  "validate_tool_names defs =
     (if list_ex (\<lambda>d. td_name d = SYNTHESIZED_TOOL_NAME) defs
      then Err (''tool name '' @ [CHR 0x27] @ SYNTHESIZED_TOOL_NAME @ [CHR 0x27] @ '' is reserved by the Anthropic provider for structured-output synthesis'')
      else Ok ())"

definition wants_json :: "response_format option \<Rightarrow> bool" where
  "wants_json rf = (case rf of Some (JsonSchemaFormat _ _ _) \<Rightarrow> True | Some JsonObjectFormat \<Rightarrow> True | _ \<Rightarrow> False)"

definition validate_conflict :: "response_format option \<Rightarrow> tool_choice option \<Rightarrow> string + unit" where
  "validate_conflict rf tc =
     (if wants_json rf \<and> (case tc of Some (ToolNamed _) \<Rightarrow> True | _ \<Rightarrow> False)
      then Err ''ResponseFormat::JsonSchema/JsonObject and ToolChoice::Tool are mutually exclusive on Anthropic'' else Ok ())"

record synthesized =
  sy_tool :: "json option"
  sy_tool_choice :: "json option"
  sy_synthesizing :: bool

definition forced_choice :: json where
  "forced_choice = JObject [(''name'', JString SYNTHESIZED_TOOL_NAME), (''type'', JString ''tool'')]"

definition synthesize_for_response_format :: "response_format option \<Rightarrow> synthesized" where
  "synthesize_for_response_format rf =
     (case rf of
        Some (JsonSchemaFormat nm schema _) \<Rightarrow>
          \<lparr>sy_tool = Some (JObject [(''description'', JString (''Return data matching the '' @ nm @ '' schema.'')), (''input_schema'', schema),
             (''name'', JString SYNTHESIZED_TOOL_NAME)]), sy_tool_choice = Some forced_choice, sy_synthesizing = True\<rparr>
      | Some JsonObjectFormat \<Rightarrow>
          \<lparr>sy_tool = Some (JObject [(''description'', JString ''Return a JSON object.''), (''input_schema'', JObject [(''type'', JString ''object'')]),
             (''name'', JString SYNTHESIZED_TOOL_NAME)]), sy_tool_choice = Some forced_choice, sy_synthesizing = True\<rparr>
      | _ \<Rightarrow> \<lparr>sy_tool = None, sy_tool_choice = None, sy_synthesizing = False\<rparr>)"

definition translate_tool_choice :: "tool_choice \<Rightarrow> json" where
  "translate_tool_choice tc =
     (case tc of
        Auto \<Rightarrow> JObject [(''type'', JString ''auto'')]
      | Required \<Rightarrow> JObject [(''type'', JString ''any'')]
      | NoTool \<Rightarrow> JObject [(''type'', JString ''none'')]
      | ToolNamed nm \<Rightarrow> JObject [(''name'', JString nm), (''type'', JString ''tool'')])"

section \<open>Cache markers\<close>

datatype cache_strategy = CacheNone | CacheSystem | CacheTools | CacheSystemAndTools | CacheLastTurn

datatype extended_thinking = ThinkingDisabled | ThinkingEnabled u32 | ThinkingAdaptive

fun mark_block :: "json \<Rightarrow> json" where
  "mark_block (JObject m) = JObject (bt_insert ''cache_control'' (JObject [(''type'', JString ''ephemeral'')]) m)"
| "mark_block v = v"

definition mark_last :: "json list \<Rightarrow> json list" where
  "mark_last blocks = (if blocks = [] then [] else butlast blocks @ [mark_block (last blocks)])"

definition mark_last_message :: "anthropic_message list \<Rightarrow> anthropic_message list" where
  "mark_last_message msgs =
     (if msgs = [] then [] else butlast msgs @ [(last msgs)\<lparr>am_content := mark_last (am_content (last msgs))\<rparr>])"

text \<open>\<open>apply_cache_strategy\<close> on the system text of \<open>translate_messages\<close>, the tools and the messages, in that order.\<close>

definition apply_cache_strategy :: "cache_strategy \<Rightarrow> string option \<Rightarrow> json list \<Rightarrow> anthropic_message list
    \<Rightarrow> json option \<times> json list \<times> anthropic_message list" where
  "apply_cache_strategy strategy system tools messages =
     (if strategy = CacheSystem \<or> strategy = CacheSystemAndTools then map_option (\<lambda>t. JArray (mark_last [text_block t])) system else map_option JString system,
      if strategy = CacheTools \<or> strategy = CacheSystemAndTools then mark_last tools else tools,
      if strategy = CacheLastTurn then mark_last_message messages else messages)"

section \<open>The body and the invocation\<close>

datatype auth_header = HeaderApiKey string | HeaderBearer string

record anthropic_config =
  ac_model_id :: string
  ac_base_url :: string
  ac_auth_header :: auth_header
  ac_anthropic_version :: string
  ac_anthropic_beta :: "string option"
  ac_cache_strategy :: cache_strategy
  ac_extended_thinking :: extended_thinking
  ac_top_k :: "u32 option"
  ac_max_output_default :: u32

record prepared_request =
  pr_body :: json
  pr_synthesizing_output :: bool

definition insert_some :: "string \<Rightarrow> json option \<Rightarrow> json btree \<Rightarrow> json btree" where
  "insert_some k v m = (case v of Some x \<Rightarrow> bt_insert k x m | None \<Rightarrow> m)"

definition thinking_value :: "extended_thinking \<Rightarrow> json option" where
  "thinking_value t =
     (case t of
        ThinkingDisabled \<Rightarrow> None
      | ThinkingEnabled budget \<Rightarrow> Some (JObject [(''budget_tokens'', JNumber (show_u32 budget)), (''type'', JString ''enabled'')])
      | ThinkingAdaptive \<Rightarrow> Some (JObject [(''type'', JString ''adaptive'')]))"

text \<open>The JSON number of a float is \<open>serde_json\<close>'s, a parameter.\<close>

definition build_body :: "(f32 \<Rightarrow> json) \<Rightarrow> anthropic_config \<Rightarrow> model_request \<Rightarrow> model_error + prepared_request" where
  "build_body F cfg req =
     (let ms = mr_model_settings req
      in case validate_tool_names (mr_tools req) of
        Inl m \<Rightarrow> Err (ModelOther m)
      | Inr _ \<Rightarrow>
     (case validate_conflict (ms_response_format ms) (ms_tool_choice ms) of
        Inl m \<Rightarrow> Err (ModelOther m)
      | Inr _ \<Rightarrow>
          (let (system, messages) = translate_messages (mr_messages req);
               syn = synthesize_for_response_format (ms_response_format ms);
               tools = translate_tools (mr_tools req) @ (case sy_tool syn of Some extra \<Rightarrow> [extra] | None \<Rightarrow> []);
               (system, tools, messages) = apply_cache_strategy (ac_cache_strategy cfg) system tools messages;
               body = bt_insert ''model'' (JString (ac_model_id cfg)) [];
               body = bt_insert ''stream'' (JBool True) body;
               body = bt_insert ''messages'' (JArray (map message_value messages)) body;
               body = bt_insert ''max_tokens'' (JNumber (show_u32 (unwrap_or (ac_max_output_default cfg) (ms_max_output_tokens ms)))) body;
               body = insert_some ''system'' system body;
               body = insert_some ''tools'' (if tools = [] then None else Some (JArray tools)) body;
               body = insert_some ''tool_choice'' (case sy_tool_choice syn of Some v \<Rightarrow> Some v | None \<Rightarrow> map_option translate_tool_choice (ms_tool_choice ms)) body;
               body = insert_some ''temperature'' (map_option F (ms_temperature ms)) body;
               body = insert_some ''top_p'' (map_option F (ms_top_p ms)) body;
               body = insert_some ''top_k'' (map_option (\<lambda>k. JNumber (show_u32 k)) (ac_top_k cfg)) body;
               body = insert_some ''thinking'' (thinking_value (ac_extended_thinking cfg)) body
           in Ok \<lparr>pr_body = JObject body, pr_synthesizing_output = sy_synthesizing syn\<rparr>)))"

text \<open>The value none is the panic of \<open>expect\<close> on a header value with invalid bytes.\<close>

definition insert_checked :: "header_ext \<Rightarrow> string \<Rightarrow> string \<Rightarrow> header_map option \<Rightarrow> header_map option" where
  "insert_checked H n v h = Option.bind h (\<lambda>h. if hx_invalid H v = None then Some (header_insert n v h) else None)"

definition anthropic_headers :: "header_ext \<Rightarrow> anthropic_config \<Rightarrow> header_map option" where
  "anthropic_headers H cfg =
     (let h = Some (header_insert ''content-type'' ''application/json'' []);
          h = (case ac_auth_header cfg of
                 HeaderApiKey k \<Rightarrow> insert_checked H ''x-api-key'' k h
               | HeaderBearer t \<Rightarrow> insert_checked H ''authorization'' (''Bearer '' @ t) h);
          h = insert_checked H ''anthropic-version'' (ac_anthropic_version cfg) h
      in case ac_anthropic_beta cfg of Some beta \<Rightarrow> insert_checked H ''anthropic-beta'' beta h | None \<Rightarrow> h)"

definition messages_url :: "anthropic_config \<Rightarrow> string" where
  "messages_url cfg = rev (dropWhile (\<lambda>c. c = CHR 0x2F) (rev (ac_base_url cfg))) @ ''/v1/messages''"

text \<open>The service is a function from the URL, the headers and the body to what the client observes.\<close>

definition anthropic_invoke :: "anthropic_ext \<Rightarrow> (f32 \<Rightarrow> json) \<Rightarrow> header_ext \<Rightarrow> anthropic_config
    \<Rightarrow> (string \<Rightarrow> header_map \<Rightarrow> json \<Rightarrow> anthropic_send) \<Rightarrow> model_request \<Rightarrow> (model_error + (model_error + model_event) list) option" where
  "anthropic_invoke X F H cfg service req =
     (case build_body F cfg req of
        Inl e \<Rightarrow> Some (Err e)
      | Inr prepared \<Rightarrow>
          map_option (\<lambda>headers. Ok (anthropic_stream X (pr_synthesizing_output prepared) (service (messages_url cfg) headers (pr_body prepared))))
            (anthropic_headers H cfg))"

section \<open>Nothing is lost\<close>

fun assistant_side :: "item \<Rightarrow> json list" where
  "assistant_side (AssistantMessage content _) = assistant_blocks content"
| "assistant_side (ToolCall call_id nm args) = [tool_use_block call_id nm args]"
| "assistant_side _ = []"

fun user_side :: "item \<Rightarrow> json list" where
  "user_side (UserMessage content) = user_blocks content"
| "user_side (ToolResult call_id content) = [tool_result_block call_id content]"
| "user_side _ = []"

definition side_blocks :: "string \<Rightarrow> anthropic_message list \<Rightarrow> json list" where
  "side_blocks role msgs = concat (map am_content (filter (\<lambda>m. am_role m = role) msgs))"

lemma side_blocks_snoc [simp]:
  "side_blocks role [] = []"
  "side_blocks role (msgs @ [m]) = side_blocks role msgs @ (if am_role m = role then am_content m else [])"
  by (simp_all add: side_blocks_def)

lemma side_blocks_push:
  assumes "msgs \<noteq> []" and "am_role (last msgs) = r"
  shows "side_blocks role (butlast msgs @ [(last msgs)\<lparr>am_content := am_content (last msgs) @ [block]\<rparr>]) =
    side_blocks role msgs @ (if r = role then [block] else [])"
  using assms by (cases msgs rule: rev_cases) auto

text \<open>Calls wait apart only while the last message is not the assistant's, so each side keeps its order.\<close>

definition translate_ok :: "item list \<Rightarrow> translate_state \<Rightarrow> bool" where
  "translate_ok items s \<longleftrightarrow> side_blocks ''assistant'' (ts_messages s) @ ts_tool_use s = concat (map assistant_side items)
     \<and> side_blocks ''user'' (ts_messages s) @ ts_tool_results s = concat (map user_side items)
     \<and> (ts_tool_use s = [] \<or> ts_messages s = [] \<or> am_role (last (ts_messages s)) \<noteq> ''assistant'')
     \<and> ts_system_text s = joined_text (map Text (map joined_text (List.map_filter (\<lambda>i. case i of System content \<Rightarrow> Some content | _ \<Rightarrow> None) items)))"

lemma joined_text_snoc: "joined_text (ps @ [Text t]) = (if joined_text ps \<noteq> [] then joined_text ps @ [CHR 0x0A] else joined_text ps) @ t"
  by (simp add: joined_text_def)

lemma map_filter_snoc: "List.map_filter f (xs @ [x]) = List.map_filter f xs @ (case f x of Some y \<Rightarrow> [y] | None \<Rightarrow> [])"
  by (simp add: map_filter_def split: option.splits)

lemma flush_assistant_ok:
  "translate_ok items s \<Longrightarrow> translate_ok items (flush_pending_assistant s) \<and> ts_tool_use (flush_pending_assistant s) = []"
  by (auto simp: translate_ok_def flush_pending_assistant_def)

lemma flush_user_ok:
  "translate_ok items s \<Longrightarrow> translate_ok items (flush_pending_user s) \<and> ts_tool_results (flush_pending_user s) = []"
  by (auto simp: translate_ok_def flush_pending_user_def)

lemma flush_keeps: "ts_tool_use (flush_pending_user s) = ts_tool_use s" "ts_tool_results (flush_pending_assistant s) = ts_tool_results s"
  by (simp_all add: flush_pending_user_def flush_pending_assistant_def)

lemma translate_item_ok:
  assumes "translate_ok items s"
  shows "translate_ok (items @ [i]) (translate_item s i)"
proof (cases i)
  case (UserMessage content)
  then show ?thesis using flush_assistant_ok [OF assms]
    by (auto simp: translate_ok_def Let_def map_filter_snoc flush_keeps)
next
  case (AssistantMessage content agent)
  then show ?thesis using flush_user_ok [OF assms] flush_assistant_ok [OF flush_user_ok [OF assms, THEN conjunct1]]
    by (auto simp: translate_ok_def Let_def map_filter_snoc flush_keeps)
next
  case (System content)
  then show ?thesis using flush_assistant_ok [OF assms] flush_user_ok [OF flush_assistant_ok [OF assms, THEN conjunct1]]
    by (auto simp: translate_ok_def Let_def map_filter_snoc joined_text_snoc flush_keeps)
next
  case (ToolCall c nm args)
  then show ?thesis using assms
    by (auto simp: translate_ok_def push_tool_use_def side_blocks_push map_filter_snoc simp del: side_blocks_snoc)
next
  case (ToolResult c content)
  then show ?thesis using assms by (simp add: translate_ok_def map_filter_snoc)
qed

lemma translate_all_ok: "translate_ok items (foldl translate_item translate_start items)"
  by (induction items rule: rev_induct) (simp_all add: translate_item_ok, simp add: translate_ok_def translate_start_def joined_text_def map_filter_def)

text \<open>
  Nothing is lost in translation: for every conversation the blocks of the assistant messages are those of the
  assistant items and tool calls, in order, the blocks of the user messages are those of the user items and tool results, in
  order, and the system text joins the system items.
\<close>

theorem anthropic_request_conserves:
  "\<exists>system msgs. translate_messages items = (system, msgs)
    \<and> side_blocks ''assistant'' msgs = concat (map assistant_side items) \<and> side_blocks ''user'' msgs = concat (map user_side items)
    \<and> unwrap_or [] system = joined_text (map Text (map joined_text (List.map_filter (\<lambda>i. case i of System content \<Rightarrow> Some content | _ \<Rightarrow> None) items)))"
proof -
  note a = flush_assistant_ok [OF translate_all_ok [of items]]
  note u = flush_user_ok [OF a [THEN conjunct1]]
  show ?thesis using a u by (auto simp: translate_messages_def Let_def translate_ok_def flush_keeps)
qed

section \<open>The order of a conversation\<close>

text \<open>Every tool call follows an assistant message, perhaps after other calls of the same turn.\<close>

fun calls_follow :: "bool \<Rightarrow> item list \<Rightarrow> bool" where
  "calls_follow open_turn [] = True"
| "calls_follow open_turn (ToolCall _ _ _ # items) = (open_turn \<and> calls_follow True items)"
| "calls_follow open_turn (AssistantMessage _ _ # items) = calls_follow True items"
| "calls_follow open_turn (_ # items) = calls_follow False items"

definition all_blocks :: "anthropic_message list \<Rightarrow> json list" where
  "all_blocks msgs = concat (map am_content msgs)"

definition item_blocks :: "item \<Rightarrow> json list" where
  "item_blocks i = assistant_side i @ user_side i"

definition order_ok :: "bool \<Rightarrow> item list \<Rightarrow> translate_state \<Rightarrow> bool" where
  "order_ok open_turn items s \<longleftrightarrow> ts_tool_use s = [] \<and> all_blocks (ts_messages s) @ ts_tool_results s = concat (map item_blocks items)
     \<and> (open_turn \<longrightarrow> ts_tool_results s = [] \<and> ts_messages s \<noteq> [] \<and> am_role (last (ts_messages s)) = ''assistant'')"

lemma all_blocks_push:
  "msgs \<noteq> [] \<Longrightarrow> all_blocks (butlast msgs @ [(last msgs)\<lparr>am_content := am_content (last msgs) @ [block]\<rparr>]) = all_blocks msgs @ [block]"
  by (cases msgs rule: rev_cases) (simp_all add: all_blocks_def)

lemma order_step:
  assumes "order_ok open_turn done_items s" and "calls_follow open_turn (i # items)"
  shows "\<exists>open'. order_ok open' (done_items @ [i]) (translate_item s i) \<and> calls_follow open' items"
proof (cases i)
  case (ToolCall c nm args)
  with assms show ?thesis
    by (intro exI [of _ True]) (auto simp: order_ok_def push_tool_use_def all_blocks_push item_blocks_def)
next
  case (AssistantMessage content agent)
  with assms show ?thesis
    by (intro exI [of _ True]) (auto simp: order_ok_def Let_def flush_pending_user_def flush_pending_assistant_def all_blocks_def item_blocks_def)
next
  case (UserMessage content)
  with assms show ?thesis
    by (intro exI [of _ False]) (auto simp: order_ok_def Let_def flush_pending_user_def flush_pending_assistant_def all_blocks_def item_blocks_def)
next
  case (System content)
  with assms show ?thesis
    by (intro exI [of _ False]) (auto simp: order_ok_def Let_def flush_pending_user_def flush_pending_assistant_def all_blocks_def item_blocks_def)
next
  case (ToolResult c content)
  with assms show ?thesis
    by (intro exI [of _ False]) (auto simp: order_ok_def item_blocks_def)
qed

lemma order_all:
  assumes "order_ok open_turn done_items s" and "calls_follow open_turn items"
  shows "\<exists>open'. order_ok open' (done_items @ items) (foldl translate_item s items)"
  using assms
proof (induction items arbitrary: open_turn done_items s)
  case (Cons i items)
  from order_step [OF Cons.prems] obtain o' where "order_ok o' (done_items @ [i]) (translate_item s i)" "calls_follow o' items" by blast
  from Cons.IH [OF this] show ?case by simp
qed auto

text \<open>
  C35. A conversation whose tool calls follow an assistant message is sent in its own order: read one after the other, the
  blocks of the messages are the blocks of the items, so each tool result stands after the call it answers.
\<close>

theorem anthropic_request_order:
  assumes "calls_follow False items"
  shows "all_blocks (snd (translate_messages items)) = concat (map item_blocks items)"
proof -
  have "order_ok False [] translate_start" by (simp add: order_ok_def translate_start_def all_blocks_def)
  from order_all [OF this assms] show ?thesis
    by (auto simp: translate_messages_def Let_def order_ok_def flush_pending_assistant_def flush_pending_user_def all_blocks_def)
qed

text \<open>A turn without text has no assistant message; when its call is answered and the assistant then speaks, the result is sent before the call.\<close>

lemma result_before_call:
  "snd (translate_messages [UserMessage [Text q], ToolCall c nm args, ToolResult c r, AssistantMessage [Text a] agent]) =
     [\<lparr>am_role = ''user'', am_content = [text_block q]\<rparr>, \<lparr>am_role = ''user'', am_content = [tool_result_block c r]\<rparr>,
      \<lparr>am_role = ''assistant'', am_content = [tool_use_block c nm args]\<rparr>, \<lparr>am_role = ''assistant'', am_content = [text_block a]\<rparr>]"
  by (simp add: translate_messages_def translate_start_def flush_pending_assistant_def flush_pending_user_def push_tool_use_def user_blocks_def
      assistant_blocks_def map_filter_def)

theorem anthropic_request_order_witness:
  "all_blocks (snd (translate_messages [UserMessage [Text ''q''], AssistantMessage [Text ''a''] None, ToolCall ''c'' ''search'' JNull, ToolResult ''c'' [Text ''r'']])) =
     [text_block ''q'', text_block ''a'', tool_use_block ''c'' ''search'' JNull, tool_result_block ''c'' [Text ''r'']]"
  using anthropic_request_order [of "[UserMessage [Text ''q''], AssistantMessage [Text ''a''] None, ToolCall ''c'' ''search'' JNull, ToolResult ''c'' [Text ''r'']]"]
  by (simp add: item_blocks_def user_blocks_def assistant_blocks_def map_filter_def)

section \<open>The invocation\<close>

definition reserved_name_used :: "model_request \<Rightarrow> bool" where
  "reserved_name_used req = list_ex (\<lambda>d. td_name d = SYNTHESIZED_TOOL_NAME) (mr_tools req)"

definition forced_conflict :: "model_request \<Rightarrow> bool" where
  "forced_conflict req = (wants_json (ms_response_format (mr_model_settings req))
     \<and> (case ms_tool_choice (mr_model_settings req) of Some (ToolNamed _) \<Rightarrow> True | _ \<Rightarrow> False))"

lemma sy_synthesizing_iff: "sy_synthesizing (synthesize_for_response_format rf) = wants_json rf"
  by (simp add: synthesize_for_response_format_def wants_json_def split: option.splits response_format.splits)

lemma build_body_accepts:
  "(case build_body F cfg req of
      Inl _ \<Rightarrow> reserved_name_used req \<or> forced_conflict req
    | Inr p \<Rightarrow> \<not> reserved_name_used req \<and> \<not> forced_conflict req
        \<and> pr_synthesizing_output p = wants_json (ms_response_format (mr_model_settings req)))"
  by (simp add: build_body_def validate_tool_names_def validate_conflict_def reserved_name_used_def forced_conflict_def Let_def
      sy_synthesizing_iff case_prod_beta split: option.splits tool_choice.splits)

text \<open>The body of an accepted structured-output request carries the forced choice.\<close>

lemma bt_get_insert_some: "bt_get (insert_some k v m) = (case v of Some x \<Rightarrow> (bt_get m)(k \<mapsto> x) | None \<Rightarrow> bt_get m)"
  by (simp add: insert_some_def bt_get_insert split: option.splits)

lemma structured_body:
  assumes "build_body F cfg req = Ok p" and "pr_synthesizing_output p"
  shows "\<exists>m. pr_body p = JObject m \<and> bt_get m ''tool_choice'' = Some forced_choice"
proof -
  from build_body_accepts [where F = F and cfg = cfg and req = req] assms have "wants_json (ms_response_format (mr_model_settings req))" by simp
  then have "sy_tool_choice (synthesize_for_response_format (ms_response_format (mr_model_settings req))) = Some forced_choice"
    by (auto simp: wants_json_def synthesize_for_response_format_def split: option.splits response_format.splits)
  with assms(1) show ?thesis
    by (auto simp: build_body_def Let_def case_prod_beta bt_get_insert_some bt_get_insert split: sum.splits option.splits)
qed


definition demo_config :: anthropic_config where
  "demo_config = \<lparr>ac_model_id = ''m'', ac_base_url = ''https://h/'', ac_auth_header = HeaderApiKey ''k'', ac_anthropic_version = ''2023-06-01'',
     ac_anthropic_beta = None, ac_cache_strategy = CacheNone, ac_extended_thinking = ThinkingDisabled, ac_top_k = None, ac_max_output_default = 4096\<rparr>"

definition demo_request :: model_request where
  "demo_request = \<lparr>mr_messages = [UserMessage [Text ''q'']], mr_tools = [], mr_model_settings = model_settings_default\<rparr>"

definition demo_headers :: header_ext where
  "demo_headers = \<lparr>hx_name = Some, hx_invalid = (\<lambda>_. None)\<rparr>"


end
