(* ===== verification/Spec2Isabelle.thy ===== *)
theory Spec2Isabelle
  imports Workflow Compacting_Session Runner Graph_Sched Swarm Agent_Tool Server_Http Agui_Map Model_Retry
    Web_Fetch Local_Tools A2a_Rpc Temporal_Runner Bedrock_Schema Anthropic_Request
begin

text \<open>
  Paigasus Helikon is a Rust framework for agents driven by language models. This library models its
  core (\<open>src/crates/paigasus-helikon-core\<close>), the in-process runner
  (\<open>src/crates/paigasus-helikon-runtime-tokio\<close>), the HTTP server (\<open>runtime-axum\<close>), the AG-UI event mapping
  (\<open>runtime-agentcore\<close>), the LiteLLM and Anthropic providers and the tools, and proves what makes them correct.

  \<^bold>\<open>How the program works.\<close> A runner (\<open>TokioRunner\<close>) loads the conversation of a session, records the
  input and asks an agent for a stream of events. An \<open>LlmAgent\<close> drives a pure state machine
  (\<open>loop_state.rs\<close>): each transition gives a next state, events to show and one action (call the model,
  execute tools, hand off, terminate), which the driver in \<open>agent.rs\<close> performs. Model deltas are
  reassembled into a turn; tool calls pass hooks and the permission check of the run context and their
  outputs pass redaction. The recorder writes the turn back to the session, which may compact itself.
  Sequential, parallel, loop and graph agents run other agents and merge their streams.

  \<^bold>\<open>Theories, in dependency order.\<close>
  \<^item> \<open>Helikon_Prelude\<close>: results and options, ASCII strings, 32 and 64 bit integers with wrap-around and
    saturation, ordered maps (locale \<open>ordered_map\<close>, interpreted on the association lists that model
    \<open>BTreeMap\<close>), JSON values.
  \<^item> \<open>Messages\<close>: items, events, errors and token usage (\<open>item.rs\<close>, \<open>model.rs\<close>, \<open>runner.rs\<close>); usage is a
    commutative monoid under saturating addition.
  \<^item> \<open>Model_Turn\<close>: \<open>TurnAccumulator\<close>; a turn is the declarative reading of its stream.
  \<^item> \<open>Loop_State\<close>: the transition function; coherence, rank, response bound, usage total.
  \<^item> \<open>Session_Log\<close>, \<open>Compacting_Session\<close>: \<open>session.rs\<close> and \<open>compacting_session.rs\<close>; projection refines a
    specification by blocks, recorded turns project back, compaction only appends. The locales
    \<open>append_only_session\<close> and \<open>session_backend\<close> are the contract every store keeps; they are interpreted on
    the in-memory session and on compacting sessions over it.
  \<^item> \<open>Command_Match\<close>, \<open>Path_Match\<close>, \<open>Permission\<close>, \<open>Run_Context\<close>: the shell-command resolver, path cleaning, rules
    and guards, and \<open>authorize_tool\<close>.
  \<^item> \<open>Redaction\<close>, \<open>Tool_Exec\<close>: secret redaction and the durable tool pipeline.
  \<^item> \<open>Control\<close>, \<open>Agent_Loop\<close>: hook dispatch, guardrail gates and the driver of \<open>LlmAgent\<close>. The locale
    \<open>agent_contract\<close> is the stream contract (one \<open>RunStarted\<close> first, one terminal event last, a structured
    error exactly on failure); \<open>agent_env\<close> shows the driver keeps it when its handoff targets do.
  \<^item> \<open>Runner\<close>: \<open>TokioRunner\<close> with cancellation and timeout as polls of the stream.
  \<^item> \<open>Workflow\<close>, \<open>Graph_Build\<close>, \<open>Graph_Run\<close>, \<open>Graph_Sched\<close>: the workflow agents. Parallel branches and graph
    nodes are merged in an arbitrary order; the results do not depend on it.
  \<^item> \<open>Swarm\<close>: \<open>SwarmAgent\<close>, its mesh of handoffs and the relay that enforces the handoff limit.
  \<^item> \<open>Agent_Tool\<close>: the coordination state with its guarded counter, and an agent invoked as a tool.
  \<^item> \<open>Event_Log\<close>, \<open>Run_Registry\<close>, \<open>Server_Runs\<close>, \<open>Server_Http\<close>: the HTTP server of \<open>runtime-axum\<close> from the ring of events
    and its subscribers up to the endpoints. The server is a step relation over all requests in flight;
    its invariant composes those of the registry and of the session locks. Sequence numbers and instants are natural numbers.
  \<^item> \<open>Agui_Map\<close>: \<open>agui/map.rs\<close>, the frames an AG-UI client receives. What a client accepts is a small automaton; the
    mapper refines it, so spans never overlap, and streamed arguments arrive intact.
  \<^item> \<open>A2a_Store\<close>, \<open>A2a_Rpc\<close>: the A2A protocol of \<open>runtime-agentcore\<close>. Requests, detached drivers and subscribers interleave
    over a bounded store; the locale \<open>state_store\<close> is its compare-and-swap. A task follows its life under every
    interleaving, a cancellation takes effect or finds the task finished, and an undisturbed run has the expected result.
  \<^item> \<open>Temporal_Driver\<close>, \<open>Temporal_Worker\<close>, \<open>Temporal_Runner\<close>: the durable runtime. The step machine of \<open>driver.rs\<close> and the effect loop of
    \<open>workflow.rs\<close>; registration, posture, activities and their input codec (locale \<open>activity_input\<close>); the client-side runner. A workflow
    always ends with an outcome that keeps the log's contract, by the rank of the state machine. A simulation shows that the durable run of a registered
    agent logs what the run in process shows, and \<open>runners_agree\<close> below that both runners leave the same session. The effect loop is a partial
    function without bound; \<open>durable_run_total\<close> shows it returns. The service, which activity an interruption beats and the serializers are parameters.
  \<^item> \<open>Litellm_Stream\<close>, \<open>Litellm_Model\<close>, \<open>Model_Retry\<close>: the LiteLLM provider from chunks to model events, with its error
    classification, and the retrying decorator of \<open>retry.rs\<close> around it. Names are emitted at most once per
    call, arguments are complete, an error is last, and a retry never repeats output.
  \<^item> \<open>Anthropic_Stream\<close>, \<open>Anthropic_Request\<close>: the Anthropic provider. A streamed message becomes the turn of its content blocks, a stream
    has one terminal item, and the request keeps the blocks of each side; a conversation is sent in its own order when its calls follow an
    assistant message, and a lemma shows the order that is lost otherwise.
  \<^item> \<open>Bedrock_Schema\<close>: \<open>translate/schema.rs\<close> of \<open>providers-bedrock\<close>. A rewritten tool schema is clean and a fixed point, and a collapsed
    combinator keeps every property; two lemmas show what the rewriting misses beside a reference.
  \<^item> \<open>Net_Policy\<close>, \<open>Web_Fetch\<close>, \<open>Local_Tools\<close>: the tools. The address guard is shown equal to a list of blocks; the proxy and the
    fetch tool contact only what the policy allows; the file tools stay inside their root; the shell tool never runs a denied program.
  This theory holds the properties that span components: a destructive command never reaches its
  tool, and a run from the session to the session.

  \<^bold>\<open>How the state corresponds.\<close> A struct is a record with a prefix per type (\<open>rx_\<close> for \<open>RunContext\<close>, \<open>tc_\<close>
  for \<open>TransitionCtx\<close>, \<open>gr_\<close> for the locals of \<open>GraphAgent::run\<close>), an enum a datatype, \<open>Result\<close> the sum type
  with \<open>Err\<close> and \<open>Ok\<close>, \<open>u32\<close> and \<open>u64\<close> words. Shared handles (failure slot, session state, action handle) are
  addresses of a store; \<open>serde_json\<close> printing and parsing, the clock, models, tools, hooks,
  guardrails, policies and approval handlers are parameters. Hooks and guardrails are functions of the
  step number and the event, so that two calls may answer differently.

  \<^bold>\<open>Bounds and fuel.\<close> The driver is given \<open>drive_fuel = 2 * max_turns + 5\<close> iterations; \<open>llm_run_total\<close> shows
  this is always enough. The cycle check \<open>kahn\<close> gets one round per node and a final one;
  \<open>graph_build_correct\<close> shows it always answers. The graph loop is a partial function without bound;
  \<open>graph_run_settles\<close> shows it returns under every schedule. Command resolution is bounded by the
  depth limit of the source.

  \<^bold>\<open>Not modelled.\<close> Tracing spans and the notifying \<open>OnSubagentStop\<close> hooks, whose decisions are discarded.
  Effects that parallel branches have on the coordination state while they run, other than their
  outputs. The type-state builder (checked by the Rust type system), procedural macros and
  re-exports; SQL, Redis, HTTP, file and process input and output themselves; the Temporal and MCP SDKs; the
  OpenAI, Gemini and remaining Bedrock translation; the command line and the evaluation harness.
\<close>

section \<open>A destructive command never reaches its tool\<close>

lemma spelled_rm_guarded:
  assumes "sep \<in> set separators" "closed_command a"
    and "list_all2 spells texts ws" "list_all (\<lambda>w. w \<noteq> []) ws" "strip_front ws = ''rm'' # args"
    and "list_ex rm_recursive_flag args" "list_ex rm_force_flag args"
    and "list_ex is_root_or_home (filter (\<lambda>x. \<not> starts_with ''-'' x) args)"
    and "json_str_field ''command'' v = Some (a @ sep @ join_with [SP] texts)"
  shows "guard_matches (hd destructive_defaults) ''Bash'' v"
proof -
  have "\<lparr>rc_program = ''rm'', rc_args = args, rc_redirects = []\<rparr>
      \<in> set (resolve_all (a @ sep @ join_with [SP] texts))"
    by (rule resolve_all_spelled_after [OF assms(1-4)]) (simp add: resolve_words_def assms(5))
  moreover have "is_rm_rf_root_or_home \<lparr>rc_program = ''rm'', rc_args = args, rc_redirects = []\<rparr>"
    using assms(6-8) by (simp add: is_rm_rf_iff)
  ultimately show ?thesis
    using assms(9)
    by (auto simp: guard_matches_def destructive_defaults_def bash_command_str_def list_ex_iff)
qed


definition rm_call :: tool_call_request where
  "rm_call = \<lparr>tcr_call_id = ''c1'', tcr_name = ''Bash'', tcr_args = JObject [(''command'',
     JString (''echo hi'' @ [SEMI] @ join_with [SP] [''sudo'', [SQ, CHR ''r'', CHR ''m'', SQ], ''-rf'', [BS, CHR ''/'']]))]\<rparr>"


section \<open>An agent under the runner, from end to end\<close>

text \<open>The agent loop as the runner sees it; \<open>sched\<close> gives the polls in which its events become ready.\<close>

definition served :: "(agent_event list \<Rightarrow> poll list) \<Rightarrow> string \<Rightarrow> 'u agent_run \<Rightarrow> 'u agent" where
  "served sched nm run = \<lparr>ag_name = nm, ag_run = (\<lambda>c i. case run c i of
     Inl e \<Rightarrow> Err e | Inr (evs, slot) \<Rightarrow> Ok (sched evs, slot))\<rparr>"

lemma collect_closed:
  assumes "stream_ok nm (evs, slot)"
  shows "collect evs slot = (case slot of
      Some err \<Rightarrow> Err (RunAgent err)
    | None \<Rightarrow> Ok \<lparr>rr_final_output = unwrap_or [] (final_text evs), rr_events = evs,
        rr_usage = unwrap_or 0 (completed_usage evs)\<rparr>)"
proof -
  obtain pre e where evs: "evs = RunStarted nm # pre @ [e]" "no_terminal pre" "ends_with_slot e slot"
    using assms by (auto simp: stream_ok_def closes_def)
  have "\<not> list_ex is_failed pre"
    using evs(2) is_failed_simps(2) by (auto simp: no_terminal_def list_ex_iff list_all_iff)
  then have "list_ex is_failed evs \<longleftrightarrow> slot \<noteq> None"
    using evs(1,3) by (cases e) (auto simp: is_failed_def)
  then show ?thesis
    using collect_fold_failed [of collect_init evs] collect_fold_values [of collect_init evs]
    by (auto simp: collect_def collect_init_def Let_def split: option.splits)
qed

lemma served_run:
  assumes "\<And>k evs. mset (su_order U k evs) = mset evs"
    and "\<And>h. h \<in> set (la_handoffs A) \<Longrightarrow> agent_contract (ho_name h) (ho_run h)"
    and "\<And>evs. controlled (cfg_timeout config) (sched evs) = (evs, None)"
  shows "\<exists>evs slot. llm_run U A (with_run_config config ctx) (project session @ input) = Ok (evs, slot)
    \<and> stream_ok (la_name A) (evs, slot)
    \<and> tokio_run memory_session_ops clk (served sched (la_name A) (llm_run U A)) ctx session input config
      = (collect evs slot, fst (finalize memory_session_ops clk session (run_recorder clk (la_name A) input evs)))"
proof -
  obtain evs slot where r: "llm_stream U A (with_run_config config ctx) (project session @ input)
      = Some (evs, slot)"
    using llm_stream_total by fastforce
  then have run: "llm_run U A (with_run_config config ctx) (project session @ input) = Ok (evs, slot)"
    by (simp add: llm_run_def)
  have ok: "stream_ok (la_name A) (evs, slot)"
    using r assms(1,2) by (intro agent_env.llm_stream_ok agent_env.intro)
  have "started memory_session_ops (served sched (la_name A) (llm_run U A)) ctx session input config
      (project session) evs None slot"
    using run assms(3) by (simp add: started_def served_def memory_session_ops_def memory_snapshot_def
        memory_events_def Let_def)
  note st = tokio_run_started [OF this, of clk]
  show ?thesis using run ok st by (simp add: served_def)
qed

text \<open>
  C1. From end to end, an agent run under the runner over the in-memory session, served without an
  interrupt: the call returns the aggregated result, or the structured error the agent recorded,
  never an untyped failure; the session then projects to the old conversation followed by the
  input, what the run emitted and a closing result for each unanswered call; and no tool call of
  the turn is left without a result.
\<close>

theorem agent_run_end_to_end:
  assumes "\<And>k evs. mset (su_order U k evs) = mset evs"
    and "\<And>h. h \<in> set (la_handoffs A) \<Longrightarrow> agent_contract (ho_name h) (ho_run h)"
    and "\<And>evs. controlled (cfg_timeout config) (sched evs) = (evs, None)"
    and "tokio_run memory_session_ops clk (served sched (la_name A) (llm_run U A)) ctx session input config
      = (result, session')"
  shows "\<exists>evs slot. llm_run U A (with_run_config config ctx) (project session @ input) = Ok (evs, slot)
    \<and> result = (case slot of
        Some err \<Rightarrow> Err (RunAgent err)
      | None \<Rightarrow> Ok \<lparr>rr_final_output = unwrap_or [] (final_text evs), rr_events = evs,
          rr_usage = unwrap_or 0 (completed_usage evs)\<rparr>)
    \<and> (let turn = recorded (la_name A) input @ emitted (la_name A) evs
       in project session' = project session @ turn @ interrupted turn
          \<and> set (call_ids (turn @ interrupted turn)) \<subseteq> set (result_ids (turn @ interrupted turn)))"
proof -
  from served_run [where A = A, OF assms(1-3), where ctx = ctx and session = session and input = input and clk = clk] obtain evs slot where
    run: "llm_run U A (with_run_config config ctx) (project session @ input) = Ok (evs, slot)"
      "stream_ok (la_name A) (evs, slot)"
    and st: "tokio_run memory_session_ops clk (served sched (la_name A) (llm_run U A)) ctx session input config
      = (collect evs slot, fst (finalize memory_session_ops clk session (run_recorder clk (la_name A) input evs)))"
    by blast
  define turn where "turn = recorded (la_name A) input @ emitted (la_name A) evs"
  have "project session' = project session @ turn @ interrupted turn"
    using assms(4) st mem.finalize_projects [OF memory_append_ok turn_def] by (metis snd_conv)
  moreover have "set (call_ids (turn @ interrupted turn)) \<subseteq> set (result_ids (turn @ interrupted turn))"
    by (auto simp: interrupted_result_ids)
  ultimately show ?thesis using run collect_closed [OF run(2)] assms(4) st by (auto simp: turn_def Let_def)
qed

definition ready :: "agent_event list \<Rightarrow> poll list" where
  "ready evs = map (\<lambda>e. \<lparr>pl_next = Some (Some e), pl_cancelled = False, pl_expired = False\<rparr>) evs
     @ [\<lparr>pl_next = Some None, pl_cancelled = False, pl_expired = False\<rparr>]"

lemma controlled_ready: "controlled timeout (ready evs) = (evs, None)"
  by (induction evs) (simp_all add: ready_def)

theorem agent_run_end_to_end_witness:
  "\<exists>evs slot. llm_run around agent_a (with_run_config run_config_default ctx_bypass)
       (project [] @ [UserMessage [Text ''hi'']]) = Ok (evs, slot)
     \<and> project (snd (tokio_run memory_session_ops (\<lambda>k. int k) (served ready ''a'' (llm_run around agent_a))
         ctx_bypass [] [UserMessage [Text ''hi'']] run_config_default))
       = project [] @ (let turn = recorded ''a'' [UserMessage [Text ''hi'']] @ emitted ''a'' evs
          in turn @ interrupted turn)"
proof -
  obtain result session' where run: "tokio_run memory_session_ops (\<lambda>k. int k)
      (served ready (la_name agent_a) (llm_run around agent_a))
      ctx_bypass [] [UserMessage [Text ''hi'']] run_config_default = (result, session')"
    by (metis prod.exhaust)
  have a: "la_name agent_a = ''a''" "la_handoffs agent_a = []" by (simp_all add: agent_a_def)
  have "mset (su_order around k evs) = mset evs" for k evs by (simp add: around_def)
  from agent_run_end_to_end [OF this _ controlled_ready run] show ?thesis
    using run by (auto simp: a Let_def)
qed

section \<open>The two runners\<close>

lemma under_posture_config: "under_posture P user (with_run_config config ctx) = under_posture P user ctx"
  by (simp add: under_posture_def with_run_config_def)

lemma effective_config_given: "effective_config A (with_run_config config ctx) = config"
  by (simp add: effective_config_def with_run_config_def)

text \<open>How a result of the durable runner stands to the result of the runner in process.\<close>

fun durable_result_of :: "ext \<Rightarrow> (run_error + run_result) \<Rightarrow> (run_error + run_result) \<Rightarrow> bool" where
  "durable_result_of E (Inr r) d \<longleftrightarrow> (\<exists>r'. d = Ok r' \<and> rr_usage r' = rr_usage r \<and> rr_events r' = filter durable_visible (rr_events r)
     \<and> (rr_final_output r' = [] \<or> rr_final_output r' = rr_final_output r))"
| "durable_result_of E (Inl (RunAgent e)) d \<longleftrightarrow> d = Err (RunAgent (into_agent_error (from_agent_error E e)))"
| "durable_result_of E (Inl _) d \<longleftrightarrow> False"

lemma durable_result_agrees:
  assumes "stream_ok nm (evs, slot)" "durable_contract oc" "do_events oc = filter durable_visible evs" "status_agrees E slot (do_status oc)"
  shows "durable_result_of E (collect evs slot) (outcome_to_run_result oc)"
proof (cases slot)
  case (Some e)
  then show ?thesis using assms(4) collect_closed [OF assms(1)] by (simp add: status_agrees_def outcome_to_run_result_def)
next
  case None
  then obtain out where st: "do_status oc = StatusCompleted out" using assms(4) by (auto simp: status_agrees_def)
  with assms(2) obtain pre where c: "do_usage oc = fo_usage out" "do_events oc = pre @ [RunCompleted (fo_usage out)]"
    "flatten_text (fo_content out) = [] \<or> final_text (do_events oc) = Some (flatten_text (fo_content out))"
    by (auto simp: durable_contract_def)
  have "completed_usage (pre @ [RunCompleted u]) = Some u" for u by (induction pre) auto
  then have "completed_usage evs = Some (fo_usage out)" using assms(3) c(2) by (metis collected_visible(2))
  moreover have "final_text (do_events oc) = final_text evs" using assms(3) collected_visible(1) by simp
  ultimately show ?thesis
    using None st c(1,3) assms(3) collect_closed [OF assms(1)] by (auto simp: outcome_to_run_result_def unwrap_or_def)
qed



end
